(* ===== verification/Prelude.thy ===== *)
theory Prelude
  imports Main "HOL-Library.Word"
begin

text \<open>
  The shared vocabulary of the development: machine integers, the ways a C function of the
  kernel can fail to return, the result type of every fallible operation with its sequencing
  operator, the two loop combinators, and the generic facts about words and lists that the
  component theories use.
\<close>

unbundle bit_operations_syntax

section \<open>Types\<close>

text \<open>The integer types of \<^verbatim>\<open>src/kernel/types.h\<close>.\<close>

type_synonym u8 = "8 word"
type_synonym u16 = "16 word"
type_synonym u32 = "32 word"
type_synonym u64 = "64 word"
type_synonym addr = "32 word"

text \<open>
  Why control does not come back to the caller: the kernel panicked (with the panic message and
  everything written to the console until then), a loop never ends, the hart took an exception
  in supervisor mode, or the C program has no defined behaviour at this point.
\<close>

datatype stop =
    Panic string "u8 list"
  | Hang
  | KernelFault addr
  | Undefined string

type_synonym 'a kres = "stop + 'a"

text \<open>Facts that a collection of proofs shares: inversion of results, and state frames.\<close>

named_theorems kres_simps
named_theorems frame_simps
named_theorems word_masks

section \<open>Sequencing of fallible operations\<close>

definition kbind :: "'a kres \<Rightarrow> ('a \<Rightarrow> 'b kres) \<Rightarrow> 'b kres" where
  "kbind m f = (case m of Inl e \<Rightarrow> Inl e | Inr x \<Rightarrow> f x)"

lemma kbind_Inl [simp]: "kbind (Inl e) f = Inl e"
  by (simp add: kbind_def)

lemma kbind_Inr [simp]: "kbind (Inr x) f = f x"
  by (simp add: kbind_def)

lemma kbind_eq_Inr [kres_simps]: "kbind m f = Inr y \<longleftrightarrow> (\<exists>x. m = Inr x \<and> f x = Inr y)"
  by (cases m) auto

lemma kbind_eq_Inl [kres_simps]:
  "kbind m f = Inl e \<longleftrightarrow> m = Inl e \<or> (\<exists>x. m = Inr x \<and> f x = Inl e)"
  by (cases m) auto

lemma kbind_assoc: "kbind (kbind m f) g = kbind m (\<lambda>x. kbind (f x) g)"
  by (cases m) auto

lemma kbind_cong [fundef_cong]:
  "m = m' \<Longrightarrow> (\<And>x. m' = Inr x \<Longrightarrow> f x = g x) \<Longrightarrow> kbind m f = kbind m' g"
  by (cases m') auto

lemma if_eq_Inr [kres_simps]:
  "(if b then Inl e else m) = Inr y \<longleftrightarrow> \<not> b \<and> m = Inr y"
  "(if b then m else Inl e) = Inr y \<longleftrightarrow> b \<and> m = Inr y"
  by auto

section \<open>Loops\<close>

text \<open>
  A counted loop runs its body for each element of a list of indices, in order, and stops at the
  first failure. A loop on a condition is \<open>kwhile\<close>: it has the value \<open>Inl Hang\<close> exactly when
  the condition stays true for ever.
\<close>

primrec kfold :: "('i \<Rightarrow> 's \<Rightarrow> 's kres) \<Rightarrow> 'i list \<Rightarrow> 's \<Rightarrow> 's kres" where
  "kfold f [] s = Inr s"
| "kfold f (i # is) s = kbind (f i s) (kfold f is)"

partial_function (option) kloop ::
  "('s \<Rightarrow> bool) \<Rightarrow> ('s \<Rightarrow> 's kres) \<Rightarrow> 's \<Rightarrow> 's kres option" where
  "kloop b c s =
     (if b s then (case c s of Inl e \<Rightarrow> Some (Inl e) | Inr s' \<Rightarrow> kloop b c s')
      else Some (Inr s))"

definition kwhile :: "('s \<Rightarrow> bool) \<Rightarrow> ('s \<Rightarrow> 's kres) \<Rightarrow> 's \<Rightarrow> 's kres" where
  "kwhile b c s = (case kloop b c s of None \<Rightarrow> Inl Hang | Some r \<Rightarrow> r)"

lemma kwhile_unfold: "kwhile b c s = (if b s then kbind (c s) (kwhile b c) else Inr s)"
  unfolding kwhile_def by (subst kloop.simps) (auto simp: kwhile_def split: sum.split)

lemma kwhile_done [simp]: "\<not> b s \<Longrightarrow> kwhile b c s = Inr s"
  by (subst kwhile_unfold) simp

lemma kwhile_step: "b s \<Longrightarrow> kwhile b c s = kbind (c s) (kwhile b c)"
  by (subst kwhile_unfold) simp

lemma kfold_append: "kfold f (is @ js) s = kbind (kfold f is s) (kfold f js)"
  by (induction "is" arbitrary: s) (auto simp: kbind_assoc intro!: kbind_cong)

lemma kfold_cong:
  "(\<And>i t. i \<in> set is \<Longrightarrow> f i t = g i t) \<Longrightarrow> kfold f is s = kfold g is s"
  by (induction "is" arbitrary: s) (auto intro!: kbind_cong)

lemma kfold_length: "length xs = length ys \<Longrightarrow> kfold (\<lambda>_. g) xs s = kfold (\<lambda>_. g) ys s"
  by (induction xs ys arbitrary: s rule: list_induct2) (auto intro!: kbind_cong)

text \<open>Invariants of a counted loop: the index list splits into what is done and what is left.\<close>

lemma kfold_invariant:
  assumes "P 0 s"
    and "\<And>k t. k < length is \<Longrightarrow> P k t \<Longrightarrow> \<exists>t'. f (is ! k) t = Inr t' \<and> P (Suc k) t'"
  shows "\<exists>t. kfold f is s = Inr t \<and> P (length is) t"
  using assms
proof (induction "is" arbitrary: s P)
  case Nil
  then show ?case by simp
next
  case (Cons i "is")
  from Cons.prems(2)[of 0 s] Cons.prems(1)
  obtain t where t: "f i s = Inr t" "P 1 t" by auto
  have "\<exists>u. kfold f is t = Inr u \<and> P (Suc (length is)) u"
  proof (rule Cons.IH[where P = "\<lambda>k. P (Suc k)"])
    show "P (Suc 0) t" using t(2) by simp
  next
    fix k t
    assume "k < length is" "P (Suc k) t"
    then show "\<exists>t'. f (is ! k) t = Inr t' \<and> P (Suc (Suc k)) t'"
      using Cons.prems(2)[of "Suc k" t] by simp
  qed
  then show ?case using t(1) by simp
qed

text \<open>Partial-correctness invariant of a counted loop.\<close>

lemma kfold_preserves:
  assumes "kfold f is s = Inr t" and "P s"
    and "\<And>i u v. i \<in> set is \<Longrightarrow> P u \<Longrightarrow> f i u = Inr v \<Longrightarrow> P v"
  shows "P t"
  using assms
proof (induction "is" arbitrary: s)
  case Nil
  then show ?case by simp
next
  case (Cons i "is")
  from Cons.prems(1) obtain u where u: "f i s = Inr u" "kfold f is u = Inr t"
    by (auto simp: kres_simps)
  have "P u" using Cons.prems(2,3) u(1) by auto
  then show ?case using Cons.IH[OF u(2)] Cons.prems(3) by auto
qed

text \<open>Total correctness of a loop on a condition: an invariant and a decreasing measure.\<close>

lemma kwhile_total:
  fixes m :: "'s \<Rightarrow> nat"
  assumes "P s"
    and step: "\<And>t. P t \<Longrightarrow> b t \<Longrightarrow> \<exists>t'. c t = Inr t' \<and> P t' \<and> m t' < m t"
  shows "\<exists>t. kwhile b c s = Inr t \<and> P t \<and> \<not> b t"
  using assms(1)
proof (induction "m s" arbitrary: s rule: less_induct)
  case less
  show ?case
  proof (cases "b s")
    case True
    with step[OF less.prems] obtain t where t: "c s = Inr t" "P t" "m t < m s" by auto
    from less.hyps[OF t(3) t(2)] show ?thesis
      using True t(1) by (simp add: kwhile_step)
  next
    case False
    with less.prems show ?thesis by simp
  qed
qed

text \<open>A loop whose condition is never falsified does not return.\<close>

lemma kloop_diverges:
  assumes "P s" and step: "\<And>t. P t \<Longrightarrow> b t \<and> (\<exists>t'. c t = Inr t' \<and> P t')"
  shows "kloop b c s = None"
proof (rule ccontr)
  assume "kloop b c s \<noteq> None"
  then obtain r where r: "kloop b c s = Some r" by auto
  have "P s \<longrightarrow> False"
  proof (rule kloop.raw_induct[where P = "\<lambda>b' c' s r. b' = b \<and> c' = c \<longrightarrow> P s \<longrightarrow> False",
        OF _ r, THEN mp], goal_cases)
    case (1 f b' c' s r)
    show ?case
    proof (intro impI)
      assume eq: "b' = b \<and> c' = c" and "P s"
      from step[OF \<open>P s\<close>] obtain t where "b s" "c s = Inr t" "P t" by blast
      with 1(2) eq have "f b c t = Some r" by simp
      with 1(1) \<open>P t\<close> show False by blast
    qed
  next
    case 2
    then show ?case by simp
  qed
  with assms(1) show False by simp
qed

lemma kwhile_diverges:
  assumes "P s" and "\<And>t. P t \<Longrightarrow> b t \<and> (\<exists>t'. c t = Inr t' \<and> P t')"
  shows "kwhile b c s = Inl Hang"
  using kloop_diverges[of P s b c, OF assms] by (simp add: kwhile_def)

text \<open>Partial correctness of a loop on a condition: what it keeps, and where a failure comes from.\<close>

lemma kwhile_stops:
  assumes "kwhile b c s = Inl e" "P s" "\<And>t u. P t \<Longrightarrow> b t \<Longrightarrow> c t = Inr u \<Longrightarrow> P u"
  shows "e = Hang \<or> (\<exists>t. P t \<and> b t \<and> c t = Inl e)"
proof -
  have "P s \<longrightarrow> r = Inl e \<longrightarrow> (\<exists>t. P t \<and> b t \<and> c t = Inl e)" if "kloop b c s = Some r" for r s
  proof (rule kloop.raw_induct[where P = "\<lambda>b' c' s r. b' = b \<and> c' = c \<longrightarrow> P s \<longrightarrow> r = Inl e \<longrightarrow> (\<exists>t. P t \<and> b t \<and> c t = Inl e)",
        OF _ that, THEN mp], goal_cases)
    case (1 f b' c' s r)
    show ?case
    proof (intro impI)
      assume eq: "b' = b \<and> c' = c" and p: "P s" and r: "r = Inl e"
      show "\<exists>t. P t \<and> b t \<and> c t = Inl e"
        using 1 eq p r assms(3)[OF p] by (cases "c s") (auto split: if_splits)
    qed
  qed simp
  then show ?thesis using assms(1,2) by (auto simp: kwhile_def split: option.splits)
qed

lemma kwhile_keeps:
  assumes "kwhile b c s = Inr t" "P s" "\<And>t u. P t \<Longrightarrow> b t \<Longrightarrow> c t = Inr u \<Longrightarrow> P u"
  shows "P t"
proof -
  have "P s \<longrightarrow> r = Inr t \<longrightarrow> P t" if "kloop b c s = Some r" for r s
  proof (rule kloop.raw_induct[where P = "\<lambda>b' c' s r. b' = b \<and> c' = c \<longrightarrow> P s \<longrightarrow> r = Inr t \<longrightarrow> P t",
        OF _ that, THEN mp], goal_cases)
    case (1 f b' c' s r)
    show ?case
    proof (intro impI)
      assume eq: "b' = b \<and> c' = c" and p: "P s" and r: "r = Inr t"
      show "P t" using 1 eq p r assms(3)[OF p] by (cases "c s") (auto split: if_splits)
    qed
  qed simp
  then show ?thesis using assms(1,2) by (auto simp: kwhile_def split: option.splits)
qed

section \<open>Words\<close>

lemma unat_of_nat32 [simp]: "n < 4294967296 \<Longrightarrow> unat (of_nat n :: u32) = n"
  by (simp add: unat_of_nat take_bit_nat_eq_self)

lemma of_nat32_inj: "a < 4294967296 \<Longrightarrow> b < 4294967296 \<Longrightarrow> (of_nat a :: u32) = of_nat b \<longleftrightarrow> a = b"
  by (metis unat_of_nat32)

lemma unat32_bound: "unat (w :: u32) < 4294967296"
  using unsigned_less[of w] by simp

lemma uint_diff_eq_0: "uint x - uint y = 0 \<longleftrightarrow> x = y"
  by (simp add: word_uint_eq_iff)

end
