(* ===== verification/Machine.thy ===== *)
theory Machine
  imports Prelude
begin

text \<open>
  The machine under the kernel: the 16550 UART as a log of register writes and an oracle of
  register reads, byte-addressed memory with little-endian 32-bit accesses, the control and
  status registers with the constants of \<^verbatim>\<open>src/kernel/csr.h\<close>, the two-level Sv32 address
  translation the hart performs, and the symbols the linker script defines. Every later record
  of the development extends \<open>machine\<close>.
\<close>

section \<open>State\<close>

text \<open>
  The device side of the UART is not code of the kernel: \<open>lsr_at n\<close> is the value of the \<open>n\<close>-th
  read of the line status register and \<open>rhr_at n\<close> of the \<open>n\<close>-th read of the receive register.
  Writes are kept in order as pairs of register offset and value.
\<close>

record uart_dev =
  lsr_at :: "nat \<Rightarrow> u8"
  lsr_pos :: nat
  rhr_at :: "nat \<Rightarrow> u8"
  rhr_pos :: nat
  uart_writes :: "(u8 \<times> u8) list"

datatype csr_reg =
  Satp | Sstatus | Stvec | Sepc | Scause | Stval | Sie | Sscratch |
  Mstatus | Pmpaddr0 | Pmpcfg0 | Medeleg | Mideleg | Mepc

text \<open>Functions whose address the kernel stores: the linker gives each its address.\<close>

datatype code_sym =
  Sym_kernelvec | Sym_uservec | Sym_ktrap_to_user | Sym_ktrap_from_user_handler |
  Sym_kernel_main | Sym_after_swtch

record machine = uart_dev +
  mem :: "addr \<Rightarrow> u8"
  csr :: "csr_reg \<Rightarrow> u32"
  sym_addr :: "code_sym \<Rightarrow> addr"
  free_ram_begin :: addr
  free_ram_end :: addr

definition PAGE_SIZE :: u32 where "PAGE_SIZE = 4096"

section \<open>Control and status registers\<close>

definition READ_CSR :: "csr_reg \<Rightarrow> 'a machine_scheme \<Rightarrow> u32" where
  "READ_CSR reg s = csr s reg"

definition WRITE_CSR :: "csr_reg \<Rightarrow> u32 \<Rightarrow> 'a machine_scheme \<Rightarrow> 'a machine_scheme" where
  "WRITE_CSR reg value s = s\<lparr>csr := (csr s)(reg := value)\<rparr>"

definition SCAUSE_IACCESS_FAULT :: u32 where "SCAUSE_IACCESS_FAULT = 1"
definition SCAUSE_ILLEGAL_INSTR :: u32 where "SCAUSE_ILLEGAL_INSTR = 2"
definition SCAUSE_UMODE_ECALL :: u32 where "SCAUSE_UMODE_ECALL = 8"
definition SCAUSE_SMODE_SOFTWARE_INTR :: u32 where "SCAUSE_SMODE_SOFTWARE_INTR = 1"
definition SCAUSE_SMODE_TIMER_INTR :: u32 where "SCAUSE_SMODE_TIMER_INTR = 5"
definition SCAUSE_SMODE_EXTERNAL_INTR :: u32 where "SCAUSE_SMODE_EXTERNAL_INTR = 9"
definition SCAUSE_INTR_BIT :: u32 where "SCAUSE_INTR_BIT = push_bit 31 1"
definition SCAUSE_CODE_MASK :: u32 where "SCAUSE_CODE_MASK = 0x7FFFFFFF"
definition MSTATUS_MPP_MASK :: u32 where "MSTATUS_MPP_MASK = push_bit 11 3"
definition MSTATUS_MPP_S :: u32 where "MSTATUS_MPP_S = push_bit 11 1"
definition MSTATUS_SIE :: u32 where "MSTATUS_SIE = push_bit 1 1"
definition SSTATUS_SPP_MASK :: u32 where "SSTATUS_SPP_MASK = push_bit 8 1"
definition SSTATUS_SPP_S :: u32 where "SSTATUS_SPP_S = push_bit 8 1"
definition SSTATUS_SPIE :: u32 where "SSTATUS_SPIE = push_bit 5 1"
definition SSTATUS_SUM :: u32 where "SSTATUS_SUM = push_bit 18 1"
definition SIE_SEIE :: u32 where "SIE_SEIE = push_bit 9 1"
definition SIE_STIE :: u32 where "SIE_STIE = push_bit 5 1"
definition SIE_SSIE :: u32 where "SIE_SSIE = push_bit 1 1"
definition SATP_SV32 :: u32 where "SATP_SV32 = push_bit 31 1"

section \<open>Memory\<close>

definition load32 :: "(addr \<Rightarrow> u8) \<Rightarrow> addr \<Rightarrow> u32" where
  "load32 m a =
     ucast (m a) OR push_bit 8 (ucast (m (a + 1))) OR
     push_bit 16 (ucast (m (a + 2))) OR push_bit 24 (ucast (m (a + 3)))"

definition store32 :: "(addr \<Rightarrow> u8) \<Rightarrow> addr \<Rightarrow> u32 \<Rightarrow> (addr \<Rightarrow> u8)" where
  "store32 m a v =
     m(a := ucast v, a + 1 := ucast (drop_bit 8 v),
       a + 2 := ucast (drop_bit 16 v), a + 3 := ucast (drop_bit 24 v))"

definition load16 :: "(addr \<Rightarrow> u8) \<Rightarrow> addr \<Rightarrow> u16" where
  "load16 m a = ucast (m a) OR push_bit 8 (ucast (m (a + 1)))"

text \<open>Word \<open>i\<close> of an array of 32-bit words at \<open>p\<close>.\<close>

definition slot :: "addr \<Rightarrow> nat \<Rightarrow> addr" where
  "slot p i = p + 4 * of_nat i"

abbreviation word_at :: "(addr \<Rightarrow> u8) \<Rightarrow> addr \<Rightarrow> nat \<Rightarrow> u32" where
  "word_at m p i \<equiv> load32 m (slot p i)"

lemma ucast8_parts:
  "ucast (ucast (v :: u32) :: u8) OR push_bit 8 (ucast (ucast (drop_bit 8 v) :: u8)) OR
   push_bit 16 (ucast (ucast (drop_bit 16 v) :: u8)) OR
   push_bit 24 (ucast (ucast (drop_bit 24 v) :: u8)) = v"
proof (rule bit_word_eqI)
  fix n assume "n < LENGTH(32)"
  then show "bit (ucast (ucast v :: u8) OR push_bit 8 (ucast (ucast (drop_bit 8 v) :: u8)) OR
   push_bit 16 (ucast (ucast (drop_bit 16 v) :: u8)) OR
   push_bit 24 (ucast (ucast (drop_bit 24 v) :: u8)) :: u32) n = bit v n"
    by (cases "n < 8"; cases "n < 16"; cases "n < 24") (auto simp: bit_simps)
qed

lemma offset_neq [simp]:
  "(a :: addr) + 1 \<noteq> a" "a + 2 \<noteq> a" "a + 3 \<noteq> a" "a + 1 \<noteq> a + 2" "a + 1 \<noteq> a + 3"
  "a + 2 \<noteq> a + 3" "a + 2 \<noteq> a + 1" "a + 3 \<noteq> a + 1" "a + 3 \<noteq> a + 2"
  "a \<noteq> a + 1" "a \<noteq> a + 2" "a \<noteq> a + 3"
  by simp_all

lemma load32_store32_same [simp]: "load32 (store32 m a v) a = v"
  unfolding load32_def store32_def by (simp add: ucast8_parts)

section \<open>Pages\<close>

definition page_base :: "u32 \<Rightarrow> u32" where
  "page_base a = a AND 0xFFFFF000"

definition page_aligned :: "u32 \<Rightarrow> bool" where
  "page_aligned p \<longleftrightarrow> unat p mod 4096 = 0"

lemma mask_page: "(0xFFFFF000 :: u32) = NOT (mask 12)"
  by (simp add: mask_eq_exp_minus_1)

lemma unat_page_base: "unat (page_base a) = unat a div 4096 * 4096"
proof -
  have "a = (a AND NOT (mask 12)) OR (a AND mask 12)"
    by (rule bit_word_eqI) (auto simp: bit_simps)
  also have "\<dots> = (a AND NOT (mask 12)) + (a AND mask 12)"
    by (rule disjunctive_add_eq_or [symmetric]) (auto simp: bit_simps intro: bit_eqI)
  finally have "a AND NOT (mask 12) = a - take_bit 12 a"
    by (simp add: take_bit_eq_mask eq_diff_eq)
  moreover have "unat (take_bit 12 a) = unat a mod 4096"
    by (simp add: take_bit_eq_mod unat_mod_distrib)
  moreover have "take_bit 12 a \<le> a"
    by (metis word_and_le2 take_bit_eq_mask)
  ultimately have "unat (page_base a) = unat a - unat a mod 4096"
    by (simp add: page_base_def mask_page unat_sub)
  then show ?thesis by (simp add: minus_mod_eq_div_mult)
qed

lemma unat_page_add:
  assumes "page_aligned p" "n < 4096"
  shows "unat (p + of_nat n) = unat p + n"
proof -
  have "unat p < 4294967296" by (rule unat32_bound)
  moreover from assms(1) have "4096 dvd unat p" by (simp add: page_aligned_def mod_0_imp_dvd)
  ultimately have "unat p + n < 4294967296" using assms(2) by (auto elim!: dvdE)
  moreover have "unat (of_nat n :: u32) = n" using assms(2) by simp
  ultimately show ?thesis by (simp add: unat_word_ariths)
qed

lemma page_addr_eq_iff:
  assumes "page_aligned p" "page_aligned q" "n < 4096" "k < 4096"
  shows "p + of_nat n = q + of_nat k \<longleftrightarrow> p = q \<and> n = k"
proof
  assume "p + of_nat n = q + of_nat k"
  then have "unat (p + of_nat n) = unat (q + of_nat k)" by simp
  then have eq: "unat p + n = unat q + k"
    using assms by (simp only: unat_page_add)
  have "n = (unat p + n) mod 4096" "k = (unat q + k) mod 4096"
    using assms by (simp_all add: page_aligned_def mod_add_left_eq [symmetric])
  with eq have "n = k" by simp
  with eq show "p = q \<and> n = k" by (simp add: word_unat_eq_iff)
qed simp

lemma page_base_add:
  assumes "page_aligned p" "n < 4096"
  shows "page_base (p + of_nat n) = p"
proof -
  have "unat (page_base (p + of_nat n)) = (unat p + n) div 4096 * 4096"
    by (simp only: unat_page_base unat_page_add [OF assms])
  also have "\<dots> = unat p"
    using assms by (auto simp: page_aligned_def mod_0_imp_dvd elim!: dvdE)
  finally show ?thesis by (simp add: word_unat_eq_iff)
qed

lemma page_aligned_page_base [simp]: "page_aligned (page_base a)"
  by (simp add: page_aligned_def unat_page_base)

lemma page_base_aligned: "page_aligned p \<Longrightarrow> page_base p = p"
  using page_base_add [of p 0] by simp

lemma page_aligned_iff: "page_aligned p \<longleftrightarrow> p AND 0xFFFFF000 = p"
  by (metis page_aligned_page_base page_base_aligned page_base_def)

lemma page_decomp: "\<exists>n. n < 4096 \<and> a = page_base a + of_nat n"
proof (intro exI conjI)
  show "unat a mod 4096 < 4096" by simp
  have "unat (page_base a + of_nat (unat a mod 4096)) = unat (page_base a) + unat a mod 4096"
    by (rule unat_page_add) simp_all
  also have "\<dots> = unat a" by (simp add: unat_page_base)
  finally show "a = page_base a + of_nat (unat a mod 4096)" by (simp add: word_unat_eq_iff)
qed

text \<open>Memory seen page by page: a word store touches one word of one page.\<close>

lemma slot_byte0: "slot p i = p + of_nat (4 * i)"
  by (simp add: slot_def)

lemma slot_bytes:
  "slot p i + 1 = p + of_nat (4 * i + 1)"
  "slot p i + 2 = p + of_nat (4 * i + 2)" "slot p i + 3 = p + of_nat (4 * i + 3)"
  by (simp_all add: slot_def)

lemma load32_cong:
  "m a = m' a \<Longrightarrow> m (a + 1) = m' (a + 1) \<Longrightarrow> m (a + 2) = m' (a + 2) \<Longrightarrow> m (a + 3) = m' (a + 3) \<Longrightarrow>
   load32 m a = load32 m' a"
  by (simp add: load32_def)

lemma load32_page_cong:
  assumes "i < 1024" "\<And>n. n < 4096 \<Longrightarrow> n div 4 = i \<Longrightarrow> m (p + of_nat n) = m' (p + of_nat n)"
  shows "word_at m p i = word_at m' p i"
proof (rule load32_cong)
  have *: "m (p + of_nat (4 * i + k)) = m' (p + of_nat (4 * i + k))" if "k < 4" for k
    using assms(1) that by (intro assms(2)) auto
  show "m (slot p i) = m' (slot p i)" using *[of 0] by (simp add: slot_byte0)
  show "m (slot p i + 1) = m' (slot p i + 1)" unfolding slot_bytes by (rule *) simp
  show "m (slot p i + 2) = m' (slot p i + 2)" unfolding slot_bytes by (rule *) simp
  show "m (slot p i + 3) = m' (slot p i + 3)" unfolding slot_bytes by (rule *) simp
qed

lemma store32_other_byte:
  assumes "page_aligned p" "page_aligned q" "i < 1024" "n < 4096" "p \<noteq> q \<or> n div 4 \<noteq> i"
  shows "store32 m (slot p i) v (q + of_nat n) = m (q + of_nat n)"
proof -
  have *: "q + of_nat n \<noteq> p + of_nat (4 * i + k)" if "k < 4" for k
    using assms that by (subst page_addr_eq_iff) auto
  have "q + of_nat n \<noteq> slot p i" using *[of 0] by (simp add: slot_byte0)
  moreover have "q + of_nat n \<noteq> slot p i + 1" unfolding slot_bytes by (rule *) simp
  moreover have "q + of_nat n \<noteq> slot p i + 2" unfolding slot_bytes by (rule *) simp
  moreover have "q + of_nat n \<noteq> slot p i + 3" unfolding slot_bytes by (rule *) simp
  ultimately show ?thesis unfolding store32_def by (simp only: fun_upd_apply if_False)
qed

lemma store32_other_page:
  assumes "page_aligned p" "i < 1024" "page_base a \<noteq> p"
  shows "store32 m (slot p i) v a = m a"
proof -
  obtain n where "n < 4096" "a = page_base a + of_nat n" using page_decomp by blast
  with store32_other_byte[OF assms(1) page_aligned_page_base[of a] assms(2), of n] assms(3)
  show ?thesis by metis
qed

lemma word_at_store32:
  assumes "page_aligned p" "page_aligned q" "i < 1024" "j < 1024"
  shows "word_at (store32 m (slot p i) v) q j = (if p = q \<and> i = j then v else word_at m q j)"
proof (cases "p = q \<and> i = j")
  case False
  with assms have "word_at (store32 m (slot p i) v) q j = word_at m q j"
    by (intro load32_page_cong store32_other_byte) auto
  with False show ?thesis by auto
qed simp

section \<open>Address translation\<close>

text \<open>
  Bits of a page table entry (\<^verbatim>\<open>src/kernel/kvmem.h\<close>), and the Sv32 walk of the hart for an access
  in supervisor mode: without the mode bit of \<open>satp\<close> addresses are physical; otherwise a root
  table and, unless its entry is a leaf, a second table give the physical page. A page marked
  for user mode is accessible only while \<open>sstatus.SUM\<close> is set. Accessed and dirty bits play no
  part, and physical addresses are kept to 32 bits.
\<close>

definition PTE_V :: u32 where "PTE_V = push_bit 0 1"
definition PTE_R :: u32 where "PTE_R = push_bit 1 1"
definition PTE_W :: u32 where "PTE_W = push_bit 2 1"
definition PTE_X :: u32 where "PTE_X = push_bit 3 1"
definition PTE_U :: u32 where "PTE_U = push_bit 4 1"

lemmas pte_flag_defs = PTE_V_def PTE_R_def PTE_W_def PTE_X_def PTE_U_def

datatype access = Load | Store

definition sv32_permits :: "access \<Rightarrow> u32 \<Rightarrow> u32 \<Rightarrow> bool" where
  "sv32_permits acc sstatus pte \<longleftrightarrow>
     (case acc of Load \<Rightarrow> pte AND PTE_R \<noteq> 0 | Store \<Rightarrow> pte AND PTE_R \<noteq> 0 \<and> pte AND PTE_W \<noteq> 0) \<and>
     (pte AND PTE_U = 0 \<or> sstatus AND SSTATUS_SUM \<noteq> 0)"

definition sv32_leaf :: "u32 \<Rightarrow> bool" where
  "sv32_leaf pte \<longleftrightarrow> pte AND (PTE_R OR PTE_X) \<noteq> 0"

definition vpn1 :: "addr \<Rightarrow> nat" where
  "vpn1 va = unat (drop_bit 22 va AND 0x3FF)"

definition vpn0 :: "addr \<Rightarrow> nat" where
  "vpn0 va = unat (drop_bit 12 va AND 0x3FF)"

definition pte_table :: "u32 \<Rightarrow> addr" where
  "pte_table pte = push_bit 2 (pte AND 0xFFFFFC00)"

definition mmu_translate :: "'a machine_scheme \<Rightarrow> access \<Rightarrow> addr \<Rightarrow> addr option" where
  "mmu_translate s acc va =
     (if csr s Satp AND SATP_SV32 = 0 then Some va
      else let root = push_bit 12 (csr s Satp);
               pte1 = word_at (mem s) root (vpn1 va)
           in if pte1 AND PTE_V = 0 then None
              else if sv32_leaf pte1 then
                (if sv32_permits acc (csr s Sstatus) pte1 \<and> pte1 AND 0xFFC00 = 0
                 then Some (pte_table pte1 OR (va AND 0x3FFFFF)) else None)
              else let pte0 = word_at (mem s) (pte_table pte1) (vpn0 va)
                   in if pte0 AND PTE_V = 0 \<or> \<not> sv32_leaf pte0 then None
                      else if sv32_permits acc (csr s Sstatus) pte0
                      then Some (pte_table pte0 OR (va AND 0xFFF)) else None)"

text \<open>Accesses of the kernel through a pointer that a user program supplied.\<close>

definition uload8 :: "addr \<Rightarrow> 'a machine_scheme \<Rightarrow> u8 kres" where
  "uload8 va s = (case mmu_translate s Load va of None \<Rightarrow> Inl (KernelFault va) | Some pa \<Rightarrow> Inr (mem s pa))"

definition ustore8 :: "addr \<Rightarrow> u8 \<Rightarrow> 'a machine_scheme \<Rightarrow> 'a machine_scheme kres" where
  "ustore8 va v s = (case mmu_translate s Store va of
       None \<Rightarrow> Inl (KernelFault va) | Some pa \<Rightarrow> Inr (s\<lparr>mem := (mem s)(pa := v)\<rparr>))"

lemma vpn_bound [simp]: "vpn1 va < 1024" "vpn0 va < 1024"
proof -
  have "unat (w AND 0x3FF :: u32) < 1024" for w
    using word_and_le1[of w "0x3FF"] by (simp add: word_le_nat_alt)
  then show "vpn1 va < 1024" "vpn0 va < 1024" by (simp_all add: vpn1_def vpn0_def)
qed

end
