(* ===== verification/Uart.thy ===== *)
theory Uart
  imports Machine
begin

text \<open>
  The UART driver of \<^verbatim>\<open>src/kernel/uart.c\<close> with the register constants of \<^verbatim>\<open>uart.h\<close>: set-up, the
  blocking and non-blocking transmit and the blocking receive. (The receive interrupt handler
  feeds the terminal and is in theory \<open>Tty\<close>.) The locale \<open>byte_sink\<close> is the interface that the
  printing code relies on.
\<close>

section \<open>Registers\<close>

definition UART_THR :: u8 where "UART_THR = 0"
definition UART_IER :: u8 where "UART_IER = 1"
definition UART_FCR :: u8 where "UART_FCR = 2"
definition UART_LCR :: u8 where "UART_LCR = 3"

definition UART_LSR_RX_READY :: u8 where "UART_LSR_RX_READY = push_bit 0 1"
definition UART_LSR_TX_IDLE :: u8 where "UART_LSR_TX_IDLE = push_bit 5 1"
definition UART_IER_RX_ENABLE :: u8 where "UART_IER_RX_ENABLE = push_bit 0 1"
definition UART_IER_TX_ENABLE :: u8 where "UART_IER_TX_ENABLE = push_bit 1 1"
definition UART_LCR_BAUD_LATCH :: u8 where "UART_LCR_BAUD_LATCH = push_bit 7 1"
definition UART_LCR_EIGHT_BITS :: u8 where "UART_LCR_EIGHT_BITS = 3"
definition UART_FCR_CLEAR :: u8 where "UART_FCR_CLEAR = push_bit 1 3"
definition UART_FCR_ENABLE :: u8 where "UART_FCR_ENABLE = 1"

definition uart_write :: "u8 \<Rightarrow> u8 \<Rightarrow> 'a uart_dev_scheme \<Rightarrow> 'a uart_dev_scheme" where
  "uart_write reg v s = s\<lparr>uart_writes := uart_writes s @ [(reg, v)]\<rparr>"

definition next_lsr :: "'a uart_dev_scheme \<Rightarrow> u8" where
  "next_lsr s = lsr_at s (lsr_pos s)"

definition lsr_read :: "'a uart_dev_scheme \<Rightarrow> 'a uart_dev_scheme" where
  "lsr_read s = s\<lparr>lsr_pos := Suc (lsr_pos s)\<rparr>"

section \<open>Operations\<close>

definition uart_init :: "'a uart_dev_scheme \<Rightarrow> 'a uart_dev_scheme" where
  "uart_init =
     uart_write UART_IER (UART_IER_RX_ENABLE OR UART_IER_TX_ENABLE) \<circ>
     uart_write UART_FCR (UART_FCR_CLEAR OR UART_FCR_ENABLE) \<circ>
     uart_write UART_LCR UART_LCR_EIGHT_BITS \<circ>
     uart_write UART_IER 0x00 \<circ> uart_write UART_THR 0x03 \<circ>
     uart_write UART_LCR UART_LCR_BAUD_LATCH \<circ>
     uart_write UART_IER 0x00"

text \<open>The busy-wait on a bit of the line status register; each test is one register read.\<close>

definition wait_lsr :: "u8 \<Rightarrow> 'a uart_dev_scheme \<Rightarrow> 'a uart_dev_scheme kres" where
  "wait_lsr bits s =
     kbind (kwhile (\<lambda>s. next_lsr s AND bits = 0) (\<lambda>s. Inr (lsr_read s)) s) (\<lambda>s. Inr (lsr_read s))"

definition UartSendBlocking :: "u8 \<Rightarrow> 'a uart_dev_scheme \<Rightarrow> 'a uart_dev_scheme kres" where
  "UartSendBlocking ch s = kbind (wait_lsr UART_LSR_TX_IDLE s) (\<lambda>s. Inr (uart_write UART_THR ch s))"

definition uart_putc_nonblock :: "u8 \<Rightarrow> 'a uart_dev_scheme \<Rightarrow> u8 \<times> 'a uart_dev_scheme" where
  "uart_putc_nonblock ch s =
     (if next_lsr s AND UART_LSR_TX_IDLE = 0 then (0xFF, lsr_read s)
      else (0, uart_write UART_THR ch (lsr_read s)))"

definition rhr_read :: "'a uart_dev_scheme \<Rightarrow> u8 \<times> 'a uart_dev_scheme" where
  "rhr_read s = (rhr_at s (rhr_pos s), s\<lparr>rhr_pos := Suc (rhr_pos s)\<rparr>)"

definition uart_getc_block :: "'a uart_dev_scheme \<Rightarrow> (u8 \<times> 'a uart_dev_scheme) kres" where
  "uart_getc_block s = kbind (wait_lsr UART_LSR_RX_READY s) (\<lambda>s. Inr (rhr_read s))"

section \<open>What the wire carries\<close>

text \<open>
  A write to register 0 transmits its byte unless the divisor latch bit of the line control
  register is set, in which case it programs the baud rate. \<open>line_state\<close> replays the log of
  register writes: the latch bit and the bytes sent.
\<close>

fun line_step :: "bool \<times> u8 list \<Rightarrow> u8 \<times> u8 \<Rightarrow> bool \<times> u8 list" where
  "line_step (dlab, out) (reg, v) =
     (if reg = UART_LCR then (v AND UART_LCR_BAUD_LATCH \<noteq> 0, out)
      else if reg = UART_THR \<and> \<not> dlab then (dlab, out @ [v]) else (dlab, out))"

definition line_state :: "(u8 \<times> u8) list \<Rightarrow> bool \<times> u8 list" where
  "line_state ws = foldl line_step (False, []) ws"

definition uart_sent :: "'a uart_dev_scheme \<Rightarrow> u8 list" where
  "uart_sent s = snd (line_state (uart_writes s))"

section \<open>Transmission\<close>

definition uart_live :: "'a uart_dev_scheme \<Rightarrow> bool" where
  "uart_live s \<longleftrightarrow> (\<forall>n. \<exists>k \<ge> n. lsr_at s k AND UART_LSR_TX_IDLE \<noteq> 0)"

text \<open>The bytes \<open>bs\<close> went out on the wire and nothing but the UART changed.\<close>

definition sends :: "u8 list \<Rightarrow> 'a uart_dev_scheme \<Rightarrow> 'a uart_dev_scheme \<Rightarrow> bool" where
  "sends bs s s' \<longleftrightarrow>
     (\<exists>p. s' = s\<lparr>lsr_pos := p, uart_writes := uart_writes s @ map (Pair UART_THR) bs\<rparr>)"

text \<open>The interface of code that prints: bytes go out one at a time, in order.\<close>

locale byte_sink =
  fixes put :: "u8 \<Rightarrow> 's \<Rightarrow> 's kres"
    and sent :: "u8 list \<Rightarrow> 's \<Rightarrow> 's \<Rightarrow> bool"
    and ready :: "'s \<Rightarrow> bool"
  assumes put_sent: "ready s \<Longrightarrow> \<exists>s'. put b s = Inr s' \<and> sent [b] s s'"
    and sent_ready: "sent bs s s' \<Longrightarrow> ready s \<Longrightarrow> ready s'"
    and sent_nil: "sent [] s s"
    and sent_append: "sent bs s s' \<Longrightarrow> sent cs s' s'' \<Longrightarrow> sent (bs @ cs) s s''"
begin

lemma put_all: "ready s \<Longrightarrow> \<exists>s'. kfold put bs s = Inr s' \<and> sent bs s s'"
proof (induction bs arbitrary: s)
  case Nil
  show ?case by (simp add: sent_nil)
next
  case (Cons b bs)
  from put_sent[OF Cons.prems, of b] obtain t where t: "put b s = Inr t" "sent [b] s t" by auto
  from Cons.IH[OF sent_ready[OF t(2) Cons.prems]]
  obtain u where u: "kfold put bs t = Inr u" "sent bs t u" by auto
  from sent_append[OF t(2) u(2)] t(1) u(1) show ?case by auto
qed

lemma put_then:
  assumes "ready s" and "\<And>t. sent [b] s t \<Longrightarrow> \<exists>u. f t = Inr (r, u) \<and> sent bs t u"
  shows "\<exists>u. kbind (put b s) f = Inr (r, u) \<and> sent (b # bs) s u"
proof -
  from put_sent[OF assms(1), of b] obtain t where t: "put b s = Inr t" "sent [b] s t" by auto
  from assms(2)[OF t(2)] obtain u where u: "f t = Inr (r, u)" "sent bs t u" by auto
  from sent_append[OF t(2) u(2)] t(1) u(1) show ?thesis by auto
qed

end

lemma wait_lsr_returns:
  assumes "\<exists>k \<ge> lsr_pos s. lsr_at s k AND bits \<noteq> 0"
  shows "\<exists>p. wait_lsr bits s = Inr (s\<lparr>lsr_pos := p\<rparr>)"
proof -
  from assms obtain k where k: "k \<ge> lsr_pos s" "lsr_at s k AND bits \<noteq> 0" by blast
  have "\<exists>t. kwhile (\<lambda>s. next_lsr s AND bits = 0) (\<lambda>s. Inr (lsr_read s)) s = Inr t \<and>
          (\<exists>p. t = s\<lparr>lsr_pos := p\<rparr> \<and> p \<le> k) \<and> \<not> next_lsr t AND bits = 0"
  proof (rule kwhile_total[where m = "\<lambda>t. k - lsr_pos t"])
    show "\<exists>p. s = s\<lparr>lsr_pos := p\<rparr> \<and> p \<le> k"
      by (rule exI[of _ "lsr_pos s"]) (simp add: k)
  next
    fix t assume t: "\<exists>p. t = s\<lparr>lsr_pos := p\<rparr> \<and> p \<le> k" "next_lsr t AND bits = 0"
    then obtain p where p: "t = s\<lparr>lsr_pos := p\<rparr>" "p \<le> k" by blast
    with t(2) k(2) have "p \<noteq> k" by (auto simp: next_lsr_def)
    with p show "\<exists>t'. Inr (lsr_read t) = Inr t' \<and> (\<exists>p. t' = s\<lparr>lsr_pos := p\<rparr> \<and> p \<le> k) \<and>
        k - lsr_pos t' < k - lsr_pos t"
      by (auto simp: lsr_read_def intro!: exI[of _ "Suc p"])
  qed
  then show ?thesis by (auto simp: wait_lsr_def lsr_read_def)
qed

lemma UartSendBlocking_sends:
  assumes "uart_live s"
  shows "\<exists>s'. UartSendBlocking ch s = Inr s' \<and> sends [ch] s s'"
proof -
  from assms have "\<exists>k \<ge> lsr_pos s. lsr_at s k AND UART_LSR_TX_IDLE \<noteq> 0"
    by (simp add: uart_live_def)
  from wait_lsr_returns[OF this] show ?thesis
    by (auto simp: UartSendBlocking_def sends_def uart_write_def)
qed

lemma sends_live [simp]: "sends bs s s' \<Longrightarrow> uart_live s' = uart_live s"
  by (auto simp: sends_def uart_live_def)

interpretation uart: byte_sink UartSendBlocking sends uart_live
proof
  fix s s' s'' :: "'a uart_dev_scheme" and b bs cs
  show "uart_live s \<Longrightarrow> \<exists>s'. UartSendBlocking b s = Inr s' \<and> sends [b] s s'"
    by (rule UartSendBlocking_sends)
  show "sends bs s s' \<Longrightarrow> uart_live s \<Longrightarrow> uart_live s'" by simp
  show "sends [] s s" by (auto simp: sends_def intro!: exI[of _ "lsr_pos s"])
  show "sends bs s s' \<Longrightarrow> sends cs s' s'' \<Longrightarrow> sends (bs @ cs) s s''"
    by (auto simp: sends_def)
qed

lemma sends_frame [frame_simps]:
  assumes "sends bs s s'"
  shows "uart_dev.more s' = uart_dev.more s" "lsr_at s' = lsr_at s" "rhr_at s' = rhr_at s"
    "rhr_pos s' = rhr_pos s" "uart_writes s' = uart_writes s @ map (Pair UART_THR) bs"
  using assms by (auto simp: sends_def)

end
