(* ===== verification/Kprintf.thy ===== *)
theory Kprintf
  imports Uart
begin

text \<open>
  Formatted output of \<^verbatim>\<open>src/kernel/kprintf.c\<close> and the panic routine of \<^verbatim>\<open>src/kernel/system.c\<close>.
  The variable arguments are a list of values: a 32-bit integer, or the bytes of the string a
  pointer points to. Signed arithmetic wraps, as in the unoptimised build of the Makefile. The
  reference formatter \<open>format_text\<close> says which bytes a call must print.
\<close>

section \<open>Definitions\<close>

datatype varg = VInt u32 | VStr "u8 list"

definition hex_lookup :: "u8 list" where
  "hex_lookup = map of_char ''0123456789ABCDEF''"

text \<open>The do-while loop of \<open>print_dec\<close>, storing digits into \<^verbatim>\<open>char str[16]\<close>.\<close>

function print_dec_loop :: "u8 list \<Rightarrow> nat \<Rightarrow> u32 \<Rightarrow> (u8 list \<times> nat) kres" where
  "print_dec_loop str i uval =
     (if i \<ge> 16 then Inl (Undefined ''print_dec: str[16]'')
      else let str = str[i := hex_lookup ! unat (uval mod 10)]; uval = uval div 10; i = i + 1
           in if uval \<noteq> 0 then print_dec_loop str i uval else Inr (str, i))"
  by pat_completeness auto
termination
  by (relation "measure (\<lambda>(str, i, uval). 16 - i)") auto

declare print_dec_loop.simps [simp del]

definition print_dec :: "u32 \<Rightarrow> bool \<Rightarrow> 'a uart_dev_scheme \<Rightarrow> 'a uart_dev_scheme kres" where
  "print_dec val isSigned s =
     (let sign = sint val < 0;
          uval = (if isSigned \<and> sign then - val else val)
      in kbind (print_dec_loop (replicate 16 0) 0 uval) (\<lambda>(str, i).
         kbind (if isSigned \<and> sign
                then if i \<ge> 16 then Inl (Undefined ''print_dec: str[16]'')
                     else Inr (str[i := of_char (CHR ''-'')], i + 1)
                else Inr (str, i)) (\<lambda>(str, i).
           kfold (\<lambda>j. UartSendBlocking (str ! j)) (rev [0..<i]) s)))"

definition print_hex :: "u32 \<Rightarrow> 'a uart_dev_scheme \<Rightarrow> 'a uart_dev_scheme kres" where
  "print_hex val s =
     kbind (UartSendBlocking (of_char (CHR ''0'')) s) (\<lambda>s.
     kbind (UartSendBlocking (of_char (CHR ''x'')) s) (\<lambda>s.
       kfold (\<lambda>i. UartSendBlocking (hex_lookup ! unat (drop_bit (i * 4) val AND 0x0F))) (rev [0..<8]) s))"

fun kprintf :: "string \<Rightarrow> varg list \<Rightarrow> 'a uart_dev_scheme \<Rightarrow> (int \<times> 'a uart_dev_scheme) kres" where
  "kprintf [] args s = Inr (0, s)"
| "kprintf (c # format) args s =
     (if c = CHR ''%'' then
        (case format of
           [] \<Rightarrow> kbind (UartSendBlocking (of_char (CHR ''%'')) s) (\<lambda>s. Inr (0, s))
         | d # format \<Rightarrow>
             if d = CHR ''%'' then
               kbind (UartSendBlocking (of_char (CHR ''%'')) s) (kprintf format args)
             else if d = CHR ''c'' then
               (case args of VInt val # args \<Rightarrow> kbind (UartSendBlocking (ucast val) s) (kprintf format args)
                | _ \<Rightarrow> Inl (Undefined ''va_arg''))
             else if d = CHR ''d'' then
               (case args of VInt val # args \<Rightarrow> kbind (print_dec val True s) (kprintf format args)
                | _ \<Rightarrow> Inl (Undefined ''va_arg''))
             else if d = CHR ''u'' then
               (case args of VInt val # args \<Rightarrow> kbind (print_dec val False s) (kprintf format args)
                | _ \<Rightarrow> Inl (Undefined ''va_arg''))
             else if d = CHR ''x'' \<or> d = CHR ''p'' then
               (case args of VInt val # args \<Rightarrow> kbind (print_hex val s) (kprintf format args)
                | _ \<Rightarrow> Inl (Undefined ''va_arg''))
             else if d = CHR ''s'' then
               (case args of VStr str # args \<Rightarrow> kbind (kfold UartSendBlocking str s) (kprintf format args)
                | _ \<Rightarrow> Inl (Undefined ''va_arg''))
             else Inr (-1, s))
      else kbind (UartSendBlocking (of_char c) s) (kprintf format args))"

text \<open>\<open>kpanic\<close> prints and then spins for ever: it yields a \<open>Panic\<close>, with what the console has seen.\<close>

definition kpanic :: "string \<Rightarrow> nat \<Rightarrow> string \<Rightarrow> 'a uart_dev_scheme \<Rightarrow> 'b kres" where
  "kpanic filename line message s =
     kbind (kprintf (''KERNEL PANIC! %s'' @ [CHR 0x09] @ ''%s::%d'' @ [CHR 0x0A])
             [VStr (map of_char message), VStr (map of_char filename), VInt (of_nat line)] s)
       (\<lambda>(_, s). Inl (Panic message (uart_sent s)))"

text \<open>A counted loop that does nothing; the counter is an \<^verbatim>\<open>int\<close>.\<close>

definition delay :: "'s \<Rightarrow> 's kres" where
  "delay s = kbind (kwhile (\<lambda>i :: u32. sint i < 30000000) (\<lambda>i. Inr (i + 1)) 0) (\<lambda>_. Inr s)"

section \<open>Reference formatter\<close>

fun dec_text :: "nat \<Rightarrow> u8 list" where
  "dec_text n = (if n < 10 then [48 + of_nat n] else dec_text (n div 10) @ [48 + of_nat (n mod 10)])"

declare dec_text.simps [simp del]

definition signed_text :: "int \<Rightarrow> u8 list" where
  "signed_text v = (if v < 0 then of_char (CHR ''-'') # dec_text (nat (- v)) else dec_text (nat v))"

definition nibble_text :: "nat \<Rightarrow> u8" where
  "nibble_text d = (if d < 10 then 48 + of_nat d else 55 + of_nat d)"

definition hex_text :: "u32 \<Rightarrow> u8 list" where
  "hex_text v = map of_char ''0x'' @ map (\<lambda>i. nibble_text (unat v div 16 ^ i mod 16)) (rev [0..<8])"

definition int_text :: "char \<Rightarrow> u32 \<Rightarrow> u8 list" where
  "int_text d v = (if d = CHR ''c'' then [ucast v] else if d = CHR ''d'' then signed_text (sint v)
     else if d = CHR ''u'' then dec_text (unat v) else hex_text v)"

text \<open>The return value and the text of a call, \<open>None\<close> where an argument is missing or mistyped.\<close>

fun format_text :: "string \<Rightarrow> varg list \<Rightarrow> (int \<times> u8 list) option" where
  "format_text [] args = Some (0, [])"
| "format_text (c # format) args =
     (if c \<noteq> CHR ''%'' then map_option (apsnd (Cons (of_char c))) (format_text format args)
      else case format of
        [] \<Rightarrow> Some (0, [of_char (CHR ''%'')])
      | d # format \<Rightarrow>
          if d = CHR ''%'' then map_option (apsnd (Cons (of_char (CHR ''%'')))) (format_text format args)
          else if d \<in> set ''cduxp'' then
            (case args of VInt v # args \<Rightarrow> map_option (apsnd ((@) (int_text d v))) (format_text format args)
             | _ \<Rightarrow> None)
          else if d = CHR ''s'' then
            (case args of VStr str # args \<Rightarrow> map_option (apsnd ((@) str)) (format_text format args) | _ \<Rightarrow> None)
          else Some (-1, []))"

section \<open>Decimal and hexadecimal digits\<close>

lemma hex_lookup_nth: "d < 16 \<Longrightarrow> hex_lookup ! d = nibble_text d"
proof -
  have "\<forall>d \<in> set [0..<16]. hex_lookup ! d = nibble_text d"
    by (simp add: hex_lookup_def nibble_text_def upt_rec)
  then show "d < 16 \<Longrightarrow> hex_lookup ! d = nibble_text d" by simp
qed

lemma dec_text_length: "n < 10 ^ Suc k \<Longrightarrow> length (dec_text n) \<le> Suc k"
proof (induction k arbitrary: n)
  case 0
  then show ?case by (subst dec_text.simps) simp
next
  case (Suc k)
  show ?case
  proof (cases "n < 10")
    case False
    from Suc.prems have "n div 10 < 10 ^ Suc k" by (simp add: less_mult_imp_div_less)
    from Suc.IH[OF this] False show ?thesis by (subst dec_text.simps) simp
  qed (subst dec_text.simps, simp)
qed

lemma dec_text_length32: "length (dec_text (unat (w :: u32))) \<le> 10"
  using dec_text_length[of "unat w" 9] unat32_bound[of w] by simp

lemma dec_text_nonempty: "0 < length (dec_text n)"
  by (subst dec_text.simps) simp

lemma print_dec_loop_spec:
  assumes "length str = 16" "i + length (dec_text (unat uval)) \<le> 16"
  shows "\<exists>str'. print_dec_loop str i uval = Inr (str', i + length (dec_text (unat uval))) \<and>
    length str' = 16 \<and>
    take (i + length (dec_text (unat uval))) str' = take i str @ rev (dec_text (unat uval))"
  using assms
proof (induction str i uval rule: print_dec_loop.induct)
  case (1 str i uval)
  let ?str = "str[i := hex_lookup ! unat (uval mod 10)]"
  have i: "i < 16" using "1.prems"(2) dec_text_nonempty[of "unat uval"] by linarith
  have d: "hex_lookup ! unat (uval mod 10) = 48 + of_nat (unat uval mod 10)"
    by (simp add: unat_mod_distrib hex_lookup_nth nibble_text_def)
  have tk: "take (Suc i) ?str = take i str @ [48 + of_nat (unat uval mod 10)]"
    using i "1.prems"(1) by (simp add: take_Suc_conv_app_nth d)
  show ?case
  proof (cases "uval div 10 = 0")
    case True
    then have "unat (uval div 10) = 0" by simp
    then have lt: "unat uval < 10" by (simp add: unat_div_distrib)
    then have "dec_text (unat uval) = [48 + of_nat (unat uval)]" by (subst dec_text.simps) simp
    then show ?thesis
      using True i tk "1.prems"(1) lt by (subst print_dec_loop.simps) simp
  next
    case False
    have div: "unat (uval div 10) = unat uval div 10" by (simp add: unat_div_distrib)
    from False have "unat (uval div 10) \<noteq> 0" by (simp add: unat_eq_0)
    then have ge: "\<not> unat uval < 10" by (simp add: div)
    then have dt: "dec_text (unat uval) = dec_text (unat uval div 10) @ [48 + of_nat (unat uval mod 10)]"
      by (subst dec_text.simps) simp
    have "\<exists>str'. print_dec_loop ?str (i + 1) (uval div 10) =
        Inr (str', i + 1 + length (dec_text (unat (uval div 10)))) \<and> length str' = 16 \<and>
        take (i + 1 + length (dec_text (unat (uval div 10)))) str' =
          take (i + 1) ?str @ rev (dec_text (unat (uval div 10)))"
      using "1.IH"[OF _ refl refl refl False] i "1.prems" by (simp add: dt div)
    then show ?thesis
      using False i by (subst print_dec_loop.simps) (simp add: dt div tk)
  qed
qed

lemma kfold_nth: "i \<le> length xs \<Longrightarrow> kfold (\<lambda>j. f (xs ! j)) (rev [0..<i]) s = kfold f (rev (take i xs)) s"
proof -
  assume "i \<le> length xs"
  then have "take i xs = map ((!) xs) [0..<i]" by (simp add: list_eq_iff_nth_eq)
  then have "rev (take i xs) = map ((!) xs) (rev [0..<i])" by (simp add: rev_map)
  moreover have "kfold (\<lambda>j. f (g j)) js s = kfold f (map g js) s" for g js
    by (induction js arbitrary: s) (auto intro!: kbind_cong)
  ultimately show ?thesis by metis
qed

lemma nat_sint:
  fixes v :: u32
  shows "\<not> sint v < 0 \<Longrightarrow> nat (sint v) = unat v" and "sint v < 0 \<Longrightarrow> nat (- sint v) = unat (- v)"
proof -
  have b: "- (2 ^ 31) \<le> sint v" "sint v < 2 ^ 31"
    using sint_ge[of v] sint_lt[of v] by simp_all
  have u: "uint (word_of_int k :: u32) = k" if "0 \<le> k" "k < 2 ^ 32" for k
    using that by (simp add: uint_word_of_int take_bit_eq_mod)
  have v: "word_of_int (sint v) = v" "word_of_int (- sint v) = - v" by simp_all
  { assume "\<not> sint v < 0"
    with u[of "sint v"] b have "uint v = sint v" unfolding v by simp
    then show "nat (sint v) = unat v" by (simp add: unat_eq_nat_uint) }
  { assume "sint v < 0"
    with u[of "- sint v"] b have "uint (- v) = - sint v" unfolding v by simp
    then show "nat (- sint v) = unat (- v)" by (metis unat_eq_nat_uint) }
qed

lemma print_dec_sends:
  assumes "uart_live s"
  shows "\<exists>s'. print_dec val sg s = Inr s' \<and>
    sends (if sg then signed_text (sint val) else dec_text (unat val)) s s'"
proof -
  define uval where "uval = (if sg \<and> sint val < 0 then - val else val)"
  let ?d = "dec_text (unat uval)"
  have len: "length ?d \<le> 10" by (rule dec_text_length32)
  obtain str where str: "print_dec_loop (replicate 16 0) 0 uval = Inr (str, length ?d)"
    "length str = 16" "take (length ?d) str = rev ?d"
    using print_dec_loop_spec[of "replicate 16 0" 0 uval] len by auto
  define out where "out = (if sg \<and> sint val < 0 then of_char (CHR ''-'') # ?d else ?d)"
  have out: "out = (if sg then signed_text (sint val) else dec_text (unat val))"
    by (auto simp: out_def uval_def signed_text_def nat_sint)
  have pd: "print_dec val sg s = kbind (if sg \<and> sint val < 0
      then Inr (str[length ?d := of_char (CHR ''-'')], length ?d + 1) else Inr (str, length ?d))
      (\<lambda>(str, i). kfold (\<lambda>j. UartSendBlocking (str ! j)) (rev [0..<i]) s)"
    unfolding print_dec_def Let_def uval_def [symmetric] str(1) using len by simp
  have "print_dec val sg s = kfold UartSendBlocking out s"
  proof (cases "sg \<and> sint val < 0")
    case True
    have "take (Suc (length ?d)) (str[length ?d := of_char (CHR ''-'')]) = rev out"
      using True str len by (simp add: take_Suc_conv_app_nth out_def)
    then show ?thesis
      unfolding pd
      using True str len kfold_nth[of "Suc (length ?d)" "str[length ?d := of_char (CHR ''-'')]" UartSendBlocking s]
      by simp
  next
    case False
    then have "print_dec val sg s = kfold (\<lambda>j. UartSendBlocking (str ! j)) (rev [0..<length ?d]) s"
      unfolding pd by auto
    then show ?thesis
      using False str len kfold_nth[of "length ?d" str UartSendBlocking s] by (auto simp: out_def)
  qed
  with uart.put_all[OF assms, of out] out show ?thesis by simp
qed

lemma nibble: "unat (drop_bit (i * 4) (v :: u32) AND 0xF) = unat v div 16 ^ i mod 16"
proof -
  have "(0xF :: u32) = mask 4" by (simp add: mask_eq_exp_minus_1)
  then have "drop_bit (i * 4) v AND 0xF = take_bit 4 (drop_bit (i * 4) v)"
    by (simp only: take_bit_eq_mask)
  then have "unat (drop_bit (i * 4) v AND 0xF) = unat (drop_bit (i * 4) v) mod 16"
    by (simp add: take_bit_eq_mod unat_mod_distrib)
  also have "unat (drop_bit (i * 4) v) = drop_bit (i * 4) (unat v)" by (rule unat_drop_bit_eq)
  also have "\<dots> = unat v div 16 ^ i"
    unfolding drop_bit_eq_div by (subst mult.commute) (simp add: power_mult)
  finally show ?thesis .
qed

lemma print_hex_sends:
  assumes "uart_live s"
  shows "\<exists>s'. print_hex val s = Inr s' \<and> sends (hex_text val) s s'"
proof -
  let ?ds = "map (\<lambda>i. nibble_text (unat val div 16 ^ i mod 16)) (rev [0..<8])"
  have "kfold (\<lambda>i. UartSendBlocking (hex_lookup ! unat (drop_bit (i * 4) val AND 0x0F))) is s =
      kfold UartSendBlocking (map (\<lambda>i. nibble_text (unat val div 16 ^ i mod 16)) is) s" for "is" s
    by (induction "is" arbitrary: s) (auto simp: nibble hex_lookup_nth intro!: kbind_cong)
  then have "print_hex val s = kfold UartSendBlocking (map of_char ''0x'' @ ?ds) s"
    by (auto simp: print_hex_def intro!: kbind_cong)
  then show ?thesis using uart.put_all[OF assms] by (simp only: hex_text_def)
qed

section \<open>Formatted output\<close>

text \<open>Sequencing of prints: the bytes of the parts, concatenated.\<close>

lemma sends_bind:
  assumes "\<exists>t. p = Inr t \<and> sends bs s t" "uart_live s"
    and "\<And>t. uart_live t \<Longrightarrow> \<exists>u. f t = Inr (r, u) \<and> sends cs t u"
  shows "\<exists>u. kbind p f = Inr (r, u) \<and> sends (bs @ cs) s u"
proof -
  from assms(1) obtain t where t: "p = Inr t" "sends bs s t" by blast
  with assms(2) have "uart_live t" by simp
  from assms(3)[OF this] obtain u where "f t = Inr (r, u)" "sends cs t u" by blast
  with t uart.sent_append show ?thesis by auto
qed

lemma send_char:
  assumes "uart_live s" "\<And>t. uart_live t \<Longrightarrow> \<exists>u. f t = Inr (r, u) \<and> sends cs t u"
  shows "\<exists>u. kbind (UartSendBlocking ch s) f = Inr (r, u) \<and> sends (ch # cs) s u"
  using sends_bind[OF UartSendBlocking_sends[OF assms(1)] assms, of ch] by simp

lemma send_signed:
  assumes "uart_live s" "\<And>t. uart_live t \<Longrightarrow> \<exists>u. f t = Inr (r, u) \<and> sends cs t u"
  shows "\<exists>u. kbind (print_dec v True s) f = Inr (r, u) \<and> sends (signed_text (sint v) @ cs) s u"
  using sends_bind[OF print_dec_sends[OF assms(1)] assms, of v True] by simp

lemma send_unsigned:
  assumes "uart_live s" "\<And>t. uart_live t \<Longrightarrow> \<exists>u. f t = Inr (r, u) \<and> sends cs t u"
  shows "\<exists>u. kbind (print_dec v False s) f = Inr (r, u) \<and> sends (dec_text (unat v) @ cs) s u"
  using sends_bind[OF print_dec_sends[OF assms(1)] assms, of v False] by simp

lemmas send_hex = sends_bind[OF print_hex_sends]
lemmas send_str = sends_bind[OF uart.put_all]

lemma kprintf_int_directive:
  fixes s :: "'a uart_dev_scheme"
  assumes "uart_live s" "d \<in> set ''cduxp''"
    and "\<And>t :: 'a uart_dev_scheme. uart_live t \<Longrightarrow> \<exists>u. kprintf fmt a t = Inr (r, u) \<and> sends cs t u"
  shows "\<exists>u. kprintf (CHR ''%'' # d # fmt) (VInt v # a) s = Inr (r, u) \<and> sends (int_text d v @ cs) s u"
proof -
  from assms(2) consider "d = CHR ''c''" | "d = CHR ''d''" | "d = CHR ''u''" | "d \<in> set ''xp''" by auto
  then show ?thesis
  proof cases
    case 1
    with assms(1,3) show ?thesis by (auto simp: int_text_def intro!: send_char)
  next
    case 2
    with assms(1,3) show ?thesis by (auto simp: int_text_def intro!: send_signed)
  next
    case 3
    with assms(1,3) show ?thesis by (auto simp: int_text_def intro!: send_unsigned)
  next
    case 4
    with assms(1,3) show ?thesis by (auto simp: int_text_def intro!: send_hex)
  qed
qed

lemma kprintf_directive:
  fixes s :: "'a uart_dev_scheme"
  assumes "uart_live s" "format_text (CHR ''%'' # d # fmt) args = Some (r, out)"
    and IH: "\<And>a (t :: 'a uart_dev_scheme) cs. uart_live t \<Longrightarrow> format_text fmt a = Some (r, cs) \<Longrightarrow>
      \<exists>u. kprintf fmt a t = Inr (r, u) \<and> sends cs t u"
  shows "\<exists>u. kprintf (CHR ''%'' # d # fmt) args s = Inr (r, u) \<and> sends out s u"
proof -
  consider (pct) "d = CHR ''%''" | (str) "d = CHR ''s''" | (int) "d \<in> set ''cduxp''"
    | (other) "d \<notin> set ''%scduxp''" by fastforce
  then show ?thesis
  proof cases
    case pct
    with assms(2) obtain cs
      where "format_text fmt args = Some (r, cs)" "out = of_char (CHR ''%'') # cs" by auto
    with pct IH assms(1) show ?thesis by (auto intro!: send_char)
  next
    case str
    from assms(2) obtain bs a cs
      where "args = VStr bs # a" "format_text fmt a = Some (r, cs)" "out = bs @ cs"
      unfolding str by (auto split: list.splits varg.splits)
    with str IH assms(1) show ?thesis by (auto intro!: send_str)
  next
    case int
    then have "d \<noteq> CHR ''%''" by auto
    with int assms(2) obtain v a cs
      where "args = VInt v # a" "format_text fmt a = Some (r, cs)" "out = int_text d v @ cs"
      by (simp split: list.splits varg.splits) blast
    with int IH assms(1) show ?thesis by (auto simp del: kprintf.simps intro!: kprintf_int_directive)
  next
    case other
    with assms show ?thesis by (auto simp: uart.sent_nil)
  qed
qed

lemma kprintf_sends:
  assumes "uart_live s" "format_text fmt args = Some (r, out)"
  shows "\<exists>s'. kprintf fmt args s = Inr (r, s') \<and> sends out s s'"
  using assms
proof (induction "length fmt" arbitrary: fmt args s r out rule: less_induct)
  case less
  show ?case
  proof (cases fmt)
    case Nil
    with less.prems show ?thesis by (auto simp: uart.sent_nil)
  next
    case (Cons c fmt1)
    note IH = less.hyps
    show ?thesis
    proof (cases "c = CHR ''%''")
      case False
      with Cons less.prems(2) obtain o1
        where "format_text fmt1 args = Some (r, o1)" "out = of_char c # o1" by auto
      with Cons False IH[of fmt1] less.prems(1) show ?thesis by (auto intro!: send_char)
    next
      case c: True
      show ?thesis
      proof (cases fmt1)
        case Nil
        with Cons c less.prems show ?thesis by (auto simp: uart.sent_nil intro!: send_char)
      next
        case (Cons d fmt2)
        have eq: "fmt = CHR ''%'' # d # fmt2" using \<open>fmt = c # fmt1\<close> Cons c by simp
        then have "length fmt2 < length fmt" by simp
        note IH2 = IH[OF this]
        show ?thesis
          using kprintf_directive[of s d fmt2 args r out] less.prems IH2 unfolding eq by blast
      qed
    qed
  qed
qed

text \<open>
  C21: for every format and matching arguments \<open>kprintf\<close> returns, and what it sends to the UART is
  exactly the text of the reference formatter; nothing but the UART changes.
\<close>

theorem kprintf_correct:
  assumes "uart_live s" and "format_text fmt args = Some (r, out)"
  shows "\<exists>s'. kprintf fmt args s = Inr (r, s') \<and>
    uart_writes s' = uart_writes s @ map (Pair UART_THR) out \<and> uart_dev.more s' = uart_dev.more s"
  using kprintf_sends[OF assms] by (auto simp: frame_simps)

definition idle_uart :: uart_dev where
  "idle_uart = \<lparr>lsr_at = \<lambda>_. 0x20, lsr_pos = 0, rhr_at = \<lambda>_. 0, rhr_pos = 0, uart_writes = []\<rparr>"

lemma idle_uart_live [simp]: "uart_live idle_uart"
  by (auto simp: uart_live_def idle_uart_def UART_LSR_TX_IDLE_def)

theorem kprintf_correct_witness:
  "\<exists>s'. kprintf ''pid=%d%%'' [VInt (-7)] idle_uart = Inr (0, s') \<and>
     uart_writes s' = map (Pair UART_THR) (map of_char ''pid=-7%'')"
proof -
  have "format_text ''pid=%d%%'' [VInt (-7)] = Some (0, map of_char ''pid=-7%'')"
    by (simp add: int_text_def signed_text_def dec_text.simps)
  from kprintf_correct[OF idle_uart_live this] show ?thesis
    by (auto simp: idle_uart_def)
qed

section \<open>Round trips\<close>

definition dec_value :: "u8 list \<Rightarrow> nat" where
  "dec_value bs = foldl (\<lambda>a b. 10 * a + (unat b - 48)) 0 bs"

lemma dec_value_dec_text: "dec_value (dec_text n) = n"
proof (induction n rule: dec_text.induct)
  case (1 n)
  have "unat (48 + of_nat d :: u8) - 48 = d" if "d < 10" for d
    using that by (simp add: unat_word_ariths unat_of_nat)
  with 1 show ?case by (subst dec_text.simps) (auto simp: dec_value_def)
qed

text \<open>
  \<open>print_dec\<close> on an unsigned value returns without overrunning its 16-byte buffer, and the
  digits it sends are at most ten and read back as the value.
\<close>

theorem print_dec_roundtrip:
  assumes "uart_live s"
  shows "\<exists>s' bs. print_dec val False s = Inr s' \<and> uart_writes s' = uart_writes s @ map (Pair UART_THR) bs \<and>
    length bs \<le> 10 \<and> dec_value bs = unat val"
proof -
  from print_dec_sends[OF assms, of val False] obtain s'
    where "print_dec val False s = Inr s'" "sends (dec_text (unat val)) s s'" by auto
  then show ?thesis
    using dec_text_length32[of val] dec_value_dec_text[of "unat val"] by (auto simp: frame_simps)
qed

theorem print_dec_roundtrip_witness:
  "\<exists>s' bs. print_dec 4294967295 False idle_uart = Inr s' \<and> uart_writes s' = map (Pair UART_THR) bs \<and>
    length bs \<le> 10 \<and> dec_value bs = 4294967295"
  using print_dec_roundtrip[OF idle_uart_live, of 4294967295] by (simp add: idle_uart_def)

lemma kpanic_sends:
  assumes "uart_live s"
  shows "\<exists>s'. (kpanic file line msg s :: 'b kres) = Inl (Panic msg (uart_sent s')) \<and>
    sends (map of_char ''KERNEL PANIC! '' @ map of_char msg @ [9] @ map of_char file @
      map of_char ''::'' @ signed_text (sint (of_nat line :: u32)) @ [10]) s s'"
proof -
  have "format_text (''KERNEL PANIC! %s'' @ [CHR 0x09] @ ''%s::%d'' @ [CHR 0x0A])
     [VStr (map of_char msg), VStr (map of_char file), VInt (of_nat line)] =
    Some (0, map of_char ''KERNEL PANIC! '' @ map of_char msg @ [9] @ map of_char file @
      map of_char ''::'' @ signed_text (sint (of_nat line :: u32)) @ [10])"
    by (simp add: int_text_def)
  from kprintf_sends[OF assms this] show ?thesis by (auto simp: kpanic_def)
qed

text \<open>The delay ends: its counter reaches the bound before it wraps around.\<close>

lemma delay_returns: "delay s = Inr s"
proof -
  have "\<exists>t. kwhile (\<lambda>i :: u32. sint i < 30000000) (\<lambda>i. Inr (i + 1)) 0 = Inr t \<and> unat t \<le> 30000000 \<and> \<not> sint t < 30000000"
  proof (rule kwhile_total[where m = "\<lambda>i. 30000000 - unat i"])
    fix i :: u32 assume a: "unat i \<le> 30000000" "sint i < 30000000"
    have "i \<le> 30000000" using a(1) by (simp add: word_le_nat_alt)
    then have "uint i \<le> 30000000" by (simp add: word_le_def)
    then have "sint i = int (unat i)" by (simp add: sint_uint signed_take_bit_int_eq_self order_trans[of _ 0])
    then have "i < 30000000" using a(2) by (simp add: word_less_def)
    then have "unat i < 30000000" by (simp add: word_less_nat_alt)
    moreover from this have "unat (i + 1) = Suc (unat i)" by (simp add: unat_word_ariths)
    ultimately show "\<exists>t. Inr (i + 1) = Inr t \<and> unat t \<le> 30000000 \<and> 30000000 - unat t < 30000000 - unat i" by simp
  qed simp
  then show ?thesis by (auto simp: delay_def)
qed

lemma kpanic_Inl: "\<exists>e. kpanic file line msg s = Inl e"
  by (cases "kprintf (''KERNEL PANIC! %s'' @ [CHR 0x09] @ ''%s::%d'' @ [CHR 0x0A])
     [VStr (map of_char msg), VStr (map of_char file), VInt (of_nat line)] s")
    (auto simp: kpanic_def)

lemma kpanic_not_Inr [simp, kres_simps]: "kpanic file line msg s \<noteq> Inr x"
  by (metis Inl_Inr_False kpanic_Inl)

end
