(* ===== verification/Tty.thy ===== *)
theory Tty
  imports Kprintf
begin

text \<open>
  The terminal of \<^verbatim>\<open>src/kernel/tty.c\<close>: a ring buffer of 1024 bytes with a read cursor \<open>tty_r\<close>, an
  insert cursor \<open>tty_insert\<close> and the commit cursor \<open>tty_w\<close> just past the last complete line; and
  the receive interrupt of \<^verbatim>\<open>src/kernel/uart.c\<close> that feeds it. The specification is a line
  discipline: the bytes of complete lines, which a reader may take, and the bytes of the line
  being typed, which backspace may still edit. The locale \<open>line_discipline\<close> is the interface.
\<close>

section \<open>State and operations\<close>

definition TTY_BUFFER_SIZE :: nat where "TTY_BUFFER_SIZE = 1024"
definition BACKSPACE :: u8 where "BACKSPACE = 127"
definition NEWLINE :: u8 where "NEWLINE = 10"
definition RETURN_KEY :: u8 where "RETURN_KEY = 13"

record tty = machine +
  ttyBuffer :: "u8 list"
  isEmpty :: bool
  isFull :: bool
  tty_r :: nat
  tty_w :: nat
  tty_insert :: nat

text \<open>The effect of storing a character (lines 44 to 58 of \<^verbatim>\<open>tty.c\<close>), before the echo.\<close>

definition tty_store :: "u8 \<Rightarrow> 'a tty_scheme \<Rightarrow> 'a tty_scheme" where
  "tty_store c s =
     (let s = s\<lparr>ttyBuffer := (ttyBuffer s)[tty_insert s := c]\<rparr>;
          s = s\<lparr>tty_insert := (tty_insert s + 1) mod TTY_BUFFER_SIZE, isEmpty := False\<rparr>;
          s = (if c = NEWLINE then s\<lparr>tty_w := tty_insert s\<rparr> else s)
      in if tty_insert s = tty_r s then s\<lparr>isFull := True\<rparr> else s)"

definition TtyBufferInsert :: "u8 \<Rightarrow> 'a tty_scheme \<Rightarrow> (bool \<times> 'a tty_scheme) kres" where
  "TtyBufferInsert c s =
     (if isFull s then Inr (False, s)
      else let c = (if c = RETURN_KEY then NEWLINE else c) in
      if c = BACKSPACE then
        (let prev = (tty_insert s + TTY_BUFFER_SIZE - 1) mod TTY_BUFFER_SIZE in
         if \<not> isEmpty s \<and> ttyBuffer s ! prev \<noteq> NEWLINE then
           kbind (UartSendBlocking 8 (s\<lparr>tty_insert := prev\<rparr>)) (\<lambda>s.
           kbind (UartSendBlocking 32 s) (\<lambda>s.
           kbind (UartSendBlocking 8 s) (\<lambda>s.
             Inr (True, if tty_insert s = tty_r s then s\<lparr>isEmpty := True\<rparr> else s))))
         else Inr (True, s))
      else kbind (UartSendBlocking c (tty_store c s)) (\<lambda>s. Inr (True, s)))"

definition TtyWrite :: "addr \<Rightarrow> u32 \<Rightarrow> 'a tty_scheme \<Rightarrow> (u32 \<times> 'a tty_scheme) kres" where
  "TtyWrite src n s =
     kbind (kfold (\<lambda>i s. kbind (uload8 (src + of_nat i) s) (\<lambda>c. UartSendBlocking c s)) [0..<unat n] s)
       (\<lambda>s. Inr (n, s))"

text \<open>
  The loop state of \<open>TtyRead\<close>: the count, whether the loop was left by \<open>break\<close>, and the machine. The
  byte tested against newline is read back from the user buffer.
\<close>

definition tty_read_guard :: "u32 \<Rightarrow> nat \<times> bool \<times> 'a tty_scheme \<Rightarrow> bool" where
  "tty_read_guard n = (\<lambda>(i, brk, s). \<not> brk \<and> i < unat n \<and> \<not> isEmpty s \<and> tty_r s \<noteq> tty_w s)"

definition tty_read_body :: "addr \<Rightarrow> nat \<times> bool \<times> 'a tty_scheme \<Rightarrow> (nat \<times> bool \<times> 'a tty_scheme) kres" where
  "tty_read_body dest = (\<lambda>(i, brk, s).
     kbind (ustore8 (dest + of_nat i) (ttyBuffer s ! tty_r s) (s\<lparr>isFull := False\<rparr>)) (\<lambda>s.
     let s = s\<lparr>tty_r := (tty_r s + 1) mod TTY_BUFFER_SIZE\<rparr> in
     kbind (uload8 (dest + of_nat i) s) (\<lambda>d. Inr (i + 1, d = NEWLINE, s))))"

definition TtyRead :: "addr \<Rightarrow> u32 \<Rightarrow> 'a tty_scheme \<Rightarrow> (u32 \<times> 'a tty_scheme) kres" where
  "TtyRead dest n s =
     (if isEmpty s then Inr (0, s)
      else kbind (kwhile (tty_read_guard n) (tty_read_body dest) (0, False, s)) (\<lambda>(i, brk, s).
        Inr (of_nat i, if tty_r s = tty_insert s then s\<lparr>isEmpty := True\<rparr> else s)))"

definition UartInterruptHandle :: "'a tty_scheme \<Rightarrow> 'a tty_scheme kres" where
  "UartInterruptHandle s =
     kbind (kwhile (\<lambda>s. next_lsr s AND UART_LSR_RX_READY \<noteq> 0)
       (\<lambda>s. case rhr_read (lsr_read s) of (c, s) \<Rightarrow> kbind (TtyBufferInsert c s) (\<lambda>(_, s). Inr s)) s)
       (\<lambda>s. Inr (lsr_read s))"

section \<open>Line discipline\<close>

text \<open>Typing one character into a line editor that holds \<open>com\<close> and \<open>pen\<close>, at most 1024 bytes.\<close>

definition ld_insert :: "u8 \<Rightarrow> u8 list \<times> u8 list \<Rightarrow> bool \<times> (u8 list \<times> u8 list)" where
  "ld_insert c = (\<lambda>(com, pen).
     if length com + length pen = TTY_BUFFER_SIZE then (False, (com, pen))
     else if c = BACKSPACE then (True, (com, butlast pen))
     else if c = NEWLINE \<or> c = RETURN_KEY then (True, (com @ pen @ [NEWLINE], []))
     else (True, (com, pen @ [c])))"

text \<open>Reading takes complete-line bytes up to the first newline, at most \<open>n\<close>.\<close>

fun ld_take :: "nat \<Rightarrow> u8 list \<Rightarrow> u8 list" where
  "ld_take 0 q = []"
| "ld_take (Suc n) [] = []"
| "ld_take (Suc n) (c # q) = c # (if c = NEWLINE then [] else ld_take n q)"

definition tty_abs :: "'a tty_scheme \<Rightarrow> u8 list \<Rightarrow> u8 list \<Rightarrow> bool" where
  "tty_abs s com pen \<longleftrightarrow>
     length (ttyBuffer s) = TTY_BUFFER_SIZE \<and> tty_r s < TTY_BUFFER_SIZE \<and>
     length com + length pen \<le> TTY_BUFFER_SIZE \<and>
     tty_insert s = (tty_r s + (length com + length pen)) mod TTY_BUFFER_SIZE \<and>
     tty_w s = (tty_r s + length com) mod TTY_BUFFER_SIZE \<and>
     (isEmpty s \<longleftrightarrow> com = [] \<and> pen = []) \<and>
     (isFull s \<longleftrightarrow> length com + length pen = TTY_BUFFER_SIZE) \<and>
     (\<forall>k < length com + length pen. ttyBuffer s ! ((tty_r s + k) mod TTY_BUFFER_SIZE) = (com @ pen) ! k) \<and>
     (com \<noteq> [] \<longrightarrow> last com = NEWLINE) \<and> NEWLINE \<notin> set pen"

section \<open>Inserting\<close>

lemma ring_eq_iff:
  fixes k l r m :: nat
  assumes "k < m" "l < m"
  shows "(r + k) mod m = (r + l) mod m \<longleftrightarrow> k = l"
proof -
  have "(r + b) mod m = (r + a) mod m \<longleftrightarrow> b = a" if "a \<le> b" "b < m" for a b
  proof -
    have "(r + b) mod m = (r + a) mod m \<longleftrightarrow> m dvd b - a"
      using that by (subst mod_eq_dvd_iff_nat) auto
    also have "\<dots> \<longleftrightarrow> b = a" using that by (auto dest: dvd_imp_le)
    finally show ?thesis .
  qed
  from this[of k l] this[of l k] assms show ?thesis by (cases "k \<le> l") auto
qed

lemma tty_abs_sends [simp]: "sends bs s s' \<Longrightarrow> tty_abs s' com pen = tty_abs s com pen"
  by (auto simp: sends_def tty_abs_def)

lemma tty_abs_uart [simp]:
  "tty_abs (s\<lparr>lsr_pos := p\<rparr>) com pen = tty_abs s com pen"
  "tty_abs (s\<lparr>uart_writes := ws\<rparr>) com pen = tty_abs s com pen"
  "tty_abs (s\<lparr>rhr_pos := p\<rparr>) com pen = tty_abs s com pen"
  by (simp_all add: tty_abs_def)

lemma tty_store_fields [simp]:
  "ttyBuffer (tty_store c s) = (ttyBuffer s)[tty_insert s := c]"
  "tty_insert (tty_store c s) = (tty_insert s + 1) mod TTY_BUFFER_SIZE"
  "tty_w (tty_store c s) = (if c = NEWLINE then (tty_insert s + 1) mod TTY_BUFFER_SIZE else tty_w s)"
  "tty_r (tty_store c s) = tty_r s" "isEmpty (tty_store c s) = False"
  "isFull (tty_store c s) = (isFull s \<or> (tty_insert s + 1) mod TTY_BUFFER_SIZE = tty_r s)"
  "uart_live (tty_store c s) = uart_live s"
  by (simp_all add: tty_store_def uart_live_def Let_def)

text \<open>Storing a byte appends it to the ring, and the ring is full exactly at 1024 bytes.\<close>

lemma tty_store_ring:
  assumes "tty_abs s com pen" "length com + length pen < TTY_BUFFER_SIZE" "q = (com @ pen) @ [c]"
  shows "(tty_insert s + 1) mod TTY_BUFFER_SIZE = (tty_r s + length q) mod TTY_BUFFER_SIZE"
    "(tty_insert s + 1) mod TTY_BUFFER_SIZE = tty_r s \<longleftrightarrow> length q = TTY_BUFFER_SIZE"
    "k < length q \<Longrightarrow> (ttyBuffer s)[tty_insert s := c] ! ((tty_r s + k) mod TTY_BUFFER_SIZE) = q ! k"
proof -
  let ?L = "length com + length pen"
  from assms have ins: "tty_insert s = (tty_r s + ?L) mod TTY_BUFFER_SIZE"
    and len: "length (ttyBuffer s) = TTY_BUFFER_SIZE" and r: "tty_r s < TTY_BUFFER_SIZE"
    and q: "k < ?L \<Longrightarrow> ttyBuffer s ! ((tty_r s + k) mod TTY_BUFFER_SIZE) = (com @ pen) ! k"
    by (auto simp: tty_abs_def)
  show 1: "(tty_insert s + 1) mod TTY_BUFFER_SIZE = (tty_r s + length q) mod TTY_BUFFER_SIZE"
    by (simp add: ins mod_Suc_eq assms(3))
  have "(tty_r s + length q) mod TTY_BUFFER_SIZE = tty_r s \<longleftrightarrow> length q = TTY_BUFFER_SIZE"
    using r assms(2) ring_eq_iff[of "length q" TTY_BUFFER_SIZE 0 "tty_r s"]
    by (cases "length q = TTY_BUFFER_SIZE") (auto simp: assms(3))
  with 1 show "(tty_insert s + 1) mod TTY_BUFFER_SIZE = tty_r s \<longleftrightarrow> length q = TTY_BUFFER_SIZE" by simp
  show "(ttyBuffer s)[tty_insert s := c] ! ((tty_r s + k) mod TTY_BUFFER_SIZE) = q ! k" if "k < length q"
    using that assms(2) q ring_eq_iff[of k TTY_BUFFER_SIZE ?L "tty_r s"] len
    by (auto simp: ins nth_list_update nth_append less_Suc_eq assms(3))
qed

lemma tty_store_abs:
  assumes "tty_abs s com pen" "length com + length pen < TTY_BUFFER_SIZE"
  shows "c \<noteq> NEWLINE \<Longrightarrow> tty_abs (tty_store c s) com (pen @ [c])"
    and "tty_abs (tty_store NEWLINE s) (com @ pen @ [NEWLINE]) []"
  using assms tty_store_ring[OF assms, of _ c] tty_store_ring[OF assms, of _ NEWLINE]
  by (auto simp: tty_abs_def)

text \<open>The slot before the insert cursor holds the last byte of the ring.\<close>

lemma tty_prev:
  assumes "tty_abs s com pen" "com @ pen \<noteq> []"
  defines "prev \<equiv> (tty_insert s + TTY_BUFFER_SIZE - 1) mod TTY_BUFFER_SIZE"
  shows "prev = (tty_r s + (length com + length pen - 1)) mod TTY_BUFFER_SIZE"
    and "ttyBuffer s ! prev = last (com @ pen)"
proof -
  obtain n where n: "length com + length pen = Suc n"
    using assms(2) by (metis length_append length_greater_0_conv gr0_conv_Suc)
  from assms(1) have N: "0 < TTY_BUFFER_SIZE"
    and ins: "tty_insert s = (tty_r s + Suc n) mod TTY_BUFFER_SIZE" by (auto simp: tty_abs_def n)
  then have "tty_insert s + TTY_BUFFER_SIZE - 1 = (tty_r s + Suc n) mod TTY_BUFFER_SIZE + (TTY_BUFFER_SIZE - 1)"
    by simp
  then have "prev = (tty_r s + Suc n + (TTY_BUFFER_SIZE - 1)) mod TTY_BUFFER_SIZE"
    unfolding prev_def by (simp only: mod_add_left_eq)
  also have "tty_r s + Suc n + (TTY_BUFFER_SIZE - 1) = tty_r s + n + TTY_BUFFER_SIZE" using N by simp
  finally have prev: "prev = (tty_r s + n) mod TTY_BUFFER_SIZE" by simp
  then show "prev = (tty_r s + (length com + length pen - 1)) mod TTY_BUFFER_SIZE" by (simp add: n)
  from assms(1) have "ttyBuffer s ! prev = (com @ pen) ! n" by (simp add: tty_abs_def prev n)
  with assms(2) n show "ttyBuffer s ! prev = last (com @ pen)" by (simp add: last_conv_nth)
qed

lemma tty_backspace_abs:
  assumes "tty_abs s com (pen @ [c])" "\<not> isFull s"
  defines "prev \<equiv> (tty_insert s + TTY_BUFFER_SIZE - 1) mod TTY_BUFFER_SIZE"
  shows "tty_abs (s\<lparr>tty_insert := prev, isEmpty := (prev = tty_r s)\<rparr>) com pen"
proof -
  let ?L = "length com + length pen"
  have prev: "prev = (tty_r s + ?L) mod TTY_BUFFER_SIZE"
    using tty_prev(1)[OF assms(1)] by (simp add: prev_def)
  from assms(1,2) have "?L < TTY_BUFFER_SIZE" "tty_r s < TTY_BUFFER_SIZE" by (auto simp: tty_abs_def)
  then have "prev = tty_r s \<longleftrightarrow> ?L = 0"
    using ring_eq_iff[of ?L TTY_BUFFER_SIZE 0 "tty_r s"] by (simp add: prev)
  then show ?thesis using assms(1,2) by (auto simp: tty_abs_def nth_append prev)
qed

text \<open>What is echoed to the terminal for a character typed.\<close>

definition ld_echo :: "u8 \<Rightarrow> u8 list \<times> u8 list \<Rightarrow> u8 list" where
  "ld_echo c = (\<lambda>(com, pen).
     if length com + length pen = TTY_BUFFER_SIZE then []
     else if c = BACKSPACE then if pen = [] then [] else [8, 32, 8]
     else if c = NEWLINE \<or> c = RETURN_KEY then [NEWLINE] else [c])"

text \<open>Only the terminal and the UART differ between two states.\<close>

definition tty_frame :: "'a tty_scheme \<Rightarrow> 'a tty_scheme \<Rightarrow> bool" where
  "tty_frame s s' \<longleftrightarrow> mem s' = mem s \<and> csr s' = csr s \<and> sym_addr s' = sym_addr s \<and>
     free_ram_begin s' = free_ram_begin s \<and> free_ram_end s' = free_ram_end s \<and> tty.more s' = tty.more s"

lemma sends3:
  assumes "uart_live s"
  shows "\<exists>t. kbind (UartSendBlocking a s) (\<lambda>s. kbind (UartSendBlocking b s) (\<lambda>s.
    kbind (UartSendBlocking c s) f)) = f t \<and> sends [a, b, c] s t"
  using uart.put_all[OF assms, of "[a, b, c]"] by (auto simp: kbind_assoc kres_simps)

lemma insert_backspace:
  assumes "uart_live s" "tty_abs s com pen" "\<not> isFull s"
  shows "\<exists>s'. TtyBufferInsert BACKSPACE s = Inr (True, s') \<and> tty_abs s' com (butlast pen) \<and>
    uart_writes s' = uart_writes s @ map (Pair UART_THR) (if pen = [] then [] else [8, 32, 8]) \<and>
    tty_frame s s' \<and> uart_live s'"
proof (cases pen rule: rev_cases)
  case Nil
  let ?prev = "(tty_insert s + TTY_BUFFER_SIZE - 1) mod TTY_BUFFER_SIZE"
  have "isEmpty s \<or> ttyBuffer s ! ?prev = NEWLINE"
    using assms(2) Nil tty_prev(2)[OF assms(2)] by (cases "com = []") (auto simp: tty_abs_def)
  then have "TtyBufferInsert BACKSPACE s = Inr (True, s)"
    using assms(3) by (auto simp: TtyBufferInsert_def BACKSPACE_def RETURN_KEY_def Let_def)
  with Nil assms show ?thesis by (auto simp: tty_frame_def)
next
  case (snoc xs x)
  let ?prev = "(tty_insert s + TTY_BUFFER_SIZE - 1) mod TTY_BUFFER_SIZE"
  have ne: "\<not> isEmpty s" "ttyBuffer s ! ?prev \<noteq> NEWLINE"
    using assms(2) snoc tty_prev(2)[OF assms(2)] by (auto simp: tty_abs_def)
  let ?f = "\<lambda>t :: 'a tty_scheme. Inr (True, if tty_insert t = tty_r t then t\<lparr>isEmpty := True\<rparr> else t)"
  have "uart_live (s\<lparr>tty_insert := ?prev\<rparr>)" using assms(1) by (simp add: uart_live_def)
  from sends3[OF this, of 8 32 8 ?f]
  obtain t where t: "TtyBufferInsert BACKSPACE s = ?f t" "sends [8, 32, 8] (s\<lparr>tty_insert := ?prev\<rparr>) t"
    using assms(3) ne by (auto simp: TtyBufferInsert_def BACKSPACE_def RETURN_KEY_def Let_def)
  from t(2) obtain p where p: "t = s\<lparr>tty_insert := ?prev, lsr_pos := p,
      uart_writes := uart_writes s @ map (Pair UART_THR) [8, 32, 8]\<rparr>" by (auto simp: sends_def)
  define u where "u = s\<lparr>tty_insert := ?prev, isEmpty := (?prev = tty_r s)\<rparr>"
  have "(if tty_insert t = tty_r t then t\<lparr>isEmpty := True\<rparr> else t) =
      u\<lparr>lsr_pos := p, uart_writes := uart_writes s @ map (Pair UART_THR) [8, 32, 8]\<rparr>" (is "_ = ?u")
    using ne(1) by (simp add: p u_def)
  moreover have "tty_abs u com xs"
    using tty_backspace_abs[of s com xs x] assms(2,3) snoc by (simp add: u_def)
  moreover have "tty_frame s ?u" "uart_live ?u"
    using assms(1) by (simp_all add: tty_frame_def uart_live_def u_def)
  ultimately show ?thesis using t(1) snoc by simp
qed

lemma insert_char:
  assumes "uart_live s" "tty_abs s com pen" "\<not> isFull s" "c \<noteq> BACKSPACE"
  defines "c' \<equiv> if c = RETURN_KEY then NEWLINE else c"
  shows "\<exists>s'. TtyBufferInsert c s = Inr (True, s') \<and>
    (if c' = NEWLINE then tty_abs s' (com @ pen @ [NEWLINE]) [] else tty_abs s' com (pen @ [c])) \<and>
    uart_writes s' = uart_writes s @ [(UART_THR, c')] \<and> tty_frame s s' \<and> uart_live s'"
proof -
  have room: "length com + length pen < TTY_BUFFER_SIZE"
    using assms(2,3) by (auto simp: tty_abs_def le_less)
  have c': "c' \<noteq> BACKSPACE" using assms(4) by (simp add: c'_def BACKSPACE_def NEWLINE_def)
  have "uart_live (tty_store c' s)" using assms(1) by simp
  from UartSendBlocking_sends[OF this, of c'] obtain t
    where t: "UartSendBlocking c' (tty_store c' s) = Inr t" "sends [c'] (tty_store c' s) t" by blast
  have ins: "TtyBufferInsert c s = Inr (True, t)"
    using assms(3) c' t(1) by (simp add: TtyBufferInsert_def Let_def c'_def [symmetric])
  have abs: "if c' = NEWLINE then tty_abs t (com @ pen @ [NEWLINE]) [] else tty_abs t com (pen @ [c])"
    using tty_store_abs(1)[OF assms(2) room, of c'] tty_store_abs(2)[OF assms(2) room] t(2)
    by (auto simp: c'_def)
  have "uart_writes (tty_store c' s) = uart_writes s" "tty_frame s (tty_store c' s)"
    by (simp_all add: tty_store_def tty_frame_def Let_def)
  then have "uart_writes t = uart_writes s @ [(UART_THR, c')]" "tty_frame s t"
    using t(2) by (auto simp: sends_def tty_frame_def)
  moreover have "uart_live t" using t(2) assms(1) by simp
  ultimately show ?thesis using ins abs by blast
qed

lemma TtyBufferInsert_step:
  assumes "uart_live s" and "tty_abs s com pen"
  shows "\<exists>s'. TtyBufferInsert c s = Inr (fst (ld_insert c (com, pen)), s') \<and>
    tty_abs s' (fst (snd (ld_insert c (com, pen)))) (snd (snd (ld_insert c (com, pen)))) \<and>
    uart_writes s' = uart_writes s @ map (Pair UART_THR) (ld_echo c (com, pen)) \<and>
    tty_frame s s' \<and> uart_live s'"
proof -
  have full: "isFull s \<longleftrightarrow> length com + length pen = TTY_BUFFER_SIZE"
    using assms(2) by (simp add: tty_abs_def)
  consider "isFull s" | "\<not> isFull s" "c = BACKSPACE" | "\<not> isFull s" "c \<noteq> BACKSPACE" by blast
  then show ?thesis
  proof cases
    case 1
    then show ?thesis using assms full
      by (simp add: TtyBufferInsert_def ld_insert_def ld_echo_def tty_frame_def)
  next
    case 2
    with insert_backspace[OF assms] full show ?thesis by (simp add: ld_insert_def ld_echo_def)
  next
    case 3
    with insert_char[OF assms, of c] full show ?thesis
      by (auto simp: ld_insert_def ld_echo_def split: if_splits)
  qed
qed
text \<open>The static initial values of the terminal, on a machine whose UART is idle and whose memory is blank.\<close>

definition tty_static :: tty where
  "tty_static = \<lparr>lsr_at = \<lambda>_. 0x20, lsr_pos = 0, rhr_at = \<lambda>_. 0, rhr_pos = 0, uart_writes = [],
     mem = \<lambda>_. 0, csr = \<lambda>_. 0, sym_addr = \<lambda>_. 0, free_ram_begin = 0x80100000, free_ram_end = 0x88000000,
     ttyBuffer = replicate 1024 0, isEmpty = True, isFull = False, tty_r = 0, tty_w = 0, tty_insert = 0\<rparr>"

lemma tty_static_abs [simp]: "tty_abs tty_static [] []"
  by (simp add: tty_abs_def tty_static_def TTY_BUFFER_SIZE_def)

lemma tty_static_live [simp]: "uart_live tty_static"
  by (auto simp: uart_live_def tty_static_def UART_LSR_TX_IDLE_def)

text \<open>
  C2: \<open>TtyBufferInsert\<close> implements the line editor: on every character it returns, updates the
  committed and pending bytes as the specification says, rejects exactly when 1024 bytes are
  held, echoes the specified bytes and touches nothing else.
\<close>

theorem TtyBufferInsert_refines:
  assumes "uart_live s" and "tty_abs s com pen"
  shows "\<exists>s'. TtyBufferInsert c s = Inr (fst (ld_insert c (com, pen)), s') \<and>
    tty_abs s' (fst (snd (ld_insert c (com, pen)))) (snd (snd (ld_insert c (com, pen)))) \<and>
    uart_writes s' = uart_writes s @ map (Pair UART_THR) (ld_echo c (com, pen)) \<and>
    tty_frame s s' \<and> uart_live s'"
  by (rule TtyBufferInsert_step[OF assms])

theorem TtyBufferInsert_refines_witness:
  "\<exists>s'. TtyBufferInsert 65 tty_static = Inr (True, s') \<and> tty_abs s' [] [65] \<and>
     uart_writes s' = [(UART_THR, 65)]"
  using TtyBufferInsert_refines[OF tty_static_live tty_static_abs, of 65]
  by (auto simp: ld_insert_def ld_echo_def TTY_BUFFER_SIZE_def BACKSPACE_def NEWLINE_def RETURN_KEY_def
      tty_static_def)

section \<open>Reading\<close>

text \<open>
  A user buffer of \<open>n\<close> bytes at virtual address \<open>dest\<close>: byte \<open>i\<close> is mapped writable to the physical
  address \<open>pa i\<close>, and stays so whatever is stored in the buffer.
\<close>

definition user_buffer :: "'a machine_scheme \<Rightarrow> addr \<Rightarrow> nat \<Rightarrow> (nat \<Rightarrow> addr) \<Rightarrow> bool" where
  "user_buffer s dest n pa \<longleftrightarrow>
     (\<forall>m. (\<forall>a. a \<notin> pa ` {..<n} \<longrightarrow> m a = mem s a) \<longrightarrow>
        (\<forall>i < n. mmu_translate (s\<lparr>mem := m\<rparr>) Store (dest + of_nat i) = Some (pa i)))"

primrec put_bytes :: "(nat \<Rightarrow> addr) \<Rightarrow> nat \<Rightarrow> u8 list \<Rightarrow> (addr \<Rightarrow> u8) \<Rightarrow> (addr \<Rightarrow> u8)" where
  "put_bytes pa i [] m = m"
| "put_bytes pa i (b # bs) m = put_bytes pa (Suc i) bs (m(pa i := b))"

lemma bare_user_buffer: "csr s Satp = 0 \<Longrightarrow> user_buffer s dest n (\<lambda>i. dest + of_nat i)"
  by (simp add: user_buffer_def mmu_translate_def)

lemma mmu_translate_cong:
  "csr s = csr t \<Longrightarrow> mem s = mem t \<Longrightarrow> mmu_translate s acc va = mmu_translate t acc va"
  by (simp add: mmu_translate_def Let_def)

lemma user_buffer_ustore8:
  assumes "user_buffer s dest n pa" "i < n" "csr t = csr s" "mem t = mem s"
  shows "ustore8 (dest + of_nat i) v t = Inr (t\<lparr>mem := (mem t)(pa i := v)\<rparr>)"
proof -
  have "mmu_translate (s\<lparr>mem := mem s\<rparr>) Store (dest + of_nat i) = Some (pa i)"
    using assms(1,2) unfolding user_buffer_def by blast
  then have "mmu_translate t Store (dest + of_nat i) = Some (pa i)"
    using mmu_translate_cong[of t s] assms(3,4) by simp
  then show ?thesis by (simp add: ustore8_def)
qed

lemma mmu_store_load: "mmu_translate s Store va = Some pa \<Longrightarrow> mmu_translate s Load va = Some pa"
  by (auto simp: mmu_translate_def Let_def sv32_permits_def split: if_splits)

lemma user_buffer_uload8:
  assumes "user_buffer s dest n pa" "i < n"
  shows "uload8 (dest + of_nat i) s = Inr (mem s (pa i))"
proof -
  have "mmu_translate (s\<lparr>mem := mem s\<rparr>) Store (dest + of_nat i) = Some (pa i)"
    using assms unfolding user_buffer_def by blast
  then show ?thesis using mmu_store_load[of s "dest + of_nat i" "pa i"] by (simp add: uload8_def)
qed

lemma user_buffer_step:
  assumes "user_buffer s dest n pa" "i < n" "csr t = csr s" "mem t = (mem s)(pa i := v)"
  shows "user_buffer t dest n pa"
  unfolding user_buffer_def
proof (intro allI impI)
  fix m j assume m: "\<forall>a. a \<notin> pa ` {..<n} \<longrightarrow> m a = mem t a" and j: "j < n"
  have "\<forall>a. a \<notin> pa ` {..<n} \<longrightarrow> m a = mem s a" using m assms(2,4) by auto
  with assms(1) j have "mmu_translate (s\<lparr>mem := m\<rparr>) Store (dest + of_nat j) = Some (pa j)"
    unfolding user_buffer_def by blast
  then show "mmu_translate (t\<lparr>mem := m\<rparr>) Store (dest + of_nat j) = Some (pa j)"
    using mmu_translate_cong[of "t\<lparr>mem := m\<rparr>" "s\<lparr>mem := m\<rparr>"] assms(3) by simp
qed

lemma ld_take_length: "length (ld_take n q) \<le> n" "length (ld_take n q) \<le> length q"
  by (induction n q rule: ld_take.induct) auto

lemma ld_take_prefix: "ld_take n q = take (length (ld_take n q)) q"
  by (induction n q rule: ld_take.induct) auto

lemma tty_read_loop:
  assumes "tty_r t < TTY_BUFFER_SIZE" "length com < TTY_BUFFER_SIZE"
    and "tty_w t = (tty_r t + length com) mod TTY_BUFFER_SIZE"
    and "\<And>k. k < length com \<Longrightarrow> ttyBuffer t ! ((tty_r t + k) mod TTY_BUFFER_SIZE) = com ! k"
    and "\<not> isEmpty t" "user_buffer t dest (unat n) pa" "i \<le> unat n"
  shows "\<exists>brk. kwhile (tty_read_guard n) (tty_read_body dest) (i, False, t) =
    (let out = ld_take (unat n - i) com in
     Inr (i + length out, brk, t\<lparr>mem := put_bytes pa i out (mem t), isFull := (isFull t \<and> out = []),
       tty_r := (tty_r t + length out) mod TTY_BUFFER_SIZE\<rparr>))"
  using assms
proof (induction com arbitrary: t i)
  case Nil
  then have "\<not> tty_read_guard n (i, False, t)" by (simp add: tty_read_guard_def)
  then show ?case using Nil by (cases "unat n - i") auto
next
  case (Cons c com)
  have rw: "tty_r t \<noteq> tty_w t"
    using ring_eq_iff[of 0 TTY_BUFFER_SIZE "length (c # com)" "tty_r t"] Cons.prems(1-3) by auto
  show ?case
  proof (cases "i < unat n")
    case False
    then have "\<not> tty_read_guard n (i, False, t)" by (simp add: tty_read_guard_def)
    then show ?thesis using False Cons.prems(1,7) by (auto intro!: exI[of _ False])
  next
    case True
    let ?t = "t\<lparr>isFull := False, mem := (mem t)(pa i := c), tty_r := (tty_r t + 1) mod TTY_BUFFER_SIZE\<rparr>"
    obtain k where k: "unat n - i = Suc k" "unat n - Suc i = k" using True by (metis Suc_diff_Suc)
    have g: "tty_read_guard n (i, False, t)" using True rw Cons.prems(5) by (simp add: tty_read_guard_def)
    have c: "ttyBuffer t ! tty_r t = c" using Cons.prems(1) Cons.prems(4)[of 0] by simp
    have ub: "user_buffer ?t dest (unat n) pa"
      by (rule user_buffer_step[OF Cons.prems(6) True]) simp_all
    have b: "tty_read_body dest (i, False, t) = Inr (i + 1, c = NEWLINE, ?t)"
      using user_buffer_ustore8[OF Cons.prems(6) True, of "t\<lparr>isFull := False\<rparr>" c] user_buffer_uload8[OF ub True]
      by (simp add: tty_read_body_def Let_def c)
    show ?thesis
    proof (cases "c = NEWLINE")
      case nl: True
      then have "\<not> tty_read_guard n (i + 1, c = NEWLINE, ?t)" by (simp add: tty_read_guard_def)
      then show ?thesis
        using nl k by (auto simp: kwhile_step[where b = "tty_read_guard n", OF g] b intro!: exI[of _ True])
    next
      case False
      note ub
      moreover have "ttyBuffer ?t ! ((tty_r ?t + k) mod TTY_BUFFER_SIZE) = com ! k" if "k < length com" for k
        using Cons.prems(4)[of "Suc k"] that by (simp add: mod_add_left_eq)
      moreover have "tty_w ?t = (tty_r ?t + length com) mod TTY_BUFFER_SIZE"
        using Cons.prems(3) by (simp add: mod_add_left_eq)
      ultimately have "\<exists>brk. kwhile (tty_read_guard n) (tty_read_body dest) (i + 1, False, ?t) =
        (let out = ld_take (unat n - (i + 1)) com in
         Inr (i + 1 + length out, brk, ?t\<lparr>mem := put_bytes pa (i + 1) out (mem ?t), isFull := (isFull ?t \<and> out = []),
           tty_r := (tty_r ?t + length out) mod TTY_BUFFER_SIZE\<rparr>))"
        using Cons.prems True by (intro Cons.IH) auto
      then show ?thesis
        using False k by (simp add: kwhile_step[where b = "tty_read_guard n", OF g] b mod_add_left_eq Let_def)
    qed
  qed
qed
lemma tty_abs_bound: "tty_abs s com pen \<Longrightarrow> length com + length pen \<le> TTY_BUFFER_SIZE"
  by (simp add: tty_abs_def)

lemma tty_advance:
  fixes s :: "'a tty_scheme" and m :: "addr \<Rightarrow> u8"
  assumes "tty_abs s com pen" "j \<le> length com" "\<not> isEmpty s"
    "length com + length pen = TTY_BUFFER_SIZE \<Longrightarrow> 0 < j"
  defines "t \<equiv> s\<lparr>mem := m, isFull := (isFull s \<and> j = 0), tty_r := (tty_r s + j) mod TTY_BUFFER_SIZE\<rparr>"
  shows "tty_abs (if tty_r t = tty_insert t then t\<lparr>isEmpty := True\<rparr> else t) (drop j com) pen"
proof -
  let ?N = TTY_BUFFER_SIZE
  let ?L = "length com + length pen"
  from assms(1) have abs: "tty_r s < ?N" "?L \<le> ?N" "tty_insert s = (tty_r s + ?L) mod ?N"
    "tty_w s = (tty_r s + length com) mod ?N" "isFull s \<longleftrightarrow> ?L = ?N"
    and q: "\<And>k. k < ?L \<Longrightarrow> ttyBuffer s ! ((tty_r s + k) mod ?N) = (com @ pen) ! k"
    by (auto simp: tty_abs_def)
  have lt: "?L - j < ?N" using assms(2,4) abs(1,2) by (cases "?L = ?N") auto
  obtain d where d: "?L = j + d" using assms(2) le_Suc_ex[of j ?L] by auto
  have ins: "tty_insert t = (tty_r t + (?L - j)) mod ?N"
    using abs(3) unfolding d by (simp add: t_def mod_add_left_eq add.assoc)
  have eq: "tty_r t = tty_insert t \<longleftrightarrow> ?L = j"
  proof -
    have "tty_r t mod ?N = tty_r t" by (simp add: t_def)
    then have "tty_r t = tty_insert t \<longleftrightarrow> (tty_r t + 0) mod ?N = (tty_r t + (?L - j)) mod ?N"
      by (simp add: ins)
    also have "\<dots> \<longleftrightarrow> ?L = j"
      using ring_eq_iff[of 0 ?N "?L - j" "tty_r t"] lt assms(2) abs(1) by auto
    finally show ?thesis .
  qed
  have buf: "ttyBuffer s ! ((tty_r t + k) mod ?N) = (drop j com @ pen) ! k" if "k < ?L - j" for k
  proof -
    have "(drop j com @ pen) ! k = (com @ pen) ! (j + k)"
      using assms(2) by (cases "k < length com - j") (auto simp: nth_append add.commute)
    then show ?thesis using that q[of "j + k"] by (simp add: t_def mod_add_left_eq add.assoc)
  qed
  have w: "tty_w t = (tty_r t + length (drop j com)) mod ?N"
    using assms(2) abs(4) le_Suc_ex[of j "length com"]
    by (auto simp: t_def mod_add_left_eq add.assoc)
  have nl: "last (drop j com) = NEWLINE" if "drop j com \<noteq> []"
    using that assms(1) by (auto simp: tty_abs_def last_drop)
  let ?u = "if tty_r t = tty_insert t then t\<lparr>isEmpty := True\<rparr> else t"
  have u: "ttyBuffer ?u = ttyBuffer s" "tty_r ?u = tty_r t" "tty_w ?u = tty_w t"
    "tty_insert ?u = tty_insert t" "isFull ?u = isFull t" "isEmpty ?u \<longleftrightarrow> ?L = j"
    using assms(3) by (simp_all add: eq) (simp_all add: t_def)
  have "isFull t \<longleftrightarrow> ?L - j = ?N" using lt assms(4) abs(5) by (auto simp: t_def)
  moreover have "?L = j \<longleftrightarrow> drop j com = [] \<and> pen = []" using assms(2) by auto
  moreover have "tty_r t < ?N" using abs(1) by (simp add: t_def)
  moreover have "length (drop j com) + length pen = ?L - j" using assms(2) by simp
  moreover have "length (ttyBuffer s) = ?N" "NEWLINE \<notin> set pen" using assms(1) by (simp_all add: tty_abs_def)
  ultimately show ?thesis
    unfolding tty_abs_def u using buf w nl ins lt by simp
qed

text \<open>A terminal that holds one complete line of two bytes, and a full one with no complete line.\<close>

definition tty_line :: tty where
  "tty_line = tty_static\<lparr>ttyBuffer := 65 # 10 # replicate 1022 0, isEmpty := False, tty_w := 2, tty_insert := 2\<rparr>"

definition tty_full :: tty where
  "tty_full = tty_static\<lparr>ttyBuffer := replicate 1024 65, isEmpty := False, isFull := True\<rparr>"

lemma tty_line_abs: "tty_abs tty_line [65, 10] []"
  by (auto simp: tty_abs_def tty_line_def tty_static_def TTY_BUFFER_SIZE_def NEWLINE_def less_Suc_eq numeral_2_eq_2)

lemma tty_full_abs: "tty_abs tty_full [] (replicate 1024 65)"
  by (simp add: tty_abs_def tty_full_def tty_static_def TTY_BUFFER_SIZE_def NEWLINE_def)

lemma TtyRead_step:
  assumes "tty_abs s com pen" and "user_buffer s dest (unat n) pa"
    and "length com + length pen = TTY_BUFFER_SIZE \<Longrightarrow> com \<noteq> [] \<and> pen \<noteq> [] \<and> n \<noteq> 0"
  defines "out \<equiv> ld_take (unat n) com"
  shows "\<exists>s'. TtyRead dest n s = Inr (of_nat (length out), s') \<and>
    tty_abs s' (drop (length out) com) pen \<and> mem s' = put_bytes pa 0 out (mem s) \<and>
    uart_writes s' = uart_writes s \<and> tty.more s' = tty.more s"
proof (cases "isEmpty s")
  case True
  with assms(1) have "com = []" "pen = []" by (auto simp: tty_abs_def)
  moreover have "out = []" using \<open>com = []\<close> by (cases "unat n") (simp_all add: out_def)
  ultimately show ?thesis using True assms(1) by (simp add: TtyRead_def)
next
  case False
  let ?j = "length out"
  let ?t = "s\<lparr>mem := put_bytes pa 0 out (mem s), isFull := (isFull s \<and> ?j = 0),
    tty_r := (tty_r s + ?j) mod TTY_BUFFER_SIZE\<rparr>"
  have ring: "tty_r s < TTY_BUFFER_SIZE" "tty_w s = (tty_r s + length com) mod TTY_BUFFER_SIZE"
    "\<And>k. k < length com \<Longrightarrow> ttyBuffer s ! ((tty_r s + k) mod TTY_BUFFER_SIZE) = com ! k"
    and "length com \<le> TTY_BUFFER_SIZE - length pen"
    using assms(1) by (auto simp: tty_abs_def nth_append)
  then have "length com < TTY_BUFFER_SIZE"
    using assms(3) length_greater_0_conv[of pen] tty_abs_bound[OF assms(1)]
    by (cases "length com + length pen = TTY_BUFFER_SIZE") linarith+
  then obtain brk where
    "kwhile (tty_read_guard n) (tty_read_body dest) (0, False, s) = Inr (?j, brk, ?t)"
    using ring tty_read_loop[OF ring(1) _ ring(2,3) False assms(2), of 0] by (auto simp: out_def Let_def)
  then have "TtyRead dest n s = Inr (of_nat ?j, if tty_r ?t = tty_insert ?t then ?t\<lparr>isEmpty := True\<rparr> else ?t)"
    using False by (simp add: TtyRead_def)
  moreover have "0 < ?j" if "length com + length pen = TTY_BUFFER_SIZE"
  proof -
    from assms(3)[OF that] obtain c q where "com = c # q" "n \<noteq> 0" by (cases com) auto
    then show ?thesis by (cases "unat n") (simp_all add: out_def unat_eq_0)
  qed
  ultimately show ?thesis
    using tty_advance[OF assms(1) _ False, of ?j "put_bytes pa 0 out (mem s)"] ld_take_length(2)[of "unat n" com]
    by (simp add: out_def [symmetric])
qed

text \<open>
  C3: \<open>TtyRead\<close> hands out the next bytes of the completed lines: up to the first newline and at
  most \<open>n\<close>, in the order typed, stored byte by byte into the user buffer; the rest of the
  terminal is as the specification says. A full buffer must hold both a completed line and an
  unfinished one, and the request must not be empty.
\<close>

theorem TtyRead_refines:
  assumes "tty_abs s com pen" and "user_buffer s dest (unat n) pa"
    and "length com + length pen = TTY_BUFFER_SIZE \<Longrightarrow> com \<noteq> [] \<and> pen \<noteq> [] \<and> n \<noteq> 0"
  defines "out \<equiv> ld_take (unat n) com"
  shows "\<exists>s'. TtyRead dest n s = Inr (of_nat (length out), s') \<and>
    tty_abs s' (drop (length out) com) pen \<and> mem s' = put_bytes pa 0 out (mem s) \<and>
    uart_writes s' = uart_writes s \<and> tty.more s' = tty.more s"
  unfolding out_def by (rule TtyRead_step[OF assms(1-3)])

theorem TtyRead_refines_witness:
  "\<exists>s'. TtyRead 0x1000 100 tty_line = Inr (2, s') \<and> mem s' 0x1000 = 65 \<and> mem s' 0x1001 = 10"
proof -
  have ub: "user_buffer tty_line 0x1000 (unat (100 :: u32)) (\<lambda>i. 0x1000 + of_nat i)"
    by (rule bare_user_buffer) (simp add: tty_line_def tty_static_def)
  have "ld_take (Suc (Suc 98)) [65, 10] = [65, 10]" by (simp only: ld_take.simps) (simp add: NEWLINE_def)
  moreover have "unat (100 :: u32) = Suc (Suc 98)" by simp
  ultimately have "ld_take (unat (100 :: u32)) [65, 10] = [65, 10]" by (simp only:)
  then show ?thesis
    using TtyRead_refines[OF tty_line_abs ub] by (force simp: TTY_BUFFER_SIZE_def)
qed

text \<open>
  C31: a full buffer that holds no completed line, or only completed lines, or is read with
  length 0, wedges the terminal: the read returns nothing and from then on every character is
  rejected and every read returns nothing.
\<close>

theorem TtyRead_wedges:
  assumes "tty_abs s com pen" and "length com + length pen = TTY_BUFFER_SIZE"
    and "com = [] \<or> pen = [] \<or> n = 0"
  shows "\<exists>s'. TtyRead dest n s = Inr (0, s') \<and>
    (\<forall>c. TtyBufferInsert c s' = Inr (False, s')) \<and> (\<forall>d k. TtyRead d k s' = Inr (0, s'))"
proof -
  have ring: "tty_w s = (tty_r s + length com) mod TTY_BUFFER_SIZE" "tty_insert s = tty_r s"
    "\<not> isEmpty s" "isFull s" "tty_r s < TTY_BUFFER_SIZE"
    using assms(1,2) by (auto simp: tty_abs_def)
  then have "tty_w s = tty_r s \<or> n = 0" using assms(2,3) by auto
  then have "\<not> tty_read_guard n (0, False, s)" by (auto simp: tty_read_guard_def)
  then have "TtyRead dest n s = Inr (0, s\<lparr>isEmpty := True\<rparr>)"
    using ring by (simp add: TtyRead_def)
  then show ?thesis using ring by (simp add: TtyRead_def TtyBufferInsert_def)
qed

theorem TtyRead_wedges_witness:
  "\<exists>s'. TtyRead 0x1000 100 tty_full = Inr (0, s') \<and> TtyBufferInsert 65 s' = Inr (False, s')"
  using TtyRead_wedges[OF tty_full_abs, where n = 100 and dest = "0x1000"] by (auto simp: TTY_BUFFER_SIZE_def)

section \<open>Interface\<close>

text \<open>What a typist relies on: characters are accepted one at a time by the line editor.\<close>

locale line_discipline =
  fixes ins :: "u8 \<Rightarrow> 's \<Rightarrow> (bool \<times> 's) kres"
    and abs :: "'s \<Rightarrow> u8 list \<Rightarrow> u8 list \<Rightarrow> bool"
    and live :: "'s \<Rightarrow> bool"
    and fr :: "'s \<Rightarrow> 's \<Rightarrow> bool"
  assumes fr_refl: "fr s s" and fr_trans: "fr s t \<Longrightarrow> fr t u \<Longrightarrow> fr s u"
    and ins_step: "live s \<Longrightarrow> abs s com pen \<Longrightarrow> ld_insert c (com, pen) = (ok, com', pen') \<Longrightarrow>
    \<exists>s'. ins c s = Inr (ok, s') \<and> abs s' com' pen' \<and> live s' \<and> fr s s'"
begin

lemma type_text:
  assumes "live s" "abs s com pen" "set bs \<inter> {NEWLINE, RETURN_KEY, BACKSPACE} = {}"
    "length com + length pen + length bs \<le> TTY_BUFFER_SIZE"
  shows "\<exists>s'. kfold (\<lambda>c s. kbind (ins c s) (\<lambda>(_, s). Inr s)) bs s = Inr s' \<and> abs s' com (pen @ bs) \<and> live s' \<and> fr s s'"
  using assms
proof (induction bs arbitrary: s pen)
  case (Cons b bs)
  then have "ld_insert b (com, pen) = (True, com, pen @ [b])" by (auto simp: ld_insert_def)
  from ins_step[OF Cons.prems(1,2) this] obtain t
    where t: "ins b s = Inr (True, t)" "abs t com (pen @ [b])" "live t" "fr s t" by blast
  with Cons.IH[of t "pen @ [b]"] Cons.prems show ?case by (auto intro: fr_trans)
qed (simp add: fr_refl)

lemma type_line:
  assumes "live s" "abs s com []" "set bs \<inter> {NEWLINE, RETURN_KEY, BACKSPACE} = {}"
    "length com + length bs < TTY_BUFFER_SIZE"
  shows "\<exists>s'. kfold (\<lambda>c s. kbind (ins c s) (\<lambda>(_, s). Inr s)) (bs @ [RETURN_KEY]) s = Inr s' \<and>
    abs s' (com @ bs @ [NEWLINE]) [] \<and> live s' \<and> fr s s'"
proof -
  from type_text[OF assms(1,2,3)] assms(4) obtain t where
    t: "kfold (\<lambda>c s. kbind (ins c s) (\<lambda>(_, s). Inr s)) bs s = Inr t" "abs t com bs" "live t" "fr s t" by auto
  have "ld_insert RETURN_KEY (com, bs) = (True, com @ bs @ [NEWLINE], [])"
    using assms(4) by (simp add: ld_insert_def RETURN_KEY_def BACKSPACE_def)
  from ins_step[OF t(3,2) this] show ?thesis using t(1,4) by (auto simp: kfold_append intro: fr_trans)
qed

end

interpretation tty: line_discipline TtyBufferInsert tty_abs uart_live tty_frame
proof
  fix s t u :: "'a tty_scheme"
  show "tty_frame s s" by (simp add: tty_frame_def)
  assume "tty_frame s t" "tty_frame t u"
  then show "tty_frame s u" by (simp add: tty_frame_def)
next
  fix s :: "'a tty_scheme" and com pen c ok com' pen'
  assume "uart_live s" "tty_abs s com pen" "ld_insert c (com, pen) = (ok, com', pen')"
  with TtyBufferInsert_step[of s com pen c]
  show "\<exists>s'. TtyBufferInsert c s = Inr (ok, s') \<and> tty_abs s' com' pen' \<and> uart_live s' \<and> tty_frame s s'" by auto
qed

definition tty_type :: "u8 list \<Rightarrow> 'a tty_scheme \<Rightarrow> 'a tty_scheme kres" where
  "tty_type = kfold (\<lambda>c s. kbind (TtyBufferInsert c s) (\<lambda>(_, s). Inr s))"

lemma user_buffer_frame: "tty_frame s t \<Longrightarrow> user_buffer t dest n pa = user_buffer s dest n pa"
proof -
  assume fr: "tty_frame s t"
  have "mmu_translate (t\<lparr>mem := m\<rparr>) Store va = mmu_translate (s\<lparr>mem := m\<rparr>) Store va" for m va
    by (rule mmu_translate_cong) (use fr in \<open>simp_all add: tty_frame_def\<close>)
  then show ?thesis using fr by (simp add: user_buffer_def tty_frame_def)
qed

lemma ld_take_line:
  "NEWLINE \<notin> set bs \<Longrightarrow> length bs < n \<Longrightarrow> ld_take n (bs @ NEWLINE # q) = bs @ [NEWLINE]"
proof (induction bs arbitrary: n)
  case Nil
  then show ?case by (cases n) simp_all
next
  case (Cons b bs)
  then show ?case by (cases n) auto
qed

text \<open>
  C30: a line typed on an idle terminal and ended with the return key is what the next read
  delivers, newline included, into the user buffer; after it the terminal is empty again.
\<close>

theorem tty_line_roundtrip:
  assumes "uart_live s" "tty_abs s [] []" "set bs \<inter> {NEWLINE, RETURN_KEY, BACKSPACE} = {}"
    "length bs + 1 < TTY_BUFFER_SIZE" "length bs < unat n" "user_buffer s dest (unat n) pa"
  shows "\<exists>s' t. tty_type (bs @ [RETURN_KEY]) s = Inr s' \<and> TtyRead dest n s' = Inr (of_nat (length bs + 1), t) \<and>
    mem t = put_bytes pa 0 (bs @ [NEWLINE]) (mem s) \<and> tty_abs t [] []"
proof -
  from tty.type_line[OF assms(1-3)] assms(4) obtain s'
    where s': "tty_type (bs @ [RETURN_KEY]) s = Inr s'" "tty_abs s' (bs @ [NEWLINE]) []" "tty_frame s s'"
    by (auto simp: tty_type_def)
  have "ld_take (unat n) (bs @ [NEWLINE]) = bs @ [NEWLINE]"
    using ld_take_line[of bs "unat n" "[]"] assms(3,5) by auto
  then have "\<exists>t. TtyRead dest n s' = Inr (of_nat (length bs + 1), t) \<and>
      mem t = put_bytes pa 0 (bs @ [NEWLINE]) (mem s') \<and> tty_abs t [] []"
    using TtyRead_step[OF s'(2), of dest n pa] assms(4,6) user_buffer_frame[OF s'(3), of dest "unat n" pa] by auto
  then show ?thesis using s'(1,3) by (auto simp: tty_frame_def)
qed

theorem tty_line_roundtrip_witness:
  "\<exists>s' t. tty_type [104, 105, RETURN_KEY] tty_static = Inr s' \<and> TtyRead 0x1000 100 s' = Inr (3, t) \<and>
     mem t 0x1000 = 104 \<and> mem t 0x1001 = 105 \<and> mem t 0x1002 = NEWLINE \<and> tty_abs t [] []"
proof -
  have "user_buffer tty_static 0x1000 (unat (100 :: u32)) (\<lambda>i. 0x1000 + of_nat i)"
    by (rule bare_user_buffer) (simp add: tty_static_def)
  from tty_line_roundtrip[OF tty_static_live tty_static_abs _ _ _ this, of "[104, 105]"] show ?thesis
    by (force simp: TTY_BUFFER_SIZE_def NEWLINE_def RETURN_KEY_def BACKSPACE_def)
qed

end
