(* ===== verification/Klibc.thy ===== *)
theory Klibc
  imports Machine
begin

text \<open>
  The freestanding C library of \<^verbatim>\<open>src/kernel/klibc.c\<close> over the byte memory: \<open>memcpy\<close>, \<open>memmove\<close>,
  \<open>memset\<close>, \<open>memcmp\<close> and \<open>strcmp\<close>. Copies run byte by byte in the order of the source, so
  overlapping regions behave as the code does. A string argument of \<open>strcmp\<close> is a reader that
  gives the byte at each offset or fails, since the kernel compares strings of user memory with
  strings of its own tables.
\<close>

section \<open>Definitions\<close>

text \<open>The loop \<^verbatim>\<open>for (i = 0; i < n; i++) d[i] = s[i]\<close>, shared by \<open>memcpy\<close> and \<open>memmove\<close>.\<close>

primrec copy_loop :: "nat \<Rightarrow> addr \<Rightarrow> addr \<Rightarrow> (addr \<Rightarrow> u8) \<Rightarrow> (addr \<Rightarrow> u8)" where
  "copy_loop 0 d s m = m"
| "copy_loop (Suc i) d s m =
     (let m' = copy_loop i d s m in m'(d + of_nat i := m' (s + of_nat i)))"

definition memcpy :: "addr \<Rightarrow> addr \<Rightarrow> u32 \<Rightarrow> (addr \<Rightarrow> u8) \<Rightarrow> (addr \<Rightarrow> u8)" where
  "memcpy d s sz m = copy_loop (unat sz) d s m"

definition memmove :: "addr \<Rightarrow> addr \<Rightarrow> u32 \<Rightarrow> (addr \<Rightarrow> u8) \<Rightarrow> (addr \<Rightarrow> u8) kres" where
  "memmove d s n m =
     (if d = s then Inr m
      else if d < s then
        Inr (copy_loop (unat n) d s m)
      else
        kbind (kwhile (\<lambda>(i, m). n \<ge> 0) (\<lambda>(i, m). Inr (i - 1, m(d + i := m (s + i)))) (n - 1, m))
          (\<lambda>(i, m). Inr m))"

text \<open>The counter of \<open>memset\<close> is a signed \<open>int\<close>, compared as unsigned: it must not be increased beyond its largest value.\<close>

definition memset :: "addr \<Rightarrow> u32 \<Rightarrow> u32 \<Rightarrow> (addr \<Rightarrow> u8) \<Rightarrow> (addr \<Rightarrow> u8) kres" where
  "memset dest c n m =
     kbind (kwhile (\<lambda>(i, m). i < n)
       (\<lambda>(i, m). let m = m(dest + i := ucast c) in if i = 0x7FFFFFFF then Inl (Undefined ''int overflow'') else Inr (i + 1, m)) (0, m))
       (\<lambda>(i, m). Inr m)"

primrec memcmp_loop :: "nat \<Rightarrow> addr \<Rightarrow> addr \<Rightarrow> (addr \<Rightarrow> u8) \<Rightarrow> addr \<times> addr \<times> nat" where
  "memcmp_loop 0 us1 us2 m = (us1, us2, 0)"
| "memcmp_loop (Suc n) us1 us2 m =
     (if m us1 = m us2 then memcmp_loop n (us1 + 1) (us2 + 1) m else (us1 + 1, us2 + 1, Suc n))"

definition memcmp :: "addr \<Rightarrow> addr \<Rightarrow> u32 \<Rightarrow> (addr \<Rightarrow> u8) \<Rightarrow> int" where
  "memcmp s1 s2 n m =
     (case memcmp_loop (unat n) s1 s2 m of (us1, us2, k) \<Rightarrow>
        if k = 0 then 0 else uint (m us1) - uint (m us2))"

type_synonym reader = "nat \<Rightarrow> u8 kres"

partial_function (option) strcmp_loop :: "reader \<Rightarrow> reader \<Rightarrow> nat \<Rightarrow> int kres option" where
  "strcmp_loop s1 s2 i =
     (case s1 i of Inl e \<Rightarrow> Some (Inl e)
      | Inr c1 \<Rightarrow>
        (case s2 i of Inl e \<Rightarrow> Some (Inl e)
         | Inr c2 \<Rightarrow> if c1 \<noteq> 0 \<and> c1 = c2 then strcmp_loop s1 s2 (Suc i)
                     else Some (Inr (uint c1 - uint c2))))"

definition strcmp :: "reader \<Rightarrow> reader \<Rightarrow> int kres" where
  "strcmp s1 s2 = (case strcmp_loop s1 s2 0 of None \<Rightarrow> Inl Hang | Some r \<Rightarrow> r)"

section \<open>Copying and filling\<close>

text \<open>
  A forward copy reads each source byte before a store can reach it, as long as no source byte
  lies at a lower position of the destination.
\<close>

lemma unat_sub_of_nat:
  assumes "n < 4294967296"
  shows "unat (a - b) = n \<longleftrightarrow> a = b + (of_nat n :: u32)"
proof
  assume "unat (a - b) = n"
  then have "of_nat (unat (a - b)) = (of_nat n :: u32)" by simp
  then show "a = b + of_nat n" by (simp add: algebra_simps)
qed (use assms in simp)

lemma copy_loop_apply:
  assumes "n \<le> 4294967296"
    and "\<And>i j. i < n \<Longrightarrow> j < i \<Longrightarrow> s + of_nat i \<noteq> d + (of_nat j :: u32)"
  shows "copy_loop n d s m a = (if unat (a - d) < n then m (s + (a - d)) else m a)"
  using assms
proof (induction n arbitrary: a)
  case 0
  then show ?case by simp
next
  case (Suc n)
  have IH: "copy_loop n d s m a = (if unat (a - d) < n then m (s + (a - d)) else m a)" for a
    using Suc by auto
  have n: "n < 4294967296" using Suc.prems(1) by simp
  have src: "\<not> unat (s + of_nat n - d) < n"
  proof
    assume lt: "unat (s + of_nat n - d) < n"
    then have "s + of_nat n = d + of_nat (unat (s + of_nat n - d))" by simp
    with Suc.prems(2)[of n "unat (s + of_nat n - d)"] lt show False by simp
  qed
  show ?case
    using src by (auto simp: IH less_Suc_eq unat_sub_of_nat[OF n] Let_def)
qed

text \<open>The bytes that a fill stores, without the counter.\<close>

primrec fill_loop :: "nat \<Rightarrow> addr \<Rightarrow> u8 \<Rightarrow> (addr \<Rightarrow> u8) \<Rightarrow> (addr \<Rightarrow> u8)" where
  "fill_loop 0 p v m = m"
| "fill_loop (Suc i) p v m = (fill_loop i p v m)(p + of_nat i := v)"

lemma fill_loop_apply:
  assumes "n \<le> 4294967296"
  shows "fill_loop n d v m a = (if unat (a - d) < n then v else m a)"
  using assms by (induction n) (auto simp: less_Suc_eq unat_sub_of_nat)

text \<open>Regions of \<open>n\<close> bytes at \<open>p\<close> and \<open>q\<close> that share no byte.\<close>

definition disjoint_regions :: "addr \<Rightarrow> addr \<Rightarrow> u32 \<Rightarrow> bool" where
  "disjoint_regions p q n \<longleftrightarrow> n = 0 \<or> (n \<le> p - q \<and> n \<le> q - p)"

lemma memcpy_apply:
  assumes "disjoint_regions d s n"
  shows "memcpy d s n m a = (if a - d < n then m (s + (a - d)) else m a)"
proof -
  have "s + of_nat i \<noteq> d + of_nat j" if ij: "i < unat n" "j < i" for i j
  proof
    assume eq: "s + of_nat i = d + of_nat j"
    then have "d - s = of_nat (i - j)" using ij by (simp add: of_nat_diff algebra_simps)
    moreover have "i - j < 4294967296" using ij unat32_bound[of n] by simp
    ultimately have "unat (d - s) = i - j" by simp
    with assms ij show False by (auto simp: disjoint_regions_def word_le_nat_alt)
  qed
  then show ?thesis
    using copy_loop_apply[of "unat n" s d m a] unat32_bound[of n]
    by (simp add: memcpy_def word_less_nat_alt)
qed

lemma unat_step: "i < n \<Longrightarrow> unat (i + 1) = Suc (unat (i :: u32))"
  using unat32_bound[of n] by (simp add: word_less_nat_alt unat_word_ariths)

lemma fill_signed:
  assumes "unat n \<le> 0x7FFFFFFF"
  shows "kwhile (\<lambda>(i, m). i < n) (\<lambda>(i, m). let m = m(dest + i := v) in
      if i = 0x7FFFFFFF then Inl (Undefined ''int overflow'') else Inr (i + 1, m)) (0, m) = Inr (n, fill_loop (unat n) dest v m)"
proof -
  let ?b = "\<lambda>(i, m :: addr \<Rightarrow> u8). i < n"
  let ?c = "\<lambda>(i, m :: addr \<Rightarrow> u8). let m = m(dest + i := v) in if i = 0x7FFFFFFF then Inl (Undefined ''int overflow'') else Inr (i + 1, m)"
  let ?P = "\<lambda>(i, x). i \<le> n \<and> x = fill_loop (unat i) dest v m"
  have "\<exists>t. kwhile ?b ?c (0, m) = Inr t \<and> ?P t \<and> \<not> ?b t"
  proof (rule kwhile_total[where m = "\<lambda>(i, x). unat n - unat i"])
    fix t :: "u32 \<times> (addr \<Rightarrow> u8)" assume p: "?P t" and b: "?b t"
    obtain i x where t: "t = (i, x)" by (cases t)
    have i: "i < n" "unat (i + 1) = Suc (unat i)" "x = fill_loop (unat i) dest v m" using p b unat_step[of i n] by (simp_all add: t)
    then have "i + 1 \<le> n" "i \<noteq> 0x7FFFFFFF" using assms by (auto simp: word_le_nat_alt word_less_nat_alt)
    then show "\<exists>t'. ?c t = Inr t' \<and> ?P t' \<and> (case t' of (i, x) \<Rightarrow> unat n - unat i) < (case t of (i, x) \<Rightarrow> unat n - unat i)"
      using i by (simp add: t Let_def word_less_nat_alt)
  qed simp
  then show ?thesis by auto
qed

lemma fill_overflow:
  fixes n i dest :: u32
  assumes "0x7FFFFFFF < unat n" and "unat i \<le> 0x7FFFFFFF"
  shows "kwhile (\<lambda>(i, m). i < n) (\<lambda>(i, m). let m = m(dest + i := v) in
      if i = 0x7FFFFFFF then Inl (Undefined ''int overflow'') else Inr (i + 1, m)) (i, m) = Inl (Undefined ''int overflow'')"
  using assms(2)
proof (induction "0x7FFFFFFF - unat i" arbitrary: i m)
  case 0
  then have "unat i = unat (0x7FFFFFFF :: u32)" by simp
  then have "i = 0x7FFFFFFF" by (rule word_unat_eq_iff[THEN iffD2])
  then show ?case using assms(1) by (subst kwhile_unfold) (simp add: word_less_nat_alt)
next
  case (Suc k)
  have "i < n" using Suc assms(1) by (simp add: word_less_nat_alt)
  moreover have "unat (i + 1) = Suc (unat i)" using unat_step[OF \<open>i < n\<close>] .
  moreover have "i \<noteq> 0x7FFFFFFF" using Suc by auto
  ultimately show ?case using Suc.hyps(1)[of "i + 1"] Suc.hyps(2) Suc.prems by (subst kwhile_unfold) simp
qed

lemma memset_eq:
  "memset dest c n m = (if n \<le> 0x7FFFFFFF then Inr (fill_loop (unat n) dest (ucast c) m) else Inl (Undefined ''int overflow''))"
  using fill_signed[of n dest "ucast c" m] fill_overflow[of n 0 dest "ucast c" m] by (simp add: memset_def word_le_nat_alt)

lemma fill_loop_word: "fill_loop (unat n) dest v m a = (if a - dest < n then v else m a)"
  using fill_loop_apply[of "unat n" dest v m] unat32_bound[of n] by (simp add: word_less_nat_alt)

text \<open>
  \<open>memmove\<close> with the destination below the source copies the original source bytes even where
  the regions overlap, and changes nothing else.
\<close>

theorem memmove_forward:
  assumes "d < s" and "unat s + unat n \<le> 2 ^ 32"
  shows "\<exists>m'. memmove d s n m = Inr m' \<and> (\<forall>a. m' a = (if a - d < n then m (s + (a - d)) else m a))"
proof -
  have "s + of_nat i \<noteq> d + of_nat j" if ij: "i < unat n" "j < i" for i j
  proof
    assume eq: "s + of_nat i = d + of_nat j"
    have "unat (s + of_nat i) = unat s + i" "unat (d + of_nat j) = unat d + j"
      using assms ij by (simp_all add: unat_word_ariths word_less_nat_alt)
    with eq have "unat s + i = unat d + j" by metis
    with ij assms(1) show False by (simp add: word_less_nat_alt)
  qed
  then show ?thesis
    using assms(1) copy_loop_apply[of "unat n" s d m] unat32_bound[of n]
    by (auto simp: memmove_def word_less_nat_alt)
qed

theorem memmove_forward_witness:
  "\<exists>m'. memmove 100 102 8 (\<lambda>a. ucast a) = Inr m' \<and> m' 105 = 107 \<and> m' 108 = 108"
  using memmove_forward[of 100 102 8 "\<lambda>a. ucast a"] by auto

text \<open>
  C32: \<open>memmove\<close> with the destination above the source never returns: the loop tests the unsigned
  \<open>n >= 0\<close>, not its counter.
\<close>

theorem memmove_backward_hangs:
  assumes "s < d"
  shows "memmove d s n m = Inl Hang"
proof -
  have "kwhile (\<lambda>(i, m). n \<ge> 0) (\<lambda>(i, m). Inr (i - 1, m(d + i := m (s + i)))) (n - 1, m) = Inl Hang"
    by (rule kwhile_diverges[where P = "\<lambda>_. True"]) auto
  with assms show ?thesis by (auto simp: memmove_def)
qed

theorem memmove_backward_hangs_witness: "memmove 102 100 8 (\<lambda>a. ucast a) = Inl Hang"
  by (rule memmove_backward_hangs) simp

section \<open>Comparing\<close>

lemma memcmp_loop_equal:
  "(\<And>i. i < n \<Longrightarrow> m (p + of_nat i) = m (q + of_nat i)) \<Longrightarrow> snd (snd (memcmp_loop n p q m)) = 0"
proof (induction n arbitrary: p q)
  case (Suc n)
  have "m (p + 1 + of_nat i) = m (q + 1 + of_nat i)" if "i < n" for i
    using Suc.prems[of "Suc i"] that by (simp add: add.assoc)
  with Suc.IH[of "p + 1" "q + 1"] Suc.prems[of 0] show ?case by simp
qed simp

lemma memcmp_loop_differ:
  assumes "k < n" "\<And>i. i < k \<Longrightarrow> m (p + of_nat i) = m (q + of_nat i)"
    "m (p + of_nat k) \<noteq> m (q + of_nat k)"
  shows "memcmp_loop n p q m = (p + of_nat (Suc k), q + of_nat (Suc k), n - k)"
  using assms
proof (induction n arbitrary: k p q)
  case (Suc n)
  show ?case
  proof (cases k)
    case 0
    with Suc.prems show ?thesis by simp
  next
    case (Suc k')
    have "m (p + 1 + of_nat i) = m (q + 1 + of_nat i)" if "i < k'" for i
      using Suc.prems(2)[of "Suc i"] that Suc by (simp add: add.assoc)
    moreover have "m (p + 1 + of_nat k') \<noteq> m (q + 1 + of_nat k')"
      using Suc.prems(3) Suc by (simp add: add.assoc)
    ultimately have "memcmp_loop n (p + 1) (q + 1) m =
      (p + 1 + of_nat (Suc k'), q + 1 + of_nat (Suc k'), n - k')"
      using Suc.IH[of k' "p + 1" "q + 1"] Suc.prems(1) Suc by simp
    then show ?thesis using Suc.prems(2)[of 0] Suc by (simp add: add.assoc)
  qed
qed simp

text \<open>
  What \<open>memcmp\<close> computes: 0 for equal regions; otherwise the difference of the bytes one past
  the first differing pair, because the pointers are incremented inside the loop condition.
\<close>

theorem memcmp_first_difference:
  assumes "k \<le> unat n" and "\<And>i. i < k \<Longrightarrow> m (p + of_nat i) = m (q + of_nat i)"
    and "k < unat n \<Longrightarrow> m (p + of_nat k) \<noteq> m (q + of_nat k)"
  shows "memcmp p q n m =
    (if k = unat n then 0 else uint (m (p + of_nat (Suc k))) - uint (m (q + of_nat (Suc k))))"
proof (cases "k = unat n")
  case True
  with memcmp_loop_equal[of "unat n" m p q] assms(2) show ?thesis
    by (simp add: memcmp_def case_prod_beta)
next
  case False
  with assms have "memcmp_loop (unat n) p q m = (p + of_nat (Suc k), q + of_nat (Suc k), unat n - k)"
    by (intro memcmp_loop_differ) auto
  with False assms(1) show ?thesis by (simp add: memcmp_def)
qed

text \<open>Two regions that differ only in their first byte compare as equal.\<close>

theorem memcmp_first_difference_witness:
  "(\<lambda>a :: addr. if a = 8 then 1 else 0 :: u8) 8 \<noteq> (\<lambda>a :: addr. if a = 8 then 1 else 0 :: u8) 16 \<and>
   memcmp 8 16 4 (\<lambda>a. if a = 8 then 1 else 0) = 0"
  using memcmp_first_difference[of 0 4 "\<lambda>a. if a = 8 then 1 else 0" 8 16] by simp

text \<open>The bytes of a NUL-terminated string that a reader yields.\<close>

definition reads_string :: "reader \<Rightarrow> u8 list \<Rightarrow> bool" where
  "reads_string r bs \<longleftrightarrow> 0 \<notin> set bs \<and> (\<forall>i < length bs. r i = Inr (bs ! i)) \<and> r (length bs) = Inr 0"

lemma strcmp_strings:
  assumes "reads_string s1 bs" and "reads_string s2 cs"
  shows "\<exists>v. strcmp s1 s2 = Inr v \<and> (v = 0 \<longleftrightarrow> bs = cs)"
proof -
  have "\<exists>v. strcmp_loop s1 s2 k = Some (Inr v) \<and> (v = 0 \<longleftrightarrow> drop k bs = drop k cs)"
    if "k \<le> length bs" "k \<le> length cs" for k
    using that
  proof (induction "length bs - k" arbitrary: k)
    case 0
    then have k: "k = length bs" by simp
    then have s1: "s1 k = Inr 0" using assms(1) by (simp add: reads_string_def)
    have s2: "s2 k = Inr (if k < length cs then cs ! k else 0)"
      using assms(2) 0 by (auto simp: reads_string_def)
    have nz: "k < length cs \<Longrightarrow> cs ! k \<noteq> 0" using assms(2) by (metis nth_mem reads_string_def)
    show ?case
      by (subst strcmp_loop.simps) (use s1 s2 nz k 0 in \<open>auto simp: uint_0_iff\<close>)
  next
    case (Suc d)
    then have k: "k < length bs" by simp
    then have s1: "s1 k = Inr (bs ! k)" "bs ! k \<noteq> 0"
      using assms(1) by (simp add: reads_string_def, metis nth_mem reads_string_def)
    have s2: "s2 k = Inr (if k < length cs then cs ! k else 0)"
      using assms(2) Suc by (auto simp: reads_string_def)
    show ?case
    proof (cases "k < length cs \<and> bs ! k = cs ! k")
      case True
      then have "strcmp_loop s1 s2 k = strcmp_loop s1 s2 (Suc k)"
        by (subst strcmp_loop.simps) (use s1 s2 in auto)
      moreover have "drop k bs = drop k cs \<longleftrightarrow> drop (Suc k) bs = drop (Suc k) cs"
        using True k by (simp add: Cons_nth_drop_Suc [symmetric])
      ultimately show ?thesis using Suc.hyps True k by simp
    next
      case False
      define c where "c = (if k < length cs then cs ! k else 0)"
      have "bs ! k \<noteq> c" using False s1 by (auto simp: c_def)
      then have "uint (bs ! k) - uint c \<noteq> 0" by (simp only: uint_diff_eq_0 not_False_eq_True)
      moreover have "strcmp_loop s1 s2 k = Some (Inr (uint (bs ! k) - uint c))"
        by (subst strcmp_loop.simps) (use s1 s2 \<open>bs ! k \<noteq> c\<close> in \<open>simp add: c_def\<close>)
      moreover have "drop k bs \<noteq> drop k cs"
        using False k by (metis drop_eq_Nil hd_drop_conv_nth leD leI)
      ultimately show ?thesis by blast
    qed
  qed
  from this[of 0] show ?thesis by (auto simp: strcmp_def)
qed

text \<open>
  \<open>strcmp\<close> on two NUL-terminated strings returns, and its result is 0 exactly when the strings
  are equal.
\<close>

theorem strcmp_zero_iff:
  assumes "reads_string s1 bs" and "reads_string s2 cs"
  shows "\<exists>v. strcmp s1 s2 = Inr v \<and> (v = 0 \<longleftrightarrow> bs = cs)"
  by (rule strcmp_strings[OF assms])

theorem strcmp_zero_iff_witness:
  "\<exists>v. strcmp (\<lambda>i. Inr ([104, 105, 0] ! i)) (\<lambda>i. Inr ([104, 105, 0] ! i)) = Inr v \<and> v = 0"
  using strcmp_zero_iff[of "\<lambda>i. Inr ([104, 105, 0] ! i)" "[104, 105]" "\<lambda>i. Inr ([104, 105, 0] ! i)" "[104, 105]"]
  by (simp add: reads_string_def nth_Cons split: nat.splits)

end
