(* ===== verification/Kmem.thy ===== *)
theory Kmem
  imports Tty Klibc
begin

text \<open>
  The physical page allocator of \<^verbatim>\<open>src/kernel/kmem.c\<close>: the free pages form a linked list threaded
  through their own first words, with the head in a static variable. The abstraction is the list
  of free pages in the order they will be handed out. The locale \<open>page_allocator\<close> is the interface
  that the virtual-memory and process code relies on.
\<close>

section \<open>State and operations\<close>

record kmem = tty +
  kmem_head :: addr

definition kmem_free :: "addr \<Rightarrow> 'a kmem_scheme \<Rightarrow> 'a kmem_scheme" where
  "kmem_free page_ptr s = s\<lparr>mem := store32 (mem s) page_ptr (kmem_head s), kmem_head := page_ptr\<rparr>"

definition kmem_alloc :: "'a kmem_scheme \<Rightarrow> (addr \<times> 'a kmem_scheme) kres" where
  "kmem_alloc s =
     (if kmem_head s \<noteq> 0 then
        (let page = kmem_head s;
             s = s\<lparr>kmem_head := load32 (mem s) page\<rparr>
         in kbind (memset page 0 PAGE_SIZE (mem s)) (\<lambda>m. Inr (page, s\<lparr>mem := m\<rparr>)))
      else kpanic ''kernel/kmem.c'' 37 ''kernel out of memory!'' s)"

definition kmem_init :: "'a kmem_scheme \<Rightarrow> 'a kmem_scheme kres" where
  "kmem_init s =
     kbind (kwhile (\<lambda>(free_ptr, s). free_ptr < free_ram_end s)
       (\<lambda>(free_ptr, s). Inr (free_ptr + PAGE_SIZE, kmem_free free_ptr s)) (free_ram_begin s, s))
       (\<lambda>(free_ptr, s). Inr s)"

section \<open>The list of free pages\<close>

primrec freelist :: "(addr \<Rightarrow> u8) \<Rightarrow> addr \<Rightarrow> addr list \<Rightarrow> bool" where
  "freelist m h [] \<longleftrightarrow> h = 0"
| "freelist m h (p # ps) \<longleftrightarrow> h = p \<and> freelist m (load32 m p) ps"

definition kmem_pages :: "'a kmem_scheme \<Rightarrow> addr list \<Rightarrow> bool" where
  "kmem_pages s ps \<longleftrightarrow> freelist (mem s) (kmem_head s) ps \<and> distinct ps \<and>
     (\<forall>p \<in> set ps. page_aligned p \<and> p \<noteq> 0)"

text \<open>The byte at \<open>a\<close> is in one of the pages \<open>ps\<close>.\<close>

abbreviation in_pages :: "addr \<Rightarrow> addr list \<Rightarrow> bool" where
  "in_pages a ps \<equiv> page_base a \<in> set ps"

lemma page_offset_iff:
  assumes "page_aligned p"
  shows "a - p < 4096 \<longleftrightarrow> page_base a = p"
proof
  assume lt: "a - p < 4096"
  then have "unat (a - p) < 4096" by (simp add: word_less_nat_alt)
  from page_base_add[OF assms this] show "page_base a = p" by simp
next
  assume "page_base a = p"
  with page_decomp[of a] obtain n where "n < 4096" "a = p + of_nat n" by auto
  then show "a - p < 4096" by (simp add: word_less_nat_alt)
qed

text \<open>A page of zeros.\<close>

definition zero_page :: "addr \<Rightarrow> (addr \<Rightarrow> u8) \<Rightarrow> (addr \<Rightarrow> u8)" where
  "zero_page p m = (\<lambda>a. if a - p < PAGE_SIZE then 0 else m a)"

lemma memset_page [simp]: "memset p 0 PAGE_SIZE m = Inr (zero_page p m)"
  by (simp add: memset_eq zero_page_def fill_loop_word PAGE_SIZE_def fun_eq_iff flip: fill_loop_word[of 4096, simplified])

lemma zero_page_at: "page_aligned p \<Longrightarrow> zero_page p m a = (if page_base a = p then 0 else m a)"
  using page_offset_iff[of p a] by (simp add: zero_page_def PAGE_SIZE_def)

lemma load32_page:
  assumes "page_aligned p" "\<And>a. page_base a = p \<Longrightarrow> m a = m' a"
  shows "load32 m p = load32 m' p"
  using load32_page_cong[of 0 m p m'] assms page_base_add[of p] by (simp add: slot_def)

lemma freelist_cong:
  assumes "\<And>p. p \<in> set ps \<Longrightarrow> page_aligned p"
    and "\<And>a. in_pages a ps \<Longrightarrow> m a = m' a"
  shows "freelist m h ps = freelist m' h ps"
  using assms
proof (induction ps arbitrary: h)
  case (Cons p ps)
  have "load32 m p = load32 m' p" by (rule load32_page) (use Cons.prems in auto)
  with Cons show ?case by auto
qed simp

lemma kmem_pages_frame:
  assumes "kmem_pages s ps" "kmem_head t = kmem_head s" "\<And>a. in_pages a ps \<Longrightarrow> mem t a = mem s a"
  shows "kmem_pages t ps"
  using assms freelist_cong[of ps "mem t" "mem s" "kmem_head s"] by (simp add: kmem_pages_def)

lemma store32_page:
  "page_aligned p \<Longrightarrow> page_base a \<noteq> p \<Longrightarrow> store32 m p v a = m a"
  using store32_other_page[of p 0 a m v] by (simp add: slot_def)

lemma kmem_free_ok:
  assumes "kmem_pages s ps" "page_aligned p" "p \<noteq> 0" "p \<notin> set ps"
  shows "kmem_pages (kmem_free p s) (p # ps)"
proof -
  have "freelist (store32 (mem s) p (kmem_head s)) (kmem_head s) ps = freelist (mem s) (kmem_head s) ps"
    using assms by (intro freelist_cong store32_page) (auto simp: kmem_pages_def)
  with assms show ?thesis by (simp add: kmem_pages_def kmem_free_def)
qed

lemma kmem_alloc_ok:
  assumes "kmem_pages s (p # ps)"
  shows "\<exists>s'. kmem_alloc s = Inr (p, s') \<and> kmem_pages s' ps \<and>
    (\<forall>a. mem s' a = (if page_base a = p then 0 else mem s a)) \<and>
    s' = s\<lparr>mem := mem s', kmem_head := kmem_head s'\<rparr>"
proof -
  let ?s = "s\<lparr>kmem_head := load32 (mem s) p, mem := zero_page p (mem s)\<rparr>"
  from assms have p: "page_aligned p" "p \<noteq> 0" "kmem_head s = p" "p \<notin> set ps" by (auto simp: kmem_pages_def)
  have "kmem_alloc s = Inr (p, ?s)" using p by (simp add: kmem_alloc_def)
  moreover have "freelist (mem ?s) (kmem_head ?s) ps = freelist (mem s) (load32 (mem s) p) ps"
    using assms p by (simp, intro freelist_cong) (auto simp: kmem_pages_def zero_page_at)
  then have "kmem_pages ?s ps" using assms p by (simp add: kmem_pages_def)
  ultimately show ?thesis using p(1) by (simp add: zero_page_at)
qed

lemma kmem_alloc_oom: "kmem_pages s [] \<Longrightarrow> \<exists>e. kmem_alloc s = Inl e"
  by (simp add: kmem_alloc_def kmem_pages_def kpanic_Inl)

section \<open>Initialisation\<close>

text \<open>The pages of the free memory, from the lowest.\<close>

definition ram_pages :: "addr \<Rightarrow> nat \<Rightarrow> addr list" where
  "ram_pages b n = map (\<lambda>i. b + 4096 * of_nat i) [0..<n]"

definition free_ram_ok :: "'a machine_scheme \<Rightarrow> bool" where
  "free_ram_ok s \<longleftrightarrow> page_aligned (free_ram_begin s) \<and> page_aligned (free_ram_end s) \<and>
     0 < free_ram_begin s \<and> free_ram_begin s \<le> free_ram_end s"

definition free_ram_count :: "'a machine_scheme \<Rightarrow> nat" where
  "free_ram_count s = (unat (free_ram_end s) - unat (free_ram_begin s)) div 4096"

lemma ram_pages_Suc: "rev (ram_pages b (Suc k)) = (b + 4096 * of_nat k) # rev (ram_pages b k)"
  by (simp add: ram_pages_def)

lemma unat_ram_page:
  assumes "free_ram_ok s" "k \<le> free_ram_count s"
  shows "unat (free_ram_begin s + 4096 * of_nat k) = unat (free_ram_begin s) + 4096 * k"
    "unat (free_ram_begin s) + 4096 * k \<le> unat (free_ram_end s)"
    "k = free_ram_count s \<longleftrightarrow> unat (free_ram_begin s) + 4096 * k = unat (free_ram_end s)"
proof -
  have "unat (free_ram_begin s) \<le> unat (free_ram_end s)"
    "4096 dvd unat (free_ram_end s) - unat (free_ram_begin s)"
    using assms(1) by (auto simp: free_ram_ok_def page_aligned_def word_le_nat_alt mod_0_imp_dvd intro!: dvd_diff_nat)
  then have e: "unat (free_ram_end s) = unat (free_ram_begin s) + 4096 * free_ram_count s"
    by (simp add: free_ram_count_def)
  with assms(2) show le: "unat (free_ram_begin s) + 4096 * k \<le> unat (free_ram_end s)" by simp
  then have "unat (free_ram_begin s) + 4096 * k < 4294967296" using unat32_bound[of "free_ram_end s"] by simp
  moreover have "unat (of_nat (4096 * k) :: u32) = 4096 * k"
    by (rule unat_of_nat32) (use calculation in simp)
  ultimately show "unat (free_ram_begin s + 4096 * of_nat k) = unat (free_ram_begin s) + 4096 * k"
    by (simp add: unat_word_ariths)
  show "k = free_ram_count s \<longleftrightarrow> unat (free_ram_begin s) + 4096 * k = unat (free_ram_end s)"
    using e by simp
qed

lemma ram_page_ok:
  assumes "free_ram_ok s" "k < free_ram_count s"
  defines "p \<equiv> free_ram_begin s + 4096 * of_nat k"
  shows "page_aligned p" "p \<noteq> 0" "p \<notin> set (ram_pages (free_ram_begin s) k)" "p < free_ram_end s"
proof -
  have u: "unat p = unat (free_ram_begin s) + 4096 * k" unfolding p_def
    using unat_ram_page(1)[OF assms(1), of k] assms(2) by simp
  then show "page_aligned p" using assms(1) by (simp add: free_ram_ok_def page_aligned_def)
  show "p \<noteq> 0" using u assms(1) by (auto simp: free_ram_ok_def word_less_nat_alt)
  show "p < free_ram_end s"
    using u unat_ram_page(2,3)[OF assms(1), of k] assms(2) by (simp add: word_less_nat_alt)
  show "p \<notin> set (ram_pages (free_ram_begin s) k)"
  proof
    assume "p \<in> set (ram_pages (free_ram_begin s) k)"
    then obtain i where "i < k" "p = free_ram_begin s + 4096 * of_nat i" by (auto simp: ram_pages_def)
    with u unat_ram_page(1)[OF assms(1), of i] assms(2) show False by simp
  qed
qed

lemma ram_pages_iff:
  assumes "free_ram_ok s"
  shows "p \<in> set (ram_pages (free_ram_begin s) (free_ram_count s)) \<longleftrightarrow>
    page_aligned p \<and> free_ram_begin s \<le> p \<and> p < free_ram_end s"
proof
  assume "p \<in> set (ram_pages (free_ram_begin s) (free_ram_count s))"
  then obtain k where "k < free_ram_count s" "p = free_ram_begin s + 4096 * of_nat k"
    by (auto simp: ram_pages_def)
  with ram_page_ok[OF assms, of k] unat_ram_page(1)[OF assms, of k]
  show "page_aligned p \<and> free_ram_begin s \<le> p \<and> p < free_ram_end s" by (simp add: word_le_nat_alt)
next
  assume p: "page_aligned p \<and> free_ram_begin s \<le> p \<and> p < free_ram_end s"
  define k where "k = (unat p - unat (free_ram_begin s)) div 4096"
  have "4096 dvd unat p - unat (free_ram_begin s)"
    using p assms by (auto simp: free_ram_ok_def page_aligned_def mod_0_imp_dvd intro!: dvd_diff_nat)
  then have k: "unat p = unat (free_ram_begin s) + 4096 * k"
    using p by (simp add: k_def word_le_nat_alt)
  then have "k < free_ram_count s"
    using p unat_ram_page(2,3)[OF assms, of "free_ram_count s"] by (simp add: word_less_nat_alt)
  moreover from this k have "p = free_ram_begin s + 4096 * of_nat k"
    using unat_ram_page(1)[OF assms, of k] by (simp add: word_unat_eq_iff)
  ultimately show "p \<in> set (ram_pages (free_ram_begin s) (free_ram_count s))" by (auto simp: ram_pages_def)
qed

lemma page_base_bounds: "unat (page_base a) \<le> unat a" "unat a < unat (page_base a) + 4096"
  unfolding unat_page_base using div_mult_mod_eq[of "unat a" 4096] mod_less_divisor[of 4096 "unat a"] by linarith+

lemma free_ram_byte:
  assumes "free_ram_ok s"
  shows "in_pages a (ram_pages (free_ram_begin s) (free_ram_count s)) \<longleftrightarrow>
    free_ram_begin s \<le> a \<and> a < free_ram_end s"
proof -
  have "4096 dvd unat (free_ram_begin s)" "4096 dvd unat (free_ram_end s)" "4096 dvd unat (page_base a)"
    using assms page_aligned_page_base[of a] by (auto simp: free_ram_ok_def page_aligned_def)
  then show ?thesis
    unfolding ram_pages_iff[OF assms] using page_base_bounds[of a]
    by (auto simp: word_le_nat_alt word_less_nat_alt elim!: dvdE)
qed

text \<open>What a state change leaves alone when only memory and the allocator move.\<close>

definition kmem_frame :: "'a kmem_scheme \<Rightarrow> 'a kmem_scheme \<Rightarrow> bool" where
  "kmem_frame s t \<longleftrightarrow> t = s\<lparr>mem := mem t, kmem_head := kmem_head t\<rparr>"

lemma kmem_frame_refl [simp]: "kmem_frame s s"
  by (simp add: kmem_frame_def)

lemma kmem_frame_trans [trans]: "kmem_frame s t \<Longrightarrow> kmem_frame t u \<Longrightarrow> kmem_frame s u"
  by (cases s, cases t, cases u) (simp add: kmem_frame_def)

lemma kmem_frame_mem: "kmem_frame s t \<Longrightarrow> kmem_frame s (t\<lparr>mem := m\<rparr>)"
  by (cases s, cases t) (simp add: kmem_frame_def)

lemma kmem_frame_simps [frame_simps]:
  assumes "kmem_frame s t"
  shows "csr t = csr s" "free_ram_begin t = free_ram_begin s" "free_ram_end t = free_ram_end s"
    "uart_writes t = uart_writes s" "sym_addr t = sym_addr s" "kmem.more t = kmem.more s"
    "uart_live t = uart_live s"
proof -
  from assms have t: "t = s\<lparr>mem := mem t, kmem_head := kmem_head t\<rparr>" by (simp add: kmem_frame_def)
  show "csr t = csr s" "free_ram_begin t = free_ram_begin s" "free_ram_end t = free_ram_end s"
    "uart_writes t = uart_writes s" "sym_addr t = sym_addr s" "kmem.more t = kmem.more s"
    by (subst t, simp)+
  show "uart_live t = uart_live s" by (subst t, simp add: uart_live_def)
qed

lemma kmem_free_frame [simp]: "kmem_frame s (kmem_free p s)"
  by (simp add: kmem_free_def kmem_frame_def)

text \<open>After \<open>k\<close> rounds of the loop of \<open>kmem_init\<close>, from \<open>s\<close>.\<close>

definition init_inv :: "'a kmem_scheme \<Rightarrow> nat \<Rightarrow> addr \<Rightarrow> 'a kmem_scheme \<Rightarrow> bool" where
  "init_inv s k p t \<longleftrightarrow> k \<le> free_ram_count s \<and> p = free_ram_begin s + 4096 * of_nat k \<and> kmem_frame s t \<and>
     kmem_pages t (rev (ram_pages (free_ram_begin s) k)) \<and>
     (\<forall>a. \<not> in_pages a (ram_pages (free_ram_begin s) k) \<longrightarrow> mem t a = mem s a)"

lemma init_inv_more:
  assumes "free_ram_ok s" "init_inv s k p t"
  shows "p < free_ram_end t \<longleftrightarrow> k < free_ram_count s"
proof -
  have "unat p < unat (free_ram_end s) \<longleftrightarrow> k < free_ram_count s"
    using unat_ram_page[OF assms(1), of k] assms(2) by (auto simp: init_inv_def)
  moreover have "free_ram_end t = free_ram_end s"
    using assms(2) by (intro kmem_frame_simps) (simp add: init_inv_def)
  ultimately show ?thesis by (simp add: word_less_nat_alt)
qed

lemma init_inv_step:
  assumes "free_ram_ok s" "init_inv s k p t" "k < free_ram_count s"
  shows "init_inv s (Suc k) (p + PAGE_SIZE) (kmem_free p t)" "unat (p + PAGE_SIZE) = unat p + 4096"
proof -
  let ?b = "free_ram_begin s"
  from assms(2) have k: "p = ?b + 4096 * of_nat k" "kmem_frame s t"
    "kmem_pages t (rev (ram_pages ?b k))" "\<And>a. \<not> in_pages a (ram_pages ?b k) \<Longrightarrow> mem t a = mem s a"
    by (auto simp: init_inv_def)
  note ok = ram_page_ok[OF assms(1,3), folded k(1)]
  have "kmem_pages (kmem_free p t) (rev (ram_pages ?b (Suc k)))"
    unfolding ram_pages_Suc k(1)[symmetric] by (rule kmem_free_ok[OF k(3)]) (use ok in auto)
  moreover have "mem (kmem_free p t) a = mem s a" if "\<not> in_pages a (ram_pages ?b (Suc k))" for a
    using that k(1,4) store32_page[OF ok(1), of a] by (auto simp: kmem_free_def ram_pages_def)
  moreover have "kmem_frame s (kmem_free p t)" using k(2) by (rule kmem_frame_trans) simp
  ultimately show "init_inv s (Suc k) (p + PAGE_SIZE) (kmem_free p t)"
    using assms(3) by (simp add: init_inv_def k(1) PAGE_SIZE_def algebra_simps)
  show "unat (p + PAGE_SIZE) = unat p + 4096"
    using unat_ram_page(1)[OF assms(1), of "Suc k"] unat_ram_page(1)[OF assms(1), of k] assms(3)
    by (simp add: k(1) PAGE_SIZE_def algebra_simps)
qed

lemma kmem_init_pages:
  assumes "free_ram_ok s" "kmem_head s = 0"
  shows "\<exists>t. kmem_init s = Inr t \<and> kmem_frame s t \<and>
    kmem_pages t (rev (ram_pages (free_ram_begin s) (free_ram_count s))) \<and>
    (\<forall>a. \<not> in_pages a (ram_pages (free_ram_begin s) (free_ram_count s)) \<longrightarrow> mem t a = mem s a)"
proof -
  let ?b = "\<lambda>(p, s :: 'a kmem_scheme). p < free_ram_end s"
  let ?c = "\<lambda>(p, s :: 'a kmem_scheme). Inr (p + PAGE_SIZE, kmem_free p s)"
  let ?P = "\<lambda>(p, t). \<exists>k. init_inv s k p t"
  have "\<exists>r. kwhile ?b ?c (free_ram_begin s, s) = Inr r \<and> ?P r \<and> \<not> ?b r"
  proof (rule kwhile_total[where m = "\<lambda>(p, t). unat (free_ram_end s) - unat p"])
    show "?P (free_ram_begin s, s)"
      using assms(2) by (simp, intro exI[of _ 0]) (simp add: init_inv_def kmem_pages_def ram_pages_def)
  next
    fix r :: "u32 \<times> 'a kmem_scheme"
    assume "?P r" and lt: "?b r"
    then obtain p t k where r: "r = (p, t)" and k: "init_inv s k p t" "p < free_ram_end t" by (cases r) auto
    have "free_ram_end t = free_ram_end s"
      using k(1) by (intro kmem_frame_simps) (simp add: init_inv_def)
    with init_inv_step[OF assms(1) k(1)] k(2) init_inv_more[OF assms(1) k(1)]
    show "\<exists>r'. ?c r = Inr r' \<and> ?P r' \<and> (case r' of (p, t) \<Rightarrow> unat (free_ram_end s) - unat p)
        < (case r of (p, t) \<Rightarrow> unat (free_ram_end s) - unat p)"
      by (auto simp: r word_less_nat_alt)
  qed
  then obtain p t k where "kwhile ?b ?c (free_ram_begin s, s) = Inr (p, t)" "init_inv s k p t" "\<not> p < free_ram_end t"
    by auto
  moreover from this have "k = free_ram_count s"
    using init_inv_more[OF assms(1), of k p t] by (simp add: init_inv_def)
  ultimately show ?thesis by (auto simp: kmem_init_def init_inv_def)
qed

section \<open>Interface\<close>

text \<open>
  What the clients of a page allocator rely on: it hands out the pages it holds one by one,
  zeroed, and takes pages back, and neither touches any other page.
\<close>

locale page_allocator =
  fixes alloc :: "'s \<Rightarrow> (addr \<times> 's) kres"
    and free :: "addr \<Rightarrow> 's \<Rightarrow> 's"
    and pages :: "'s \<Rightarrow> addr list \<Rightarrow> bool"
    and memory :: "'s \<Rightarrow> addr \<Rightarrow> u8"
    and fr :: "'s \<Rightarrow> 's \<Rightarrow> bool"
  assumes alloc_law: "pages s (p # ps) \<Longrightarrow> \<exists>s'. alloc s = Inr (p, s') \<and> pages s' ps \<and> fr s s' \<and>
      (\<forall>a. memory s' a = (if page_base a = p then 0 else memory s a))"
    and free_law: "pages s ps \<Longrightarrow> page_aligned p \<Longrightarrow> p \<noteq> 0 \<Longrightarrow> p \<notin> set ps \<Longrightarrow>
      pages (free p s) (p # ps) \<and> fr s (free p s) \<and> (\<forall>a. page_base a \<noteq> p \<longrightarrow> memory (free p s) a = memory s a)"
    and pages_wf: "pages s ps \<Longrightarrow> distinct ps \<and> (\<forall>p \<in> set ps. page_aligned p \<and> p \<noteq> 0)"
    and fr_refl: "fr s s" and fr_trans: "fr s t \<Longrightarrow> fr t u \<Longrightarrow> fr s u"
begin

lemma alloc_many:
  assumes "pages s (ps @ qs)"
  shows "\<exists>s'. kfold (\<lambda>_ (acc, s). kbind (alloc s) (\<lambda>(p, s). Inr (acc @ [p], s))) [0..<length ps] (acc, s) =
      Inr (acc @ ps, s') \<and> pages s' qs \<and> fr s s' \<and>
      (\<forall>a. memory s' a = (if in_pages a ps then 0 else memory s a))"
  using assms
proof (induction ps arbitrary: s acc)
  case Nil
  then show ?case by (simp add: fr_refl)
next
  case (Cons p ps)
  from alloc_law[of s p "ps @ qs"] Cons.prems obtain t where t: "alloc s = Inr (p, t)" "pages t (ps @ qs)"
    "fr s t" "\<And>a. memory t a = (if page_base a = p then 0 else memory s a)" by auto
  have idx: "kfold (\<lambda>_. g) [Suc 0..<Suc n] u = kfold (\<lambda>_. g) [0..<n] u" for g n and u :: "addr list \<times> 's"
    by (rule kfold_length) simp
  from Cons.IH[OF t(2), of "acc @ [p]"] obtain u where
    "kfold (\<lambda>_ (acc, s). kbind (alloc s) (\<lambda>(p, s). Inr (acc @ [p], s))) [0..<length ps] (acc @ [p], t) =
      Inr (acc @ p # ps, u)" "pages u qs" "fr t u"
    "\<And>a. memory u a = (if in_pages a ps then 0 else memory t a)" by auto
  then show ?case using t fr_trans[OF t(3), of u]
    by (simp add: upt_rec[of 0] idx del: upt_Suc)
qed

lemma free_then_alloc:
  assumes "pages s ps" "page_aligned p" "p \<noteq> 0" "p \<notin> set ps"
  shows "\<exists>s'. alloc (free p s) = Inr (p, s') \<and> pages s' ps \<and> fr s s' \<and>
    (\<forall>a. memory s' a = (if page_base a = p then 0 else memory s a))"
proof -
  note f = free_law[OF assms]
  then obtain t where t: "alloc (free p s) = Inr (p, t)" "pages t ps" "fr (free p s) t"
    "\<And>a. memory t a = (if page_base a = p then 0 else memory (free p s) a)"
    using alloc_law[of "free p s" p ps] by auto
  with f fr_trans[OF _ t(3), of s] show ?thesis by simp
qed

lemma alloc_distinct:
  assumes "pages s (p # q # ps)"
  shows "\<exists>t u. alloc s = Inr (p, t) \<and> alloc t = Inr (q, u) \<and> p \<noteq> q"
proof -
  from alloc_law[OF assms] obtain t where t: "alloc s = Inr (p, t)" "pages t (q # ps)" by blast
  with alloc_law[OF t(2)] pages_wf[OF assms] show ?thesis by auto
qed

end

interpretation kmem: page_allocator kmem_alloc kmem_free kmem_pages mem kmem_frame
proof
  fix s :: "'a kmem_scheme" and p ps
  assume "kmem_pages s (p # ps)"
  from kmem_alloc_ok[OF this]
  show "\<exists>s'. kmem_alloc s = Inr (p, s') \<and> kmem_pages s' ps \<and> kmem_frame s s' \<and>
      (\<forall>a. mem s' a = (if page_base a = p then 0 else mem s a))" by (auto simp: kmem_frame_def)
next
  fix s :: "'a kmem_scheme" and p ps
  assume "kmem_pages s ps" "page_aligned p" "p \<noteq> 0" "p \<notin> set ps"
  with kmem_free_ok[of s ps p] show "kmem_pages (kmem_free p s) (p # ps) \<and> kmem_frame s (kmem_free p s) \<and>
      (\<forall>a. page_base a \<noteq> p \<longrightarrow> mem (kmem_free p s) a = mem s a)"
    using store32_page[of p] by (simp add: kmem_free_def kmem_frame_def)
qed (auto simp: kmem_pages_def intro: kmem_frame_trans)

lemma kmem_free_list:
  assumes "kmem_pages s []" "distinct ps" "\<forall>p \<in> set ps. page_aligned p \<and> p \<noteq> 0"
  shows "kmem_pages (foldr kmem_free ps s) ps" "\<not> in_pages a ps \<Longrightarrow> mem (foldr kmem_free ps s) a = mem s a"
proof -
  show "kmem_pages (foldr kmem_free ps s) ps"
    using assms(2,3)
  proof (induction ps)
    case (Cons p ps)
    then show ?case using kmem_free_ok[of "foldr kmem_free ps s" ps p] by simp
  qed (simp add: assms(1))
  show "\<not> in_pages a ps \<Longrightarrow> mem (foldr kmem_free ps s) a = mem s a"
    using assms(3) by (induction ps) (auto simp: kmem_free_def store32_page)
qed

section \<open>Properties\<close>

text \<open>Three pages of free memory, before and after the allocator is set up.\<close>

definition kmem_static :: kmem where
  "kmem_static = tty.extend (tty_static\<lparr>free_ram_begin := 0x80100000, free_ram_end := 0x80103000\<rparr>) (kmem.fields 0)"

lemma kmem_static_simps [simp]:
  "free_ram_begin kmem_static = 0x80100000" "free_ram_end kmem_static = 0x80103000"
  "kmem_head kmem_static = 0" "mem kmem_static = (\<lambda>_. 0)" "csr kmem_static = (\<lambda>_. 0)"
  by (simp_all add: kmem_static_def tty.defs kmem.defs tty_static_def)

lemma kmem_static_ok: "free_ram_ok kmem_static" "free_ram_count kmem_static = 3" "uart_live kmem_static"
  by (simp_all add: free_ram_ok_def free_ram_count_def page_aligned_def)
    (auto simp: kmem_static_def tty.defs kmem.defs tty_static_def uart_live_def UART_LSR_TX_IDLE_def)

text \<open>
  C4: at boot \<open>kmem_init\<close> returns with every page between the two linker symbols in the free list,
  each exactly once, the highest page first, and no byte outside those pages changed.
\<close>

theorem kmem_init_all_pages:
  assumes "free_ram_ok s" "kmem_head s = 0"
  shows "\<exists>t. kmem_init s = Inr t \<and>
    kmem_pages t (rev (ram_pages (free_ram_begin s) (free_ram_count s))) \<and>
    (\<forall>p. p \<in> set (ram_pages (free_ram_begin s) (free_ram_count s)) \<longleftrightarrow>
       page_aligned p \<and> free_ram_begin s \<le> p \<and> p < free_ram_end s) \<and>
    (\<forall>a. \<not> (free_ram_begin s \<le> a \<and> a < free_ram_end s) \<longrightarrow> mem t a = mem s a)"
  using kmem_init_pages[OF assms] ram_pages_iff[OF assms(1)] free_ram_byte[OF assms(1)] by auto

theorem kmem_init_all_pages_witness:
  "\<exists>t. kmem_init kmem_static = Inr t \<and> kmem_pages t [0x80102000, 0x80101000, 0x80100000]"
  using kmem_init_all_pages[OF kmem_static_ok(1)] kmem_static_ok(2)
  by (auto simp: ram_pages_def upt_rec)

text \<open>
  C5: allocating \<open>n\<close> pages, while the allocator holds as many, succeeds and gives the next \<open>n\<close> pages
  of the free list: pairwise distinct, aligned, zero filled, and disjoint from all memory that was
  not free, none of which changes.
\<close>

theorem kmem_alloc_fresh:
  assumes "kmem_pages s (ps @ qs)"
  shows "\<exists>s'. kfold (\<lambda>_ (acc, s). kbind (kmem_alloc s) (\<lambda>(p, s). Inr (acc @ [p], s))) [0..<length ps] ([], s) =
      Inr (ps, s') \<and> distinct ps \<and> (\<forall>p \<in> set ps. page_aligned p \<and> p \<notin> set qs) \<and> kmem_pages s' qs \<and>
      (\<forall>a. mem s' a = (if in_pages a ps then 0 else mem s a))"
  using kmem.alloc_many[OF assms, of "[]"] kmem.pages_wf[OF assms] by fastforce

text \<open>A state with two free pages, the lower one handed out next.\<close>

definition kmem_two :: kmem where
  "kmem_two = kmem_free 0x80100000 (kmem_free 0x80101000 kmem_static)"

lemma kmem_two_pages: "kmem_pages kmem_two [0x80100000, 0x80101000]"
proof -
  have "kmem_pages kmem_static []" by (simp add: kmem_pages_def)
  from kmem_free_ok[OF this, of "0x80101000"]
  have "kmem_pages (kmem_free 0x80101000 kmem_static) [0x80101000]" by (simp add: page_aligned_def)
  from kmem_free_ok[OF this, of "0x80100000"] show ?thesis by (simp add: page_aligned_def kmem_two_def)
qed

theorem kmem_alloc_fresh_witness:
  "\<exists>s'. kfold (\<lambda>_ (acc, s). kbind (kmem_alloc s) (\<lambda>(p, s). Inr (acc @ [p], s))) [0..<2] ([], kmem_two) =
     Inr ([0x80100000, 0x80101000], s') \<and> kmem_pages s' [] \<and> mem s' 0x80100000 = 0"
proof -
  have "kmem_pages kmem_two ([0x80100000, 0x80101000] @ [])" using kmem_two_pages by simp
  from kmem_alloc_fresh[OF this] show ?thesis by (auto simp: numeral_2_eq_2 page_base_def)
qed

text \<open>
  With no free page left the allocator does not return a null pointer: it panics with the
  message of the source, printed on the console with file and line.
\<close>

theorem kmem_alloc_exhausted:
  assumes "kmem_pages s []" "uart_live s"
  shows "\<exists>t. kmem_alloc s = Inl (Panic ''kernel out of memory!'' (uart_sent t)) \<and>
    sends (map of_char ''KERNEL PANIC! kernel out of memory!'' @ [9] @
      map of_char ''kernel/kmem.c::37'' @ [10]) s t"
  using assms(1) kpanic_sends[OF assms(2), where ?'b = "addr \<times> 'a kmem_scheme",
      of "''kernel/kmem.c''" 37 "''kernel out of memory!''"]
  by (simp add: kmem_alloc_def kmem_pages_def signed_text_def dec_text.simps)

theorem kmem_alloc_exhausted_witness:
  "\<exists>t :: kmem. kmem_alloc kmem_static = Inl (Panic ''kernel out of memory!'' (uart_sent t))"
  using kmem_alloc_exhausted[of kmem_static] kmem_static_ok(3) by (auto simp: kmem_pages_def)

end
