(* ===== verification/Kvmem.thy ===== *)
theory Kvmem
  imports Kmem
begin

text \<open>
  Page tables, \<^verbatim>\<open>src/kernel/kvmem.c\<close>: mapping a page, translating an address, duplicating the page
  table of a process for fork, and the identity map of the kernel. Page tables live in the byte
  memory; the kernel reaches them through the identity map, so its own pointers are physical
  addresses. The abstraction of a table is the function \<open>pt_entry\<close> from the two indices of a
  virtual page to its leaf entry.
\<close>

section \<open>State and operations\<close>

definition VA_MAX :: u32 where "VA_MAX = 0xFFFFFFFF"
definition VA_TRAPFRAME :: u32 where "VA_TRAPFRAME = VA_MAX - PAGE_SIZE + 1"
definition VA_USER_BASE :: u32 where "VA_USER_BASE = 0xC0000000"
definition VA_USER_STACK_INIT :: u32 where "VA_USER_STACK_INIT = VA_TRAPFRAME"
definition VA_USER_STACK :: u32 where "VA_USER_STACK = VA_USER_STACK_INIT - PAGE_SIZE"

record kvmem = kmem +
  kernel_pagetable :: addr

text \<open>Assignment to element \<open>i\<close> of a \<^verbatim>\<open>uint32_t\<close> array at \<open>p\<close>.\<close>

definition set_word :: "addr \<Rightarrow> nat \<Rightarrow> u32 \<Rightarrow> 'a machine_scheme \<Rightarrow> 'a machine_scheme" where
  "set_word p i v s = s\<lparr>mem := store32 (mem s) (slot p i) v\<rparr>"

definition kvmem_init_hart :: "'a kvmem_scheme \<Rightarrow> 'a kvmem_scheme" where
  "kvmem_init_hart s =
     (let value = SATP_SV32 OR drop_bit 12 (kernel_pagetable s) in WRITE_CSR Satp value s)"

definition kvmem_map_page :: "addr \<Rightarrow> u32 \<Rightarrow> u32 \<Rightarrow> u32 \<Rightarrow> 'a kmem_scheme \<Rightarrow> 'a kmem_scheme kres" where
  "kvmem_map_page table va pa flags s =
     (let i1 = vpn1 va; i0 = vpn0 va in
      kbind (if word_at (mem s) table i1 AND PTE_V = 0 then
               kbind (kmem_alloc s) (\<lambda>(p, s).
               let s = set_word table i1 p s;
                   s = set_word table i1 (word_at (mem s) table i1 AND 0xFFFFF000) s;
                   s = set_word table i1 (drop_bit 2 (word_at (mem s) table i1) OR PTE_V) s
               in Inr s)
             else Inr s) (\<lambda>s.
      let table0 = pte_table (word_at (mem s) table i1);
          s = set_word table0 i0 (pa AND 0xFFFFF000) s;
          s = set_word table0 i0 (drop_bit 2 (word_at (mem s) table0 i0) OR flags OR PTE_V) s
      in Inr s))"

definition kvmem_init_kernel :: "'a kvmem_scheme \<Rightarrow> 'a kvmem_scheme kres" where
  "kvmem_init_kernel s =
     kbind (kmem_alloc s) (\<lambda>(p, s).
     kbind (kwhile (\<lambda>(pa, s). pa < free_ram_end s)
       (\<lambda>(pa, s). kbind (kvmem_map_page (kernel_pagetable s) pa pa (PTE_R OR PTE_W OR PTE_X) s)
          (\<lambda>s. Inr (pa + PAGE_SIZE, s))) (0, s\<lparr>kernel_pagetable := p\<rparr>))
       (\<lambda>(pa, s). Inr s))"

text \<open>One entry of a second-level table (lines 77 to 91), and one of the root (64 to 93).\<close>

definition copy_leaf :: "addr \<Rightarrow> addr \<Rightarrow> nat \<Rightarrow> 'a kmem_scheme \<Rightarrow> 'a kmem_scheme kres" where
  "copy_leaf pte_base_addr dest_base_addr j s =
     (if word_at (mem s) pte_base_addr j AND PTE_V \<noteq> 0 then
        (let s = set_word dest_base_addr j (word_at (mem s) pte_base_addr j) s in
         if word_at (mem s) pte_base_addr j AND PTE_U \<noteq> 0 then
           kbind (kmem_alloc s) (\<lambda>(new_pp, s).
           let s = set_word dest_base_addr j (word_at (mem s) dest_base_addr j AND 0x000003FF) s;
               s = set_word dest_base_addr j
                     (word_at (mem s) dest_base_addr j OR drop_bit 2 (new_pp AND 0xFFFFF000)) s;
               s = s\<lparr>mem := memcpy new_pp (pte_table (word_at (mem s) pte_base_addr j)) PAGE_SIZE (mem s)\<rparr>
           in Inr s)
         else Inr s)
      else Inr s)"

definition copy_root :: "addr \<Rightarrow> addr \<Rightarrow> nat \<Rightarrow> 'a kmem_scheme \<Rightarrow> 'a kmem_scheme kres" where
  "copy_root src_page dest_page i s =
     (let pte = word_at (mem s) src_page i in
      if pte AND PTE_V \<noteq> 0 then
        (let pte_base_addr = pte_table pte in
         kbind (kmem_alloc s) (\<lambda>(dest_base_addr, s).
         let s = set_word dest_page i dest_base_addr s;
             s = set_word dest_page i (word_at (mem s) dest_page i AND 0xFFFFF000) s;
             s = set_word dest_page i (drop_bit 2 (word_at (mem s) dest_page i) OR PTE_V) s
         in kfold (copy_leaf pte_base_addr dest_base_addr) [0..<1024] s))
      else Inr s)"

definition kvmem_copy_pagetable :: "addr \<Rightarrow> 'a kmem_scheme \<Rightarrow> (addr \<times> 'a kmem_scheme) kres" where
  "kvmem_copy_pagetable src_page s =
     kbind (kmem_alloc s) (\<lambda>(dest_page, s).
     kbind (kfold (copy_root src_page dest_page) [0..<1024] s) (\<lambda>s. Inr (dest_page, s)))"

definition kvmem_get_pa :: "addr \<Rightarrow> u32 \<Rightarrow> 'a machine_scheme \<Rightarrow> addr" where
  "kvmem_get_pa pagetable va s =
     (if word_at (mem s) pagetable (vpn1 va) AND PTE_V \<noteq> 0 then
        (let table0 = pte_table (word_at (mem s) pagetable (vpn1 va)) in
         if word_at (mem s) table0 (vpn0 va) AND PTE_V \<noteq> 0
         then pte_table (word_at (mem s) table0 (vpn0 va)) else 0xFFFFFFFF)
      else 0xFFFFFFFF)"

section \<open>Entries\<close>

lemma page_aligned_bit: "page_aligned p \<Longrightarrow> n < 12 \<Longrightarrow> \<not> bit p n"
proof -
  assume "page_aligned p" "n < 12"
  then have "bit p n = bit (p AND NOT (mask 12)) n" by (metis mask_page page_aligned_iff)
  with \<open>n < 12\<close> show "\<not> bit p n" by (simp add: bit_simps)
qed

lemma mask10: "(0xFFFFFC00 :: u32) = NOT (mask 10)" "(0x3FF :: u32) = mask 10"
  by (simp_all add: mask_eq_exp_minus_1)

lemma page_aligned_pte_table [simp]: "page_aligned (pte_table e)"
  unfolding page_aligned_iff pte_table_def mask10 mask_page
  by (rule bit_word_eqI) (auto simp: bit_simps)

lemma pte_table_of:
  assumes "page_aligned p" "f AND 0xFFFFFC00 = 0"
  shows "pte_table (drop_bit 2 p OR f) = p"
proof (rule bit_word_eqI)
  fix n assume n: "n < LENGTH(32)"
  have f: "\<not> bit f k" if "10 \<le> k" "k < 32" for k
  proof -
    have "bit (f AND NOT (mask 10)) k = bit (0 :: u32) k" using assms(2) by (simp add: mask10)
    with that show ?thesis by (simp add: bit_simps)
  qed
  have "Suc (Suc (n - 2)) = n" if "\<not> n < 12" using that by simp
  then show "bit (pte_table (drop_bit 2 p OR f)) n = bit p n"
    unfolding pte_table_def mask10 using n f[of "n - 2"] page_aligned_bit[OF assms(1), of n]
    by (cases "n < 12") (auto simp: bit_simps)
qed

text \<open>Tests of flags are tests of single bits.\<close>

lemma flag_exp: "PTE_V = 2 ^ 0" "PTE_R = 2 ^ 1" "PTE_W = 2 ^ 2" "PTE_X = 2 ^ 3" "PTE_U = 2 ^ 4"
  by (simp_all add: pte_flag_defs)

lemma flag_test:
  "e AND PTE_V = 0 \<longleftrightarrow> \<not> bit e 0" "e AND PTE_R = 0 \<longleftrightarrow> \<not> bit e 1" "e AND PTE_W = 0 \<longleftrightarrow> \<not> bit e 2"
  "e AND PTE_X = 0 \<longleftrightarrow> \<not> bit e 3" "e AND PTE_U = 0 \<longleftrightarrow> \<not> bit e 4"
  unfolding flag_exp by (simp_all only: and_exp_eq_0_iff_not_bit)

lemma flag_bit:
  "bit PTE_V n \<longleftrightarrow> n = 0" "bit PTE_R n \<longleftrightarrow> n = 1" "bit PTE_W n \<longleftrightarrow> n = 2"
  "bit PTE_X n \<longleftrightarrow> n = 3" "bit PTE_U n \<longleftrightarrow> n = 4"
  unfolding flag_exp bit_exp_iff by auto

lemma sv32_leaf_bits: "sv32_leaf e \<longleftrightarrow> bit e 1 \<or> bit e 3"
proof -
  have "e AND (PTE_R OR PTE_X) = 0 \<longleftrightarrow> e AND PTE_R = 0 \<and> e AND PTE_X = 0"
    by (simp add: bit.conj_disj_distrib or_eq_0_iff)
  then show ?thesis unfolding sv32_leaf_def flag_test by blast
qed

lemma table_entry_not_leaf: "page_aligned p \<Longrightarrow> \<not> sv32_leaf (drop_bit 2 p OR PTE_V)"
  using page_aligned_bit[of p 3] page_aligned_bit[of p 5]
  by (simp add: sv32_leaf_bits bit_or_iff flag_bit bit_drop_bit_eq)

lemma PTE_V_nz [simp]: "PTE_V \<noteq> 0" "(x OR PTE_V) AND PTE_V = 0 \<longleftrightarrow> False"
  using flag_bit(1)[of 0] by (auto simp: flag_test bit_or_iff)

section \<open>Page tables in memory\<close>

definition pt_valid :: "(addr \<Rightarrow> u8) \<Rightarrow> addr \<Rightarrow> nat \<Rightarrow> bool" where
  "pt_valid m root i \<longleftrightarrow> word_at m root i AND PTE_V \<noteq> 0"

definition pt_tab :: "(addr \<Rightarrow> u8) \<Rightarrow> addr \<Rightarrow> nat \<Rightarrow> addr" where
  "pt_tab m root i = pte_table (word_at m root i)"

text \<open>The leaf entry of a virtual page, the abstract value of a page table.\<close>

definition pt_entry :: "(addr \<Rightarrow> u8) \<Rightarrow> addr \<Rightarrow> nat \<Rightarrow> nat \<Rightarrow> u32 option" where
  "pt_entry m root i j =
     (if pt_valid m root i \<and> pt_valid m (pt_tab m root i) j then Some (word_at m (pt_tab m root i) j) else None)"

definition pt_pages :: "(addr \<Rightarrow> u8) \<Rightarrow> addr \<Rightarrow> addr set" where
  "pt_pages m root = insert root (pt_tab m root ` {i. i < 1024 \<and> pt_valid m root i})"

text \<open>No second-level table is shared with another slot or with the root, and root entries are not leaves.\<close>

definition pt_wf :: "(addr \<Rightarrow> u8) \<Rightarrow> addr \<Rightarrow> bool" where
  "pt_wf m root \<longleftrightarrow> page_aligned root \<and>
     (\<forall>i < 1024. pt_valid m root i \<longrightarrow> pt_tab m root i \<noteq> root \<and> \<not> sv32_leaf (word_at m root i) \<and>
        (\<forall>k < 1024. pt_valid m root k \<and> pt_tab m root k = pt_tab m root i \<longrightarrow> k = i))"

lemma word_at_page:
  assumes "page_aligned p" "i < 1024" "\<And>a. page_base a = p \<Longrightarrow> m' a = m a"
  shows "word_at m' p i = word_at m p i"
  by (rule load32_page_cong) (use assms page_base_add[of p] in auto)

lemma pt_tab_aligned [simp]: "page_aligned (pt_tab m root i)"
  by (simp add: pt_tab_def)

lemma pt_tab_page [intro]: "i < 1024 \<Longrightarrow> pt_valid m root i \<Longrightarrow> pt_tab m root i \<in> pt_pages m root"
  by (auto simp: pt_pages_def)

lemma pt_root_page [simp]: "root \<in> pt_pages m root"
  by (simp add: pt_pages_def)

lemma pt_root_cong:
  assumes "page_aligned root" "\<forall>a. page_base a = root \<longrightarrow> m' a = m a" "i < 1024"
  shows "pt_valid m' root i = pt_valid m root i" "pt_tab m' root i = pt_tab m root i"
    "word_at m' root i = word_at m root i"
  using word_at_page[OF assms(1,3), of m' m] assms(2) by (simp_all add: pt_valid_def pt_tab_def)

lemma pt_cong:
  assumes "page_aligned root" "\<forall>a. page_base a \<in> pt_pages m root \<longrightarrow> m' a = m a"
  shows "pt_pages m' root = pt_pages m root" "pt_wf m' root = pt_wf m root"
    "i < 1024 \<Longrightarrow> j < 1024 \<Longrightarrow> pt_entry m' root i j = pt_entry m root i j"
proof -
  have "\<forall>a. page_base a = root \<longrightarrow> m' a = m a" using assms(2) by simp
  note r = pt_root_cong[OF assms(1) this]
  show "pt_pages m' root = pt_pages m root" unfolding pt_pages_def
    by (intro arg_cong[of _ _ "insert root"] image_cong) (auto simp: r)
  show "pt_wf m' root = pt_wf m root" unfolding pt_wf_def by (auto simp: r)
  assume ij: "i < 1024" "j < 1024"
  have "word_at m' (pt_tab m root i) j = word_at m (pt_tab m root i) j" if "pt_valid m root i"
    using that ij assms(2) pt_tab_page[of i m root] by (intro word_at_page) simp_all
  then show "pt_entry m' root i j = pt_entry m root i j"
    unfolding pt_entry_def r[OF ij(1)] by (auto simp: pt_valid_def)
qed

lemma pt_set_leaf:
  fixes v :: u32
  assumes "pt_wf m root" "pt_valid m root i" "i < 1024" "j < 1024"
  defines "m' \<equiv> store32 m (slot (pt_tab m root i) j) v"
  shows "pt_pages m' root = pt_pages m root" "pt_wf m' root"
    "i' < 1024 \<Longrightarrow> j' < 1024 \<Longrightarrow> pt_entry m' root i' j' =
       (if i' = i \<and> j' = j then if v AND PTE_V = 0 then None else Some v else pt_entry m root i' j')"
    "page_base a \<noteq> pt_tab m root i \<Longrightarrow> m' a = m a" "k < 1024 \<Longrightarrow> pt_valid m' root k = pt_valid m root k"
    "k < 1024 \<Longrightarrow> pt_tab m' root k = pt_tab m root k"
proof -
  let ?t = "pt_tab m root i"
  have al: "page_aligned root" "?t \<noteq> root" using assms(1-3) by (auto simp: pt_wf_def)
  show other: "m' a = m a" if "page_base a \<noteq> ?t" for a
    unfolding m'_def by (rule store32_other_page) (use that assms(4) in auto)
  have "\<forall>a. page_base a = root \<longrightarrow> m' a = m a" using al other by auto
  note r = pt_root_cong[OF al(1) this]
  show "pt_pages m' root = pt_pages m root" unfolding pt_pages_def
    by (intro arg_cong[of _ _ "insert root"] image_cong) (auto simp: r)
  show "pt_wf m' root" using assms(1) unfolding pt_wf_def by (auto simp: r)
  show "pt_valid m' root k = pt_valid m root k" "pt_tab m' root k = pt_tab m root k" if "k < 1024"
    using that by (simp_all add: r)
  assume ij: "i' < 1024" "j' < 1024"
  have w: "word_at m' (pt_tab m root i') j' =
      (if pt_tab m root i' = ?t \<and> j' = j then v else word_at m (pt_tab m root i') j')"
    unfolding m'_def by (subst word_at_store32) (use ij assms(4) in auto)
  have "pt_tab m root i' = ?t \<longleftrightarrow> i' = i" if "pt_valid m root i'"
    using assms(1-3) ij that unfolding pt_wf_def by metis
  then show "pt_entry m' root i' j' =
       (if i' = i \<and> j' = j then if v AND PTE_V = 0 then None else Some v else pt_entry m root i' j')"
    unfolding pt_entry_def r[OF ij(1)] using w assms(2) by (auto simp: pt_valid_def)
qed

lemma pt_add_table:
  assumes "pt_wf m root" "\<not> pt_valid m root i" "i < 1024" "page_aligned p" "p \<notin> pt_pages m root"
    and zero: "\<forall>a. page_base a = p \<longrightarrow> m a = 0"
  defines "m' \<equiv> store32 m (slot root i) (drop_bit 2 p OR PTE_V)"
  shows "pt_pages m' root = insert p (pt_pages m root)" "pt_wf m' root"
    "k < 1024 \<Longrightarrow> pt_valid m' root k \<longleftrightarrow> k = i \<or> pt_valid m root k"
    "k < 1024 \<Longrightarrow> pt_tab m' root k = (if k = i then p else pt_tab m root k)"
    "i' < 1024 \<Longrightarrow> j' < 1024 \<Longrightarrow> pt_entry m' root i' j' = pt_entry m root i' j'"
    "page_base a \<noteq> root \<Longrightarrow> m' a = m a"
proof -
  have al: "page_aligned root" "p \<noteq> root" using assms(1,5) by (auto simp: pt_wf_def)
  have w: "word_at m' root k = (if k = i then drop_bit 2 p OR PTE_V else word_at m root k)" if "k < 1024" for k
    unfolding m'_def by (subst word_at_store32) (use al assms(3) that in auto)
  have V: "pt_valid m' root k \<longleftrightarrow> k = i \<or> pt_valid m root k" if "k < 1024" for k
    using w[OF that] by (auto simp: pt_valid_def)
  have T: "pt_tab m' root k = (if k = i then p else pt_tab m root k)" if "k < 1024" for k
    using w[OF that] pte_table_of[OF assms(4), of PTE_V] by (simp add: pt_tab_def PTE_V_def)
  have np: "pt_tab m root k \<noteq> p" "p \<noteq> pt_tab m root k" if "k < 1024" "pt_valid m root k" for k
    using assms(5) that by auto
  show "pt_valid m' root k \<longleftrightarrow> k = i \<or> pt_valid m root k"
    "pt_tab m' root k = (if k = i then p else pt_tab m root k)" if "k < 1024" using V T that by auto
  show "pt_pages m' root = insert p (pt_pages m root)"
    using assms(2,3) V T unfolding pt_pages_def by (auto simp: image_iff)
  show other: "m' a = m a" if "page_base a \<noteq> root" for a
    unfolding m'_def by (rule store32_other_page) (use that al assms(3) in auto)
  have "\<not> sv32_leaf (drop_bit 2 p OR PTE_V)" using assms(4) by (rule table_entry_not_leaf)
  then show "pt_wf m' root"
    using assms(1-3) al V T np w unfolding pt_wf_def by auto
  assume ij: "i' < 1024" "j' < 1024"
  have zp: "\<not> pt_valid m p j'"
    using word_at_page[OF assms(4) ij(2), of m "\<lambda>_. 0"] zero by (simp add: load32_def pt_valid_def)
  have tab: "word_at m' t j' = word_at m t j'" "pt_valid m' t j' = pt_valid m t j'" if "page_aligned t" "t \<noteq> root" for t
    using word_at_page[OF that(1) ij(2), of m' m] that(2) other by (auto simp: pt_valid_def)
  have "pt_tab m root i' \<noteq> root" if "pt_valid m root i'" using assms(1) that ij by (auto simp: pt_wf_def)
  then show "pt_entry m' root i' j' = pt_entry m root i' j'"
    using assms(2,4) al zp tab by (auto simp: pt_entry_def V T ij)
qed

section \<open>Mapping a page\<close>

lemma store32_twice [simp]: "store32 (store32 m a v) a w = store32 m a w"
  by (auto simp: store32_def fun_eq_iff)

lemma set_word_simps [simp]:
  "mem (set_word p i v s) = store32 (mem s) (slot p i) v"
  "csr (set_word p i v s) = csr s" "kmem_head (set_word p i v t) = kmem_head t"
  by (simp_all add: set_word_def)

lemma set_word_frame [simp]: "kmem_frame s (set_word p i v s)"
  by (simp add: set_word_def kmem_frame_def)

text \<open>A page table and the allocator use disjoint pages.\<close>

definition pt_ok :: "'a kmem_scheme \<Rightarrow> addr \<Rightarrow> addr list \<Rightarrow> bool" where
  "pt_ok s root ps \<longleftrightarrow> pt_wf (mem s) root \<and> kmem_pages s ps \<and> pt_pages (mem s) root \<inter> set ps = {}"

text \<open>What a mapping operation does to the table at \<open>root\<close>: pages \<open>new\<close> are taken over.\<close>

definition pt_step :: "addr \<Rightarrow> addr set \<Rightarrow> 'a kmem_scheme \<Rightarrow> 'a kmem_scheme \<Rightarrow> bool" where
  "pt_step root new s s' \<longleftrightarrow> kmem_frame s s' \<and> pt_pages (mem s') root = pt_pages (mem s) root \<union> new \<and>
     (\<forall>a. page_base a \<notin> pt_pages (mem s) root \<union> new \<longrightarrow> mem s' a = mem s a)"

lemma set_word_other:
  "page_aligned p \<Longrightarrow> i < 1024 \<Longrightarrow> page_base a \<noteq> p \<Longrightarrow> mem (set_word p i v s) a = mem s a"
  by (simp add: store32_other_page)

lemma set_word_pages:
  assumes "kmem_pages s ps" "page_aligned p" "i < 1024" "p \<notin> set ps"
  shows "kmem_pages (set_word p i v s) ps"
proof (rule kmem_pages_frame[OF assms(1)])
  fix a assume "in_pages a ps"
  then show "mem (set_word p i v s) a = mem s a" using assms by (intro set_word_other) auto
qed simp

lemma pt_step_set_word:
  assumes "pt_step root new s t" "page_aligned p" "i < 1024" "p \<in> pt_pages (mem s) root \<union> new"
    "pt_pages (mem (set_word p i v t)) root = pt_pages (mem t) root"
  shows "pt_step root new s (set_word p i v t)"
  unfolding pt_step_def
proof (intro conjI allI impI)
  show "kmem_frame s (set_word p i v t)"
    using assms(1) kmem_frame_trans[OF _ set_word_frame] by (auto simp: pt_step_def)
  show "pt_pages (mem (set_word p i v t)) root = pt_pages (mem s) root \<union> new"
    using assms(1,5) by (simp add: pt_step_def)
  fix a assume a: "page_base a \<notin> pt_pages (mem s) root \<union> new"
  then have "mem (set_word p i v t) a = mem t a" using assms by (intro set_word_other) auto
  with a assms(1) show "mem (set_word p i v t) a = mem s a" by (simp add: pt_step_def)
qed

definition ensure_table :: "addr \<Rightarrow> nat \<Rightarrow> 'a kmem_scheme \<Rightarrow> 'a kmem_scheme kres" where
  "ensure_table table i1 s =
     (if word_at (mem s) table i1 AND PTE_V = 0 then
        kbind (kmem_alloc s) (\<lambda>(p, s). Inr (set_word table i1 (drop_bit 2 (page_base p) OR PTE_V) s))
      else Inr s)"

lemma set_word_twice [simp]: "set_word p i w (set_word p i v s) = set_word p i w s"
  by (simp add: set_word_def)

lemma kvmem_map_page_eq:
  "kvmem_map_page table va pa flags s =
     kbind (ensure_table table (vpn1 va) s) (\<lambda>s.
       Inr (set_word (pt_tab (mem s) table (vpn1 va)) (vpn0 va) (drop_bit 2 (page_base pa) OR flags OR PTE_V) s))"
  by (auto simp: kvmem_map_page_def ensure_table_def Let_def pt_tab_def page_base_def kbind_assoc split_def
      intro!: kbind_cong)

lemma ensure_table_ok:
  assumes "pt_ok s root ps" "i < 1024" "\<not> pt_valid (mem s) root i \<Longrightarrow> ps \<noteq> []"
  defines "new \<equiv> if pt_valid (mem s) root i then [] else take 1 ps"
  shows "\<exists>s'. ensure_table root i s = Inr s' \<and> pt_ok s' root (drop (length new) ps) \<and>
    (\<forall>k < 1024. pt_valid (mem s') root k \<longleftrightarrow> k = i \<or> pt_valid (mem s) root k) \<and>
    pt_step root (set new) s s' \<and>
    (\<forall>i < 1024. \<forall>j < 1024. pt_entry (mem s') root i j = pt_entry (mem s) root i j)"
proof (cases "pt_valid (mem s) root i")
  case True
  then show ?thesis using assms(1) by (auto simp: ensure_table_def pt_valid_def new_def pt_step_def)
next
  case False
  with assms(3) obtain p qs where ps: "ps = p # qs" by (cases ps) auto
  have pg: "kmem_pages s (p # qs)" and wf: "pt_wf (mem s) root" and dj: "pt_pages (mem s) root \<inter> set ps = {}"
    using assms(1) by (auto simp: pt_ok_def ps)
  then have p: "page_aligned p" "p \<notin> set qs" by (auto simp: kmem_pages_def)
  from kmem_alloc_ok[OF pg] obtain t where t: "kmem_alloc s = Inr (p, t)" "kmem_pages t qs"
    "\<And>a. mem t a = (if page_base a = p then 0 else mem s a)" "kmem_frame s t" by (auto simp: kmem_frame_def)
  have al: "page_aligned root" using wf by (simp add: pt_wf_def)
  have same: "\<forall>a. page_base a \<in> pt_pages (mem s) root \<longrightarrow> mem t a = mem s a" using t(3) dj ps by auto
  note c = pt_cong[OF al same]
  have v: "pt_valid (mem t) root k = pt_valid (mem s) root k" if "k < 1024" for k
    by (rule pt_root_cong(1)[OF al _ that]) (use same in auto)
  have nv: "\<not> pt_valid (mem t) root i" using False v assms(2) by simp
  let ?u = "set_word root i (drop_bit 2 p OR PTE_V) t"
  have "ensure_table root i s = Inr ?u"
    using False t(1) p(1) by (simp add: ensure_table_def pt_valid_def page_base_aligned)
  moreover note a = pt_add_table[OF _ nv assms(2) p(1), folded set_word_simps(1)]
  have pre: "pt_wf (mem t) root" "p \<notin> pt_pages (mem t) root" "\<forall>a. page_base a = p \<longrightarrow> mem t a = 0"
    using wf dj ps t(3) by (simp_all add: c)
  note b = a[OF pre]
  have "kmem_pages ?u qs"
    by (rule set_word_pages[OF t(2) al assms(2)]) (use dj pt_root_page[of root "mem s"] in \<open>unfold ps set_simps, blast\<close>)
  then have "pt_ok ?u root qs" using b(1,2) dj ps p(2) c(1) by (auto simp: pt_ok_def)
  moreover have "mem ?u a = mem s a" if "page_base a \<noteq> p" "page_base a \<notin> pt_pages (mem s) root" for a
    using that b(6)[of a] t(3)[of a] pt_root_page[of root "mem s"] by fastforce
  then have "pt_step root {p} s ?u"
    unfolding pt_step_def using b(1) c(1) kmem_frame_trans[OF t(4) set_word_frame] by auto
  ultimately show ?thesis using False ps b(3,5) c(3) v by (auto simp: new_def)
qed

lemma map_page_ok:
  assumes "pt_ok s root ps" "\<not> pt_valid (mem s) root (vpn1 va) \<Longrightarrow> ps \<noteq> []"
  defines "new \<equiv> if pt_valid (mem s) root (vpn1 va) then [] else take 1 ps"
  shows "\<exists>s'. kvmem_map_page root va pa flags s = Inr s' \<and> pt_ok s' root (drop (length new) ps) \<and>
    pt_step root (set new) s s' \<and>
    (\<forall>k < 1024. pt_valid (mem s') root k \<longleftrightarrow> k = vpn1 va \<or> pt_valid (mem s) root k) \<and>
    (\<forall>i < 1024. \<forall>j < 1024. pt_entry (mem s') root i j =
       (if i = vpn1 va \<and> j = vpn0 va then Some (drop_bit 2 (page_base pa) OR flags OR PTE_V)
        else pt_entry (mem s) root i j))"
proof -
  from ensure_table_ok[OF assms(1) _ assms(2), of "vpn1 va"] obtain t where t:
    "ensure_table root (vpn1 va) s = Inr t" "pt_ok t root (drop (length new) ps)" "\<forall>k < 1024. pt_valid (mem t) root k \<longleftrightarrow> k = vpn1 va \<or> pt_valid (mem s) root k"
    "pt_step root (set new) s t"
    "\<forall>i < 1024. \<forall>j < 1024. pt_entry (mem t) root i j = pt_entry (mem s) root i j"
    unfolding new_def by auto
  let ?e = "drop_bit 2 (page_base pa) OR flags OR PTE_V"
  let ?u = "set_word (pt_tab (mem t) root (vpn1 va)) (vpn0 va) ?e t"
  have wf: "pt_wf (mem t) root" using t(2) by (simp add: pt_ok_def)
  have v: "pt_valid (mem t) root (vpn1 va)" using t(3) by simp
  note l = pt_set_leaf[OF wf v vpn_bound(1) vpn_bound(2)[of va], where v = ?e]
  have tab: "pt_tab (mem t) root (vpn1 va) \<in> pt_pages (mem t) root" using v by auto
  have "pt_tab (mem t) root (vpn1 va) \<notin> set (drop (length new) ps)" using t(2) tab by (auto simp: pt_ok_def)
  then have "kmem_pages ?u (drop (length new) ps)"
    using t(2) by (intro set_word_pages) (simp_all add: pt_ok_def)
  then have "pt_ok ?u root (drop (length new) ps)" using t(2) l(1,2) by (simp add: pt_ok_def)
  moreover have "pt_step root (set new) s ?u"
    by (rule pt_step_set_word[OF t(4)]) (use t(4) tab l(1) in \<open>auto simp: pt_step_def\<close>)
  moreover have "kvmem_map_page root va pa flags s = Inr ?u" by (simp add: kvmem_map_page_eq t(1))
  moreover have "?e AND PTE_V \<noteq> 0" using PTE_V_nz(2)[of "drop_bit 2 (page_base pa) OR flags"] by (simp add: or.assoc)
  ultimately show ?thesis using l(3,5) t(3,5) by auto
qed

section \<open>Translation\<close>

lemma vpn_mask: "(w :: u32) AND 0x3FF = w mod 1024"
proof -
  have "w AND 0x3FF = take_bit 10 w" by (simp add: take_bit_eq_mask mask_eq_exp_minus_1)
  then show ?thesis by (simp add: take_bit_eq_mod)
qed

lemma vpn_div: "vpn1 va = unat va div 4194304" "vpn0 va = unat va div 4096 mod 1024"
proof -
  have "unat va div 4194304 < 1024" using unat32_bound[of va] by simp
  then show "vpn1 va = unat va div 4194304"
    by (simp add: vpn1_def vpn_mask drop_bit_eq_div unat_div unat_mod_distrib)
  show "vpn0 va = unat va div 4096 mod 1024"
    by (simp add: vpn0_def vpn_mask drop_bit_eq_div unat_div unat_mod_distrib)
qed

lemma kvmem_get_pa_entry:
  "kvmem_get_pa root va s =
     (case pt_entry (mem s) root (vpn1 va) (vpn0 va) of None \<Rightarrow> 0xFFFFFFFF | Some e \<Rightarrow> pte_table e)"
  by (simp add: kvmem_get_pa_def pt_entry_def pt_valid_def pt_tab_def)

text \<open>The page table that the hart walks.\<close>

definition active_table :: "'a machine_scheme \<Rightarrow> addr \<Rightarrow> bool" where
  "active_table s root \<longleftrightarrow> csr s Satp = SATP_SV32 OR drop_bit 12 root"

lemma active_root:
  assumes "active_table s root" "page_aligned root"
  shows "csr s Satp AND SATP_SV32 \<noteq> 0" "push_bit 12 (csr s Satp) = root"
proof -
  have b: "bit SATP_SV32 n \<longleftrightarrow> n = 31" for n unfolding SATP_SV32_def by (auto simp only: bit_push_bit_iff bit_1_iff) auto
  have "bit (csr s Satp AND SATP_SV32) 31" using assms(1) by (simp add: active_table_def bit_and_iff bit_or_iff b)
  then show "csr s Satp AND SATP_SV32 \<noteq> 0" by auto
  show "push_bit 12 (csr s Satp) = root"
  proof (rule bit_word_eqI)
    fix n assume n: "n < LENGTH(32)"
    then have "12 + (n - 12) = n" if "\<not> n < 12" using that by simp
    then show "bit (push_bit 12 (csr s Satp)) n = bit root n"
      using n assms(1) page_aligned_bit[OF assms(2), of n]
      by (cases "n < 12") (auto simp: active_table_def bit_push_bit_iff bit_or_iff bit_drop_bit_eq b)
  qed
qed

lemma mmu_translate_entry:
  assumes "active_table s root" "pt_wf (mem s) root"
  shows "mmu_translate s acc va =
    (case pt_entry (mem s) root (vpn1 va) (vpn0 va) of None \<Rightarrow> None
     | Some e \<Rightarrow> if sv32_leaf e \<and> sv32_permits acc (csr s Sstatus) e
                 then Some (pte_table e OR (va AND 0xFFF)) else None)"
proof -
  have al: "page_aligned root" using assms(2) by (simp add: pt_wf_def)
  note r = active_root[OF assms(1) al]
  have "\<not> sv32_leaf (word_at (mem s) root (vpn1 va))" if "pt_valid (mem s) root (vpn1 va)"
    using assms(2) that by (simp add: pt_wf_def)
  then show ?thesis
    using r by (auto simp: mmu_translate_def pt_entry_def pt_valid_def pt_tab_def Let_def)
qed

lemma va_split: "unat va div 4096 = vpn1 va * 1024 + vpn0 va"
  using div_mult_mod_eq[of "unat va div 4096" 1024] by (simp add: vpn_div div_mult2_eq[symmetric])

lemma same_page_iff: "page_base va = page_base vb \<longleftrightarrow> vpn1 va = vpn1 vb \<and> vpn0 va = vpn0 vb"
proof -
  have "page_base va = page_base vb \<longleftrightarrow> unat va div 4096 = unat vb div 4096"
    by (simp add: word_unat_eq_iff unat_page_base)
  moreover have "a * 1024 + b = c * 1024 + d \<longleftrightarrow> a = c \<and> b = d" if "b < 1024" "d < 1024" for a b c d :: nat
  proof
    assume "a * 1024 + b = c * 1024 + d"
    then have "(a * 1024 + b) div 1024 = (c * 1024 + d) div 1024" "(a * 1024 + b) mod 1024 = (c * 1024 + d) mod 1024"
      by simp_all
    with that show "a = c \<and> b = d" by simp
  qed simp
  ultimately show ?thesis unfolding va_split using vpn_bound by blast
qed

definition leaf_pte :: "u32 \<Rightarrow> u32 \<Rightarrow> u32" where
  "leaf_pte pa flags = drop_bit 2 (page_base pa) OR flags OR PTE_V"

text \<open>
  The kernel allocates a frame, fills it and maps it. Between the two, only the frame may change; the mapping takes at most one
  more page for a table of the second level.
\<close>

definition frame_mapped :: "addr \<Rightarrow> addr \<Rightarrow> addr list \<Rightarrow> u32 \<Rightarrow> u32 \<Rightarrow> addr list \<Rightarrow> (addr \<Rightarrow> u8) \<Rightarrow> 'a kmem_scheme \<Rightarrow> 'a kmem_scheme \<Rightarrow> bool" where
  "frame_mapped root fr qs va flags new m s t \<longleftrightarrow> kmem_frame s t \<and> new = take (length new) qs \<and> length new \<le> 1 \<and>
     pt_ok t root (drop (length new) qs) \<and> pt_pages (mem t) root = pt_pages (mem s) root \<union> set new \<and> fr \<notin> pt_pages (mem t) root \<and>
     (\<forall>a. page_base a \<notin> pt_pages (mem s) root \<union> set new \<longrightarrow> mem t a = m a) \<and>
     (\<forall>i < 1024. \<forall>j < 1024. pt_entry (mem t) root i j =
        (if i = vpn1 va \<and> j = vpn0 va then Some (leaf_pte fr flags) else pt_entry (mem s) root i j))"

lemma alloc_map_frame:
  assumes ok: "pt_ok s root (fr # qs)" and room: "qs \<noteq> []"
  obtains s1 where "kmem_alloc s = Inr (fr, s1)" "kmem_frame s s1" "\<And>a. mem s1 a = (if page_base a = fr then 0 else mem s a)"
    "\<And>m. (\<And>a. page_base a \<in> pt_pages (mem s) root \<union> set qs \<Longrightarrow> m a = mem s a) \<Longrightarrow>
       \<exists>t new. kvmem_map_page root va fr flags (s1\<lparr>mem := m\<rparr>) = Inr t \<and> frame_mapped root fr qs va flags new m s t"
proof -
  from ok have pg: "kmem_pages s (fr # qs)" "pt_wf (mem s) root" "pt_pages (mem s) root \<inter> set (fr # qs) = {}" by (simp_all add: pt_ok_def)
  have al: "fr \<notin> set qs" "page_aligned root" using pg by (auto simp: kmem_pages_def pt_wf_def)
  from kmem_alloc_ok[OF pg(1)] obtain s1 where s1: "kmem_alloc s = Inr (fr, s1)" "kmem_pages s1 qs"
    "\<forall>a. mem s1 a = (if page_base a = fr then 0 else mem s a)" "kmem_frame s s1" by (auto simp: kmem_frame_def)
  have "\<exists>t new. kvmem_map_page root va fr flags (s1\<lparr>mem := m\<rparr>) = Inr t \<and> frame_mapped root fr qs va flags new m s t"
    if m: "\<And>a. page_base a \<in> pt_pages (mem s) root \<union> set qs \<Longrightarrow> m a = mem s a" for m
  proof -
    let ?s2 = "s1\<lparr>mem := m\<rparr>"
    have same: "\<forall>a. page_base a \<in> pt_pages (mem s) root \<longrightarrow> mem ?s2 a = mem s a" using m by simp
    note c = pt_cong[OF al(2) same]
    have "kmem_pages ?s2 qs" by (rule kmem_pages_frame[OF s1(2)]) (use m s1(3) al(1) in auto)
    then have ok2: "pt_ok ?s2 root qs" using c(1,2) pg(2,3) by (auto simp: pt_ok_def)
    define new where "new = (if pt_valid (mem ?s2) root (vpn1 va) then [] else take 1 qs)"
    from map_page_ok[OF ok2, of va fr flags] room obtain t where t:
      "kvmem_map_page root va fr flags ?s2 = Inr t" "pt_ok t root (drop (length new) qs)" "pt_step root (set new) ?s2 t"
      "\<forall>i < 1024. \<forall>j < 1024. pt_entry (mem t) root i j =
        (if i = vpn1 va \<and> j = vpn0 va then Some (leaf_pte fr flags) else pt_entry (mem ?s2) root i j)"
      unfolding leaf_pte_def new_def by auto
    have n: "new = take (length new) qs" "length new \<le> 1" using room by (cases qs; simp add: new_def)+
    then have "set new \<subseteq> set qs" by (metis set_take_subset)
    moreover have "kmem_frame s t" using kmem_frame_trans[OF kmem_frame_mem[OF s1(4)]] t(3) unfolding pt_step_def by blast
    ultimately have "frame_mapped root fr qs va flags new m s t"
      unfolding frame_mapped_def using n t(2-4) c(1,3) pg(3) al(1) by (auto simp: pt_step_def)
    then show ?thesis using t(1) by blast
  qed
  with that s1 show thesis by blast
qed

corollary alloc_map_page:
  assumes ok: "pt_ok s root (fr # qs)" and room: "qs \<noteq> []"
  obtains s1 where "kmem_alloc s = Inr (fr, s1)" "kmem_frame s s1" "\<And>a. mem s1 a = (if page_base a = fr then 0 else mem s a)"
    "\<And>m. (\<And>a. page_base a \<noteq> fr \<Longrightarrow> m a = mem s a) \<Longrightarrow>
       \<exists>t new. kvmem_map_page root va fr flags (s1\<lparr>mem := m\<rparr>) = Inr t \<and> frame_mapped root fr qs va flags new m s t"
proof -
  have "fr \<notin> pt_pages (mem s) root \<union> set qs" using ok by (auto simp: pt_ok_def kmem_pages_def)
  then have "page_base a \<in> pt_pages (mem s) root \<union> set qs \<Longrightarrow> page_base a \<noteq> fr" for a by auto
  with that show thesis by (rule_tac alloc_map_frame[OF assms, of va flags]) blast
qed

lemma leaf_pte_bits:
  "n < 10 \<Longrightarrow> bit (leaf_pte pa flags) n \<longleftrightarrow> bit flags n \<or> n = 0"
  using page_aligned_bit[OF page_aligned_page_base[of pa], of "2 + n"]
  by (auto simp: leaf_pte_def bit_or_iff bit_drop_bit_eq flag_bit)

lemma leaf_pte_simps:
  assumes "flags AND 0xFFFFFC00 = 0"
  shows "pte_table (leaf_pte pa flags) = page_base pa"
    "sv32_permits acc st (leaf_pte pa flags) = sv32_permits acc st flags"
    "sv32_leaf (leaf_pte pa flags) = sv32_leaf flags"
proof -
  have "(flags OR PTE_V) AND 0xFFFFFC00 = 0"
    using assms by (simp add: bit.conj_disj_distrib2 PTE_V_def)
  with pte_table_of[of "page_base pa" "flags OR PTE_V"]
  show "pte_table (leaf_pte pa flags) = page_base pa" by (simp add: leaf_pte_def or.assoc)
  show "sv32_permits acc st (leaf_pte pa flags) = sv32_permits acc st flags"
    by (simp add: sv32_permits_def flag_test leaf_pte_bits split: access.split)
  show "sv32_leaf (leaf_pte pa flags) = sv32_leaf flags"
    by (simp add: sv32_leaf_bits leaf_pte_bits)
qed

text \<open>A root table with no entry and two free pages.\<close>

definition kvmem_ready :: kmem where
  "kvmem_ready = foldr kmem_free [0x80100000, 0x80101000] kmem_static"

lemma kvmem_ready_simps [simp]:
  "csr kvmem_ready = (\<lambda>_. 0)"
  by (simp add: kvmem_ready_def kmem_free_def)

lemma blank_table:
  assumes "\<forall>a. page_base a = root \<longrightarrow> m a = 0" "page_aligned root" "i < 1024"
  shows "\<not> pt_valid m root i"
  using word_at_page[OF assms(2,3), of m "\<lambda>_. 0"] assms(1) by (simp add: load32_def pt_valid_def)

lemma blank_table_ok:
  assumes "\<forall>a. page_base a = root \<longrightarrow> m a = 0" "page_aligned root"
  shows "pt_wf m root" "pt_pages m root = {root}" "i < 1024 \<Longrightarrow> pt_entry m root i j = None"
  using blank_table[OF assms] assms(2) by (auto simp: pt_wf_def pt_pages_def pt_entry_def)

lemma kvmem_ready_zero: "\<forall>a. page_base a = 0x80102000 \<longrightarrow> mem kvmem_ready a = 0"
  by (simp add: kvmem_ready_def kmem_free_def store32_page page_aligned_def)

lemma kvmem_ready_blank: "i < 1024 \<Longrightarrow> pt_entry (mem kvmem_ready) 0x80102000 i j = None"
  by (rule blank_table_ok(3)[OF kvmem_ready_zero]) (simp_all add: page_aligned_def)

lemma kvmem_ready_ok: "pt_ok kvmem_ready 0x80102000 [0x80100000, 0x80101000]"
proof -
  have "kvmem_ready = kmem_two" by (simp add: kvmem_ready_def kmem_two_def)
  then have "kmem_pages kvmem_ready [0x80100000, 0x80101000]" using kmem_two_pages by simp
  then show ?thesis
    using blank_table_ok[OF kvmem_ready_zero] by (simp add: pt_ok_def page_aligned_def)
qed

section \<open>Properties of mapping\<close>

text \<open>
  C19: mapping a page makes exactly that virtual page translate to the given physical page: looking
  the address up gives it back, every other virtual page keeps its translation, the page table
  stays well formed and disjoint from the free pages, at most one page leaves the free list, and
  no memory outside the page table changes.
\<close>

theorem kvmem_map_get_roundtrip:
  assumes "pt_ok s root ps" "pt_valid (mem s) root (vpn1 va) \<or> ps \<noteq> []" "flags AND 0xFFFFFC00 = 0"
  shows "\<exists>s' n. kvmem_map_page root va pa flags s = Inr s' \<and> n \<le> 1 \<and> pt_ok s' root (drop n ps) \<and>
    kvmem_get_pa root va s' = page_base pa \<and>
    (\<forall>vb. page_base vb \<noteq> page_base va \<longrightarrow> kvmem_get_pa root vb s' = kvmem_get_pa root vb s) \<and>
    (\<forall>a. page_base a \<notin> pt_pages (mem s) root \<union> set (take n ps) \<longrightarrow> mem s' a = mem s a)"
proof -
  let ?new = "if pt_valid (mem s) root (vpn1 va) then [] else take 1 ps"
  from map_page_ok[OF assms(1), of va pa flags] assms(2) obtain s' where s':
    "kvmem_map_page root va pa flags s = Inr s'" "pt_ok s' root (drop (length ?new) ps)"
    "pt_step root (set ?new) s s'"
    "\<And>i j. i < 1024 \<Longrightarrow> j < 1024 \<Longrightarrow> pt_entry (mem s') root i j =
       (if i = vpn1 va \<and> j = vpn0 va then Some (leaf_pte pa flags) else pt_entry (mem s) root i j)"
    unfolding leaf_pte_def by auto
  moreover have "take (length ?new) ps = ?new" "length ?new \<le> 1" by (cases ps; simp)+
  ultimately show ?thesis
    using leaf_pte_simps(1)[OF assms(3)] same_page_iff
    by (intro exI[of _ s'] exI[of _ "length ?new"]) (auto simp: kvmem_get_pa_entry pt_step_def)
qed

theorem kvmem_map_get_roundtrip_witness:
  "\<exists>s'. kvmem_map_page 0x80102000 0xC0000123 0x80200000 (PTE_U OR PTE_R OR PTE_W) kvmem_ready = Inr s' \<and>
     kvmem_get_pa 0x80102000 0xC0000123 s' = 0x80200000 \<and> kvmem_get_pa 0x80102000 0xC0001000 s' = 0xFFFFFFFF"
proof -
  have "kvmem_get_pa 0x80102000 0xC0001000 kvmem_ready = 0xFFFFFFFF"
    by (simp add: kvmem_get_pa_entry kvmem_ready_blank)
  with kvmem_map_get_roundtrip[OF kvmem_ready_ok, of "0xC0000123" "PTE_U OR PTE_R OR PTE_W" "0x80200000"] show ?thesis
    by (auto simp: pte_flag_defs page_base_def)
qed

text \<open>
  The hart agrees with the kernel: once a page is mapped in the table that \<open>satp\<close> points to, an
  access that the flags permit in the current mode goes to the mapped physical page at the same
  offset, and one that they do not permit faults.
\<close>

theorem kvmem_map_visible:
  assumes "pt_ok s root ps" "pt_valid (mem s) root (vpn1 va) \<or> ps \<noteq> []" "flags AND 0xFFFFFC00 = 0"
    "active_table s root"
  shows "\<exists>s'. kvmem_map_page root va pa flags s = Inr s' \<and>
    mmu_translate s' acc va = (if sv32_permits acc (csr s Sstatus) flags
      then Some (page_base pa OR (va AND 0xFFF)) else None)"
proof -
  from map_page_ok[OF assms(1), of va pa flags] assms(2) obtain s' ps' new where s':
    "kvmem_map_page root va pa flags s = Inr s'" "pt_ok s' root ps'" "pt_step root new s s'"
    "pt_entry (mem s') root (vpn1 va) (vpn0 va) = Some (leaf_pte pa flags)"
    unfolding leaf_pte_def by auto
  have csr: "csr s' = csr s" using s'(3) kmem_frame_simps(1) by (auto simp: pt_step_def)
  then have "active_table s' root" using assms(4) by (simp add: active_table_def)
  moreover have "sv32_leaf flags" if "sv32_permits acc (csr s Sstatus) flags"
    using that by (auto simp: sv32_permits_def sv32_leaf_bits flag_test split: access.splits)
  ultimately show ?thesis
    using s' mmu_translate_entry[of s' root acc va] leaf_pte_simps[OF assms(3)] csr by (auto simp: pt_ok_def)
qed

theorem kvmem_map_visible_witness:
  "\<exists>s'. kvmem_map_page 0x80102000 0xC0000123 0x80200000 (PTE_R OR PTE_W)
       (WRITE_CSR Satp (SATP_SV32 OR 0x80102) kvmem_ready) = Inr s' \<and>
     mmu_translate s' Store 0xC0000123 = Some 0x80200123"
proof -
  let ?s = "WRITE_CSR Satp (SATP_SV32 OR 0x80102) kvmem_ready"
  have "kmem_pages ?s [0x80100000, 0x80101000]"
    by (rule kmem_pages_frame[of kvmem_ready]) (use kvmem_ready_ok in \<open>simp_all add: pt_ok_def WRITE_CSR_def\<close>)
  then have ok: "pt_ok ?s 0x80102000 [0x80100000, 0x80101000]"
    using kvmem_ready_ok by (simp add: pt_ok_def WRITE_CSR_def)
  have "active_table ?s 0x80102000" by (simp add: active_table_def WRITE_CSR_def)
  from kvmem_map_visible[OF ok _ _ this, of "0xC0000123" "PTE_R OR PTE_W" "0x80200000" Store] show ?thesis
    by (simp add: pte_flag_defs page_base_def sv32_permits_def)
qed

section \<open>The identity map of the kernel\<close>

text \<open>
  The table maps exactly the first \<open>k\<close> pages, each to itself. Second-level tables exist for the
  root slots that have been reached.
\<close>

definition ident_pte :: "nat \<Rightarrow> u32" where
  "ident_pte n = leaf_pte (4096 * of_nat n) (PTE_R OR PTE_W OR PTE_X)"

definition ident_upto :: "(addr \<Rightarrow> u8) \<Rightarrow> addr \<Rightarrow> nat \<Rightarrow> bool" where
  "ident_upto m root k \<longleftrightarrow>
     (\<forall>i < 1024. (pt_valid m root i \<longleftrightarrow> i * 1024 < k) \<and>
        (\<forall>j < 1024. pt_entry m root i j =
           (if i * 1024 + j < k then Some (ident_pte (i * 1024 + j)) else None)))"

definition tables_for :: "nat \<Rightarrow> nat" where
  "tables_for k = (k + 1023) div 1024"

lemma page_number:
  assumes "k < 1048576"
  shows "unat (4096 * of_nat k :: u32) = 4096 * k" "vpn1 (4096 * of_nat k) = k div 1024"
    "vpn0 (4096 * of_nat k) = k mod 1024" "page_aligned (4096 * of_nat k)"
proof -
  have "unat (of_nat (4096 * k) :: u32) = 4096 * k" using assms by (intro unat_of_nat32) simp
  then show u: "unat (4096 * of_nat k :: u32) = 4096 * k" by simp
  show "vpn1 (4096 * of_nat k) = k div 1024" "vpn0 (4096 * of_nat k) = k mod 1024"
    "page_aligned (4096 * of_nat k)"
    unfolding vpn_div page_aligned_def u by (simp_all add: div_mult2_eq[of "4096 * k" 4096 1024, simplified])
qed

lemma tables_for_Suc: "tables_for (Suc k) = tables_for k + (if k mod 1024 = 0 then 1 else 0)"
proof -
  have "Suc (k + 1023) = k + 1024" by simp
  then have "tables_for (Suc k) = Suc (k div 1024)" by (simp add: tables_for_def)
  moreover have "(r + 1023) div 1024 = (if r = 0 then 0 else 1)" if "r < 1024" for r :: nat
    using that by (cases "r = 0") (auto intro: div_nat_eqI)
  then have "tables_for k = k div 1024 + (if k mod 1024 = 0 then 0 else 1)"
    using div_add1_eq[of k 1023 1024] by (auto simp: tables_for_def)
  ultimately show ?thesis by auto
qed

lemma root_reached:
  assumes "k < 1048576" "i < 1024"
  shows "i * 1024 < Suc k \<longleftrightarrow> i = k div 1024 \<or> i * 1024 < k"
    "j < 1024 \<Longrightarrow> i * 1024 + j < Suc k \<longleftrightarrow> i = k div 1024 \<and> j = k mod 1024 \<or> i * 1024 + j < k"
proof -
  have d: "k = k div 1024 * 1024 + k mod 1024" "k mod 1024 < 1024" by simp_all
  show "i * 1024 < Suc k \<longleftrightarrow> i = k div 1024 \<or> i * 1024 < k"
  proof
    assume "i * 1024 < Suc k"
    then show "i = k div 1024 \<or> i * 1024 < k" by (auto simp: less_Suc_eq)
  next
    assume "i = k div 1024 \<or> i * 1024 < k"
    then show "i * 1024 < Suc k" using d by auto
  qed
  assume "j < 1024"
  then have "i * 1024 + j = k \<longleftrightarrow> i = k div 1024 \<and> j = k mod 1024" by auto
  then show "i * 1024 + j < Suc k \<longleftrightarrow> i = k div 1024 \<and> j = k mod 1024 \<or> i * 1024 + j < k"
    by (auto simp: less_Suc_eq)
qed

text \<open>The loop after \<open>k\<close> rounds, started in \<open>s\<close> with the blank root \<open>root\<close> and free pages \<open>qs\<close>.\<close>

definition ident_inv :: "'a kvmem_scheme \<Rightarrow> addr \<Rightarrow> addr list \<Rightarrow> nat \<Rightarrow> u32 \<Rightarrow> 'a kvmem_scheme \<Rightarrow> bool" where
  "ident_inv s root qs k pa t \<longleftrightarrow> pa = 4096 * of_nat k \<and> 4096 * k \<le> unat (free_ram_end s) \<and>
     ident_upto (mem t) root k \<and> pt_ok t root (drop (tables_for k) qs) \<and> kmem_frame s t \<and>
     pt_pages (mem t) root = insert root (set (take (tables_for k) qs)) \<and>
     (\<forall>a. page_base a \<noteq> root \<and> \<not> in_pages a qs \<longrightarrow> mem t a = mem s a)"

lemma ident_inv_step:
  assumes inv: "ident_inv s root qs k pa t" and more: "4096 * k < unat (free_ram_end s)"
    and al: "page_aligned (free_ram_end s)" and room: "tables_for (Suc k) \<le> length qs"
  shows "\<exists>u. kvmem_map_page root pa pa (PTE_R OR PTE_W OR PTE_X) t = Inr u \<and>
    ident_inv s root qs (Suc k) (pa + PAGE_SIZE) u"
proof -
  let ?qs = "drop (tables_for k) qs"
  have k: "k < 1048576" using more unat32_bound[of "free_ram_end s"] by simp
  have pa: "pa = 4096 * of_nat k" using inv by (simp add: ident_inv_def)
  note n = page_number[OF k, folded pa]
  have id: "ident_upto (mem t) root k" and ok: "pt_ok t root ?qs" using inv by (simp_all add: ident_inv_def)
  have "k div 1024 * 1024 < k \<longleftrightarrow> k mod 1024 \<noteq> 0" using div_mult_mod_eq[of k 1024] by linarith
  moreover have "pt_valid (mem t) root i \<longleftrightarrow> i * 1024 < k" if "i < 1024" for i
    using id that by (simp add: ident_upto_def)
  ultimately have v: "pt_valid (mem t) root (vpn1 pa) \<longleftrightarrow> k mod 1024 \<noteq> 0" using k by (simp add: n)
  let ?new = "if pt_valid (mem t) root (vpn1 pa) then [] else take 1 ?qs"
  have room': "?qs \<noteq> []" if "k mod 1024 = 0" using room that by (simp add: tables_for_Suc)
  with map_page_ok[OF ok, of pa pa "PTE_R OR PTE_W OR PTE_X"] v obtain u where u:
    "kvmem_map_page root pa pa (PTE_R OR PTE_W OR PTE_X) t = Inr u" "pt_ok u root (drop (length ?new) ?qs)"
    "pt_step root (set ?new) t u"
    "\<forall>i < 1024. pt_valid (mem u) root i \<longleftrightarrow> i = vpn1 pa \<or> pt_valid (mem t) root i"
    "\<forall>i < 1024. \<forall>j < 1024. pt_entry (mem u) root i j =
       (if i = vpn1 pa \<and> j = vpn0 pa then Some (ident_pte k) else pt_entry (mem t) root i j)"
    unfolding leaf_pte_def ident_pte_def pa by auto
  have len: "length ?new = (if k mod 1024 = 0 then 1 else 0)" using v room' by (auto simp: Suc_leI)
  have "ident_upto (mem u) root (Suc k)"
    using id u(4,5) unfolding ident_upto_def n by (auto simp: root_reached[OF k])
  moreover have "drop (length ?new) ?qs = drop (tables_for (Suc k)) qs"
    by (simp add: len tables_for_Suc add.commute)
  moreover have new: "take (tables_for (Suc k)) qs = take (tables_for k) qs @ ?new"
    unfolding tables_for_Suc using v by (simp add: take_add)
  moreover have "kmem_frame s u"
    using inv u(3) kmem_frame_trans by (auto simp: ident_inv_def pt_step_def)
  moreover have "pt_pages (mem u) root = insert root (set (take (tables_for (Suc k)) qs))"
    using inv u(3) unfolding new by (auto simp: ident_inv_def pt_step_def)
  moreover have "mem u a = mem s a" if "page_base a \<noteq> root" "\<not> in_pages a qs" for a
  proof -
    have "set (take (tables_for k) qs) \<subseteq> set qs" "set ?new \<subseteq> set qs"
      using set_take_subset[of "tables_for k" qs] set_take_subset[of 1 ?qs] set_drop_subset[of "tables_for k" qs] by auto
    with that inv u(3) show ?thesis by (auto simp: ident_inv_def pt_step_def)
  qed
  moreover have "4096 * Suc k \<le> unat (free_ram_end s)"
    using more al by (auto simp: page_aligned_def mod_0_imp_dvd elim!: dvdE)
  ultimately show ?thesis using u(1,2) by (auto simp: ident_inv_def pa PAGE_SIZE_def algebra_simps)
qed

lemma kmem_frame_table: "kmem_frame s t \<Longrightarrow> kernel_pagetable t = kernel_pagetable s"
  by (cases s; cases t) (simp add: kmem_frame_def)

lemma ident_inv_facts:
  assumes "ident_inv s root qs k pa t"
  shows "kmem_frame s t" "free_ram_end t = free_ram_end s" "unat pa = 4096 * k"
proof -
  show fr: "kmem_frame s t" using assms(1) by (simp add: ident_inv_def)
  show "free_ram_end t = free_ram_end s" by (rule kmem_frame_simps(3)[OF fr])
  have "4096 * k \<le> unat (free_ram_end s)" using assms(1) by (simp add: ident_inv_def)
  then have "k < 1048576" using unat32_bound[of "free_ram_end s"] by simp
  then show "unat pa = 4096 * k" using page_number(1)[of k] assms(1) by (simp add: ident_inv_def)
qed

text \<open>The loop finds its table through the state, with \<open>table_of\<close>, in every round.\<close>

lemma ident_loop:
  assumes init: "ident_inv s root qs 0 0 s" and kp: "\<And>t. kmem_frame s t \<Longrightarrow> table_of t = root"
    and al: "page_aligned (free_ram_end s)" and room: "tables_for N \<le> length qs"
    and N: "unat (free_ram_end s) = 4096 * N"
  shows "\<exists>pa t. kwhile (\<lambda>(pa, s). pa < free_ram_end s)
       (\<lambda>(pa, s). kbind (kvmem_map_page (table_of s) pa pa (PTE_R OR PTE_W OR PTE_X) s)
          (\<lambda>s. Inr (pa + PAGE_SIZE, s))) (0, s) = Inr (pa, t) \<and> ident_inv s root qs N pa t"
proof -
  let ?b = "\<lambda>(pa, s :: 'a kvmem_scheme). pa < free_ram_end s"
  let ?c = "\<lambda>(pa, s :: 'a kvmem_scheme). kbind (kvmem_map_page (table_of s) pa pa (PTE_R OR PTE_W OR PTE_X) s)
          (\<lambda>s. Inr (pa + PAGE_SIZE, s))"
  let ?P = "\<lambda>(pa, t). \<exists>k. ident_inv s root qs k pa t"
  have more: "pa < free_ram_end t \<longleftrightarrow> k < N" "k \<le> N" if "ident_inv s root qs k pa t" for k pa t
    using ident_inv_facts[OF that] N that by (auto simp: word_less_nat_alt ident_inv_def)
  have "\<exists>r. kwhile ?b ?c (0, s) = Inr r \<and> ?P r \<and> \<not> ?b r"
  proof (rule kwhile_total[where m = "\<lambda>(pa, t). 4096 * N - unat pa"])
    show "?P (0, s)" using init by auto
  next
    fix r :: "u32 \<times> 'a kvmem_scheme"
    assume "?P r" "?b r"
    then obtain pa t k where r: "r = (pa, t)" and k: "ident_inv s root qs k pa t" "k < N"
      using more(1) by (cases r) auto
    have "tables_for (Suc k) \<le> length qs"
      using room k(2) div_le_mono[of "Suc k + 1023" "N + 1023" 1024] by (simp add: tables_for_def)
    with ident_inv_step[OF k(1) _ al] k(2) N obtain u where u:
      "kvmem_map_page root pa pa (PTE_R OR PTE_W OR PTE_X) t = Inr u"
      "ident_inv s root qs (Suc k) (pa + PAGE_SIZE) u" by auto
    with k(2) ident_inv_facts[OF k(1)] ident_inv_facts(3)[OF u(2)] kp
    show "\<exists>r'. ?c r = Inr r' \<and> ?P r' \<and> (case r' of (pa, t) \<Rightarrow> 4096 * N - unat pa)
        < (case r of (pa, t) \<Rightarrow> 4096 * N - unat pa)"
      by (auto simp: r)
  qed
  then obtain pa t k where "kwhile ?b ?c (0, s) = Inr (pa, t)" "ident_inv s root qs k pa t" "\<not> pa < free_ram_end t" by auto
  moreover from this have "k = N" using more[of k pa t] by auto
  ultimately show ?thesis by auto
qed

lemma kvmem_init_kernel_ok:
  assumes "kmem_pages s (root # qs)" "page_aligned (free_ram_end s)"
    and "tables_for N \<le> length qs" "unat (free_ram_end s) = 4096 * N"
  shows "\<exists>t. kvmem_init_kernel s = Inr t \<and> kernel_pagetable t = root \<and> ident_upto (mem t) root N \<and>
    pt_ok t root (drop (tables_for N) qs) \<and> kmem_frame (s\<lparr>kernel_pagetable := root\<rparr>) t \<and>
    pt_pages (mem t) root = insert root (set (take (tables_for N) qs)) \<and>
    (\<forall>a. \<not> in_pages a (root # qs) \<longrightarrow> mem t a = mem s a)"
proof -
  from kmem_alloc_ok[OF assms(1)] obtain s1 where s1: "kmem_alloc s = Inr (root, s1)" "kmem_pages s1 qs"
    "\<And>a. mem s1 a = (if page_base a = root then 0 else mem s a)" "s1 = s\<lparr>mem := mem s1, kmem_head := kmem_head s1\<rparr>"
    by auto
  let ?s = "s1\<lparr>kernel_pagetable := root\<rparr>"
  have al: "page_aligned root" and nin: "root \<notin> set qs" using assms(1) by (auto simp: kmem_pages_def)
  have fr1: "kmem_frame s s1" unfolding kmem_frame_def by (rule s1(4))
  have fr: "kmem_frame (s\<lparr>kernel_pagetable := root\<rparr>) ?s"
    unfolding kmem_frame_def by (subst s1(4)) simp
  have "kmem_pages ?s qs" by (rule kmem_pages_frame[OF s1(2)]) simp_all
  moreover have z: "\<forall>a. page_base a = root \<longrightarrow> mem ?s a = 0" using s1(3) by simp
  note blank_table_ok[OF z al] blank_table[OF z al]
  ultimately have "ident_inv ?s root qs 0 0 ?s"
    using nin by (auto simp: ident_inv_def ident_upto_def pt_ok_def tables_for_def)
  moreover have "kernel_pagetable t = root" if "kmem_frame ?s t" for t using kmem_frame_table[OF that] by simp
  ultimately have "\<exists>pa t. kwhile (\<lambda>(pa, s). pa < free_ram_end s)
       (\<lambda>(pa, s). kbind (kvmem_map_page (kernel_pagetable s) pa pa (PTE_R OR PTE_W OR PTE_X) s)
          (\<lambda>s. Inr (pa + PAGE_SIZE, s))) (0, ?s) = Inr (pa, t) \<and> ident_inv ?s root qs N pa t"
    using ident_loop[of ?s root qs kernel_pagetable N] assms(2-4) kmem_frame_simps(3)[OF fr1] by simp
  then obtain pa t where t: "kwhile (\<lambda>(pa, s). pa < free_ram_end s)
       (\<lambda>(pa, s). kbind (kvmem_map_page (kernel_pagetable s) pa pa (PTE_R OR PTE_W OR PTE_X) s)
          (\<lambda>s. Inr (pa + PAGE_SIZE, s))) (0, ?s) = Inr (pa, t)" "ident_inv ?s root qs N pa t" by blast
  have "kernel_pagetable t = root" using kmem_frame_table[OF ident_inv_facts(1)[OF t(2)]] by simp
  moreover have "kvmem_init_kernel s = Inr t" by (simp add: kvmem_init_kernel_def s1(1) t(1))
  moreover have "kmem_frame (s\<lparr>kernel_pagetable := root\<rparr>) t"
    using t(2) kmem_frame_trans[OF fr] by (simp add: ident_inv_def)
  moreover have "mem t a = mem s a" if "\<not> in_pages a (root # qs)" for a
    using that t(2) s1(3)[of a] by (simp add: ident_inv_def)
  ultimately show ?thesis using t(2) by (auto simp: ident_inv_def)
qed

lemma ident_pte_simps:
  "pte_table (ident_pte n) = 4096 * of_nat n" "sv32_leaf (ident_pte n)" "sv32_permits acc st (ident_pte n)"
proof -
  have f: "(PTE_R OR PTE_W OR PTE_X) AND 0xFFFFFC00 = 0" by (simp add: pte_flag_defs)
  have "page_aligned (4096 * of_nat n)"
    unfolding page_aligned_def by (simp add: unat_word_ariths mod_mod_cancel)
  then show "pte_table (ident_pte n) = 4096 * of_nat n"
    by (simp add: ident_pte_def leaf_pte_simps[OF f] page_base_aligned)
  show "sv32_leaf (ident_pte n)" "sv32_permits acc st (ident_pte n)"
    unfolding ident_pte_def leaf_pte_simps[OF f]
    by (simp_all add: sv32_leaf_def sv32_permits_def pte_flag_defs split: access.split)
qed

lemma page_base_number: "page_base va = 4096 * of_nat (unat va div 4096)"
proof -
  have "unat va div 4096 < 1048576" using unat32_bound[of va] by simp
  then show ?thesis by (simp add: word_unat_eq_iff unat_page_base page_number(1))
qed

lemma page_base_offset: "page_base va OR (va AND 0xFFF) = va"
proof -
  have "(0xFFF :: u32) = mask 12" by (simp add: mask_eq_exp_minus_1)
  then show ?thesis unfolding page_base_def mask_page by (intro bit_word_eqI) (auto simp: bit_simps)
qed

lemma ident_upto_translate:
  assumes "active_table s root" "pt_wf (mem s) root" "ident_upto (mem s) root N"
  shows "mmu_translate s acc va = (if unat va div 4096 < N then Some va else None)"
proof -
  have "pt_entry (mem s) root (vpn1 va) (vpn0 va) =
      (if unat va div 4096 < N then Some (ident_pte (unat va div 4096)) else None)"
    using assms(3) vpn_bound[of va] unfolding va_split by (simp add: ident_upto_def)
  then show ?thesis
    using mmu_translate_entry[OF assms(1,2), of acc va] ident_pte_simps page_base_offset[of va] page_base_number[of va]
    by simp
qed

text \<open>
  C20: after \<open>kvmem_init_kernel\<close> and \<open>kvmem_init_hart\<close> the hart translates every address below the end
  of RAM to itself, for loads and stores, and faults on every address above; no memory outside the
  pages of the allocator has changed. Kernel pointers are therefore physical addresses.
\<close>

theorem kernel_identity_map:
  assumes "kmem_pages s (root # qs)" "page_aligned (free_ram_end s)"
    "tables_for (unat (free_ram_end s) div 4096) \<le> length qs"
  shows "\<exists>t. kvmem_init_kernel s = Inr t \<and>
    (\<forall>acc va. mmu_translate (kvmem_init_hart t) acc va = (if va < free_ram_end s then Some va else None)) \<and>
    (\<forall>a. \<not> in_pages a (root # qs) \<longrightarrow> mem t a = mem s a)"
proof -
  define N where "N = unat (free_ram_end s) div 4096"
  have N: "unat (free_ram_end s) = 4096 * N" using assms(2) by (simp add: N_def page_aligned_def mod_0_imp_dvd)
  from kvmem_init_kernel_ok[OF assms(1,2) assms(3)[folded N_def] N] obtain t where t:
    "kvmem_init_kernel s = Inr t" "kernel_pagetable t = root" "ident_upto (mem t) root N"
    "pt_ok t root (drop (tables_for N) qs)" "\<forall>a. \<not> in_pages a (root # qs) \<longrightarrow> mem t a = mem s a" by auto
  let ?t = "kvmem_init_hart t"
  have "active_table ?t root" using t(2) by (simp add: active_table_def kvmem_init_hart_def WRITE_CSR_def)
  moreover have "pt_wf (mem ?t) root" "ident_upto (mem ?t) root N"
    using t(3,4) by (simp_all add: kvmem_init_hart_def WRITE_CSR_def pt_ok_def)
  ultimately have "mmu_translate ?t acc va = (if unat va div 4096 < N then Some va else None)" for acc va
    by (rule ident_upto_translate)
  moreover have "unat va div 4096 < N \<longleftrightarrow> va < free_ram_end s" for va
    by (simp add: word_less_nat_alt N div_less_iff_less_mult mult.commute)
  ultimately show ?thesis using t(1,5) by simp
qed

text \<open>A machine with three pages of memory, two of them free.\<close>

definition kvmem_small :: kvmem where
  "kvmem_small = kmem_free 0x1000 (kmem_free 0x2000
     (kmem.extend (kmem_static\<lparr>free_ram_begin := 0x1000, free_ram_end := 0x3000\<rparr>) (kvmem.fields 0)))"

lemma kvmem_small_pages: "kmem_pages kvmem_small [0x1000, 0x2000]" "free_ram_end kvmem_small = 0x3000"
proof -
  let ?s = "kmem.extend (kmem_static\<lparr>free_ram_begin := 0x1000, free_ram_end := 0x3000\<rparr>) (kvmem.fields 0)"
  have "kmem_pages ?s []" by (simp add: kmem_pages_def kmem.defs)
  from kmem_free_ok[OF this, of "0x2000"] have "kmem_pages (kmem_free 0x2000 ?s) [0x2000]"
    by (simp add: page_aligned_def)
  from kmem_free_ok[OF this, of "0x1000"] show "kmem_pages kvmem_small [0x1000, 0x2000]"
    by (simp add: page_aligned_def kvmem_small_def)
  show "free_ram_end kvmem_small = 0x3000" by (simp add: kvmem_small_def kmem_free_def kmem.defs)
qed

theorem kernel_identity_map_witness:
  "\<exists>t. kvmem_init_kernel kvmem_small = Inr t \<and>
     mmu_translate (kvmem_init_hart t) Store 0x2FFF = Some 0x2FFF \<and>
     mmu_translate (kvmem_init_hart t) Load 0x3000 = None"
  using kernel_identity_map[OF kvmem_small_pages(1)] kvmem_small_pages(2)
  by (auto simp: page_aligned_def tables_for_def)

end
