(* ===== verification/Kvmem_Fork.thy ===== *)
theory Kvmem_Fork
  imports Kvmem
begin

text \<open>
  Correctness of \<open>kvmem_copy_pagetable\<close> (\<^verbatim>\<open>src/kernel/kvmem.c\<close>), the duplication of an address space
  for fork: the invariant of the two nested loops, the number of pages they take, and the
  relation between the entries of the two tables.
\<close>

section \<open>Duplicating a page table\<close>

lemma word_at_set_word:
  assumes "page_aligned p" "page_aligned q" "i < 1024" "j < 1024"
  shows "word_at (mem (set_word p i v s)) q j = (if p = q \<and> i = j then v else word_at (mem s) q j)"
  using word_at_store32[OF assms] by simp

lemma memcpy_page:
  assumes "page_aligned p" "page_aligned q" "p \<noteq> q"
  shows "memcpy p q PAGE_SIZE m a = (if page_base a = p then m (q + (a - p)) else m a)"
proof -
  have "a - b \<ge> 4096" if "page_aligned a" "page_aligned b" "a \<noteq> b" for a b :: u32
    using that page_offset_iff[of b a] page_base_aligned[of a] by (simp add: not_le[symmetric])
  then have "disjoint_regions p q PAGE_SIZE" using assms by (simp add: disjoint_regions_def PAGE_SIZE_def)
  from memcpy_apply[OF this, of m a] page_offset_iff[OF assms(1), of a] show ?thesis by (simp add: PAGE_SIZE_def)
qed

lemma store32_cong: "m a = m' a \<Longrightarrow> store32 m b v a = store32 m' b v a"
  by (simp add: store32_def)

text \<open>The entry of the copy for a user page \<open>e\<close> whose data moves to page \<open>p\<close>.\<close>

definition moved :: "u32 \<Rightarrow> addr \<Rightarrow> u32" where
  "moved e p = (e AND 0x3FF) OR drop_bit 2 p"

lemma moved_simps:
  assumes "page_aligned p"
  shows "pte_table (moved e p) = p" "n < 10 \<Longrightarrow> bit (moved e p) n = bit e n" "moved e p AND 0x3FF = e AND 0x3FF"
proof -
  have "(e AND 0x3FF) AND 0xFFFFFC00 = 0" by (simp add: and.assoc)
  with pte_table_of[OF assms, of "e AND 0x3FF"] show "pte_table (moved e p) = p"
    by (simp add: moved_def or.commute)
  have b: "bit (moved e p) n = bit e n" if "n < 10" for n
    unfolding moved_def mask10(2) using that page_aligned_bit[OF assms, of "2 + n"]
    by (auto simp: bit_or_iff bit_and_iff bit_drop_bit_eq bit_mask_iff)
  then show "n < 10 \<Longrightarrow> bit (moved e p) n = bit e n" .
  show "moved e p AND 0x3FF = e AND 0x3FF"
    unfolding mask10(2) by (rule bit_word_eqI) (use b in \<open>auto simp: bit_and_iff bit_mask_iff\<close>)
qed

lemma copy_leaf_skip:
  "\<not> pt_valid (mem t) B j \<Longrightarrow> copy_leaf B T j t = Inr t"
  by (simp add: copy_leaf_def pt_valid_def)

lemma copy_leaf_shared:
  assumes "page_aligned B" "page_aligned T" "B \<noteq> T" "j < 1024" "pt_valid (mem t) B j"
    "word_at (mem t) B j AND PTE_U = 0"
  shows "copy_leaf B T j t = Inr (set_word T j (word_at (mem t) B j) t)"
  using assms word_at_set_word[of T B j j "word_at (mem t) B j" t]
  by (simp add: copy_leaf_def pt_valid_def del: set_word_simps)

lemma copy_leaf_user:
  assumes al: "page_aligned B" "page_aligned T" "B \<noteq> T" "j < 1024"
    and e: "word_at (mem t) B j = e" "e AND PTE_V \<noteq> 0" "e AND PTE_U \<noteq> 0"
    and pg: "kmem_pages t (p # qs)" "B \<notin> set (p # qs)" "T \<notin> set (p # qs)" "pte_table e \<notin> set (p # qs)"
  shows "\<exists>u. copy_leaf B T j t = Inr u \<and> kmem_frame t u \<and> kmem_pages u qs \<and>
    (\<forall>a. mem u a = (if page_base a = p then mem (set_word T j (moved e p) t) (pte_table e + (a - p))
       else mem (set_word T j (moved e p) t) a))"
proof -
  let ?t1 = "set_word T j e t"
  have p: "page_aligned p" "p \<noteq> T" "p \<noteq> B" "p \<notin> set qs" using pg by (auto simp: kmem_pages_def)
  have pgs: "kmem_pages ?t1 (p # qs)" by (rule set_word_pages) (use al pg in auto)
  from kmem_alloc_ok[OF this] obtain t2 where t2: "kmem_alloc ?t1 = Inr (p, t2)" "kmem_pages t2 qs"
    "\<And>a. mem t2 a = (if page_base a = p then 0 else mem ?t1 a)" "kmem_frame ?t1 t2" by (auto simp: kmem_frame_def)
  have w2: "word_at (mem t2) q k = word_at (mem ?t1) q k" if "page_aligned q" "q \<noteq> p" "k < 1024" for q k
    using that t2(3) by (intro word_at_page) auto
  have B1: "word_at (mem ?t1) B j = e" using word_at_set_word[of T B j j e t] al e(1) by simp
  let ?t3 = "set_word T j (moved e p) t2"
  have T2: "word_at (mem t2) T j = e" using w2[of T j] al p by simp
  have B3: "word_at (mem ?t3) B j = e"
    using word_at_set_word[of T B j j "moved e p" t2] w2[of B j] al p B1 by simp
  let ?u = "?t3\<lparr>mem := memcpy p (pte_table e) PAGE_SIZE (mem ?t3)\<rparr>"
  have "drop_bit 2 (p AND 0xFFFFF000) = drop_bit 2 p"
    by (simp only: page_base_aligned[OF p(1), unfolded page_base_def])
  then have "copy_leaf B T j t = Inr ?u"
    unfolding copy_leaf_def Let_def using e B1 B3 T2 t2(1) not_sym[OF al(3)]
    by (simp add: moved_def word_at_set_word al del: set_word_simps)
  moreover have "kmem_frame t ?u"
    using kmem_frame_trans[OF set_word_frame kmem_frame_trans[OF t2(4) set_word_frame]]
    by (simp add: kmem_frame_def)
  moreover have same: "mem ?t3 a = mem (set_word T j (moved e p) t) a" if "page_base a \<noteq> p" for a
  proof -
    have "mem ?t3 a = store32 (store32 (mem t) (slot T j) e) (slot T j) (moved e p) a"
      unfolding set_word_simps by (rule store32_cong) (use that t2(3) in simp)
    then show ?thesis by simp
  qed
  have pe: "p \<noteq> pte_table e" using pg(4) by auto
  have mem_u: "mem ?u a = (if page_base a = p then mem (set_word T j (moved e p) t) (pte_table e + (a - p))
       else mem (set_word T j (moved e p) t) a)" for a
  proof (cases "page_base a = p")
    case True
    then have "unat (a - p) < 4096" using page_offset_iff[OF p(1), of a] by (simp add: word_less_nat_alt)
    from page_base_add[OF page_aligned_pte_table this, of e] have "page_base (pte_table e + (a - p)) = pte_table e" by simp
    then show ?thesis using True memcpy_page[OF p(1) page_aligned_pte_table pe] same pe by simp
  next
    case False
    then show ?thesis using memcpy_page[OF p(1) page_aligned_pte_table pe] same by simp
  qed
  moreover have "kmem_pages ?u qs"
  proof (rule kmem_pages_frame[OF t2(2)])
    fix a assume "in_pages a qs"
    then have "page_base a \<noteq> p" "page_base a \<noteq> T" using p pg(3) by auto
    then show "mem ?u a = mem t2 a"
      using memcpy_page[OF p(1) page_aligned_pte_table pe, of "mem ?t3" a] set_word_other[of T j a "moved e p" t2] al by simp
  qed simp
  ultimately show ?thesis by blast
qed

text \<open>
  How an entry of the copy relates to the entry it was made from: an absent page stays absent, a
  kernel page is shared, and a user page has its data in a fresh page, with the same flags.
\<close>

definition copied :: "(addr \<Rightarrow> u8) \<Rightarrow> (addr \<Rightarrow> u8) \<Rightarrow> addr set \<Rightarrow> u32 option \<Rightarrow> u32 option \<Rightarrow> bool" where
  "copied m m' fresh e e' \<longleftrightarrow> (case e of None \<Rightarrow> e' = None
     | Some w \<Rightarrow> if w AND PTE_U = 0 then e' = Some w
                 else \<exists>p \<in> fresh. page_aligned p \<and> e' = Some (moved w p) \<and>
                        (\<forall>k < 4096. m' (p + of_nat k) = m (pte_table w + of_nat k)))"

lemma copied_frame:
  assumes "copied m m' F e e'" "F \<subseteq> F'" "\<forall>a. page_base a \<in> F \<longrightarrow> m'' a = m' a"
  shows "copied m m'' F' e e'"
proof (cases e)
  case (Some w)
  have "m'' (p + of_nat k) = m' (p + of_nat k)" if "p \<in> F" "page_aligned p" "k < 4096" for p k
    using assms(3) page_base_add[OF that(2,3)] that(1) by simp
  with assms(1,2) Some show ?thesis by (fastforce simp: copied_def)
qed (use assms(1) in \<open>simp add: copied_def\<close>)

lemma copied_user:
  assumes "copied m m' F e (Some e')" "e' AND PTE_U \<noteq> 0"
  shows "\<exists>w. e = Some w \<and> w AND PTE_U \<noteq> 0 \<and> pte_table e' \<in> F"
  using assms by (auto simp: copied_def moved_simps split: option.splits if_splits)

text \<open>No two user pages of a table share their memory.\<close>

definition user_inj :: "(addr \<Rightarrow> u8) \<Rightarrow> addr \<Rightarrow> bool" where
  "user_inj m d \<longleftrightarrow> (\<forall>i1 < 1024. \<forall>j1 < 1024. \<forall>i2 < 1024. \<forall>j2 < 1024. \<forall>e1 e2.
     pt_entry m d i1 j1 = Some e1 \<and> pt_entry m d i2 j2 = Some e2 \<and> e1 AND PTE_U \<noteq> 0 \<and> e2 AND PTE_U \<noteq> 0 \<and>
     pte_table e1 = pte_table e2 \<longrightarrow> i1 = i2 \<and> j1 = j2)"

text \<open>What duplicating the table at \<open>src\<close> relies on, with the free pages \<open>ps\<close>.\<close>

definition copy_pre :: "'a kmem_scheme \<Rightarrow> addr \<Rightarrow> addr list \<Rightarrow> bool" where
  "copy_pre s src ps \<longleftrightarrow> pt_ok s src ps \<and>
     (\<forall>i < 1024. \<forall>j < 1024. \<forall>e. pt_entry (mem s) src i j = Some e \<and> e AND PTE_U \<noteq> 0 \<longrightarrow> pte_table e \<notin> set ps)"

text \<open>The entries at the index pairs in \<open>D\<close> are copied, all others of the copy are absent.\<close>

definition entries_copied ::
  "(addr \<Rightarrow> u8) \<Rightarrow> addr \<Rightarrow> (addr \<Rightarrow> u8) \<Rightarrow> addr \<Rightarrow> addr set \<Rightarrow> (nat \<times> nat) set \<Rightarrow> bool" where
  "entries_copied m src m' d fresh D \<longleftrightarrow>
     (\<forall>i < 1024. \<forall>j < 1024. if (i, j) \<in> D
        then copied m m' fresh (pt_entry m src i j) (pt_entry m' d i j) else pt_entry m' d i j = None)"

lemma entries_copied_frame:
  assumes "entries_copied m src m' d F D" "F \<subseteq> F'" "\<forall>a. page_base a \<in> F \<longrightarrow> m'' a = m' a"
    and "\<forall>i < 1024. \<forall>j < 1024. (i, j) \<notin> E \<longrightarrow> pt_entry m'' d i j = pt_entry m' d i j"
    and "\<forall>i < 1024. \<forall>j < 1024. (i, j) \<in> E \<longrightarrow> copied m m'' F' (pt_entry m src i j) (pt_entry m'' d i j)"
  shows "entries_copied m src m'' d F' (D \<union> E)"
  unfolding entries_copied_def
proof (intro allI impI)
  fix i j :: nat assume ij: "i < 1024" "j < 1024"
  have "copied m m'' F' (pt_entry m src i j) (pt_entry m' d i j)" if "(i, j) \<in> D"
    by (rule copied_frame[OF _ assms(2,3)]) (use assms(1) ij that in \<open>auto simp: entries_copied_def\<close>)
  moreover have "pt_entry m' d i j = None" if "(i, j) \<notin> D" using assms(1) ij that by (simp add: entries_copied_def)
  ultimately show "if (i, j) \<in> D \<union> E then copied m m'' F' (pt_entry m src i j) (pt_entry m'' d i j)
      else pt_entry m'' d i j = None"
    using assms(4,5) ij by (cases "(i, j) \<in> E") auto
qed

text \<open>
  Part of the way: root slots \<open>R\<close> of the copy have a table, the entries in \<open>D\<close> are done, and \<open>n\<close>
  pages of \<open>ps\<close> are used.
\<close>

definition copy_inv ::
  "'a kmem_scheme \<Rightarrow> addr \<Rightarrow> addr \<Rightarrow> addr list \<Rightarrow> nat set \<Rightarrow> (nat \<times> nat) set \<Rightarrow> nat \<Rightarrow> 'a kmem_scheme \<Rightarrow> bool" where
  "copy_inv s src d ps R D n t \<longleftrightarrow>
     kmem_frame s t \<and> n \<le> length ps \<and> kmem_pages t (drop n ps) \<and>
     (\<forall>a. page_base a \<notin> set (take n ps) \<longrightarrow> mem t a = mem s a) \<and>
     pt_wf (mem t) d \<and> pt_pages (mem t) d \<subseteq> set (take n ps) \<and>
     (\<forall>k < 1024. pt_valid (mem t) d k \<longleftrightarrow> k \<in> R) \<and>
     entries_copied (mem s) src (mem t) d (set (take n ps) - pt_pages (mem t) d) D \<and> user_inj (mem t) d"

lemma take_drop_disjoint: "distinct ps \<Longrightarrow> set (take n ps) \<inter> set (drop n ps) = {}"
  by (metis append_take_drop_id distinct_append)

lemma copy_inv_pt_ok:
  assumes "copy_pre s src ps" "copy_inv s src d ps R D n t"
  shows "pt_ok t d (drop n ps)"
proof -
  have "distinct ps" using assms(1) by (simp add: copy_pre_def pt_ok_def kmem_pages_def)
  from take_drop_disjoint[OF this, of n] assms(2) show ?thesis by (auto simp: copy_inv_def pt_ok_def)
qed

text \<open>The source table and its data are as at the start.\<close>

lemma copy_inv_src:
  assumes "copy_pre s src ps" "copy_inv s src d ps R D n t" "i < 1024" "j < 1024"
  shows "word_at (mem t) src i = word_at (mem s) src i"
    "pt_valid (mem s) src i \<Longrightarrow> word_at (mem t) (pt_tab (mem s) src i) j = word_at (mem s) (pt_tab (mem s) src i) j"
proof -
  have pre: "page_aligned src" "pt_pages (mem s) src \<inter> set ps = {}"
    using assms(1) by (auto simp: copy_pre_def pt_ok_def pt_wf_def)
  have same: "mem t a = mem s a" if "page_base a \<in> pt_pages (mem s) src" for a
  proof -
    have "page_base a \<notin> set (take n ps)" using that pre(2) set_take_subset[of n ps] by auto
    then show ?thesis using assms(2) by (simp add: copy_inv_def)
  qed
  show "word_at (mem t) src i = word_at (mem s) src i"
    by (rule word_at_page[OF pre(1) assms(3)]) (simp add: same)
  assume "pt_valid (mem s) src i"
  then have "pt_tab (mem s) src i \<in> pt_pages (mem s) src" using assms(3) by auto
  then show "word_at (mem t) (pt_tab (mem s) src i) j = word_at (mem s) (pt_tab (mem s) src i) j"
    by (intro word_at_page[OF pt_tab_aligned assms(4)]) (simp add: same)
qed

lemma copy_inv_skip:
  assumes "copy_inv s src d ps R D n t" "i < 1024" "\<And>j. j \<in> J \<Longrightarrow> pt_entry (mem s) src i j = None"
    "D \<inter> {i} \<times> J = {}"
  shows "copy_inv s src d ps R (D \<union> {i} \<times> J) n t"
proof -
  have e: "entries_copied (mem s) src (mem t) d (set (take n ps) - pt_pages (mem t) d) D"
    using assms(1) by (simp add: copy_inv_def)
  have "pt_entry (mem t) d i j = None" if "j \<in> J" "j < 1024" for j
  proof -
    have "(i, j) \<notin> D" using assms(4) that(1) by auto
    then show ?thesis using e assms(2) that(2) by (simp add: entries_copied_def)
  qed
  then have "entries_copied (mem s) src (mem t) d (set (take n ps) - pt_pages (mem t) d) (D \<union> {i} \<times> J)"
    by (intro entries_copied_frame[OF e]) (auto simp: copied_def assms(3))
  with assms(1) show ?thesis by (simp add: copy_inv_def)
qed

text \<open>A new second-level table for slot \<open>i\<close>.\<close>

lemma copy_inv_table:
  assumes pre: "copy_pre s src ps" and inv: "copy_inv s src d ps R D n t" and i: "i < 1024" "i \<notin> R"
    and room: "n < length ps"
  shows "\<exists>u. ensure_table d i t = Inr u \<and> copy_inv s src d ps (insert i R) D (Suc n) u"
proof -
  have nv: "\<not> pt_valid (mem t) d i" using inv i by (simp add: copy_inv_def)
  have ne: "drop n ps \<noteq> []" "take 1 (drop n ps) = [ps ! n]" using room by (auto simp: take_Suc_conv_app_nth hd_drop_conv_nth take_Suc)
  from ensure_table_ok[OF copy_inv_pt_ok[OF pre inv] i(1)] nv ne obtain u where u:
    "ensure_table d i t = Inr u" "pt_ok u d (drop (Suc n) ps)"
    "\<forall>k < 1024. pt_valid (mem u) d k \<longleftrightarrow> k = i \<or> pt_valid (mem t) d k" "pt_step d {ps ! n} t u"
    "\<forall>i < 1024. \<forall>j < 1024. pt_entry (mem u) d i j = pt_entry (mem t) d i j" by auto
  have tk: "set (take (Suc n) ps) = insert (ps ! n) (set (take n ps))" using room by (simp add: take_Suc_conv_app_nth)
  have "distinct ps" using pre by (simp add: copy_pre_def pt_ok_def kmem_pages_def)
  then have fresh: "ps ! n \<notin> set (take n ps)" using room by (auto simp: in_set_conv_nth nth_eq_iff_index_eq)
  have pages: "pt_pages (mem u) d = insert (ps ! n) (pt_pages (mem t) d)" using u(4) by (simp add: pt_step_def)
  have sub: "pt_pages (mem t) d \<subseteq> set (take n ps)" using inv by (simp add: copy_inv_def)
  have same: "mem u a = mem t a" if "page_base a \<notin> insert (ps ! n) (pt_pages (mem t) d)" for a
    using that u(4) by (simp add: pt_step_def)
  have "\<forall>a. page_base a \<in> set (take n ps) - pt_pages (mem t) d \<longrightarrow> mem u a = mem t a"
    using same fresh by (metis DiffD1 DiffD2 insertE)
  then have e: "entries_copied (mem s) src (mem u) d (set (take (Suc n) ps) - pt_pages (mem u) d) (D \<union> {})"
    using inv u(5) fresh tk pages
    by (intro entries_copied_frame[where m' = "mem t" and F = "set (take n ps) - pt_pages (mem t) d"])
      (auto simp: copy_inv_def)
  have "user_inj (mem u) d" using inv u(5) by (simp add: copy_inv_def user_inj_def)
  moreover have "kmem_frame s u" using inv u(4) kmem_frame_trans by (auto simp: copy_inv_def pt_step_def)
  moreover have "mem u a = mem s a" if "page_base a \<notin> set (take (Suc n) ps)" for a
    using that sub same[of a] inv tk by (auto simp: copy_inv_def)
  ultimately have "copy_inv s src d ps (insert i R) D (Suc n) u"
    using e u(2,3) inv room sub tk pages by (auto simp: copy_inv_def pt_ok_def)
  with u(1) show ?thesis by blast
qed

text \<open>The entry \<open>e\<close> is stored at slot \<open>(i, j)\<close> of the copy; pages from \<open>n\<close> up to \<open>n'\<close> become data.\<close>

lemma copy_inv_leaf:
  assumes inv: "copy_inv s src d ps R D n t" and ij: "i < 1024" "j < 1024"
    and n: "n \<le> n'" "n' \<le> length ps" "kmem_frame t u" "kmem_pages u (drop n' ps)"
    and pt: "pt_wf (mem u) d" "pt_pages (mem u) d = pt_pages (mem t) d" "\<forall>k < 1024. pt_valid (mem u) d k = pt_valid (mem t) d k"
    and ent: "\<forall>i' < 1024. \<forall>j' < 1024. pt_entry (mem u) d i' j' = (if i' = i \<and> j' = j then Some e else pt_entry (mem t) d i' j')"
    and old: "\<forall>a. page_base a \<in> set (take n ps) - pt_pages (mem t) d \<longrightarrow> mem u a = mem t a"
    and out: "\<forall>a. page_base a \<notin> set (take n' ps) \<longrightarrow> mem u a = mem t a"
    and new: "copied (mem s) (mem u) (set (take n' ps) - pt_pages (mem t) d) (pt_entry (mem s) src i j) (Some e)"
    and inj: "user_inj (mem u) d"
  shows "copy_inv s src d ps R (D \<union> {i} \<times> {j}) n' u"
proof -
  have sub: "set (take n ps) \<subseteq> set (take n' ps)" using n(1) by (rule set_take_subset_set_take)
  have i: "kmem_frame s t" "\<forall>a. page_base a \<notin> set (take n ps) \<longrightarrow> mem t a = mem s a"
    "pt_pages (mem t) d \<subseteq> set (take n ps)" "\<forall>k < 1024. pt_valid (mem t) d k \<longleftrightarrow> k \<in> R"
    "entries_copied (mem s) src (mem t) d (set (take n ps) - pt_pages (mem t) d) D"
    using inv by (simp_all add: copy_inv_def)
  have "entries_copied (mem s) src (mem u) d (set (take n' ps) - pt_pages (mem u) d) (D \<union> {i} \<times> {j})"
    by (rule entries_copied_frame[OF i(5) _ old]) (use sub ent new pt(2) in auto)
  moreover have "kmem_frame s u" using i(1) n(3) by (rule kmem_frame_trans)
  moreover have "mem u a = mem s a" if "page_base a \<notin> set (take n' ps)" for a
    using that out i(2) sub by (metis subsetD)
  moreover have "pt_pages (mem u) d \<subseteq> set (take n' ps)" using i(3) sub pt(2) by simp
  ultimately show ?thesis
    unfolding copy_inv_def using n(2,4) pt(1,3) i(4) inj by simp
qed

lemma copy_inv_user_pages:
  assumes "copy_inv s src d ps R D n t" "i < 1024" "j < 1024" "pt_entry (mem t) d i j = Some e" "e AND PTE_U \<noteq> 0"
  shows "pte_table e \<in> set (take n ps)"
proof -
  have "entries_copied (mem s) src (mem t) d (set (take n ps) - pt_pages (mem t) d) D"
    using assms(1) by (simp add: copy_inv_def)
  then have "copied (mem s) (mem t) (set (take n ps) - pt_pages (mem t) d) (pt_entry (mem s) src i j) (Some e)"
    using assms(2-4) by (fastforce simp: entries_copied_def split: if_splits)
  from copied_user[OF this assms(5)] show ?thesis by auto
qed

lemma user_inj_update:
  assumes "user_inj m d"
    and ent: "\<forall>i' < 1024. \<forall>j' < 1024. pt_entry m' d i' j' = (if i' = i \<and> j' = j then Some e else pt_entry m d i' j')"
    and new: "\<forall>i' < 1024. \<forall>j' < 1024. \<forall>e'. pt_entry m d i' j' = Some e' \<and> e' AND PTE_U \<noteq> 0 \<and> e AND PTE_U \<noteq> 0 \<longrightarrow>
      pte_table e' \<noteq> pte_table e"
  shows "user_inj m' d"
  unfolding user_inj_def
proof (intro allI impI, elim conjE)
  fix i1 j1 i2 j2 :: nat and e1 e2
  assume b: "i1 < 1024" "j1 < 1024" "i2 < 1024" "j2 < 1024"
    and e: "pt_entry m' d i1 j1 = Some e1" "pt_entry m' d i2 j2 = Some e2" "e1 AND PTE_U \<noteq> 0" "e2 AND PTE_U \<noteq> 0"
      "pte_table e1 = pte_table e2"
  have old: "i1 = i2 \<and> j1 = j2" if "pt_entry m d i1 j1 = Some e1" "pt_entry m d i2 j2 = Some e2"
    using assms(1) b e that unfolding user_inj_def by blast
  have E: "pt_entry m' d i1 j1 = (if i1 = i \<and> j1 = j then Some e else pt_entry m d i1 j1)"
    "pt_entry m' d i2 j2 = (if i2 = i \<and> j2 = j then Some e else pt_entry m d i2 j2)" using ent b by auto
  consider "i1 = i \<and> j1 = j" "i2 = i \<and> j2 = j" | "i1 = i \<and> j1 = j" "\<not> (i2 = i \<and> j2 = j)"
    | "\<not> (i1 = i \<and> j1 = j)" "i2 = i \<and> j2 = j" | "\<not> (i1 = i \<and> j1 = j)" "\<not> (i2 = i \<and> j2 = j)" by blast
  then show "i1 = i2 \<and> j1 = j2"
  proof cases
    case 2
    then have "e1 = e" "pt_entry m d i2 j2 = Some e2" using E e by auto
    with new b e show ?thesis by metis
  next
    case 3
    then have "e2 = e" "pt_entry m d i1 j1 = Some e1" using E e by auto
    with new b e show ?thesis by metis
  next
    case 4
    then have "pt_entry m d i1 j1 = Some e1" "pt_entry m d i2 j2 = Some e2" using E e by auto
    then show ?thesis by (rule old)
  qed simp
qed

definition leaf_cost :: "(addr \<Rightarrow> u8) \<Rightarrow> addr \<Rightarrow> nat \<Rightarrow> nat \<Rightarrow> nat" where
  "leaf_cost m src i j =
     (case pt_entry m src i j of None \<Rightarrow> 0 | Some e \<Rightarrow> if e AND PTE_U = 0 then 0 else 1)"

text \<open>Facts about the tables of source and copy at slot \<open>i\<close>.\<close>

lemma copy_inv_tables:
  assumes pre: "copy_pre s src ps" and inv: "copy_inv s src d ps R D n t" and i: "i < 1024" "i \<in> R" "pt_valid (mem s) src i"
  shows "pt_valid (mem t) d i" "pt_tab (mem t) d i \<in> pt_pages (mem t) d" "pt_tab (mem t) d i \<in> set (take n ps)"
    "pt_tab (mem s) src i \<notin> set ps" "pt_tab (mem s) src i \<noteq> pt_tab (mem t) d i"
    "pt_tab (mem t) d i \<notin> set (drop n ps)"
proof -
  show v: "pt_valid (mem t) d i" using inv i by (simp add: copy_inv_def)
  then show T: "pt_tab (mem t) d i \<in> pt_pages (mem t) d" using i by auto
  then show T': "pt_tab (mem t) d i \<in> set (take n ps)" using inv by (auto simp: copy_inv_def)
  show B: "pt_tab (mem s) src i \<notin> set ps" using pre i pt_tab_page[of i "mem s" src] by (auto simp: copy_pre_def pt_ok_def)
  show "pt_tab (mem s) src i \<noteq> pt_tab (mem t) d i" using B T' set_take_subset[of n ps] by auto
  have "distinct ps" using pre by (simp add: copy_pre_def pt_ok_def kmem_pages_def)
  from take_drop_disjoint[OF this, of n] T' show "pt_tab (mem t) d i \<notin> set (drop n ps)" by auto
qed

lemma copy_leaf_step_shared:
  assumes pre: "copy_pre s src ps" and inv: "copy_inv s src d ps R D n t"
    and i: "i < 1024" "i \<in> R" "pt_valid (mem s) src i" and j: "j < 1024"
    and e: "pt_entry (mem s) src i j = Some e" "e AND PTE_U = 0"
  shows "\<exists>u. copy_leaf (pt_tab (mem s) src i) (pt_tab (mem t) d i) j t = Inr u \<and>
    copy_inv s src d ps R (D \<union> {i} \<times> {j}) n u \<and> pt_tab (mem u) d i = pt_tab (mem t) d i"
proof -
  let ?B = "pt_tab (mem s) src i" and ?T = "pt_tab (mem t) d i"
  note tab = copy_inv_tables[OF pre inv i]
  have eV: "word_at (mem t) ?B j = e" "pt_valid (mem t) ?B j" "e AND PTE_V \<noteq> 0"
    using e(1) i(3) copy_inv_src(2)[OF pre inv i(1) j i(3)] by (auto simp: pt_entry_def pt_valid_def split: if_splits)
  let ?u = "set_word ?T j e t"
  have run: "copy_leaf ?B ?T j t = Inr ?u"
    using copy_leaf_shared[of ?B ?T j t] tab(5) j eV e(2) by simp
  have wf: "pt_wf (mem t) d" using inv by (simp add: copy_inv_def)
  note l = pt_set_leaf[OF wf tab(1) i(1) j, where v = e, folded set_word_simps(1)[of ?T j e t]]
  have other: "mem ?u a = mem t a" if "page_base a \<noteq> ?T" for a
    using that j by (intro set_word_other) simp_all
  have ent: "\<forall>i' < 1024. \<forall>j' < 1024. pt_entry (mem ?u) d i' j' = (if i' = i \<and> j' = j then Some e else pt_entry (mem t) d i' j')"
    using l(3) eV(3) by simp
  have "copy_inv s src d ps R (D \<union> {i} \<times> {j}) n ?u"
  proof (rule copy_inv_leaf[OF inv i(1) j _ _ _ _ l(2,1) _ ent])
    show "kmem_pages ?u (drop n ps)"
      using inv j tab(6) by (intro set_word_pages) (simp_all add: copy_inv_def)
    show "\<forall>a. page_base a \<in> set (take n ps) - pt_pages (mem t) d \<longrightarrow> mem ?u a = mem t a"
      using other tab(2) by (metis DiffD2)
    show "\<forall>a. page_base a \<notin> set (take n ps) \<longrightarrow> mem ?u a = mem t a" using other tab(3) by metis
    show "copied (mem s) (mem ?u) (set (take n ps) - pt_pages (mem t) d) (pt_entry (mem s) src i j) (Some e)"
      using e by (simp add: copied_def)
    show "user_inj (mem ?u) d"
      by (rule user_inj_update[OF _ ent]) (use inv e(2) in \<open>simp_all add: copy_inv_def\<close>)
  qed (use inv l(5) in \<open>simp_all add: copy_inv_def\<close>)
  with run l(6)[OF i(1)] show ?thesis by blast
qed

lemma copy_leaf_step_user:
  assumes pre: "copy_pre s src ps" and inv: "copy_inv s src d ps R D n t"
    and i: "i < 1024" "i \<in> R" "pt_valid (mem s) src i" and j: "j < 1024"
    and e: "pt_entry (mem s) src i j = Some e" "e AND PTE_U \<noteq> 0" and room: "n < length ps"
  shows "\<exists>u. copy_leaf (pt_tab (mem s) src i) (pt_tab (mem t) d i) j t = Inr u \<and>
    copy_inv s src d ps R (D \<union> {i} \<times> {j}) (Suc n) u \<and> pt_tab (mem u) d i = pt_tab (mem t) d i"
proof -
  let ?B = "pt_tab (mem s) src i" and ?T = "pt_tab (mem t) d i" and ?p = "ps ! n"
  note tab = copy_inv_tables[OF pre inv i]
  have eV: "word_at (mem t) ?B j = e" "e AND PTE_V \<noteq> 0"
    using e(1) i(3) copy_inv_src(2)[OF pre inv i(1) j i(3)] by (auto simp: pt_entry_def pt_valid_def split: if_splits)
  have psn: "drop n ps = ?p # drop (Suc n) ps" using room by (simp add: Cons_nth_drop_Suc)
  have tk: "set (take (Suc n) ps) = insert ?p (set (take n ps))" using room by (simp add: take_Suc_conv_app_nth)
  have ps: "distinct ps" "page_aligned ?p" using pre room by (auto simp: copy_pre_def pt_ok_def kmem_pages_def)
  then have fresh: "?p \<notin> set (take n ps)" using room by (auto simp: in_set_conv_nth nth_eq_iff_index_eq)
  have data: "pte_table e \<notin> set ps" using pre i(1) j e by (simp add: copy_pre_def)
  have dsub: "set (?p # drop (Suc n) ps) \<subseteq> set ps" unfolding psn[symmetric] by (rule set_drop_subset)
  have pg: "kmem_pages t (?p # drop (Suc n) ps)" using inv psn by (simp add: copy_inv_def)
  let ?m = "mem (set_word ?T j (moved e ?p) t)"
  have "?B \<notin> set (?p # drop (Suc n) ps)" "?T \<notin> set (?p # drop (Suc n) ps)" "pte_table e \<notin> set (?p # drop (Suc n) ps)"
    using tab(4,6) data dsub unfolding psn by blast+
  from copy_leaf_user[OF pt_tab_aligned pt_tab_aligned tab(5) j eV e(2) pg this] obtain u where u:
    "copy_leaf ?B ?T j t = Inr u" "kmem_frame t u" "kmem_pages u (drop (Suc n) ps)"
    "\<And>a. mem u a = (if page_base a = ?p then ?m (pte_table e + (a - ?p)) else ?m a)" by blast
  have wf: "pt_wf (mem t) d" and sub: "pt_pages (mem t) d \<subseteq> set (take n ps)" using inv by (simp_all add: copy_inv_def)
  note l = pt_set_leaf[OF wf tab(1) i(1) j, where v = "moved e ?p", folded set_word_simps(1)[of ?T j "moved e ?p" t]]
  have mV: "moved e ?p AND PTE_V \<noteq> 0" "moved e ?p AND PTE_U \<noteq> 0"
    using eV(2) e(2) moved_simps(2)[OF ps(2)] by (simp_all add: flag_test)
  have al: "page_aligned d" using wf by (simp add: pt_wf_def)
  have eq: "\<forall>a. page_base a \<in> pt_pages ?m d \<longrightarrow> mem u a = ?m a"
    unfolding l(1) u(4) using sub fresh by (metis subsetD)
  note c = pt_cong[OF al eq]
  have root: "\<forall>a. page_base a = d \<longrightarrow> mem u a = ?m a" using eq by simp
  have ent: "\<forall>i' < 1024. \<forall>j' < 1024. pt_entry (mem u) d i' j' = (if i' = i \<and> j' = j then Some (moved e ?p) else pt_entry (mem t) d i' j')"
    using l(3) mV(1) c(3) by simp
  have other: "mem u a = mem t a" if "page_base a \<noteq> ?T" "page_base a \<noteq> ?p" for a
    using that set_word_other[of ?T j a "moved e ?p" t] j u(4)[of a] by simp
  have "copied (mem s) (mem u) (set (take (Suc n) ps) - pt_pages (mem t) d) (pt_entry (mem s) src i j) (Some (moved e ?p))"
  proof -
    have "mem u (?p + of_nat k) = mem s (pte_table e + of_nat k)" if k: "k < 4096" for k
    proof -
      have pb: "page_base (pte_table e + of_nat k) = pte_table e" "page_base (?p + of_nat k) = ?p"
        using page_base_add k ps(2) page_aligned_pte_table by blast+
      have "pte_table e \<noteq> ?T" "pte_table e \<notin> set (take n ps)"
        using data tab(3) set_take_subset[of n ps] by auto
      then have "?m (pte_table e + of_nat k) = mem s (pte_table e + of_nat k)"
        using set_word_other[of ?T j "pte_table e + of_nat k" "moved e ?p" t] j pb inv by (simp add: copy_inv_def)
      then show ?thesis using u(4)[of "?p + of_nat k"] pb by simp
    qed
    moreover have "?p \<in> set (take (Suc n) ps) - pt_pages (mem t) d" using tk fresh sub by auto
    ultimately show ?thesis using e ps(2) by (auto simp: copied_def)
  qed
  moreover have "user_inj (mem u) d"
  proof (rule user_inj_update[OF _ ent])
    show "user_inj (mem t) d" using inv by (simp add: copy_inv_def)
    show "\<forall>i' < 1024. \<forall>j' < 1024. \<forall>e'. pt_entry (mem t) d i' j' = Some e' \<and> e' AND PTE_U \<noteq> 0 \<and> moved e ?p AND PTE_U \<noteq> 0 \<longrightarrow>
      pte_table e' \<noteq> pte_table (moved e ?p)"
      using copy_inv_user_pages[OF inv] fresh moved_simps(1)[OF ps(2)] by metis
  qed
  moreover have "\<forall>k < 1024. pt_valid (mem u) d k = pt_valid (mem t) d k"
    using l(5) pt_root_cong(1)[OF al root] by simp
  moreover have "\<forall>a. page_base a \<in> set (take n ps) - pt_pages (mem t) d \<longrightarrow> mem u a = mem t a"
    using other fresh tab(2) by (metis DiffD1 DiffD2)
  moreover have "\<forall>a. page_base a \<notin> set (take (Suc n) ps) \<longrightarrow> mem u a = mem t a"
    using other tab(3) tk by (metis insertCI)
  ultimately have "copy_inv s src d ps R (D \<union> {i} \<times> {j}) (Suc n) u"
    using room u(2,3) c(1,2) l(1,2) ent by (intro copy_inv_leaf[OF inv i(1) j]) simp_all
  moreover have "pt_tab (mem u) d i = ?T" using pt_root_cong(2)[OF al root i(1)] l(6)[OF i(1)] by simp
  ultimately show ?thesis using u(1) by blast
qed

lemma copy_leaf_step:
  assumes pre: "copy_pre s src ps" and inv: "copy_inv s src d ps R D n t"
    and i: "i < 1024" "i \<in> R" "pt_valid (mem s) src i" and j: "j < 1024" "(i, j) \<notin> D"
    and room: "n + leaf_cost (mem s) src i j \<le> length ps"
  shows "\<exists>u. copy_leaf (pt_tab (mem s) src i) (pt_tab (mem t) d i) j t = Inr u \<and>
    copy_inv s src d ps R (D \<union> {i} \<times> {j}) (n + leaf_cost (mem s) src i j) u \<and> pt_tab (mem u) d i = pt_tab (mem t) d i"
proof (cases "pt_entry (mem s) src i j")
  case None
  then have "\<not> pt_valid (mem t) (pt_tab (mem s) src i) j"
    using copy_inv_src(2)[OF pre inv i(1) j(1) i(3)] i(3) by (auto simp: pt_entry_def pt_valid_def split: if_splits)
  with copy_inv_skip[OF inv i(1), of "{j}"] None j(2) show ?thesis
    by (auto simp: copy_leaf_skip leaf_cost_def)
next
  case (Some e)
  show ?thesis
  proof (cases "e AND PTE_U = 0")
    case True
    from copy_leaf_step_shared[OF pre inv i j(1) Some True] show ?thesis by (simp add: leaf_cost_def Some True)
  next
    case False
    then have "n < length ps" using room by (simp add: leaf_cost_def Some)
    from copy_leaf_step_user[OF pre inv i j(1) Some False this] show ?thesis by (simp add: leaf_cost_def Some False)
  qed
qed

lemma copy_leaf_loop:
  assumes pre: "copy_pre s src ps" and inv: "copy_inv s src d ps R D n t"
    and i: "i < 1024" "i \<in> R" "pt_valid (mem s) src i" and D: "D \<inter> {i} \<times> UNIV = {}"
    and room: "n + (\<Sum>j < 1024. leaf_cost (mem s) src i j) \<le> length ps"
  shows "\<exists>u. kfold (copy_leaf (pt_tab (mem s) src i) (pt_tab (mem t) d i)) [0..<1024] t = Inr u \<and>
    copy_inv s src d ps R (D \<union> {i} \<times> {..<1024}) (n + (\<Sum>j < 1024. leaf_cost (mem s) src i j)) u"
proof -
  let ?T = "pt_tab (mem t) d i"
  let ?P = "\<lambda>k u. copy_inv s src d ps R (D \<union> {i} \<times> {..<k}) (n + (\<Sum>j < k. leaf_cost (mem s) src i j)) u \<and>
    pt_tab (mem u) d i = ?T"
  have "\<exists>u. kfold (copy_leaf (pt_tab (mem s) src i) ?T) [0..<1024] t = Inr u \<and> ?P (length [0..<1024]) u"
  proof (rule kfold_invariant)
    show "?P 0 t" using inv by simp
  next
    fix k u assume k: "k < length [0..<1024]" and P: "?P k u"
    have "(\<Sum>j < Suc k. leaf_cost (mem s) src i j) \<le> (\<Sum>j < 1024. leaf_cost (mem s) src i j)"
      using k by (intro sum_mono2) auto
    then have "n + (\<Sum>j < k. leaf_cost (mem s) src i j) + leaf_cost (mem s) src i k \<le> length ps" using room by simp
    moreover have "(i, k) \<notin> D \<union> {i} \<times> {..<k}" using D by auto
    moreover have "D \<union> {i} \<times> {..<k} \<union> {i} \<times> {k} = D \<union> {i} \<times> {..<Suc k}" by auto
    ultimately show "\<exists>u'. copy_leaf (pt_tab (mem s) src i) ?T ([0..<1024] ! k) u = Inr u' \<and> ?P (Suc k) u'"
      using copy_leaf_step[OF pre conjunct1[OF P] i, of k] k P by (simp add: add.assoc)
  qed
  then show ?thesis by auto
qed

definition root_cost :: "(addr \<Rightarrow> u8) \<Rightarrow> addr \<Rightarrow> nat \<Rightarrow> nat" where
  "root_cost m src i = (if pt_valid m src i then Suc (\<Sum>j < 1024. leaf_cost m src i j) else 0)"

lemma copy_root_eq:
  "copy_root src d i t = (if pt_valid (mem t) src i then
     kbind (kmem_alloc t) (\<lambda>(p, u). kfold (copy_leaf (pt_tab (mem t) src i) p) [0..<1024]
       (set_word d i (drop_bit 2 (page_base p) OR PTE_V) u)) else Inr t)"
  by (auto simp: copy_root_def Let_def pt_valid_def pt_tab_def page_base_def intro!: kbind_cong)

lemma copy_root_step:
  assumes pre: "copy_pre s src ps" and inv: "copy_inv s src d ps {k. k < i \<and> pt_valid (mem s) src k} ({..<i} \<times> {..<1024}) n t"
    and i: "i < 1024" and room: "n + root_cost (mem s) src i \<le> length ps"
  shows "\<exists>u. copy_root src d i t = Inr u \<and>
    copy_inv s src d ps {k. k < Suc i \<and> pt_valid (mem s) src k} ({..<Suc i} \<times> {..<1024}) (n + root_cost (mem s) src i) u"
proof -
  let ?R = "{k. k < i \<and> pt_valid (mem s) src k}" and ?D = "{..<i} \<times> {..<1024 :: nat}"
  have src: "pt_valid (mem t) src i = pt_valid (mem s) src i" "pt_tab (mem t) src i = pt_tab (mem s) src i"
    using copy_inv_src(1)[OF pre inv i i] by (simp_all add: pt_valid_def pt_tab_def)
  have D: "?D \<union> {i} \<times> {..<1024} = {..<Suc i} \<times> {..<1024}" by auto
  show ?thesis
  proof (cases "pt_valid (mem s) src i")
    case False
    then have R: "{k. k < Suc i \<and> pt_valid (mem s) src k} = ?R" by (auto simp: less_Suc_eq)
    have "copy_inv s src d ps ?R (?D \<union> {i} \<times> {..<1024}) n t"
      by (rule copy_inv_skip[OF inv i]) (use False in \<open>auto simp: pt_entry_def\<close>)
    then show ?thesis using False src(1) by (simp add: copy_root_eq root_cost_def R D)
  next
    case True
    then have R: "{k. k < Suc i \<and> pt_valid (mem s) src k} = insert i ?R" by (auto simp: less_Suc_eq)
    have "n < length ps" using room True by (simp add: root_cost_def)
    from copy_inv_table[OF pre inv i _ this] obtain u where
      u: "ensure_table d i t = Inr u" "copy_inv s src d ps (insert i ?R) ?D (Suc n) u" by auto
    have nv: "\<not> pt_valid (mem t) d i" using inv i by (simp add: copy_inv_def)
    then obtain p t1 where p: "kmem_alloc t = Inr (p, t1)" "u = set_word d i (drop_bit 2 (page_base p) OR PTE_V) t1"
      using u(1) by (auto simp: ensure_table_def pt_valid_def kres_simps)
    have "kmem_pages t (ps ! n # drop (Suc n) ps)"
      using inv \<open>n < length ps\<close> by (simp add: copy_inv_def Cons_nth_drop_Suc)
    from kmem_alloc_ok[OF this] p(1) this have al: "page_aligned p" by (auto simp: kmem_pages_def)
    have "pt_tab (mem u) d i = p"
      using pte_table_of[OF al, of PTE_V] by (simp add: pt_tab_def p(2) page_base_aligned[OF al] PTE_V_def)
    have "Suc n + (\<Sum>j < 1024. leaf_cost (mem s) src i j) \<le> length ps" using room True by (simp add: root_cost_def)
    moreover have "?D \<inter> {i} \<times> UNIV = {}" by auto
    ultimately show ?thesis
      using copy_leaf_loop[OF pre u(2) i _ True] True src p \<open>pt_tab (mem u) d i = p\<close>
      by (simp add: copy_root_eq root_cost_def R D)
  qed
qed

text \<open>The number of pages that duplicating the table at \<open>src\<close> takes.\<close>

definition copy_cost :: "(addr \<Rightarrow> u8) \<Rightarrow> addr \<Rightarrow> nat" where
  "copy_cost m src = Suc (\<Sum>i < 1024. root_cost m src i)"

lemma copy_inv_start:
  assumes "copy_pre s src (d # ps)" "kmem_alloc s = Inr (d, t)"
  shows "copy_inv s src d (d # ps) {} {} 1 t"
proof -
  have pg: "kmem_pages s (d # ps)" using assms(1) by (simp add: copy_pre_def pt_ok_def)
  from kmem_alloc_ok[OF pg] assms(2) have t: "kmem_pages t ps" "\<forall>a. mem t a = (if page_base a = d then 0 else mem s a)"
    "kmem_frame s t" by (auto simp: kmem_frame_def)
  have al: "page_aligned d" using pg by (simp add: kmem_pages_def)
  have z: "\<forall>a. page_base a = d \<longrightarrow> mem t a = 0" using t(2) by simp
  note b = blank_table_ok[OF z al] blank_table[OF z al]
  moreover have "\<forall>a. page_base a \<noteq> d \<longrightarrow> mem t a = mem s a" using t(2) by simp
  ultimately show ?thesis using t(1,3) by (simp add: copy_inv_def entries_copied_def user_inj_def)
qed

lemma kvmem_copy_pagetable_ok:
  assumes pre: "copy_pre s src ps" and room: "copy_cost (mem s) src \<le> length ps"
  shows "\<exists>t. kvmem_copy_pagetable src s = Inr (hd ps, t) \<and>
    copy_inv s src (hd ps) ps {k. k < 1024 \<and> pt_valid (mem s) src k} ({..<1024} \<times> {..<1024}) (copy_cost (mem s) src) t"
proof -
  obtain d qs where ps: "ps = d # qs" using room by (cases ps) (simp_all add: copy_cost_def)
  from kmem_alloc_ok[of s d qs] pre obtain t0 where t0: "kmem_alloc s = Inr (d, t0)"
    by (auto simp: copy_pre_def pt_ok_def ps)
  let ?P = "\<lambda>k t. copy_inv s src d ps {i. i < k \<and> pt_valid (mem s) src i} ({..<k} \<times> {..<1024})
    (Suc (\<Sum>i < k. root_cost (mem s) src i)) t"
  have "\<exists>t. kfold (copy_root src d) [0..<1024] t0 = Inr t \<and> ?P (length [0..<1024]) t"
  proof (rule kfold_invariant)
    show "?P 0 t0" using copy_inv_start[of s src d qs t0] pre t0 by (simp add: ps)
  next
    fix k u assume k: "k < length [0..<1024]" and P: "?P k u"
    have "(\<Sum>i < Suc k. root_cost (mem s) src i) \<le> (\<Sum>i < 1024. root_cost (mem s) src i)"
      using k by (intro sum_mono2) auto
    then have "Suc (\<Sum>i < k. root_cost (mem s) src i) + root_cost (mem s) src k \<le> length ps"
      using room by (simp add: copy_cost_def)
    from copy_root_step[OF pre P _ this] k show "\<exists>u'. copy_root src d ([0..<1024] ! k) u = Inr u' \<and> ?P (Suc k) u'"
      by simp
  qed
  then show ?thesis by (auto simp: kvmem_copy_pagetable_def t0 ps copy_cost_def)
qed

text \<open>
  C6: duplicating a page table for fork succeeds when the allocator holds enough pages, and gives the
  child its own address space: kernel pages are shared with the same entry; every user page of
  the parent has a page of the child with the same flags and the same bytes, in memory that was
  free before and that no other page of the child uses; absent pages stay absent; and nothing
  outside the pages taken from the allocator changes, so the parent keeps its memory.
\<close>

theorem fork_copies_address_space:
  assumes "copy_pre s src ps" "copy_cost (mem s) src \<le> length ps"
  shows "\<exists>d t. kvmem_copy_pagetable src s = Inr (d, t) \<and> pt_ok t d (drop (copy_cost (mem s) src) ps) \<and>
    pt_pages (mem t) d \<subseteq> set (take (copy_cost (mem s) src) ps) \<and> user_inj (mem t) d \<and>
    (\<forall>va. copied (mem s) (mem t) (set (take (copy_cost (mem s) src) ps) - pt_pages (mem t) d)
       (pt_entry (mem s) src (vpn1 va) (vpn0 va)) (pt_entry (mem t) d (vpn1 va) (vpn0 va))) \<and>
    (\<forall>a. \<not> in_pages a (take (copy_cost (mem s) src) ps) \<longrightarrow> mem t a = mem s a)"
proof -
  from kvmem_copy_pagetable_ok[OF assms] obtain t where t: "kvmem_copy_pagetable src s = Inr (hd ps, t)"
    "copy_inv s src (hd ps) ps {k. k < 1024 \<and> pt_valid (mem s) src k} ({..<1024} \<times> {..<1024}) (copy_cost (mem s) src) t"
    by blast
  from copy_inv_pt_ok[OF assms(1) t(2)] t show ?thesis
    by (intro exI[of _ "hd ps"] exI[of _ t]) (simp add: copy_inv_def entries_copied_def)
qed

text \<open>A table that maps one user page, and four free pages.\<close>

definition kvmem_user :: kmem where
  "kvmem_user = foldr kmem_free [0x80100000, 0x80101000, 0x80102000, 0x80103000, 0x80104000] kmem_static"

lemma kvmem_user_ok: "pt_ok kvmem_user 0x80105000 [0x80100000, 0x80101000, 0x80102000, 0x80103000, 0x80104000]"
  "i < 1024 \<Longrightarrow> \<not> pt_valid (mem kvmem_user) 0x80105000 i"
proof -
  let ?ps = "[0x80100000, 0x80101000, 0x80102000, 0x80103000, 0x80104000] :: addr list"
  have "kmem_pages kmem_static []" by (simp add: kmem_pages_def)
  note f = kmem_free_list[OF this, of ?ps, folded kvmem_user_def]
  have z: "\<forall>a. page_base a = 0x80105000 \<longrightarrow> mem kvmem_user a = 0" using f(2) by (simp add: page_aligned_def)
  then show "pt_ok kvmem_user 0x80105000 ?ps" "i < 1024 \<Longrightarrow> \<not> pt_valid (mem kvmem_user) 0x80105000 i"
    using f(1) blank_table_ok[OF z] blank_table[OF z] by (simp_all add: pt_ok_def page_aligned_def)
qed

lemma one_page_cost:
  assumes "\<forall>k < 1024. pt_valid m root k \<longleftrightarrow> k = I" "I < 1024" "J < 1024"
    "\<forall>i < 1024. \<forall>j < 1024. pt_entry m root i j = (if i = I \<and> j = J then Some e else None)" "e AND PTE_U \<noteq> 0"
  shows "copy_cost m root = 3"
proof -
  have "(\<Sum>j < 1024. leaf_cost m root I j) = (\<Sum>j < 1024. if j = J then 1 else 0)"
    by (rule sum.cong) (use assms(2,4,5) in \<open>auto simp: leaf_cost_def\<close>)
  also have "\<dots> = 1" using assms(3) by (simp add: sum.delta)
  finally have "(\<Sum>i < 1024. root_cost m root i) = (\<Sum>i < 1024. if i = I then 2 else 0)"
    by (intro sum.cong) (use assms(1) in \<open>auto simp: root_cost_def\<close>)
  also have "\<dots> = 2" using assms(2) by (simp add: sum.delta)
  finally show ?thesis by (simp add: copy_cost_def)
qed

theorem fork_copies_address_space_witness:
  "\<exists>s d t. kvmem_map_page 0x80105000 0xC0000000 0x80200000 (PTE_U OR PTE_R OR PTE_W) kvmem_user = Inr s \<and>
     kvmem_copy_pagetable 0x80105000 s = Inr (d, t) \<and> kvmem_get_pa 0x80105000 0xC0000000 s = 0x80200000 \<and>
     kvmem_get_pa d 0xC0000000 t \<in> {0x80101000, 0x80102000, 0x80103000} \<and> pt_ok t d [0x80104000]"
proof -
  let ?e = "leaf_pte 0x80200000 (PTE_U OR PTE_R OR PTE_W)"
  have i: "vpn1 0xC0000000 = 768" "vpn0 0xC0000000 = 0" by (simp_all add: vpn_div)
  from map_page_ok[OF kvmem_user_ok(1), of "0xC0000000" "0x80200000" "PTE_U OR PTE_R OR PTE_W"] obtain s where s:
    "kvmem_map_page 0x80105000 0xC0000000 0x80200000 (PTE_U OR PTE_R OR PTE_W) kvmem_user = Inr s"
    "pt_ok s 0x80105000 [0x80101000, 0x80102000, 0x80103000, 0x80104000]"
    "\<forall>k < 1024. pt_valid (mem s) 0x80105000 k \<longleftrightarrow> k = 768"
    "\<forall>i < 1024. \<forall>j < 1024. pt_entry (mem s) 0x80105000 i j = (if i = 768 \<and> j = 0 then Some ?e else None)"
    using kvmem_user_ok(2) by (auto simp: i leaf_pte_def pt_entry_def)
  have f: "(PTE_U OR PTE_R OR PTE_W) AND 0xFFFFFC00 = 0" by (simp add: pte_flag_defs)
  have u: "?e AND PTE_U \<noteq> 0" "pte_table ?e = 0x80200000"
    using leaf_pte_simps(1)[OF f, of "0x80200000"] by (simp_all add: flag_test leaf_pte_bits bit_or_iff flag_bit page_base_def)
  have cost: "copy_cost (mem s) 0x80105000 = 3" by (rule one_page_cost[OF s(3) _ _ s(4) u(1)]) simp_all
  have "copy_pre s 0x80105000 [0x80101000, 0x80102000, 0x80103000, 0x80104000]"
    using s(2,4) u(2) by (simp add: copy_pre_def)
  from fork_copies_address_space[OF this] cost obtain d t where t:
    "kvmem_copy_pagetable 0x80105000 s = Inr (d, t)" "pt_ok t d [0x80104000]"
    "copied (mem s) (mem t) ({0x80101000, 0x80102000, 0x80103000} - pt_pages (mem t) d)
       (pt_entry (mem s) 0x80105000 768 0) (pt_entry (mem t) d 768 0)" using i by (auto simp: numeral_3_eq_3) metis
  then have "kvmem_get_pa d 0xC0000000 t \<in> {0x80101000, 0x80102000, 0x80103000}"
    using s(4) u by (auto simp: copied_def kvmem_get_pa_entry i moved_simps)
  moreover have "kvmem_get_pa 0x80105000 0xC0000000 s = 0x80200000" using s(4) u by (simp add: kvmem_get_pa_entry i)
  ultimately show ?thesis using s(1) t(1,2) by blast
qed

end
