(* ===== verification/Kproc.thy ===== *)
theory Kproc
  imports Kvmem_Fork
begin

text \<open>
  Processes, \<^verbatim>\<open>src/kernel/kproc.c\<close> without program loading: the table of process control blocks, the
  per-process file table, fork, kill, exit, sbrk, yield and the round-robin scheduler. A pointer
  to a control block is its index in \<open>procs\<close>, a pointer to an open file its index in the table of
  open files. Trap frames live in the byte memory, in the page the control block points to.
\<close>

section \<open>State\<close>

definition NUM_PROCESSES :: nat where "NUM_PROCESSES = 8"
definition MAX_OPEN_FILES :: nat where "MAX_OPEN_FILES = 8"

datatype procstate = UNUSED | USED | SLEEPING | RUNNABLE | RUNNING

text \<open>
  Where a context continues when it is switched to: \<open>ktrap_to_user\<close>, for a process that has not
  run since it was made, or the instruction after the switch, in the system call it gave up the
  processor in. The callee-saved registers that \<open>swtch\<close> also saves belong to compiled code.
\<close>

datatype resume = At_ktrap_to_user | After_sleep | After_free

record kcontext =
  ra :: resume
  ctx_sp :: u32

record process =
  pid :: u32
  proc_state :: procstate
  proc_context :: kcontext
  trapframe :: addr
  pagetable :: addr
  user_stack :: addr
  free_heap_page :: u32
  opened_files :: "nat option list"
  kernel_stack_top :: u32

record kproc = kvmem +
  proc_array_base :: addr
  procs :: "process list"
  current :: nat
  hart_sp :: u32

text \<open>The words of a trap frame, in the order of \<^verbatim>\<open>struct trap_frame\<close>.\<close>

datatype tf_field =
  TF_kernel_satp | TF_kernel_sp | TF_kernel_trap | TF_epc | TF_kernel_hartid | TF_ra | TF_sp | TF_gp | TF_tp | TF_t0 | TF_t1 | TF_t2 |
  TF_s0 | TF_s1 | TF_a0 | TF_a1 | TF_a2 | TF_a3 | TF_a4 | TF_a5 | TF_a6 | TF_a7 | TF_s2 | TF_s3 | TF_s4 | TF_s5 | TF_s6 | TF_s7 | TF_s8 | TF_s9 | TF_s10 | TF_s11 |
  TF_t3 | TF_t4 | TF_t5 | TF_t6

primrec tf_index :: "tf_field \<Rightarrow> nat" where
  "tf_index TF_kernel_satp = 0" | "tf_index TF_kernel_sp = 1" | "tf_index TF_kernel_trap = 2" | "tf_index TF_epc = 3"
| "tf_index TF_kernel_hartid = 4" | "tf_index TF_ra = 5" | "tf_index TF_sp = 6" | "tf_index TF_gp = 7"
| "tf_index TF_tp = 8" | "tf_index TF_t0 = 9" | "tf_index TF_t1 = 10" | "tf_index TF_t2 = 11" | "tf_index TF_s0 = 12"
| "tf_index TF_s1 = 13" | "tf_index TF_a0 = 14" | "tf_index TF_a1 = 15" | "tf_index TF_a2 = 16" | "tf_index TF_a3 = 17"
| "tf_index TF_a4 = 18" | "tf_index TF_a5 = 19" | "tf_index TF_a6 = 20" | "tf_index TF_a7 = 21" | "tf_index TF_s2 = 22"
| "tf_index TF_s3 = 23" | "tf_index TF_s4 = 24" | "tf_index TF_s5 = 25" | "tf_index TF_s6 = 26" | "tf_index TF_s7 = 27"
| "tf_index TF_s8 = 28" | "tf_index TF_s9 = 29" | "tf_index TF_s10 = 30" | "tf_index TF_s11 = 31" | "tf_index TF_t3 = 32"
| "tf_index TF_t4 = 33" | "tf_index TF_t5 = 34" | "tf_index TF_t6 = 35"

definition tf_get :: "addr \<Rightarrow> tf_field \<Rightarrow> 'a machine_scheme \<Rightarrow> u32" where
  "tf_get tf f s = word_at (mem s) tf (tf_index f)"

definition tf_set :: "addr \<Rightarrow> tf_field \<Rightarrow> u32 \<Rightarrow> 'a machine_scheme \<Rightarrow> 'a machine_scheme" where
  "tf_set tf f v s = set_word tf (tf_index f) v s"

text \<open>Reading and updating a control block; \<open>cur\<close> is \<^verbatim>\<open>*current_user_process\<close>.\<close>

definition proc_upd :: "nat \<Rightarrow> (process \<Rightarrow> process) \<Rightarrow> 'a kproc_scheme \<Rightarrow> 'a kproc_scheme" where
  "proc_upd i f s = s\<lparr>procs := (procs s)[i := f (procs s ! i)]\<rparr>"

definition cur :: "'a kproc_scheme \<Rightarrow> process" where
  "cur s = procs s ! current s"

section \<open>Operations\<close>

text \<open>A control block is 8312 bytes long and ends with its kernel stack.\<close>

definition kproc_init :: "'a kproc_scheme \<Rightarrow> 'a kproc_scheme" where
  "kproc_init s = fold (\<lambda>i. proc_upd i (\<lambda>p. p\<lparr>proc_state := UNUSED,
      kernel_stack_top := proc_array_base s + 8312 * (of_nat i + 1), free_heap_page := VA_USER_BASE\<rparr>))
    [0..<NUM_PROCESSES] s"

definition find_unused :: "'a kproc_scheme \<Rightarrow> nat option" where
  "find_unused s = find (\<lambda>i. proc_state (procs s ! i) = UNUSED) [0..<NUM_PROCESSES]"

text \<open>
  Switching to the scheduler: the running context is saved, to be resumed at \<open>r\<close>; what runs next
  is up to \<open>kproc_scheduler\<close>.
\<close>

definition kproc_yield :: "resume \<Rightarrow> 'a kproc_scheme \<Rightarrow> 'a kproc_scheme" where
  "kproc_yield r s = proc_upd (current s) (\<lambda>p. p\<lparr>proc_context := \<lparr>ra = r, ctx_sp = hart_sp s\<rparr>\<rparr>) s"

definition kproc_free :: "'a kproc_scheme \<Rightarrow> 'a kproc_scheme" where
  "kproc_free s =
     (let s = proc_upd (current s) (\<lambda>p. p\<lparr>proc_state := UNUSED\<rparr>) s;
          s = kmem_free (trapframe (cur s)) s;
          s = kmem_free (pagetable (cur s)) s;
          s = kmem_free (user_stack (cur s)) s
      in kproc_yield After_free s)"

definition kill_one :: "u32 \<Rightarrow> nat \<Rightarrow> 'a kproc_scheme \<Rightarrow> 'a kproc_scheme" where
  "kill_one target i s =
     (if proc_state (procs s ! i) \<noteq> UNUSED \<and> pid (procs s ! i) = target then
        (let s = kmem_free (trapframe (procs s ! i)) s;
             s = kmem_free (pagetable (procs s ! i)) s;
             s = kmem_free (user_stack (procs s ! i)) s
         in proc_upd i (\<lambda>p. p\<lparr>proc_state := UNUSED\<rparr>) s)
      else s)"

text \<open>The result is \<open>None\<close> when the caller killed itself and does not return.\<close>

definition kproc_kill :: "u32 \<Rightarrow> 'a kproc_scheme \<Rightarrow> u32 option \<times> 'a kproc_scheme" where
  "kproc_kill target s =
     (if pid (cur s) = target then (None, kproc_free s)
      else (Some 0xFFFFFFFF, fold (kill_one target) [0..<NUM_PROCESSES] s))"

definition kproc_file_add :: "nat \<Rightarrow> 'a kproc_scheme \<Rightarrow> u32 \<times> 'a kproc_scheme" where
  "kproc_file_add f s =
     (case find (\<lambda>fd. opened_files (cur s) ! fd = None) [3..<MAX_OPEN_FILES] of
        Some fd \<Rightarrow> (of_nat fd, proc_upd (current s) (\<lambda>p. p\<lparr>opened_files := (opened_files p)[fd := Some f]\<rparr>) s)
      | None \<Rightarrow> (-1, s))"

text \<open>An index past the end of the file table is a read of whatever lies behind it.\<close>

definition kproc_file_get :: "u32 \<Rightarrow> 'a kproc_scheme \<Rightarrow> nat option kres" where
  "kproc_file_get fd s =
     (if unat fd < MAX_OPEN_FILES then Inr (opened_files (cur s) ! unat fd)
      else Inl (Undefined ''opened_files index''))"

definition kproc_file_remove :: "u32 \<Rightarrow> 'a kproc_scheme \<Rightarrow> (u32 \<times> 'a kproc_scheme) kres" where
  "kproc_file_remove fd s =
     (if unat fd < MAX_OPEN_FILES then
        if opened_files (cur s) ! unat fd = None then Inr (-1, s)
        else Inr (0, proc_upd (current s) (\<lambda>p. p\<lparr>opened_files := (opened_files p)[unat fd := None]\<rparr>) s)
      else Inl (Undefined ''opened_files index''))"

text \<open>The part of \<open>kproc_fork\<close> after the trap frame is mapped.\<close>

definition fork_tail :: "nat \<Rightarrow> 'a kproc_scheme \<Rightarrow> (u32 \<times> 'a kproc_scheme) kres" where
  "fork_tail i s =
     (let s = s\<lparr>mem := memcpy (trapframe (procs s ! i)) (trapframe (cur s)) PAGE_SIZE (mem s)\<rparr>;
          s = proc_upd i (\<lambda>p. p\<lparr>user_stack := kvmem_get_pa (pagetable p) VA_USER_STACK s\<rparr>) s;
          s = proc_upd i (\<lambda>p. p\<lparr>proc_context := (proc_context p)\<lparr>ra := At_ktrap_to_user\<rparr>\<rparr>) s;
          s = proc_upd i (\<lambda>p. p\<lparr>proc_context := (proc_context p)\<lparr>ctx_sp := kernel_stack_top p\<rparr>\<rparr>) s;
          s = tf_set (trapframe (procs s ! i)) TF_kernel_sp (kernel_stack_top (procs s ! i)) s;
          s = tf_set (trapframe (procs s ! i)) TF_kernel_trap (sym_addr s Sym_ktrap_from_user_handler) s;
          s = tf_set (trapframe (cur s)) TF_a0 (pid (procs s ! i)) s;
          s = tf_set (trapframe (procs s ! i)) TF_a0 0 s in
      kbind (kprintf (''Successfully forked %d to %d'' @ [CHR 0x0A]) [VInt (pid (cur s)), VInt (pid (procs s ! i))] s)
        (\<lambda>(_, s). Inr (pid (procs s ! i), s)))"

definition kproc_fork :: "'a kproc_scheme \<Rightarrow> (u32 \<times> 'a kproc_scheme) kres" where
  "kproc_fork s =
     (case find_unused s of
        None \<Rightarrow> kpanic ''kernel/kproc.c'' 218 ''No free PCB for forked process'' s
      | Some i \<Rightarrow>
          (let s = proc_upd i (\<lambda>p. p\<lparr>proc_state := RUNNABLE\<rparr>) s;
               s = proc_upd i (\<lambda>p. p\<lparr>pid := of_nat i + 1\<rparr>) s in
           kbind (kvmem_copy_pagetable (pagetable (cur s)) s) (\<lambda>(pt, s).
           let s = proc_upd i (\<lambda>p. p\<lparr>pagetable := pt\<rparr>) s in
           kbind (kmem_alloc s) (\<lambda>(tf, s).
           let s = proc_upd i (\<lambda>p. p\<lparr>trapframe := tf\<rparr>) s in
           kbind (kvmem_map_page (pagetable (procs s ! i)) VA_TRAPFRAME (trapframe (procs s ! i)) (PTE_R OR PTE_W) s)
             (fork_tail i)))))"

definition kproc_add_page :: "'a kproc_scheme \<Rightarrow> (u32 \<times> 'a kproc_scheme) kres" where
  "kproc_add_page s =
     kbind (kmem_alloc s) (\<lambda>(page, s).
     let retval = free_heap_page (cur s) in
     kbind (kvmem_map_page (pagetable (cur s)) (free_heap_page (cur s)) page (PTE_R OR PTE_W OR PTE_U) s) (\<lambda>s.
       Inr (retval, proc_upd (current s) (\<lambda>p. p\<lparr>free_heap_page := free_heap_page p + PAGE_SIZE\<rparr>) s)))"

text \<open>
  The scheduler from position \<open>i\<close> of its loop to the next switch: the index of the process it
  switches to. It looks for ever when no process can run.
\<close>

definition can_run :: "process \<Rightarrow> bool" where
  "can_run p \<longleftrightarrow> proc_state p = RUNNABLE \<or> proc_state p = RUNNING"

definition kproc_scheduler :: "nat \<Rightarrow> 'a kproc_scheme \<Rightarrow> (nat \<times> 'a kproc_scheme) kres" where
  "kproc_scheduler i s =
     kbind (kwhile (\<lambda>i. \<not> can_run (procs s ! i)) (\<lambda>i. Inr (if i + 1 < NUM_PROCESSES then i + 1 else 0)) i)
       (\<lambda>i. Inr (i, s\<lparr>current := i\<rparr>))"

text \<open>
  The endless loop of the scheduler up to the \<open>n\<close>-th switch and the return from it: the processes it has switched to. What
  happens between a switch to process \<open>k\<close> and the switch back is \<open>run k\<close>, any change of the state; the loop then goes on behind \<open>k\<close>.
\<close>

primrec kproc_scheduler_loop :: "(nat \<Rightarrow> 'a kproc_scheme \<Rightarrow> 'a kproc_scheme kres) \<Rightarrow> nat \<Rightarrow> nat \<Rightarrow> 'a kproc_scheme \<Rightarrow> (nat list \<times> 'a kproc_scheme) kres" where
  "kproc_scheduler_loop run 0 i s = Inr ([], s)"
| "kproc_scheduler_loop run (Suc n) i s =
     kbind (kproc_scheduler i s) (\<lambda>(k, s).
     kbind (run k s) (\<lambda>s.
     kbind (kproc_scheduler_loop run n (if k + 1 < NUM_PROCESSES then k + 1 else 0) s) (\<lambda>(ks, s). Inr (k # ks, s))))"

section \<open>Frames\<close>

lemma proc_upd_simps [simp]:
  "mem (proc_upd i f s) = mem s" "kmem_head (proc_upd i f s) = kmem_head s" "csr (proc_upd i f s) = csr s"
  "procs (proc_upd i f s) = (procs s)[i := f (procs s ! i)]" "current (proc_upd i f s) = current s"
  "sym_addr (proc_upd i f s) = sym_addr s" "uart_writes (proc_upd i f s) = uart_writes s"
  "kernel_pagetable (proc_upd i f s) = kernel_pagetable s" "hart_sp (proc_upd i f s) = hart_sp s"
  "lsr_at (proc_upd i f s) = lsr_at s" "free_ram_end (proc_upd i f s) = free_ram_end s"
  "proc_array_base (proc_upd i f s) = proc_array_base s" "kproc.more (proc_upd i f s) = kproc.more s"
  by (simp_all add: proc_upd_def)

lemma kmem_frame_kproc:
  assumes "kmem_frame s (t :: 'a kproc_scheme)"
  shows "procs t = procs s" "current t = current s" "hart_sp t = hart_sp s" "kproc.more t = kproc.more s"
    "proc_array_base t = proc_array_base s" "cur t = cur s"
proof -
  from assms have t: "t = s\<lparr>mem := mem t, kmem_head := kmem_head t\<rparr>" by (simp add: kmem_frame_def)
  show "procs t = procs s" "current t = current s" "hart_sp t = hart_sp s" "kproc.more t = kproc.more s"
    "proc_array_base t = proc_array_base s" by (subst t, simp)+
  then show "cur t = cur s" by (simp add: cur_def)
qed

lemma kmem_free_simps [simp]:
  "procs (kmem_free p s) = procs s" "current (kmem_free p s) = current s" "cur (kmem_free p s) = cur s"
  "hart_sp (kmem_free p s) = hart_sp s"
  by (simp_all add: kmem_free_def cur_def)

section \<open>A small machine\<close>

text \<open>
  The first process runs, with an empty address space at \<open>0x80105000\<close> and its trap frame at
  \<open>0x80106000\<close>; five pages are free and the other control blocks are unused.
\<close>

definition blank_process :: process where
  "blank_process = \<lparr>pid = 0, proc_state = UNUSED, proc_context = \<lparr>ra = At_ktrap_to_user, ctx_sp = 0\<rparr>,
     trapframe = 0, pagetable = 0, user_stack = 0, free_heap_page = VA_USER_BASE,
     opened_files = replicate MAX_OPEN_FILES None, kernel_stack_top = 0x80020000\<rparr>"

definition kproc_static :: kproc where
  "kproc_static = kvmem.extend (kmem.extend kvmem_user (kvmem.fields 0)) (kproc.fields 0x80010000
     (blank_process\<lparr>pid := 1, proc_state := RUNNING, pagetable := 0x80105000, trapframe := 0x80106000,
        user_stack := 0x80107000\<rparr> # replicate 7 blank_process) 0 0x8001F000)"

lemma kproc_static_simps [simp]:
  "procs kproc_static = blank_process\<lparr>pid := 1, proc_state := RUNNING, pagetable := 0x80105000,
     trapframe := 0x80106000, user_stack := 0x80107000\<rparr> # replicate 7 blank_process"
  "current kproc_static = 0" "mem kproc_static = mem kvmem_user" "kmem_head kproc_static = kmem_head kvmem_user"
  "lsr_at kproc_static = lsr_at kvmem_user" "lsr_pos kproc_static = lsr_pos kvmem_user"
  by (simp_all add: kproc_static_def kvmem.defs kmem.defs kproc.defs)

text \<open>What \<open>kproc_init\<close> makes of control block \<open>i\<close>.\<close>

definition init_proc :: "addr \<Rightarrow> nat \<Rightarrow> process \<Rightarrow> process" where
  "init_proc base i p = p\<lparr>proc_state := UNUSED, kernel_stack_top := base + 8312 * (of_nat i + 1), free_heap_page := VA_USER_BASE\<rparr>"

lemma kproc_init_eq:
  assumes "length (procs s) = NUM_PROCESSES"
  shows "kproc_init s = s\<lparr>procs := map (\<lambda>i. init_proc (proc_array_base s) i (procs s ! i)) [0..<NUM_PROCESSES]\<rparr>"
proof -
  define f where "f = init_proc (proc_array_base s)"
  have "fold (\<lambda>i. proc_upd i (f i)) [0..<n] s = s\<lparr>procs := map (\<lambda>i. if i < n then f i (procs s ! i) else procs s ! i) [0..<NUM_PROCESSES]\<rparr>"
    if "n \<le> NUM_PROCESSES" for n
    using that
  proof (induction n)
    case 0
    have "map ((!) (procs s)) [0..<NUM_PROCESSES] = procs s" using map_nth[of "procs s"] assms by simp
    then show ?case by simp
  next
    case (Suc n)
    have "(map (\<lambda>i. if i < n then f i (procs s ! i) else procs s ! i) [0..<NUM_PROCESSES])[n := f n (procs s ! n)] =
        map (\<lambda>i. if i < Suc n then f i (procs s ! i) else procs s ! i) [0..<NUM_PROCESSES]"
      using Suc.prems by (intro nth_equalityI) (auto simp: nth_list_update less_Suc_eq)
    then show ?case using Suc by (simp add: proc_upd_def)
  qed
  from this[of NUM_PROCESSES] show ?thesis unfolding kproc_init_def f_def init_proc_def by simp
qed

section \<open>Scheduling\<close>

text \<open>The \<open>d\<close>-th process after \<open>i\<close> in cyclic order.\<close>

abbreviation cyc :: "nat \<Rightarrow> nat \<Rightarrow> nat" where
  "cyc i d \<equiv> (i + d) mod NUM_PROCESSES"

lemma cyc_step: "i < NUM_PROCESSES \<Longrightarrow> (if i + 1 < NUM_PROCESSES then i + 1 else 0) = cyc i 1"
  by (cases "i = 7") (auto simp: NUM_PROCESSES_def)

lemma scheduler_runs:
  assumes "i < NUM_PROCESSES" "can_run (procs s ! cyc i d)" "\<And>k. k < d \<Longrightarrow> \<not> can_run (procs s ! cyc i k)"
  shows "kproc_scheduler i s = Inr (cyc i d, s\<lparr>current := cyc i d\<rparr>)"
proof -
  let ?b = "\<lambda>i. \<not> can_run (procs s ! i)" and ?c = "\<lambda>i. Inr (if i + 1 < NUM_PROCESSES then i + 1 else 0)"
  have "kwhile ?b ?c i = Inr (cyc i d)"
    using assms
  proof (induction d arbitrary: i)
    case 0
    then show ?case by simp
  next
    case (Suc d)
    have "cyc (cyc i 1) k = cyc i (Suc k)" for k by (simp add: mod_add_left_eq)
    with Suc.prems(2,3) have "can_run (procs s ! cyc (cyc i 1) d)" "\<And>k. k < d \<Longrightarrow> \<not> can_run (procs s ! cyc (cyc i 1) k)"
      by (auto simp del: add_Suc_right)
    from Suc.IH[OF _ this] have "kwhile ?b ?c (cyc i 1) = Inr (cyc (cyc i 1) d)" by (simp add: NUM_PROCESSES_def)
    moreover have "?b i" using Suc.prems(1) Suc.prems(3)[of 0] by simp
    ultimately show ?case
      using cyc_step[OF Suc.prems(1)] by (simp add: kwhile_step mod_add_left_eq)
  qed
  then show ?thesis by (simp add: kproc_scheduler_def)
qed

lemma cyc_surj: "i < NUM_PROCESSES \<Longrightarrow> k < NUM_PROCESSES \<Longrightarrow> \<exists>d < NUM_PROCESSES. cyc i d = k"
  by (rule exI[of _ "(k + NUM_PROCESSES - i) mod NUM_PROCESSES"]) (auto simp: NUM_PROCESSES_def mod_if)

lemma scheduler_picks:
  assumes "i < NUM_PROCESSES"
  shows "if \<exists>k < NUM_PROCESSES. can_run (procs s ! k)
    then \<exists>d < NUM_PROCESSES. kproc_scheduler i s = Inr (cyc i d, s\<lparr>current := cyc i d\<rparr>) \<and>
      can_run (procs s ! cyc i d) \<and> (\<forall>k < d. \<not> can_run (procs s ! cyc i k))
    else kproc_scheduler i s = Inl Hang"
proof (cases "\<exists>k < NUM_PROCESSES. can_run (procs s ! k)")
  case True
  then obtain d where d: "d < NUM_PROCESSES" "can_run (procs s ! cyc i d)" using cyc_surj[OF assms] by metis
  define e where "e = (LEAST d. can_run (procs s ! cyc i d))"
  have e: "can_run (procs s ! cyc i e)" "e \<le> d" "\<forall>k < e. \<not> can_run (procs s ! cyc i k)"
    unfolding e_def using d by (auto intro: LeastI Least_le dest: not_less_Least)
  then show ?thesis using True d(1) scheduler_runs[OF assms e(1)] by (simp add: le_less_trans exI[of _ e])
next
  case False
  have "kwhile (\<lambda>i. \<not> can_run (procs s ! i)) (\<lambda>i. Inr (if i + 1 < NUM_PROCESSES then i + 1 else 0)) i = Inl Hang"
    by (rule kwhile_diverges[where P = "\<lambda>i. i < NUM_PROCESSES"]) (use assms False in \<open>auto simp: NUM_PROCESSES_def\<close>)
  then show ?thesis using False by (auto simp: kproc_scheduler_def)
qed

text \<open>In the states \<open>I\<close>, every process that the scheduler switches to gives the processor back, in a state of \<open>I\<close> where process \<open>k\<close> can still run.\<close>

definition gives_back :: "('a kproc_scheme \<Rightarrow> bool) \<Rightarrow> (nat \<Rightarrow> 'a kproc_scheme \<Rightarrow> 'a kproc_scheme kres) \<Rightarrow> nat \<Rightarrow> bool" where
  "gives_back I run k \<longleftrightarrow> (\<forall>j < NUM_PROCESSES. \<forall>s. I s \<and> can_run (procs s ! j) \<and> can_run (procs s ! k) \<longrightarrow>
     (\<exists>t. run j (s\<lparr>current := j\<rparr>) = Inr t \<and> I t \<and> can_run (procs t ! k)))"

text \<open>The next switch is to process \<open>cyc i e\<close>, not behind \<open>cyc i d\<close>, and the loop goes on behind it.\<close>

lemma scheduler_loop_step:
  assumes "can_run (procs s ! cyc i d)" "i < NUM_PROCESSES" "gives_back I run (cyc i d)" "I s"
  shows "\<exists>e t. e \<le> d \<and> I t \<and> can_run (procs t ! cyc i d) \<and> (\<forall>n. kproc_scheduler_loop run (Suc n) i s =
    kbind (kproc_scheduler_loop run n (cyc i (Suc e)) t) (\<lambda>(ks, s). Inr (cyc i e # ks, s)))"
proof -
  have lt: "cyc i d < NUM_PROCESSES" for d by (simp add: NUM_PROCESSES_def)
  from scheduler_picks[OF assms(2), of s] assms(1) lt[of d] obtain e where
    e: "kproc_scheduler i s = Inr (cyc i e, s\<lparr>current := cyc i e\<rparr>)" "\<forall>k < e. \<not> can_run (procs s ! cyc i k)" "can_run (procs s ! cyc i e)"
    by (auto split: if_splits)
  have "e \<le> d" using e(2) assms(1) by (meson not_le)
  moreover obtain t where t: "run (cyc i e) (s\<lparr>current := cyc i e\<rparr>) = Inr t" "I t" "can_run (procs t ! cyc i d)"
    using assms e(3) lt[of e] unfolding gives_back_def by blast
  moreover have "(if cyc i e + 1 < NUM_PROCESSES then cyc i e + 1 else 0) = cyc i (Suc e)"
    unfolding cyc_step[OF lt] by (simp add: mod_Suc_eq)
  ultimately show ?thesis using e(1) by (intro exI[of _ e] exI[of _ t]) simp
qed

lemma scheduler_loop_total:
  assumes "k < NUM_PROCESSES" "gives_back I run k"
  shows "can_run (procs s ! k) \<Longrightarrow> I s \<Longrightarrow> i < NUM_PROCESSES \<Longrightarrow> \<exists>ks t. kproc_scheduler_loop run n i s = Inr (ks, t)"
proof (induction n arbitrary: i s)
  case (Suc n)
  obtain d where d: "cyc i d = k" using cyc_surj[OF Suc.prems(3) assms(1)] by blast
  from scheduler_loop_step[of s i d I run] Suc.prems assms(2) d obtain e t where
    "I t" "can_run (procs t ! k)" "kproc_scheduler_loop run (Suc n) i s = kbind (kproc_scheduler_loop run n (cyc i (Suc e)) t) (\<lambda>(ks, s). Inr (cyc i e # ks, s))"
    by auto
  then show ?case using Suc.IH[of t "cyc i (Suc e)"] by (auto simp: NUM_PROCESSES_def)
qed simp

lemma scheduler_loop_reaches:
  assumes "can_run (procs s ! cyc i d)" "d < n" "i < NUM_PROCESSES" "gives_back I run (cyc i d)" "I s"
  shows "\<exists>ks t. kproc_scheduler_loop run n i s = Inr (ks, t) \<and> cyc i d \<in> set ks"
  using assms
proof (induction n arbitrary: i d s)
  case (Suc n)
  from scheduler_loop_step[OF Suc.prems(1,3-5)] obtain e t where e: "e \<le> d" "can_run (procs t ! cyc i d)"
    "kproc_scheduler_loop run (Suc n) i s = kbind (kproc_scheduler_loop run n (cyc i (Suc e)) t) (\<lambda>(ks, s). Inr (cyc i e # ks, s))" "I t" by blast
  have lt: "cyc i d < NUM_PROCESSES" "cyc i (Suc e) < NUM_PROCESSES" by (simp_all add: NUM_PROCESSES_def)
  show ?case
  proof (cases "e = d")
    case True
    then show ?thesis using e(3) scheduler_loop_total[OF lt(1) Suc.prems(4) e(2,4) lt(2), of n] by auto
  next
    case False
    with \<open>e \<le> d\<close> obtain r where r: "d = Suc e + r" using le_Suc_ex[of "Suc e" d] by auto
    have eq: "cyc (cyc i (Suc e)) r = cyc i d" by (simp only: r mod_add_left_eq add.assoc)
    from Suc.IH[of t "cyc i (Suc e)" r] e(2,4) Suc.prems(2,4) lt(2) show ?thesis unfolding eq e(3) by (auto simp: r)
  qed
qed simp

text \<open>
  C11: from any position of its loop the scheduler switches to the first process in cyclic order that
  can run, after looking at no more than eight; when no process can run it never returns.
\<close>

theorem scheduler_round_robin:
  assumes "i < NUM_PROCESSES"
  shows "if \<exists>k < NUM_PROCESSES. can_run (procs s ! k)
    then \<exists>d < NUM_PROCESSES. kproc_scheduler i s = Inr (cyc i d, s\<lparr>current := cyc i d\<rparr>) \<and>
      can_run (procs s ! cyc i d) \<and> (\<forall>k < d. \<not> can_run (procs s ! cyc i k))
    else kproc_scheduler i s = Inl Hang"
  by (rule scheduler_picks[OF assms])

theorem scheduler_round_robin_witness:
  "\<exists>d < NUM_PROCESSES. kproc_scheduler 1 kproc_static = Inr (cyc 1 d, kproc_static\<lparr>current := cyc 1 d\<rparr>) \<and>
     can_run (procs kproc_static ! cyc 1 d)"
  using scheduler_round_robin[of 1 kproc_static]
  by (auto simp: NUM_PROCESSES_def can_run_def exI[of _ 0] split: if_splits)

text \<open>
  C28: no process starves. From any position of the scheduler's endless loop, whatever the processes do to the process table while they run, a process
  that stays able to run is among the first eight that the scheduler switches to, provided that every process gives the processor back.
\<close>

theorem scheduler_no_starvation:
  assumes "i < NUM_PROCESSES" "k < NUM_PROCESSES" "can_run (procs s ! k)" "I s" "gives_back I run k"
  shows "\<exists>ks t. kproc_scheduler_loop run NUM_PROCESSES i s = Inr (ks, t) \<and> k \<in> set ks"
proof -
  obtain d where "d < NUM_PROCESSES" "cyc i d = k" using cyc_surj[OF assms(1,2)] by blast
  with scheduler_loop_reaches[of s i d NUM_PROCESSES I run] assms show ?thesis by auto
qed

text \<open>Two processes that can run: the first yields whenever it runs, the second ends.\<close>

definition yield_or_end :: "nat \<Rightarrow> kproc \<Rightarrow> kproc kres" where
  "yield_or_end j s = Inr (if j = 0 then kproc_yield After_sleep s else kproc_free s)"

lemma yield_or_end_gives_back: "gives_back (\<lambda>s. length (procs s) = 8) yield_or_end 0"
  by (auto simp: gives_back_def yield_or_end_def kproc_yield_def kproc_free_def Let_def can_run_def nth_list_update)

theorem scheduler_no_starvation_witness:
  "\<exists>ks t. kproc_scheduler_loop yield_or_end NUM_PROCESSES 1 (proc_upd 1 (\<lambda>p. p\<lparr>proc_state := RUNNABLE\<rparr>) kproc_static) = Inr (ks, t) \<and> 0 \<in> set ks"
  using scheduler_no_starvation[of 1 0 "proc_upd 1 (\<lambda>p. p\<lparr>proc_state := RUNNABLE\<rparr>) kproc_static" "\<lambda>s. length (procs s) = 8" yield_or_end]
    yield_or_end_gives_back by (simp add: NUM_PROCESSES_def can_run_def)

section \<open>The file table of a process\<close>

definition files_ok :: "'a kproc_scheme \<Rightarrow> bool" where
  "files_ok s \<longleftrightarrow> current s < length (procs s) \<and> length (opened_files (cur s)) = MAX_OPEN_FILES"

text \<open>
  What the filesystem relies on: adding a file binds a free descriptor, removing unbinds it, and
  neither touches another descriptor.
\<close>

locale fd_table =
  fixes add :: "'f \<Rightarrow> 's \<Rightarrow> u32 \<times> 's"
    and get :: "u32 \<Rightarrow> 's \<Rightarrow> 'f option kres"
    and remove :: "u32 \<Rightarrow> 's \<Rightarrow> (u32 \<times> 's) kres"
    and wf :: "'s \<Rightarrow> bool"
  assumes add_law: "wf s \<Longrightarrow> add f s = (fd, s') \<Longrightarrow> fd \<noteq> -1 \<Longrightarrow> wf s' \<and> get fd s = Inr None \<and>
      (\<forall>g. get g s' = (if g = fd then Inr (Some f) else get g s))"
    and full_law: "wf s \<Longrightarrow> add f s = (-1, s') \<Longrightarrow> s' = s"
    and remove_law: "wf s \<Longrightarrow> get fd s = Inr (Some f) \<Longrightarrow> \<exists>s'. remove fd s = Inr (0, s') \<and> wf s' \<and>
      (\<forall>g. get g s' = (if g = fd then Inr None else get g s))"
    and absent_law: "wf s \<Longrightarrow> get fd s = Inr None \<Longrightarrow> remove fd s = Inr (-1, s)"
begin

lemma add_then_remove:
  assumes "wf s" "add f s = (fd, s')" "fd \<noteq> -1"
  shows "\<exists>t. get fd s' = Inr (Some f) \<and> remove fd s' = Inr (0, t) \<and> wf t \<and> (\<forall>g. get g t = get g s)"
proof -
  note a = add_law[OF assms]
  then obtain t where t: "remove fd s' = Inr (0, t)" "wf t" "\<And>g. get g t = (if g = fd then Inr None else get g s')"
    using remove_law[of s' fd f] by auto
  with a show ?thesis by auto
qed

lemma remove_twice:
  assumes "wf s" "get fd s = Inr (Some f)"
  shows "\<exists>t. remove fd s = Inr (0, t) \<and> remove fd t = Inr (-1, t)"
proof -
  from remove_law[OF assms] obtain t where "remove fd s = Inr (0, t)" "wf t" "get fd t = Inr None" by auto
  with absent_law[of t fd] show ?thesis by auto
qed

end

lemma of_nat_fd: "k < MAX_OPEN_FILES \<Longrightarrow> (of_nat k :: u32) \<noteq> -1"
proof
  assume "k < MAX_OPEN_FILES" "(of_nat k :: u32) = -1"
  then have "unat (of_nat k :: u32) = unat (-1 :: u32)" "k < 8" by (simp_all add: MAX_OPEN_FILES_def)
  then show False by (simp add: unsigned_minus_1_eq_mask mask_eq_exp_minus_1)
qed

lemma file_add_cases:
  assumes "files_ok s"
  shows "(\<exists>fd. 3 \<le> fd \<and> fd < MAX_OPEN_FILES \<and> opened_files (cur s) ! fd = None \<and>
      (\<forall>k. 3 \<le> k \<and> k < fd \<longrightarrow> opened_files (cur s) ! k \<noteq> None) \<and>
      kproc_file_add f s = (of_nat fd, proc_upd (current s) (\<lambda>p. p\<lparr>opened_files := (opened_files p)[fd := Some f]\<rparr>) s)) \<or>
    (\<forall>k. 3 \<le> k \<and> k < MAX_OPEN_FILES \<longrightarrow> opened_files (cur s) ! k \<noteq> None) \<and> kproc_file_add f s = (-1, s)"
proof (cases "find (\<lambda>fd. opened_files (cur s) ! fd = None) [3..<MAX_OPEN_FILES]")
  case None
  then have "kproc_file_add f s = (-1, s)" by (simp add: kproc_file_add_def)
  then show ?thesis using None by (auto simp: find_None_iff)
next
  case (Some fd)
  then obtain i where i: "i < length [3..<MAX_OPEN_FILES]" "opened_files (cur s) ! fd = None" "fd = [3..<MAX_OPEN_FILES] ! i"
    "\<forall>j < i. opened_files (cur s) ! ([3..<MAX_OPEN_FILES] ! j) \<noteq> None" by (auto simp: find_Some_iff)
  have "opened_files (cur s) ! k \<noteq> None" if "3 \<le> k" "k < fd" for k
    using i(1,3) i(4)[rule_format, of "k - 3"] that by simp
  then show ?thesis using Some i by (intro disjI1 exI[of _ fd]) (auto simp: kproc_file_add_def)
qed

lemma cur_upd: "files_ok s \<Longrightarrow> cur (proc_upd (current s) f s) = f (cur s)"
  by (simp add: cur_def files_ok_def)

interpretation fds: fd_table kproc_file_add kproc_file_get kproc_file_remove files_ok
proof
  fix s s' :: "'a kproc_scheme" and f fd
  assume s: "files_ok s" and add: "kproc_file_add f s = (fd, s')" "fd \<noteq> -1"
  then obtain k where k: "3 \<le> k" "k < 8" "opened_files (cur s) ! k = None" "fd = of_nat k"
    "s' = proc_upd (current s) (\<lambda>p. p\<lparr>opened_files := (opened_files p)[k := Some f]\<rparr>) s"
    using file_add_cases[OF s, of f] by (auto simp: MAX_OPEN_FILES_def)
  then have u: "unat fd = k" by simp
  have eq: "g = fd \<longleftrightarrow> unat g = k" for g using u by (auto simp: word_unat_eq_iff)
  show "files_ok s' \<and> kproc_file_get fd s = Inr None \<and>
      (\<forall>g. kproc_file_get g s' = (if g = fd then Inr (Some f) else kproc_file_get g s))"
    using s k cur_upd[OF s, of "\<lambda>p. p\<lparr>opened_files := (opened_files p)[k := Some f]\<rparr>"]
    by (auto simp: kproc_file_get_def MAX_OPEN_FILES_def u eq nth_list_update files_ok_def)
next
  fix s s' :: "'a kproc_scheme" and f
  assume "files_ok s" "kproc_file_add f s = (-1, s')"
  then show "s' = s" using file_add_cases[of s f] by (auto dest: of_nat_fd)
next
  fix s :: "'a kproc_scheme" and f fd
  assume s: "files_ok s" and g: "kproc_file_get fd s = Inr (Some f)"
  then show "\<exists>s'. kproc_file_remove fd s = Inr (0, s') \<and> files_ok s' \<and>
      (\<forall>g. kproc_file_get g s' = (if g = fd then Inr None else kproc_file_get g s))"
    using cur_upd[OF s, of "\<lambda>p. p\<lparr>opened_files := (opened_files p)[unat fd := None]\<rparr>"]
    by (auto simp: kproc_file_get_def kproc_file_remove_def files_ok_def nth_list_update word_unat_eq_iff split: if_splits)
next
  fix s :: "'a kproc_scheme" and fd
  assume "files_ok s" "kproc_file_get fd s = Inr None"
  then show "kproc_file_remove fd s = Inr (-1, s)"
    by (auto simp: kproc_file_get_def kproc_file_remove_def split: if_splits)
qed

text \<open>
  C29: opening and closing a descriptor is a round trip: \<open>kproc_file_add\<close> binds the lowest free
  descriptor from 3 on or, when 3 to 7 are all taken, returns -1 and changes nothing; the bound
  descriptor reads back the file, no other descriptor changes, and removing it restores the table.
\<close>

theorem kproc_file_roundtrip:
  assumes "files_ok s" "kproc_file_add f s = (fd, s')"
  shows "(fd = -1 \<and> s' = s \<and> (\<forall>k. 3 \<le> k \<and> k < MAX_OPEN_FILES \<longrightarrow> opened_files (cur s) ! k \<noteq> None)) \<or>
    (3 \<le> unat fd \<and> unat fd < MAX_OPEN_FILES \<and> kproc_file_get fd s = Inr None \<and>
     (\<forall>k. 3 \<le> k \<and> k < unat fd \<longrightarrow> opened_files (cur s) ! k \<noteq> None) \<and>
     (\<exists>t. kproc_file_get fd s' = Inr (Some f) \<and> kproc_file_remove fd s' = Inr (0, t) \<and>
        (\<forall>g. kproc_file_get g t = kproc_file_get g s)))"
proof (cases "fd = -1")
  case True
  then show ?thesis using file_add_cases[OF assms(1), of f] assms(2)
    by (auto dest: of_nat_fd)
next
  case False
  from file_add_cases[OF assms(1), of f] assms(2) False obtain k where
    "3 \<le> k" "k < MAX_OPEN_FILES" "fd = of_nat k" "\<forall>j. 3 \<le> j \<and> j < k \<longrightarrow> opened_files (cur s) ! j \<noteq> None"
    "opened_files (cur s) ! k = None" by auto
  moreover from this have "unat fd = k" "kproc_file_get fd s = Inr None"
    by (simp_all add: MAX_OPEN_FILES_def kproc_file_get_def)
  moreover obtain t where "kproc_file_get fd s' = Inr (Some f)" "kproc_file_remove fd s' = Inr (0, t)"
    "\<forall>g. kproc_file_get g t = kproc_file_get g s" using fds.add_then_remove[OF assms False] by blast
  ultimately show ?thesis by (intro disjI2 conjI exI[of _ t]) simp_all
qed

theorem kproc_file_roundtrip_witness:
  "\<exists>s' t. kproc_file_add 7 kproc_static = (3, s') \<and> kproc_file_get 3 s' = Inr (Some 7) \<and>
     kproc_file_remove 3 s' = Inr (0, t)"
proof -
  have ok: "files_ok kproc_static"
    by (simp add: files_ok_def cur_def blank_process_def)
  have add: "kproc_file_add 7 kproc_static =
      (3, proc_upd 0 (\<lambda>p. p\<lparr>opened_files := (opened_files p)[3 := Some 7]\<rparr>) kproc_static)"
    by (simp add: kproc_file_add_def cur_def blank_process_def MAX_OPEN_FILES_def upt_rec)
  from kproc_file_roundtrip[OF ok add] show ?thesis using add by auto
qed

end
