(* ===== verification/Filesystem.thy ===== *)
theory Filesystem
  imports Kproc
begin

text \<open>
  Files, \<^verbatim>\<open>src/kernel/filesystem.c\<close>: the table of files that the kernel read from disk, the table of
  open files with their cursors, and open, read and close on behalf of the current process. File
  contents are bytes of kernel memory, at the place the C array \<open>filesystem_files\<close> has; a path
  is a user pointer, read through the page table of the process.
\<close>

section \<open>State\<close>

definition MAX_OS_FILES :: nat where "MAX_OS_FILES = 100"
definition MAX_FS_FILES :: nat where "MAX_FS_FILES = 12"
definition MAX_FILESIZE :: nat where "MAX_FILESIZE = 4096 * 1024"

record filesystem_file =
  fs_exists :: bool
  fs_name :: "u8 list"
  fs_size :: u32

record os_file =
  in_use :: bool
  rwpos :: u32
  filesystem_file_idx :: u32

record filesystem = kproc +
  filesystem_files :: "filesystem_file list"
  os_files :: "os_file list"
  fs_base :: addr

text \<open>
  The contents of file \<open>idx\<close>: an element of the array is the flag \<open>exists\<close>, the 100 bytes of the
  name, the data and the size.
\<close>

definition fs_data :: "nat \<Rightarrow> 'a filesystem_scheme \<Rightarrow> addr" where
  "fs_data idx s = fs_base s + of_nat (idx * (4 + 100 + MAX_FILESIZE + 4) + 104)"

section \<open>Operations\<close>

primrec oct2int_loop :: "u8 list \<Rightarrow> u32 \<Rightarrow> u32" where
  "oct2int_loop [] result = result"
| "oct2int_loop (c # oct) result = oct2int_loop oct (result * 8 + (ucast c - 48))"

definition oct2int :: "u8 list \<Rightarrow> u32" where
  "oct2int oct = oct2int_loop oct 0"

text \<open>A path given by a user program, and the name of file \<open>idx\<close>, which runs on into the data.\<close>

definition path_reader :: "addr \<Rightarrow> 'a machine_scheme \<Rightarrow> reader" where
  "path_reader filepath s i = uload8 (filepath + of_nat i) s"

definition name_reader :: "nat \<Rightarrow> 'a filesystem_scheme \<Rightarrow> reader" where
  "name_reader idx s i =
     (if i < 100 then Inr (fs_name (filesystem_files s ! idx) ! i)
      else Inr (mem s (fs_data idx s + of_nat (i - 100))))"

primrec locate_loop :: "reader \<Rightarrow> 'a filesystem_scheme \<Rightarrow> nat list \<Rightarrow> u32 kres" where
  "locate_loop path s [] = Inr (-1)"
| "locate_loop path s (idx # rest) =
     kbind (strcmp path (name_reader idx s)) (\<lambda>r. if r = 0 then Inr (of_nat idx) else locate_loop path s rest)"

definition filesystem_locate_file :: "addr \<Rightarrow> 'a filesystem_scheme \<Rightarrow> u32 kres" where
  "filesystem_locate_file filepath s = locate_loop (path_reader filepath s) s [0..<MAX_FS_FILES]"

text \<open>The null pointer is \<open>None\<close>.\<close>

definition filesystem_get_filedata :: "addr \<Rightarrow> 'a filesystem_scheme \<Rightarrow> addr option kres" where
  "filesystem_get_filedata filepath s =
     kbind (filesystem_locate_file filepath s) (\<lambda>idx.
       if idx = 0xFFFFFFFF then Inr None else Inr (Some (fs_data (unat idx) s)))"

definition filesystem_file_open :: "addr \<Rightarrow> u32 \<Rightarrow> 'a filesystem_scheme \<Rightarrow> (u32 \<times> 'a filesystem_scheme) kres" where
  "filesystem_file_open filepath mode s =
     kbind (filesystem_locate_file filepath s) (\<lambda>fs_file_idx.
       if fs_file_idx = 0xFFFFFFFF then Inr (0xFFFFFFFF, s)
       else (case find (\<lambda>i. \<not> in_use (os_files s ! i)) [0..<MAX_OS_FILES] of
           None \<Rightarrow> Inr (-1, s)
         | Some i \<Rightarrow> Inr (kproc_file_add i (s\<lparr>os_files := (os_files s)[i :=
             \<lparr>in_use = True, rwpos = 0, filesystem_file_idx = fs_file_idx\<rparr>]\<rparr>))))"

definition file_read_loop ::
  "nat \<Rightarrow> addr \<Rightarrow> u32 \<Rightarrow> u32 \<Rightarrow> u32 \<times> u32 \<times> 'a filesystem_scheme \<Rightarrow> (u32 \<times> u32 \<times> 'a filesystem_scheme) kres" where
  "file_read_loop idx buf sz file_size =
     kwhile (\<lambda>(read_bytes, cursor, s). read_bytes < sz \<and> cursor < file_size)
       (\<lambda>(read_bytes, cursor, s).
          kbind (ustore8 (buf + read_bytes) (mem s (fs_data idx s + cursor)) s) (\<lambda>s.
            Inr (read_bytes + 1, cursor + 1, s)))"

definition filesystem_file_read ::
  "nat option \<Rightarrow> addr \<Rightarrow> u32 \<Rightarrow> 'a filesystem_scheme \<Rightarrow> (u32 \<times> 'a filesystem_scheme) kres" where
  "filesystem_file_read file_handle buf sz s =
     (case file_handle of
        None \<Rightarrow> Inl (Undefined ''null os_file'')
      | Some h \<Rightarrow>
          (let fs_file_idx = filesystem_file_idx (os_files s ! h); cursor = rwpos (os_files s ! h) in
           if MAX_FS_FILES \<le> unat fs_file_idx then Inl (Undefined ''filesystem_files index'')
           else
             (let file_size = fs_size (filesystem_files s ! unat fs_file_idx) in
              kbind (file_read_loop (unat fs_file_idx) buf sz file_size (0, cursor, s)) (\<lambda>(read_bytes, cursor, s).
                Inr (read_bytes, s\<lparr>os_files := (os_files s)[h := (os_files s ! h)\<lparr>rwpos := cursor\<rparr>]\<rparr>)))))"

definition filesystem_file_close :: "u32 \<Rightarrow> 'a filesystem_scheme \<Rightarrow> (u32 \<times> 'a filesystem_scheme) kres" where
  "filesystem_file_close fd s =
     (if fd < 3 then Inr (0, s)
      else kbind (kproc_file_get fd s) (\<lambda>file_handle.
        kbind (kproc_file_remove fd s) (\<lambda>(r, s).
          if r \<noteq> 0 then Inr (-1, s)
          else case file_handle of
              None \<Rightarrow> Inl (Undefined ''null os_file'')
            | Some h \<Rightarrow> Inr (0, s\<lparr>os_files := (os_files s)[h :=
                \<lparr>in_use = False, rwpos = 0, filesystem_file_idx = 0xFFFFFFFF\<rparr>]\<rparr>))))"

section \<open>Reading\<close>

text \<open>The bytes of file \<open>idx\<close>, and the file table as the code keeps it.\<close>

definition file_bytes :: "nat \<Rightarrow> 'a filesystem_scheme \<Rightarrow> u8 list" where
  "file_bytes idx s = map (\<lambda>k. mem s (fs_data idx s + of_nat k)) [0..<unat (fs_size (filesystem_files s ! idx))]"

lemma file_bytes_length [simp]: "length (file_bytes idx s) = unat (fs_size (filesystem_files s ! idx))"
  by (simp add: file_bytes_def)

lemma file_bytes_nth: "unat c < length (file_bytes idx s) \<Longrightarrow> file_bytes idx s ! unat c = mem s (fs_data idx s + c)"
  by (simp add: file_bytes_def)

lemma fs_data_mem [simp]:
  "fs_data idx (s\<lparr>mem := m\<rparr>) = fs_data idx s" "fs_data idx (s\<lparr>os_files := fs\<rparr>) = fs_data idx s"
  by (simp_all add: fs_data_def)

text \<open>A buffer that shares no byte with the contents of a file.\<close>

definition apart :: "(nat \<Rightarrow> addr) \<Rightarrow> nat \<Rightarrow> nat \<Rightarrow> 'a filesystem_scheme \<Rightarrow> bool" where
  "apart pa n idx s \<longleftrightarrow>
     (\<forall>i < n. \<forall>k < unat (fs_size (filesystem_files s ! idx)). pa i \<noteq> fs_data idx s + of_nat k)"

lemma file_bytes_store:
  assumes "apart pa n idx s" "i < n"
  shows "file_bytes idx (s\<lparr>mem := (mem s)(pa i := v)\<rparr>) = file_bytes idx s"
    and "apart pa n idx (s\<lparr>mem := m\<rparr>)"
  using assms by (fastforce simp: file_bytes_def apart_def)+

lemma file_read_loop_ok:
  fixes s :: "'a filesystem_scheme" and c :: u32
  assumes "user_buffer s buf (unat n) pa" "apart pa (unat n) idx s" "r \<le> n"
  defines "out \<equiv> take (unat n - unat r) (drop (unat c) (file_bytes idx s))"
  shows "file_read_loop idx buf n (fs_size (filesystem_files s ! idx)) (r, c, s) =
    Inr (r + of_nat (length out), c + of_nat (length out), s\<lparr>mem := put_bytes pa (unat r) out (mem s)\<rparr>)"
  using assms(1-3) unfolding out_def
proof (induction "unat n - unat r" arbitrary: r c s)
  case 0
  then have "r = n" by (simp add: word_le_nat_alt word_unat_eq_iff)
  then show ?case by (simp add: file_read_loop_def)
next
  case (Suc d)
  let ?sz = "fs_size (filesystem_files s ! idx)" and ?fb = "file_bytes idx s"
  show ?case
  proof (cases "c < ?sz")
    case False
    then show ?thesis by (simp add: file_read_loop_def word_less_nat_alt not_less)
  next
    case True
    have r: "unat r < unat n" using Suc.hyps(2) by linarith
    have r1: "unat (r + 1) = unat r + 1" "r + 1 \<le> n"
      using r unat32_bound[of n] by (simp_all add: unat_word_ariths word_le_nat_alt)
    have c1: "unat (c + 1) = unat c + 1" using True unat32_bound[of ?sz] by (simp add: unat_word_ariths word_less_nat_alt)
    have c: "unat c < length ?fb" using True by (simp add: word_less_nat_alt)
    let ?v = "mem s (fs_data idx s + c)" let ?t = "s\<lparr>mem := (mem s)(pa (unat r) := ?v)\<rparr>"
    let ?out = "take (unat n - unat (r + 1)) (drop (unat (c + 1)) ?fb)"
    have "ustore8 (buf + r) ?v s = Inr ?t" using user_buffer_ustore8[OF Suc.prems(1) r, of s ?v] by simp
    then have "file_read_loop idx buf n ?sz (r, c, s) = file_read_loop idx buf n ?sz (r + 1, c + 1, ?t)"
      using r True by (simp add: file_read_loop_def kwhile_step word_less_nat_alt)
    also have "\<dots> = Inr (r + 1 + of_nat (length ?out), c + 1 + of_nat (length ?out),
        ?t\<lparr>mem := put_bytes pa (unat (r + 1)) ?out (mem ?t)\<rparr>)"
      using Suc.hyps(1)[of "r + 1" ?t "c + 1"] Suc.hyps(2) Suc.prems r1
        user_buffer_step[OF Suc.prems(1) r, of ?t ?v] file_bytes_store[OF Suc.prems(2) r] by simp
    also have "take (unat n - unat r) (drop (unat c) ?fb) = ?v # ?out"
      using c r by (simp add: r1 c1 Cons_nth_drop_Suc [symmetric] file_bytes_nth Suc_diff_Suc [symmetric] del: file_bytes_length)
    ultimately show ?thesis by (simp add: r1)
  qed
qed

definition fs_open :: "nat \<Rightarrow> nat \<Rightarrow> 'a filesystem_scheme \<Rightarrow> bool" where
  "fs_open h idx s \<longleftrightarrow> h < length (os_files s) \<and> idx < MAX_FS_FILES \<and> filesystem_file_idx (os_files s ! h) = of_nat idx"

lemma file_read_ok:
  assumes "fs_open h idx s" "user_buffer s buf (unat n) pa" "apart pa (unat n) idx s"
  defines "out \<equiv> take (unat n) (drop (unat (rwpos (os_files s ! h))) (file_bytes idx s))"
  shows "filesystem_file_read (Some h) buf n s = Inr (of_nat (length out),
    s\<lparr>mem := put_bytes pa 0 out (mem s),
      os_files := (os_files s)[h := (os_files s ! h)\<lparr>rwpos := rwpos (os_files s ! h) + of_nat (length out)\<rparr>]\<rparr>)"
proof -
  have "unat (of_nat idx :: u32) = idx" using assms(1) by (simp add: fs_open_def MAX_FS_FILES_def)
  then show ?thesis
    using assms(1) file_read_loop_ok[OF assms(2,3), of 0 "rwpos (os_files s ! h)"]
    by (simp add: filesystem_file_read_def fs_open_def out_def)
qed

section \<open>Opening and closing\<close>

text \<open>The names of the twelve slots; the name of an unused slot is the empty string.\<close>

definition fs_names :: "'a filesystem_scheme \<Rightarrow> u8 list list \<Rightarrow> bool" where
  "fs_names s ns \<longleftrightarrow> length ns = MAX_FS_FILES \<and> (\<forall>idx < MAX_FS_FILES. reads_string (name_reader idx s) (ns ! idx))"

lemma locate_loop_ok:
  assumes "reads_string path bs" "\<And>i. i \<in> set is \<Longrightarrow> reads_string (name_reader i s) (ns ! i)"
  shows "locate_loop path s is = Inr (case find (\<lambda>i. ns ! i = bs) is of None \<Rightarrow> -1 | Some i \<Rightarrow> of_nat i)"
  using assms(2)
proof (induction "is")
  case (Cons i "is")
  then obtain v where "strcmp path (name_reader i s) = Inr v" "v = 0 \<longleftrightarrow> bs = ns ! i"
    using strcmp_strings[OF assms(1), of "name_reader i s"] by auto
  then show ?case using Cons by auto
qed simp

lemma locate_ok:
  assumes "fs_names s ns" "reads_string (path_reader p s) bs"
  shows "filesystem_locate_file p s =
    Inr (case find (\<lambda>i. ns ! i = bs) [0..<MAX_FS_FILES] of None \<Rightarrow> -1 | Some i \<Rightarrow> of_nat i)"
  unfolding filesystem_locate_file_def by (rule locate_loop_ok[OF assms(2)]) (use assms(1) in \<open>simp add: fs_names_def\<close>)

lemma of_nat_idx: "i < MAX_FS_FILES \<Longrightarrow> (of_nat i :: u32) \<noteq> 0xFFFFFFFF"
proof
  assume "i < MAX_FS_FILES" "(of_nat i :: u32) = 0xFFFFFFFF"
  then have "unat (of_nat i :: u32) = unat (0xFFFFFFFF :: u32)" "i < 12" by (simp_all add: MAX_FS_FILES_def)
  then show False by simp
qed

lemma find_upt: "find P [0..<n] = Some i \<Longrightarrow> i < n \<and> P i"
  by (auto simp: find_Some_iff)

text \<open>A located file and a free entry of the table of open files.\<close>

definition fresh_handle :: "nat \<Rightarrow> nat \<Rightarrow> 'a filesystem_scheme \<Rightarrow> 'a filesystem_scheme" where
  "fresh_handle h idx s = s\<lparr>os_files := (os_files s)[h := \<lparr>in_use = True, rwpos = 0, filesystem_file_idx = of_nat idx\<rparr>]\<rparr>"

lemma file_open_found:
  assumes "fs_names s ns" "reads_string (path_reader p s) bs"
    "find (\<lambda>i. ns ! i = bs) [0..<MAX_FS_FILES] = Some idx"
    "find (\<lambda>i. \<not> in_use (os_files s ! i)) [0..<MAX_OS_FILES] = Some h"
  shows "filesystem_file_open p mode s = Inr (kproc_file_add h (fresh_handle h idx s))"
  using assms(3,4) locate_ok[OF assms(1,2)] of_nat_idx[of idx] find_upt[OF assms(3)]
  by (simp add: filesystem_file_open_def fresh_handle_def)

lemma os_files_frame [simp]:
  "cur (s\<lparr>os_files := fs\<rparr>) = cur s" "files_ok (s\<lparr>os_files := fs\<rparr>) = files_ok s"
  "kproc_file_get g (s\<lparr>os_files := fs\<rparr>) = kproc_file_get g s"
  "cur (s\<lparr>mem := m\<rparr>) = cur s" "files_ok (s\<lparr>mem := m\<rparr>) = files_ok s"
  "kproc_file_get g (s\<lparr>mem := m\<rparr>) = kproc_file_get g s"
  by (simp_all add: cur_def files_ok_def kproc_file_get_def)

lemma fresh_handle_simps [simp]:
  "cur (fresh_handle h idx s) = cur s" "files_ok (fresh_handle h idx s) = files_ok s"
  "kproc_file_get g (fresh_handle h idx s) = kproc_file_get g s" "mem (fresh_handle h idx s) = mem s"
  "csr (fresh_handle h idx s) = csr s" "filesystem_files (fresh_handle h idx s) = filesystem_files s"
  "fs_data k (fresh_handle h idx s) = fs_data k s" "file_bytes k (fresh_handle h idx s) = file_bytes k s"
  "os_files (fresh_handle h idx s) = (os_files s)[h := \<lparr>in_use = True, rwpos = 0, filesystem_file_idx = of_nat idx\<rparr>]"
  by (simp_all add: fresh_handle_def file_bytes_def)

lemma file_add_frame:
  assumes "kproc_file_add f (s :: 'a filesystem_scheme) = (fd, t)"
  shows "mem t = mem s" "csr t = csr s" "os_files t = os_files s" "filesystem_files t = filesystem_files s"
    "fs_base t = fs_base s"
  using assms by (auto simp: kproc_file_add_def proc_upd_def split: option.splits)

lemma file_remove_frame:
  assumes "kproc_file_remove fd (s :: 'a filesystem_scheme) = Inr (r, t)"
  shows "os_files t = os_files s"
  using assms by (auto simp: kproc_file_remove_def proc_upd_def split: if_splits)

lemma user_buffer_cong:
  assumes "csr t = csr s" "mem t = mem s"
  shows "user_buffer t d n pa = user_buffer s d n pa"
proof -
  have "mmu_translate (t\<lparr>mem := m\<rparr>) Store va = mmu_translate (s\<lparr>mem := m\<rparr>) Store va" for m va
    by (rule mmu_translate_cong) (use assms in simp_all)
  then show ?thesis using assms by (simp add: user_buffer_def)
qed

lemma file_bytes_cong:
  "mem t = mem s \<Longrightarrow> filesystem_files t = filesystem_files s \<Longrightarrow> fs_base t = fs_base s \<Longrightarrow>
   file_bytes idx t = file_bytes idx s \<and> apart pa n idx t = apart pa n idx s"
  by (simp add: file_bytes_def apart_def fs_data_def)

lemma file_close_ok:
  assumes "files_ok s" "3 \<le> fd" "kproc_file_get fd s = Inr (Some h)"
  shows "\<exists>t. filesystem_file_close fd s = Inr (0, t) \<and>
    (\<forall>g. kproc_file_get g t = (if g = fd then Inr None else kproc_file_get g s)) \<and> files_ok t \<and>
    os_files t = (os_files s)[h := \<lparr>in_use = False, rwpos = 0, filesystem_file_idx = 0xFFFFFFFF\<rparr>]"
proof -
  from fds.remove_law[OF assms(1,3)] obtain u where
    u: "kproc_file_remove fd s = Inr (0, u)" "files_ok u"
      "\<forall>g. kproc_file_get g u = (if g = fd then Inr None else kproc_file_get g s)" by blast
  moreover have "\<not> fd < 3" using assms(2) by (simp add: not_less)
  ultimately show ?thesis
    using assms(3) file_remove_frame[OF u(1)] by (simp add: filesystem_file_close_def)
qed

lemma open_read_close:
  assumes "files_ok s" "length (os_files s) = MAX_OS_FILES" "fs_names s ns" "reads_string (path_reader p s) bs"
    "find (\<lambda>i. ns ! i = bs) [0..<MAX_FS_FILES] = Some idx"
    "find (\<lambda>i. \<not> in_use (os_files s ! i)) [0..<MAX_OS_FILES] = Some h"
    "kproc_file_add h (fresh_handle h idx s) = (fd, s1)" "fd \<noteq> -1"
    "user_buffer s buf (unat n) pa" "apart pa (unat n) idx s"
  defines "out \<equiv> take (unat n) (file_bytes idx s)"
  shows "\<exists>s2 s3. filesystem_file_open p mode s = Inr (fd, s1) \<and> 3 \<le> fd \<and> kproc_file_get fd s1 = Inr (Some h) \<and>
    filesystem_file_read (Some h) buf n s1 = Inr (of_nat (length out), s2) \<and> mem s2 = put_bytes pa 0 out (mem s) \<and>
    unat (rwpos (os_files s2 ! h)) = length out \<and>
    filesystem_file_close fd s2 = Inr (0, s3) \<and> map in_use (os_files s3) = map in_use (os_files s) \<and>
    (\<forall>g. kproc_file_get g s3 = kproc_file_get g s)"
proof -
  note fr = file_add_frame[OF assms(7)]
  have h: "h < MAX_OS_FILES" "\<not> in_use (os_files s ! h)" and idx: "idx < MAX_FS_FILES"
    using find_upt[OF assms(6)] find_upt[OF assms(5)] by auto
  have law: "files_ok s1" "kproc_file_get fd s = Inr None"
    "\<forall>g. kproc_file_get g s1 = (if g = fd then Inr (Some h) else kproc_file_get g s)"
    using fds.add_law[OF _ assms(7,8)] assms(1) by auto
  have fd: "3 \<le> fd" using file_add_cases[of "fresh_handle h idx s" h] assms(1,7,8)
    by (auto simp: word_le_nat_alt MAX_OPEN_FILES_def)
  have "fs_open h idx s1" using h idx assms(2) by (simp add: fs_open_def fr)
  moreover have "user_buffer s1 buf (unat n) pa" using user_buffer_cong[of s1 s] assms(9) fr by simp
  moreover have fb: "file_bytes idx s1 = file_bytes idx s" "apart pa (unat n) idx s1"
    using file_bytes_cong[of s1 "fresh_handle h idx s" idx pa "unat n"] fr assms(10) by (simp_all add: apart_def)
  moreover have rw: "rwpos (os_files s1 ! h) = 0" using h assms(2) by (simp add: fr)
  ultimately obtain s2 where s2: "filesystem_file_read (Some h) buf n s1 = Inr (of_nat (length out), s2)"
    "s2 = s1\<lparr>mem := put_bytes pa 0 out (mem s1),
      os_files := (os_files s1)[h := (os_files s1 ! h)\<lparr>rwpos := of_nat (length out)\<rparr>]\<rparr>"
    using file_read_ok[of h idx s1 buf n pa] unfolding out_def by simp
  have len: "length out < 4294967296" using unat32_bound[of n] by (simp add: out_def)
  have "files_ok s2" "kproc_file_get fd s2 = Inr (Some h)" using law by (simp_all add: s2(2))
  from file_close_ok[OF this(1) fd this(2)] obtain s3 where
    s3: "filesystem_file_close fd s2 = Inr (0, s3)" "\<forall>g. kproc_file_get g s3 = kproc_file_get g s"
    "os_files s3 = (os_files s2)[h := \<lparr>in_use = False, rwpos = 0, filesystem_file_idx = 0xFFFFFFFF\<rparr>]"
    using law by (auto simp: s2(2))
  have "map in_use (os_files s3) = map in_use (os_files s)"
    using h assms(2) by (simp add: s3(3) s2(2) fr map_update list_update_same_conv)
  moreover have "unat (rwpos (os_files s2 ! h)) = length out" using h assms(2) len by (simp add: s2(2) fr)
  ultimately show ?thesis
    using file_open_found[OF assms(3-6)] s2 s3(1,2) law(3) fd assms(7) fr by (intro exI[of _ s2] exI[of _ s3]) simp
qed

section \<open>Properties\<close>

text \<open>A disk with one file \<open>h\<close> of three bytes, and its name at address \<open>0x1000\<close>.\<close>

definition blank_file :: filesystem_file where
  "blank_file = \<lparr>fs_exists = False, fs_name = replicate 100 0, fs_size = 0\<rparr>"

definition closed_file :: os_file where
  "closed_file = \<lparr>in_use = False, rwpos = 0, filesystem_file_idx = 0\<rparr>"

definition fs_static :: filesystem where
  "fs_static = kproc.extend kproc_static (filesystem.fields
     (\<lparr>fs_exists = True, fs_name = 104 # replicate 99 0, fs_size = 3\<rparr> # replicate 11 blank_file)
     (replicate 100 closed_file) 0x80400000)
     \<lparr>csr := \<lambda>_. 0, mem := (\<lambda>_. 0)(0x1000 := 104, 0x80400068 := 1, 0x80400069 := 2, 0x8040006A := 3)\<rparr>"

lemma fs_static_simps [simp]:
  "csr fs_static = (\<lambda>_. 0)" "os_files fs_static = replicate 100 closed_file"
  "filesystem_files fs_static =
     \<lparr>fs_exists = True, fs_name = 104 # replicate 99 0, fs_size = 3\<rparr> # replicate 11 blank_file"
  "mem fs_static = (\<lambda>_. 0)(0x1000 := 104, 0x80400068 := 1, 0x80400069 := 2, 0x8040006A := 3)"
  "procs fs_static = procs kproc_static" "current fs_static = 0" "fs_data 0 fs_static = 0x80400068"
  by (simp_all add: fs_static_def kproc.defs filesystem.defs fs_data_def)

lemma fs_static_ok:
  "files_ok fs_static" "cur fs_static = cur kproc_static"
  "fs_names fs_static ([104] # replicate 11 [])" "reads_string (path_reader 0x1000 fs_static) [104]"
  by (auto simp: files_ok_def cur_def blank_process_def fs_names_def reads_string_def path_reader_def uload8_def
      mmu_translate_def name_reader_def MAX_FS_FILES_def nth_Cons blank_file_def split: nat.splits)

lemma fs_static_bytes:
  "file_bytes 0 fs_static = [1, 2, 3]" "user_buffer fs_static 0x2000 (unat n) (\<lambda>i. 0x2000 + of_nat i)"
  "apart (\<lambda>i. 0x2000 + of_nat i) (unat (2 :: u32)) 0 fs_static"
proof -
  show "file_bytes 0 fs_static = [1, 2, 3]" by (simp add: file_bytes_def upt_rec)
  show "user_buffer fs_static 0x2000 (unat n) (\<lambda>i. 0x2000 + of_nat i)" by (simp add: bare_user_buffer)
  have "(0x2000 + of_nat i :: addr) \<noteq> 0x80400068 + of_nat k" if "i < 2" "k < 3" for i k
  proof -
    have "i \<in> {0, 1}" "k \<in> {0, 1, 2}" using that by auto
    then show ?thesis by auto
  qed
  then show "apart (\<lambda>i. 0x2000 + of_nat i) (unat (2 :: u32)) 0 fs_static" by (simp add: apart_def)
qed

text \<open>
  C22: reading an open file delivers the next bytes of the file from its cursor, as many as asked for
  or as are left, into the user buffer, advances the cursor by that number and changes nothing else.
\<close>

theorem filesystem_file_read_correct:
  assumes "fs_open h idx s" "user_buffer s buf (unat n) pa" "apart pa (unat n) idx s"
  defines "out \<equiv> take (unat n) (drop (unat (rwpos (os_files s ! h))) (file_bytes idx s))"
  shows "filesystem_file_read (Some h) buf n s = Inr (of_nat (length out),
    s\<lparr>mem := put_bytes pa 0 out (mem s),
      os_files := (os_files s)[h := (os_files s ! h)\<lparr>rwpos := rwpos (os_files s ! h) + of_nat (length out)\<rparr>]\<rparr>)"
  unfolding out_def by (rule file_read_ok[OF assms(1-3)])

theorem filesystem_file_read_correct_witness:
  "\<exists>t. filesystem_file_read (Some 0) 0x2000 2 fs_static = Inr (2, t) \<and> mem t 0x2000 = 1 \<and> mem t 0x2001 = 2 \<and>
     rwpos (os_files t ! 0) = 2"
proof -
  have "fs_open 0 0 fs_static" by (simp add: fs_open_def closed_file_def MAX_FS_FILES_def)
  from filesystem_file_read_correct[OF this fs_static_bytes(2,3)] show ?thesis
    by (simp add: fs_static_bytes(1) closed_file_def)
qed

text \<open>
  C23: opening a file by its name, reading from it and closing it: the first slot whose name equals the
  path is opened, the read starts at the beginning of the file, and after the close the descriptors
  of the process and the entries in use are what they were before.
\<close>

theorem filesystem_open_read_close:
  assumes "files_ok s" "length (os_files s) = MAX_OS_FILES" "fs_names s ns" "reads_string (path_reader p s) bs"
    "find (\<lambda>i. ns ! i = bs) [0..<MAX_FS_FILES] = Some idx"
    "find (\<lambda>i. \<not> in_use (os_files s ! i)) [0..<MAX_OS_FILES] = Some h"
    "kproc_file_add h (fresh_handle h idx s) = (fd, s1)" "fd \<noteq> -1"
    "user_buffer s buf (unat n) pa" "apart pa (unat n) idx s"
  defines "out \<equiv> take (unat n) (file_bytes idx s)"
  shows "\<exists>s2 s3. filesystem_file_open p mode s = Inr (fd, s1) \<and> 3 \<le> fd \<and> kproc_file_get fd s1 = Inr (Some h) \<and>
    filesystem_file_read (Some h) buf n s1 = Inr (of_nat (length out), s2) \<and> mem s2 = put_bytes pa 0 out (mem s) \<and>
    unat (rwpos (os_files s2 ! h)) = length out \<and>
    filesystem_file_close fd s2 = Inr (0, s3) \<and> map in_use (os_files s3) = map in_use (os_files s) \<and>
    (\<forall>g. kproc_file_get g s3 = kproc_file_get g s)"
  unfolding out_def by (rule open_read_close[OF assms(1-10)])

lemma fs_static_find:
  "find (\<lambda>i. ([104] # replicate 11 []) ! i = [104 :: u8]) [0..<MAX_FS_FILES] = Some 0"
  "find (\<lambda>i. \<not> in_use (os_files fs_static ! i)) [0..<MAX_OS_FILES] = Some 0"
  by (simp_all add: MAX_FS_FILES_def MAX_OS_FILES_def upt_rec[of 0] closed_file_def)

lemma fs_static_add:
  "kproc_file_add 0 (fresh_handle 0 0 fs_static) =
   (3, proc_upd 0 (\<lambda>p. p\<lparr>opened_files := (opened_files p)[3 := Some 0]\<rparr>) (fresh_handle 0 0 fs_static))"
  by (simp add: kproc_file_add_def fs_static_ok(2) cur_def blank_process_def MAX_OPEN_FILES_def upt_rec fresh_handle_def)

theorem filesystem_open_read_close_witness:
  "\<exists>s1 s2 s3. filesystem_file_open 0x1000 0 fs_static = Inr (3, s1) \<and>
     filesystem_file_read (Some 0) 0x2000 2 s1 = Inr (2, s2) \<and> mem s2 0x2000 = 1 \<and> mem s2 0x2001 = 2 \<and>
     filesystem_file_close 3 s2 = Inr (0, s3) \<and> map in_use (os_files s3) = replicate 100 False"
proof -
  have "length (os_files fs_static) = MAX_OS_FILES" by (simp add: MAX_OS_FILES_def)
  from filesystem_open_read_close[OF fs_static_ok(1) this fs_static_ok(3,4) fs_static_find fs_static_add _
      fs_static_bytes(2,3), of 0] show ?thesis
    by (auto simp: fs_static_bytes(1) closed_file_def)
qed

text \<open>
  C33: opening a file while the process has no free descriptor fails with -1 but keeps the entry of the
  table of open files: no descriptor refers to it and nothing gives it back.
\<close>

theorem filesystem_open_leaks:
  assumes "files_ok s" "length (os_files s) = MAX_OS_FILES" "fs_names s ns" "reads_string (path_reader p s) bs"
    "find (\<lambda>i. ns ! i = bs) [0..<MAX_FS_FILES] = Some idx"
    "find (\<lambda>i. \<not> in_use (os_files s ! i)) [0..<MAX_OS_FILES] = Some h"
    "\<And>k. 3 \<le> k \<Longrightarrow> k < MAX_OPEN_FILES \<Longrightarrow> opened_files (cur s) ! k \<noteq> None"
  shows "\<exists>t. filesystem_file_open p mode s = Inr (-1, t) \<and> map in_use (os_files t) = (map in_use (os_files s))[h := True] \<and>
    \<not> in_use (os_files s ! h) \<and> (\<forall>g. kproc_file_get g t = kproc_file_get g s)"
proof -
  have "kproc_file_add h (fresh_handle h idx s) = (-1, fresh_handle h idx s)"
    using file_add_cases[of "fresh_handle h idx s" h] assms(1,7) by (metis fresh_handle_simps(1,2))
  with file_open_found[OF assms(3-6)] find_upt[OF assms(6)] show ?thesis by (simp add: map_update)
qed

theorem filesystem_open_leaks_witness:
  "let s = proc_upd 0 (\<lambda>p. p\<lparr>opened_files := replicate 8 (Some 50)\<rparr>) fs_static in
   \<exists>t. filesystem_file_open 0x1000 0 s = Inr (-1, t) \<and> in_use (os_files t ! 0)"
proof -
  let ?s = "proc_upd 0 (\<lambda>p. p\<lparr>opened_files := replicate 8 (Some 50)\<rparr>) fs_static"
  have os: "os_files ?s = os_files fs_static" by (simp add: proc_upd_def)
  have "files_ok ?s" "length (os_files ?s) = MAX_OS_FILES"
    by (simp_all add: os files_ok_def cur_def MAX_OPEN_FILES_def MAX_OS_FILES_def)
  moreover have nr: "name_reader i ?s = name_reader i fs_static" for i
    by (rule ext) (simp add: name_reader_def proc_upd_def fs_data_def)
  have "fs_names ?s ([104] # replicate 11 [])" using fs_static_ok(3) by (simp add: fs_names_def nr)
  moreover have "path_reader 0x1000 ?s = path_reader 0x1000 fs_static"
    by (rule ext) (simp add: path_reader_def uload8_def mmu_translate_def)
  then have "reads_string (path_reader 0x1000 ?s) [104]" using fs_static_ok(4) by simp
  moreover have "opened_files (cur ?s) ! k \<noteq> None" if "k < MAX_OPEN_FILES" for k
    using that by (simp add: cur_def MAX_OPEN_FILES_def)
  moreover note fs_static_find
  ultimately obtain t where t: "filesystem_file_open 0x1000 0 ?s = Inr (-1, t)"
    "map in_use (os_files t) = (map in_use (os_files ?s))[0 := True]"
    using filesystem_open_leaks[of ?s "[104] # replicate 11 []" "0x1000" "[104]" 0 0 0] unfolding os by auto
  have "map in_use (os_files t) ! 0 = True" unfolding t(2) os by simp
  moreover have "length (os_files t) = 100" using t(2) os by (metis length_map length_list_update fs_static_simps(2) length_replicate)
  ultimately have "in_use (os_files t ! 0)" by simp
  with t(1) show ?thesis by (auto simp: Let_def)
qed

end
