(* ===== verification/Kexec.thy ===== *)
theory Kexec
  imports Filesystem
begin

text \<open>
  Program loading: the ELF headers of \<^verbatim>\<open>src/kernel/elf.h\<close> read from memory, the dumps of
  \<^verbatim>\<open>src/kernel/elf.c\<close>, and \<open>kproc_create\<close> and \<open>kproc_exec\<close> of \<^verbatim>\<open>src/kernel/kproc.c\<close>. The two
  functions share their loading loops, which are one definition here; \<open>kproc_exec\<close> also moves the
  heap pointer of the process and builds the argument vector on the new user stack.
\<close>

section \<open>ELF headers\<close>

record elf_header =
  eh_magic :: u32
  eh_bitsize :: u8
  eh_endianness :: u8
  eh_version :: u8
  eh_osabi :: u8
  eh_abiversion :: u8
  eh_type :: u16
  eh_machine :: u16
  eh_version2 :: u32
  eh_entry :: u32
  eh_phoff :: u32
  eh_shoff :: u32
  eh_flags :: u32
  eh_ehsize :: u16
  eh_phentsize :: u16
  eh_phnum :: u16
  eh_shentsize :: u16
  eh_shnum :: u16
  eh_shstrndx :: u16

record elf_program_header =
  ph_type :: u32
  ph_offset :: u32
  ph_vaddr :: u32
  ph_paddr :: u32
  ph_filesz :: u32
  ph_memsz :: u32
  ph_flags :: u32
  ph_align :: u32

text \<open>The packed structures at an address: the offsets follow from the order of the fields.\<close>

definition elf_header_at :: "(addr \<Rightarrow> u8) \<Rightarrow> addr \<Rightarrow> elf_header" where
  "elf_header_at m p = \<lparr>eh_magic = load32 m p, eh_bitsize = m (p + 4), eh_endianness = m (p + 5),
     eh_version = m (p + 6), eh_osabi = m (p + 7), eh_abiversion = m (p + 8),
     eh_type = load16 m (p + 16), eh_machine = load16 m (p + 18), eh_version2 = load32 m (p + 20),
     eh_entry = load32 m (p + 24), eh_phoff = load32 m (p + 28), eh_shoff = load32 m (p + 32),
     eh_flags = load32 m (p + 36), eh_ehsize = load16 m (p + 40), eh_phentsize = load16 m (p + 42),
     eh_phnum = load16 m (p + 44), eh_shentsize = load16 m (p + 46), eh_shnum = load16 m (p + 48),
     eh_shstrndx = load16 m (p + 50)\<rparr>"

definition elf_program_header_at :: "(addr \<Rightarrow> u8) \<Rightarrow> addr \<Rightarrow> elf_program_header" where
  "elf_program_header_at m p = \<lparr>ph_type = load32 m p, ph_offset = load32 m (p + 4), ph_vaddr = load32 m (p + 8),
     ph_paddr = load32 m (p + 12), ph_filesz = load32 m (p + 16), ph_memsz = load32 m (p + 20),
     ph_flags = load32 m (p + 24), ph_align = load32 m (p + 28)\<rparr>"

text \<open>A sequence of \<open>kprintf\<close> calls whose results are not used.\<close>

definition kprintf_all :: "(string \<times> varg list) list \<Rightarrow> 'a uart_dev_scheme \<Rightarrow> 'a uart_dev_scheme kres" where
  "kprintf_all = kfold (\<lambda>(fmt, args) s. kbind (kprintf (fmt @ [CHR 0x0A]) args s) (\<lambda>(_, s). Inr s))"

definition elf_dump_header :: "addr \<Rightarrow> 'a machine_scheme \<Rightarrow> 'a machine_scheme kres" where
  "elf_dump_header ehp s =
     (let e = elf_header_at (mem s) ehp in
      kprintf_all [(''MAGIC: %x'', [VInt (eh_magic e)]), (''bitsize: %d'', [VInt (ucast (eh_bitsize e))]),
        (''endianness: %d'', [VInt (ucast (eh_endianness e))]), (''version: %d'', [VInt (ucast (eh_version e))]),
        (''osabi: %d'', [VInt (ucast (eh_osabi e))]), (''abiversion: %d'', [VInt (ucast (eh_abiversion e))]),
        (''type: %d'', [VInt (ucast (eh_type e))]), (''machine: %d'', [VInt (ucast (eh_machine e))]),
        (''version2: %d'', [VInt (eh_version2 e)]), (''entry: %x'', [VInt (eh_entry e)]),
        (''phoff: %d'', [VInt (eh_phoff e)]), (''shoff: %d'', [VInt (eh_shoff e)]), (''flags: %d'', [VInt (eh_flags e)]),
        (''ehsize: %d'', [VInt (ucast (eh_ehsize e))]), (''phentsize: %d'', [VInt (ucast (eh_phentsize e))]),
        (''phnum: %d'', [VInt (ucast (eh_phnum e))]), (''shentsize: %d'', [VInt (ucast (eh_shentsize e))]),
        (''shnum: %d'', [VInt (ucast (eh_shnum e))]), (''shstrndx: %d'', [VInt (ucast (eh_shstrndx e))])] s)"

definition elf_dump_program_header :: "addr \<Rightarrow> 'a machine_scheme \<Rightarrow> 'a machine_scheme kres" where
  "elf_dump_program_header ephp s =
     (let e = elf_program_header_at (mem s) ephp in
      kprintf_all [(''type: %d'', [VInt (ph_type e)]), (''offset: %d'', [VInt (ph_offset e)]),
        (''vaddr: %x'', [VInt (ph_vaddr e)]), (''paddr: %x'', [VInt (ph_paddr e)]), (''filesz: %d'', [VInt (ph_filesz e)]),
        (''memsz: %d'', [VInt (ph_memsz e)]), (''flags: %d'', [VInt (ph_flags e)]), (''align: %d'', [VInt (ph_align e)])] s)"

section \<open>Loading\<close>

text \<open>
  One page of a segment for process \<open>i\<close>: a fresh page, \<open>n\<close> bytes of the file, and its mapping. The
  flag \<open>heap\<close> distinguishes \<open>kproc_exec\<close>, which moves \<open>free_heap_page\<close> on, from \<open>kproc_create\<close>.
\<close>

definition load_page :: "bool \<Rightarrow> nat \<Rightarrow> addr \<Rightarrow> u32 \<Rightarrow> u32 \<Rightarrow> u32 \<Rightarrow> 'a kproc_scheme \<Rightarrow> 'a kproc_scheme kres" where
  "load_page heap i eph program_start page_idx n s =
     kbind (kmem_alloc s) (\<lambda>(page, s).
     let s = s\<lparr>mem := memcpy page (program_start + page_idx * PAGE_SIZE) n (mem s)\<rparr> in
     kbind (kvmem_map_page (pagetable (procs s ! i)) (ph_vaddr (elf_program_header_at (mem s) eph) + page_idx * PAGE_SIZE)
              page (PTE_R OR PTE_W OR PTE_X OR PTE_U) s) (\<lambda>s.
       Inr (if heap then proc_upd i (\<lambda>p. p\<lparr>free_heap_page := free_heap_page p + PAGE_SIZE\<rparr>) s else s)))"

definition load_segment :: "bool \<Rightarrow> nat \<Rightarrow> addr \<Rightarrow> addr \<Rightarrow> 'a kproc_scheme \<Rightarrow> 'a kproc_scheme kres" where
  "load_segment heap i elf_file eph s =
     kbind (elf_dump_program_header eph s) (\<lambda>s.
     let h = elf_program_header_at (mem s) eph;
         program_start = elf_file + ph_offset h;
         full_pages = ph_memsz h div PAGE_SIZE;
         last_page_size = ph_memsz h mod PAGE_SIZE in
     kbind (kfold (\<lambda>page_idx. load_page heap i eph program_start (of_nat page_idx) PAGE_SIZE)
              [0..<unat full_pages] s) (\<lambda>s.
       if 0 < last_page_size then load_page heap i eph program_start full_pages last_page_size s else Inr s))"

definition load_program :: "bool \<Rightarrow> nat \<Rightarrow> addr \<Rightarrow> 'a kproc_scheme \<Rightarrow> 'a kproc_scheme kres" where
  "load_program heap i eh s =
     kbind (kwhile (\<lambda>(hi, s). hi < unat (eh_phnum (elf_header_at (mem s) eh)))
       (\<lambda>(hi, s). kbind (load_segment heap i eh (eh + eh_phoff (elf_header_at (mem s) eh) + of_nat hi * 32) s)
          (\<lambda>s. Inr (hi + 1, s))) (0 :: nat, s))
       (\<lambda>(hi, s). Inr s)"

text \<open>The kernel mapped one to one into the address space of process \<open>i\<close>.\<close>

definition map_kernel :: "nat \<Rightarrow> 'a kproc_scheme \<Rightarrow> 'a kproc_scheme kres" where
  "map_kernel i s =
     kbind (kwhile (\<lambda>(pa, s). pa < free_ram_end s)
       (\<lambda>(pa, s). kbind (kvmem_map_page (pagetable (procs s ! i)) pa pa (PTE_R OR PTE_W OR PTE_X) s)
          (\<lambda>s. Inr (pa + PAGE_SIZE, s))) (0, s))
       (\<lambda>(pa, s). Inr s)"

text \<open>
  What \<open>kproc_create\<close> (lines 54 to 125) and \<open>kproc_exec\<close> (lines 279 to 350) do alike: a new page
  table and trap frame, the context that enters user mode, the kernel mapping, the segments, the
  trap frame mapping and the user stack. The result is the page of the user stack.
\<close>

definition setup_image :: "bool \<Rightarrow> nat \<Rightarrow> addr \<Rightarrow> 'a kproc_scheme \<Rightarrow> (addr \<times> 'a kproc_scheme) kres" where
  "setup_image heap i elf_file s =
     kbind (kmem_alloc s) (\<lambda>(pt, s).
     let s = proc_upd i (\<lambda>p. p\<lparr>pagetable := pt\<rparr>) s in
     kbind (kmem_alloc s) (\<lambda>(tf, s).
     let s = proc_upd i (\<lambda>p. p\<lparr>trapframe := tf\<rparr>) s;
         s = proc_upd i (\<lambda>p. p\<lparr>proc_context := (proc_context p)\<lparr>ra := At_ktrap_to_user\<rparr>\<rparr>) s;
         s = proc_upd i (\<lambda>p. p\<lparr>proc_context := (proc_context p)\<lparr>ctx_sp := kernel_stack_top p\<rparr>\<rparr>) s;
         s = tf_set (trapframe (procs s ! i)) TF_kernel_sp (kernel_stack_top (procs s ! i)) s;
         s = tf_set (trapframe (procs s ! i)) TF_kernel_trap (sym_addr s Sym_ktrap_from_user_handler) s in
     kbind (map_kernel i s) (\<lambda>s.
     kbind (elf_dump_header elf_file s) (\<lambda>s.
     let s = tf_set (trapframe (procs s ! i)) TF_epc (eh_entry (elf_header_at (mem s) elf_file)) s in
     kbind (load_program heap i elf_file s) (\<lambda>s.
     kbind (kvmem_map_page (pagetable (procs s ! i)) VA_TRAPFRAME (trapframe (procs s ! i)) (PTE_R OR PTE_W) s) (\<lambda>s.
     kbind (kmem_alloc s) (\<lambda>(user_stack_page, s).
     let s = proc_upd i (\<lambda>p. p\<lparr>user_stack := user_stack_page\<rparr>) s;
         s = tf_set (trapframe (procs s ! i)) TF_sp VA_USER_STACK_INIT s in
     kbind (kvmem_map_page (pagetable (procs s ! i)) VA_USER_STACK user_stack_page
              (PTE_R OR PTE_W OR PTE_X OR PTE_U) s) (\<lambda>s.
       Inr (user_stack_page, s)))))))))"

definition kproc_create :: "addr \<Rightarrow> 'a kproc_scheme \<Rightarrow> (nat \<times> 'a kproc_scheme) kres" where
  "kproc_create elf_file s =
     (case find_unused s of
        None \<Rightarrow> kpanic ''kernel/kproc.c'' 49 ''No free PCB for new process'' s
      | Some i \<Rightarrow>
          (let s = proc_upd i (\<lambda>p. p\<lparr>proc_state := RUNNABLE\<rparr>) s;
               s = proc_upd i (\<lambda>p. p\<lparr>pid := of_nat i + 1\<rparr>) s in
           kbind (setup_image False i elf_file s) (\<lambda>(_, s). Inr (i, s))))"

section \<open>Arguments\<close>

text \<open>
  A word and a string of user memory. A string is fetched as a whole before it is printed or
  copied; it has the value \<open>Inl Hang\<close> when it never ends.
\<close>

definition uload32 :: "addr \<Rightarrow> 'a machine_scheme \<Rightarrow> u32 kres" where
  "uload32 va s =
     kbind (uload8 va s) (\<lambda>b0. kbind (uload8 (va + 1) s) (\<lambda>b1. kbind (uload8 (va + 2) s) (\<lambda>b2. kbind (uload8 (va + 3) s) (\<lambda>b3.
       Inr (ucast b0 OR push_bit 8 (ucast b1) OR push_bit 16 (ucast b2) OR push_bit 24 (ucast b3))))))"

text \<open>The bytes of a string up to its terminator, as \<open>kprintf\<close> and \<open>memcpy\<close> get to see them.\<close>

definition read_string :: "reader \<Rightarrow> u8 list kres" where
  "read_string rd =
     kbind (kwhile (\<lambda>(fin, bs). \<not> fin)
       (\<lambda>(fin, bs). kbind (rd (length bs)) (\<lambda>b. Inr (if b = 0 then (True, bs) else (False, bs @ [b])))) (False, []))
       (\<lambda>(fin, bs). Inr bs)"

definition ustring :: "addr \<Rightarrow> 'a machine_scheme \<Rightarrow> u8 list kres" where
  "ustring va s = read_string (path_reader va s)"

text \<open>The loop that counts and prints the arguments; a null \<open>argv\<close> has none.\<close>

definition exec_count :: "addr \<Rightarrow> 'a machine_scheme \<Rightarrow> (nat \<times> 'a machine_scheme) kres" where
  "exec_count argv s =
     kbind (kwhile (\<lambda>(fin, argc, s). \<not> fin)
       (\<lambda>(fin, argc, s).
          if argv + 4 * of_nat argc = 0 then Inr (True, argc, s)
          else kbind (uload32 (argv + 4 * of_nat argc) s) (\<lambda>arg.
            if arg = 0 then Inr (True, argc, s)
            else kbind (ustring arg s) (\<lambda>str.
              kbind (kprintf (''Kernel got argv in exec = %s'' @ [CHR 0x0A]) [VStr str] s) (\<lambda>(_, s).
                Inr (False, argc + 1, s))))) (False, 0, s))
       (\<lambda>(fin, argc, s). Inr (argc, s))"

text \<open>Argument \<open>i\<close> with its terminator, copied below the last one; \<open>tmp_argv\<close> collects the user addresses.\<close>

definition push_arg ::
  "addr \<Rightarrow> nat \<Rightarrow> addr \<times> u32 list \<times> 'a kproc_scheme \<Rightarrow> (addr \<times> u32 list \<times> 'a kproc_scheme) kres" where
  "push_arg argv i = (\<lambda>(physical_user_stack, tmp_argv, s).
     kbind (uload32 (argv + 4 * of_nat i) s) (\<lambda>arg.
     kbind (ustring arg s) (\<lambda>str.
     let arg_len = of_nat (length str) + 1;
         physical_user_stack = physical_user_stack - arg_len;
         s = tf_set (trapframe (cur s)) TF_sp (tf_get (trapframe (cur s)) TF_sp s - arg_len) s;
         tmp_argv = tmp_argv @ [tf_get (trapframe (cur s)) TF_sp s] in
     kbind (kfold (\<lambda>k s. kbind (uload8 (arg + of_nat k) s) (\<lambda>b.
              Inr (s\<lparr>mem := (mem s)(physical_user_stack + of_nat k := b)\<rparr>))) [0..<unat arg_len] s) (\<lambda>s.
       Inr (physical_user_stack, tmp_argv, s)))))"

definition exec_args :: "addr \<Rightarrow> nat \<Rightarrow> addr \<Rightarrow> 'a kproc_scheme \<Rightarrow> 'a kproc_scheme kres" where
  "exec_args argv argc user_stack_page s =
     kbind (kfold (push_arg argv) [0..<argc] (user_stack_page + PAGE_SIZE, [], s)) (\<lambda>(physical_user_stack, tmp_argv, s).
     let physical_user_stack = physical_user_stack - of_nat argc * 4;
         s = fold (\<lambda>k. set_word physical_user_stack k (tmp_argv ! k)) [0..<argc] s;
         s = tf_set (trapframe (cur s)) TF_sp (tf_get (trapframe (cur s)) TF_sp s - of_nat argc * 4) s;
         s = tf_set (trapframe (cur s)) TF_a0 (of_nat argc) s;
         s = tf_set (trapframe (cur s)) TF_a1 (tf_get (trapframe (cur s)) TF_sp s) s
     in Inr s)"

definition kproc_exec :: "addr \<Rightarrow> addr \<Rightarrow> 'a filesystem_scheme \<Rightarrow> (u32 \<times> 'a filesystem_scheme) kres" where
  "kproc_exec path argv s =
     kbind (ustring path s) (\<lambda>str.
     kbind (kprintf (''kproc_exec got filepath %s'' @ [CHR 0x0A]) [VStr str] s) (\<lambda>(_, s).
     kbind (exec_count argv s) (\<lambda>(argc, s).
     kbind (filesystem_get_filedata path s) (\<lambda>elf_file_ptr.
       case elf_file_ptr of
         None \<Rightarrow> Inr (-1, s)
       | Some elf_file \<Rightarrow>
           kbind (setup_image True (current s) elf_file (proc_upd (current s) (\<lambda>p. p\<lparr>proc_state := RUNNABLE\<rparr>) s))
             (\<lambda>(user_stack_page, s).
           kbind (exec_args argv argc user_stack_page s) (\<lambda>s.
           kbind (kprintf (''EXEC: process next free heap page VA = %x'' @ [CHR 0x0A])
                    [VInt (free_heap_page (cur s))] s) (\<lambda>(_, s).
             Inr (0, s))))))))"

end
