(* ===== verification/Kproc_Fork.thy ===== *)
theory Kproc_Fork
  imports Kproc
begin

text \<open>
  Correctness of \<open>kproc_fork\<close> (\<^verbatim>\<open>src/kernel/kproc.c\<close>): the address space, the trap frame and the
  control block of the child, and what the parent and the other processes keep.
\<close>

section \<open>Fork\<close>

lemma tf_index_inj: "tf_index f = tf_index g \<longleftrightarrow> f = g"
  by (cases f; cases g) simp_all

lemma tf_index_bound [simp]: "tf_index f < 1024"
  by (cases f) simp_all

lemma tf_get_set:
  assumes "page_aligned p" "page_aligned q"
  shows "tf_get q g (tf_set p f v s) = (if p = q \<and> f = g then v else tf_get q g s)"
  using word_at_set_word[OF assms tf_index_bound tf_index_bound, of f v s g]
  by (simp add: tf_get_def tf_set_def tf_index_inj del: set_word_simps)

lemma tf_set_simps [simp]:
  "procs (tf_set p f v s) = procs s" "current (tf_set p f v s) = current s" "cur (tf_set p f v s) = cur s"
  "kmem_head (tf_set p f v t) = kmem_head t" "sym_addr (tf_set p f v u) = sym_addr u" "csr (tf_set p f v u) = csr u"
  "lsr_at (tf_set p f v u) = lsr_at u" "lsr_pos (tf_set p f v u) = lsr_pos u" "uart_writes (tf_set p f v u) = uart_writes u"
  by (simp_all add: tf_set_def set_word_def cur_def)

lemma tf_set_other: "page_aligned p \<Longrightarrow> page_base a \<noteq> p \<Longrightarrow> mem (tf_set p f v s) a = mem s a"
  unfolding tf_set_def by (rule set_word_other) simp_all

lemma tf_get_page:
  assumes "page_aligned p" "\<forall>a. page_base a = p \<longrightarrow> mem t a = mem s a"
  shows "tf_get p f t = tf_get p f s"
  unfolding tf_get_def by (rule word_at_page) (use assms in simp_all)

lemma pt_ok_upd [simp]: "pt_ok (proc_upd i f s) root ps = pt_ok s root ps"
  by (simp add: pt_ok_def kmem_pages_def)

lemma copy_pre_upd [simp]: "copy_pre (proc_upd i f s) root ps = copy_pre s root ps"
  by (simp add: copy_pre_def)

lemma find_unused_Some:
  assumes "find_unused s = Some i"
  shows "i < NUM_PROCESSES" "proc_state (procs s ! i) = UNUSED" "\<forall>k < i. proc_state (procs s ! k) \<noteq> UNUSED"
  using assms by (auto simp: find_unused_def find_Some_iff)

text \<open>
  The address space of the child at root \<open>d\<close>, made from \<open>src\<close> in the memory \<open>m0\<close> with \<open>m\<close> of the free pages: its own trap frame page is
  mapped, and every other entry is a copy.
\<close>

definition child_space :: "(addr \<Rightarrow> u8) \<Rightarrow> addr \<Rightarrow> addr list \<Rightarrow> addr \<Rightarrow> addr \<Rightarrow> nat \<Rightarrow> 'a kmem_scheme \<Rightarrow> bool" where
  "child_space m0 src ps d tf m v \<longleftrightarrow> page_aligned tf \<and> tf \<in> set ps \<and> tf \<notin> set (drop m ps) \<and> tf \<notin> pt_pages (mem v) d \<and>
     pt_ok v d (drop m ps) \<and> m \<le> length ps \<and> pt_pages (mem v) d \<subseteq> set ps \<and> (\<forall>a. \<not> in_pages a ps \<longrightarrow> mem v a = m0 a) \<and>
     (\<forall>i < 1024. \<forall>j < 1024. if i = vpn1 VA_TRAPFRAME \<and> j = vpn0 VA_TRAPFRAME
       then pt_entry (mem v) d i j = Some (leaf_pte tf (PTE_R OR PTE_W))
       else copied m0 (mem v) (set ps - pt_pages (mem v) d - {tf} - set (drop m ps)) (pt_entry m0 src i j) (pt_entry (mem v) d i j))"

lemma child_spaceI:
  assumes inv: "copy_inv s src d ps R ({..<1024} \<times> {..<1024}) n t" and ps: "drop n ps = tf # qs" "distinct ps" "\<forall>p \<in> set ps. page_aligned p"
    and fm: "frame_mapped d tf qs VA_TRAPFRAME (PTE_R OR PTE_W) new mu t v" "\<And>a. mu a = (if page_base a = tf then 0 else mem t a)"
    and room: "n + 2 \<le> length ps"
  shows "child_space (mem s) src ps d tf (Suc n + length new) v"
proof -
  let ?m = "Suc n + length new"
  have qs: "qs = drop (Suc n) ps" using ps(1) by (metis drop_Suc list.sel(3) tl_drop)
  have ti: "pt_pages (mem t) d \<subseteq> set (take n ps)" "\<forall>a. page_base a \<notin> set (take n ps) \<longrightarrow> mem t a = mem s a" using inv by (simp_all add: copy_inv_def)
  have tk: "set (take n ps) \<inter> set (tf # qs) = {}" using take_drop_disjoint[OF ps(2), of n] by (simp add: ps(1))
  have tf: "tf \<in> set ps" "tf \<notin> set qs" "set qs \<subseteq> set ps" "set (take n ps) \<subseteq> set ps"
    using ps(1,2) distinct_drop[of ps n] set_drop_subset[of n ps] set_take_subset[of n ps] by auto
  have nw: "new = take (length new) qs" "length new \<le> 1" "pt_pages (mem v) d = pt_pages (mem t) d \<union> set new" "tf \<notin> pt_pages (mem v) d"
    "pt_ok v d (drop (length new) qs)"
    and vm: "\<And>a. page_base a \<notin> pt_pages (mem t) d \<union> set new \<Longrightarrow> mem v a = mu a"
    and ent: "\<And>i j. i < 1024 \<Longrightarrow> j < 1024 \<Longrightarrow> pt_entry (mem v) d i j =
      (if i = vpn1 VA_TRAPFRAME \<and> j = vpn0 VA_TRAPFRAME then Some (leaf_pte tf (PTE_R OR PTE_W)) else pt_entry (mem t) d i j)"
    using fm(1) unfolding frame_mapped_def by blast+
  have new: "set new \<subseteq> set qs" using nw(1) by (metis set_take_subset)
  have rest: "drop (length new) qs = drop ?m ps" "set (drop ?m ps) \<subseteq> set qs" "?m \<le> length ps"
    using room nw(2) by (auto simp: qs add.commute set_drop_subset_set_drop)
  let ?F = "set (take n ps) - pt_pages (mem t) d"
  have data: "\<forall>a. page_base a \<in> ?F \<longrightarrow> mem v a = mem t a"
  proof (intro allI impI)
    fix a assume "page_base a \<in> ?F"
    then have "page_base a \<notin> pt_pages (mem t) d \<union> set new" "page_base a \<noteq> tf" using new tk by auto
    then show "mem v a = mem t a" using vm fm(2) by simp
  qed
  have F: "?F \<subseteq> set ps - pt_pages (mem v) d - {tf} - set (drop ?m ps)" using tf new rest(2) tk unfolding nw(3) by auto
  have "copied (mem s) (mem t) ?F (pt_entry (mem s) src i j) (pt_entry (mem t) d i j)" if "i < 1024" "j < 1024" for i j
    using inv that by (simp add: copy_inv_def entries_copied_def)
  note cp = copied_frame[OF this F data]
  have "mem v a = mem s a" if "\<not> in_pages a ps" for a
    using vm[of a] fm(2)[of a] ti tf new that by (metis UnE subsetD)
  then show ?thesis unfolding child_space_def
    using cp ent tf nw ps(3) new rest ti(1) by auto
qed

lemma fork_tables:
  assumes pre: "copy_pre s src ps" and room: "copy_cost (mem s) src + 2 \<le> length ps"
  shows "\<exists>t tf u v m. kvmem_copy_pagetable src s = Inr (hd ps, t) \<and> kmem_alloc t = Inr (tf, u) \<and>
    kvmem_map_page (hd ps) VA_TRAPFRAME tf (PTE_R OR PTE_W) u = Inr v \<and>
    kmem_frame s t \<and> kmem_frame t u \<and> kmem_frame u v \<and> child_space (mem s) src ps (hd ps) tf m v"
proof -
  let ?n = "copy_cost (mem s) src" and ?d = "hd ps" and ?fl = "PTE_R OR PTE_W"
  have al: "distinct ps" "\<forall>p \<in> set ps. page_aligned p"
    using pre by (auto simp: copy_pre_def pt_ok_def kmem_pages_def)
  from kvmem_copy_pagetable_ok[OF pre] room obtain t R where t: "kvmem_copy_pagetable src s = Inr (?d, t)"
    and inv: "copy_inv s src ?d ps R ({..<1024} \<times> {..<1024}) ?n t" by auto
  define tf qs where "tf = ps ! ?n" and "qs = drop (Suc ?n) ps"
  have dn: "drop ?n ps = tf # qs" using room by (simp add: tf_def qs_def Cons_nth_drop_Suc)
  have "pt_ok t ?d (tf # qs)" "qs \<noteq> []" "kmem_frame s t"
    using inv take_drop_disjoint[OF al(1), of ?n] room by (auto simp: copy_inv_def dn pt_ok_def qs_def)
  with alloc_map_page[of t ?d tf qs VA_TRAPFRAME ?fl] obtain u where
    u: "kmem_alloc t = Inr (tf, u)" "kmem_frame t u" "\<And>a. mem u a = (if page_base a = tf then 0 else mem t a)"
    and map: "\<And>m. (\<And>a. page_base a \<noteq> tf \<Longrightarrow> m a = mem t a) \<Longrightarrow>
      \<exists>v new. kvmem_map_page ?d VA_TRAPFRAME tf ?fl (u\<lparr>mem := m\<rparr>) = Inr v \<and> frame_mapped ?d tf qs VA_TRAPFRAME ?fl new m t v" by blast
  from map[of "mem u"] u(3) obtain v new where v: "kvmem_map_page ?d VA_TRAPFRAME tf ?fl u = Inr v"
    and fm: "frame_mapped ?d tf qs VA_TRAPFRAME ?fl new (mem u) t v" by auto
  have "kmem_frame u v" using u(2) fm by (cases t; cases u; cases v) (simp add: frame_mapped_def kmem_frame_def)
  with t u(1,2) v \<open>kmem_frame s t\<close> child_spaceI[OF inv dn al fm u(3) room] show ?thesis by blast
qed

lemma kmem_alloc_upd:
  "kmem_alloc s = Inr (p, t) \<Longrightarrow> kmem_alloc (proc_upd i f s) = Inr (p, proc_upd i f t)"
  by (auto simp: kmem_alloc_def proc_upd_def Let_def split: if_splits)

lemma set_word_upd: "set_word p k v (proc_upd i f s) = proc_upd i f (set_word p k v s)"
  by (simp add: set_word_def proc_upd_def)

lemma kvmem_map_page_upd:
  "kvmem_map_page root va pa flags s = Inr t \<Longrightarrow>
   kvmem_map_page root va pa flags (proc_upd i f s) = Inr (proc_upd i f t)"
  by (auto simp: kvmem_map_page_eq ensure_table_def kres_simps set_word_upd dest: kmem_alloc_upd[where i = i and f = f] split: if_splits)

lemma fork_message:
  fixes s :: "'a uart_dev_scheme"
  assumes "uart_live s"
  shows "\<exists>t r. kprintf (''Successfully forked %d to %d'' @ [CHR 0x0A]) [VInt a, VInt b] s = Inr (r, t) \<and>
    (\<exists>p w. t = s\<lparr>lsr_pos := p, uart_writes := w\<rparr>)"
proof -
  have "\<exists>r txt. format_text (''Successfully forked %d to %d'' @ [CHR 0x0A]) [VInt a, VInt b] = Some (r, txt)"
    by simp
  then show ?thesis using kprintf_sends[OF assms] by (fastforce simp: sends_def)
qed

lemma word_at_copy:
  assumes "i < 1024" "\<And>n. n < 4096 \<Longrightarrow> m' (p + of_nat n) = m (q + of_nat n)"
  shows "word_at m' p i = word_at m q i"
proof -
  have "m' (p + of_nat (4 * i + k)) = m (q + of_nat (4 * i + k))" if "k < 4" for k
    using assms(1) that by (intro assms(2)) simp
  from this[of 0] this[of 1] this[of 2] this[of 3] show ?thesis
    unfolding load32_def slot_bytes by (simp add: slot_byte0)
qed

text \<open>The trap frames of parent and child at the end of fork.\<close>

lemma fork_frames:
  fixes w W :: "'a kmem_scheme" and c k ks :: u32
  assumes al: "page_aligned tf" "page_aligned ptf" "tf \<noteq> ptf" and W: "mem W = memcpy tf ptf PAGE_SIZE (mem w)"
  defines "fin \<equiv> tf_set tf TF_a0 0 (tf_set ptf TF_a0 c (tf_set tf TF_kernel_trap k (tf_set tf TF_kernel_sp ks W)))"
  shows "tf_get tf f fin = (if f = TF_a0 then 0 else if f = TF_kernel_sp then ks else if f = TF_kernel_trap then k else tf_get ptf f w)"
    "tf_get ptf f fin = (if f = TF_a0 then c else tf_get ptf f w)"
    "page_base a \<noteq> tf \<Longrightarrow> page_base a \<noteq> ptf \<Longrightarrow> mem fin a = mem w a"
proof -
  have same: "mem W a = mem w a" if "page_base a \<noteq> tf" for a
    using memcpy_page[OF al] that by (simp add: W)
  have "mem W (tf + of_nat n) = mem w (ptf + of_nat n)" if "n < 4096" for n
    using memcpy_page[OF al, of "mem w" "tf + of_nat n"] page_base_add[OF al(1) that] by (simp add: W)
  then have "tf_get tf f W = tf_get ptf f w" unfolding tf_get_def by (intro word_at_copy) simp_all
  then show "tf_get tf f fin = (if f = TF_a0 then 0 else if f = TF_kernel_sp then ks else if f = TF_kernel_trap then k else tf_get ptf f w)"
    using al by (simp add: fin_def tf_get_set)
  have "tf_get ptf f W = tf_get ptf f w" by (rule tf_get_page[OF al(2)]) (use same al(3) in auto)
  then show "tf_get ptf f fin = (if f = TF_a0 then c else tf_get ptf f w)"
    using al by (simp add: fin_def tf_get_set)
  show "page_base a \<noteq> tf \<Longrightarrow> page_base a \<noteq> ptf \<Longrightarrow> mem fin a = mem w a"
    using al same by (simp add: fin_def tf_set_other)
qed

text \<open>The control block of the child.\<close>

definition fork_child :: "nat \<Rightarrow> addr \<Rightarrow> addr \<Rightarrow> addr \<Rightarrow> process \<Rightarrow> process" where
  "fork_child i d tf stk p = p\<lparr>pid := of_nat i + 1, proc_state := RUNNABLE,
     proc_context := \<lparr>ra = At_ktrap_to_user, ctx_sp = kernel_stack_top p\<rparr>, trapframe := tf, pagetable := d,
     user_stack := stk\<rparr>"

lemma cur_proc_upd: "i \<noteq> current s \<Longrightarrow> cur (proc_upd i f s) = cur s"
  by (simp add: cur_def)

lemma cur_mem [simp]: "cur (s\<lparr>mem := m\<rparr>) = cur s"
  by (simp add: cur_def)

lemma mem_tf_set [simp]: "mem (tf_set p f v s) = store32 (mem s) (slot p (tf_index f)) v"
  by (simp add: tf_set_def)

lemma fork_tail_run:
  fixes w :: "'a kproc_scheme"
  assumes "i < length (procs w)" "i \<noteq> current w" "uart_live w"
    and "trapframe (procs w ! i) = tf" "pagetable (procs w ! i) = d" "trapframe (cur w) = ptf"
    and "kernel_stack_top (procs w ! i) = ks" "pid (procs w ! i) = c"
  defines "W \<equiv> w\<lparr>mem := memcpy tf ptf PAGE_SIZE (mem w)\<rparr>"
  shows "\<exists>s'. fork_tail i w = Inr (c, s') \<and> current s' = current w \<and> kmem_head s' = kmem_head w \<and>
    procs s' = (procs w)[i := (procs w ! i)\<lparr>user_stack := kvmem_get_pa d VA_USER_STACK W,
      proc_context := \<lparr>ra = At_ktrap_to_user, ctx_sp = ks\<rparr>\<rparr>] \<and>
    mem s' = mem (tf_set tf TF_a0 0 (tf_set ptf TF_a0 c (tf_set tf TF_kernel_trap (sym_addr w Sym_ktrap_from_user_handler)
      (tf_set tf TF_kernel_sp ks W))))"
proof -
  let ?S = "tf_set tf TF_a0 0 (tf_set ptf TF_a0 c (tf_set tf TF_kernel_trap (sym_addr w Sym_ktrap_from_user_handler)
    (tf_set tf TF_kernel_sp ks (proc_upd i (\<lambda>p. p\<lparr>proc_context := (proc_context p)\<lparr>ctx_sp := kernel_stack_top p\<rparr>\<rparr>)
      (proc_upd i (\<lambda>p. p\<lparr>proc_context := (proc_context p)\<lparr>ra := At_ktrap_to_user\<rparr>\<rparr>)
        (proc_upd i (\<lambda>p. p\<lparr>user_stack := kvmem_get_pa (pagetable p) VA_USER_STACK W\<rparr>) W))))))"
  have run: "fork_tail i w = kbind (kprintf (''Successfully forked %d to %d'' @ [CHR 0x0A]) [VInt (pid (cur w)), VInt c] ?S)
      (\<lambda>(_, s). Inr (pid (procs s ! i), s))"
    using assms(1,2,4-8) by (simp add: fork_tail_def Let_def W_def[symmetric] cur_proc_upd)
      (simp add: W_def cur_proc_upd)
  have "uart_live ?S" using assms(3) by (simp add: uart_live_def W_def)
  from fork_message[OF this, of "pid (cur w)" c] obtain t r p wr where
    t: "kprintf (''Successfully forked %d to %d'' @ [CHR 0x0A]) [VInt (pid (cur w)), VInt c] ?S = Inr (r, t)"
    "t = ?S\<lparr>lsr_pos := p, uart_writes := wr\<rparr>" by blast
  have ctx: "(proc_context (procs w ! i))\<lparr>ra := At_ktrap_to_user, ctx_sp := ks\<rparr> = \<lparr>ra = At_ktrap_to_user, ctx_sp = ks\<rparr>"
    by (cases "proc_context (procs w ! i)") simp
  have "procs t = procs ?S" by (simp add: t(2))
  also have "\<dots> = (procs w)[i := (procs w ! i)\<lparr>user_stack := kvmem_get_pa d VA_USER_STACK W,
      proc_context := (proc_context (procs w ! i))\<lparr>ra := At_ktrap_to_user, ctx_sp := ks\<rparr>\<rparr>]"
    using assms(1,5,7) by (simp add: W_def)
  finally have procs: "procs t = (procs w)[i := (procs w ! i)\<lparr>user_stack := kvmem_get_pa d VA_USER_STACK W,
      proc_context := \<lparr>ra = At_ktrap_to_user, ctx_sp = ks\<rparr>\<rparr>]" unfolding ctx .
  have "fork_tail i w = Inr (pid (procs t ! i), t)" unfolding run t(1) by simp
  moreover have "pid (procs t ! i) = c" using assms(1,8) by (simp add: procs)
  moreover have "current t = current w" "kmem_head t = kmem_head w" by (simp_all add: t(2) W_def)
  ultimately show ?thesis using procs by (intro exI[of _ t] conjI) (simp_all add: t(2))
qed

lemma fork_run:
  fixes s :: "'a kproc_scheme"
  assumes i: "find_unused s = Some i" "length (procs s) = NUM_PROCESSES" "i \<noteq> current s" and live: "uart_live s"
  defines "s1 \<equiv> proc_upd i (\<lambda>p. p\<lparr>pid := of_nat i + 1\<rparr>) (proc_upd i (\<lambda>p. p\<lparr>proc_state := RUNNABLE\<rparr>) s)"
  assumes t: "kvmem_copy_pagetable (pagetable (cur s)) s1 = Inr (d, t)"
    and u: "kmem_alloc t = Inr (tf, u)" and v: "kvmem_map_page d VA_TRAPFRAME tf (PTE_R OR PTE_W) u = Inr v"
    and fr: "kmem_frame s1 t" "kmem_frame t u" "kmem_frame u v"
  shows "kproc_fork s = fork_tail i (proc_upd i (\<lambda>p. p\<lparr>trapframe := tf\<rparr>) (proc_upd i (\<lambda>p. p\<lparr>pagetable := d\<rparr>) v))"
    "procs v = (procs s)[i := (procs s ! i)\<lparr>proc_state := RUNNABLE, pid := of_nat i + 1\<rparr>]" "current v = current s"
    "sym_addr v = sym_addr s" "uart_live v"
proof -
  have iN: "i < length (procs s)" using find_unused_Some(1)[OF i(1)] i(2) by simp
  have s1: "procs s1 = (procs s)[i := (procs s ! i)\<lparr>proc_state := RUNNABLE, pid := of_nat i + 1\<rparr>]"
    "current s1 = current s" "sym_addr s1 = sym_addr s" "uart_live s1" "pagetable (cur s1) = pagetable (cur s)"
    using iN i(3) live by (simp_all add: s1_def uart_live_def cur_proc_upd)
  then show pv: "procs v = (procs s)[i := (procs s ! i)\<lparr>proc_state := RUNNABLE, pid := of_nat i + 1\<rparr>]"
    "current v = current s" "sym_addr v = sym_addr s" "uart_live v"
    using kmem_frame_kproc[OF fr(1)] kmem_frame_kproc[OF fr(2)] kmem_frame_kproc[OF fr(3)]
      kmem_frame_simps(5,7)[OF fr(1)] kmem_frame_simps(5,7)[OF fr(2)] kmem_frame_simps(5,7)[OF fr(3)] by simp_all
  have pu: "procs u = procs v" using kmem_frame_kproc[OF fr(3)] by simp
  let ?u = "proc_upd i (\<lambda>p. p\<lparr>trapframe := tf\<rparr>) (proc_upd i (\<lambda>p. p\<lparr>pagetable := d\<rparr>) u)"
  have "kmem_alloc (proc_upd i (\<lambda>p. p\<lparr>pagetable := d\<rparr>) t) = Inr (tf, proc_upd i (\<lambda>p. p\<lparr>pagetable := d\<rparr>) u)"
    by (rule kmem_alloc_upd[OF u])
  moreover have "pagetable (procs ?u ! i) = d" "trapframe (procs ?u ! i) = tf" using pu pv(1) iN by simp_all
  moreover have "kvmem_map_page d VA_TRAPFRAME tf (PTE_R OR PTE_W) ?u =
      Inr (proc_upd i (\<lambda>p. p\<lparr>trapframe := tf\<rparr>) (proc_upd i (\<lambda>p. p\<lparr>pagetable := d\<rparr>) v))"
    by (intro kvmem_map_page_upd v)
  ultimately show "kproc_fork s = fork_tail i (proc_upd i (\<lambda>p. p\<lparr>trapframe := tf\<rparr>) (proc_upd i (\<lambda>p. p\<lparr>pagetable := d\<rparr>) v))"
    unfolding kproc_fork_def i(1) option.case Let_def s1_def[symmetric] s1(5) t kbind_Inr prod.case
    by (simp del: proc_upd_simps)
qed

lemma fork_child_eq:
  "(p\<lparr>proc_state := RUNNABLE, pid := of_nat i + 1, pagetable := d, trapframe := tf, user_stack := stk,
     proc_context := \<lparr>ra = At_ktrap_to_user, ctx_sp = kernel_stack_top p\<rparr>\<rparr>) = fork_child i d tf stk p"
  by (simp add: fork_child_def)

text \<open>The address space of the child survives the writes to the two trap frames.\<close>

lemma fork_view:
  fixes v s' :: "'a kmem_scheme"
  assumes cs: "child_space m0 src ps d tf m v" and ptf: "ptf \<notin> set ps" and hd: "kmem_head s' = kmem_head v"
    and same: "\<And>a. page_base a \<noteq> tf \<Longrightarrow> page_base a \<noteq> ptf \<Longrightarrow> mem s' a = mem v a"
  shows "pt_ok s' d (drop m ps)" "kvmem_get_pa d VA_TRAPFRAME s' = tf"
    "i < 1024 \<Longrightarrow> j < 1024 \<Longrightarrow> pt_entry (mem s') d i j = pt_entry (mem v) d i j"
    "page_base va \<noteq> VA_TRAPFRAME \<Longrightarrow> copied m0 (mem s') (set ps - pt_pages (mem s') d - {tf} - set (drop m ps))
      (pt_entry m0 src (vpn1 va) (vpn0 va)) (pt_entry (mem s') d (vpn1 va) (vpn0 va))"
proof -
  have v: "pt_ok v d (drop m ps)" "tf \<notin> set (drop m ps)" "tf \<notin> pt_pages (mem v) d" "pt_pages (mem v) d \<subseteq> set ps" "page_aligned tf"
    and ent: "\<And>i j. i < 1024 \<Longrightarrow> j < 1024 \<Longrightarrow> if i = vpn1 VA_TRAPFRAME \<and> j = vpn0 VA_TRAPFRAME
       then pt_entry (mem v) d i j = Some (leaf_pte tf (PTE_R OR PTE_W))
       else copied m0 (mem v) (set ps - pt_pages (mem v) d - {tf} - set (drop m ps)) (pt_entry m0 src i j) (pt_entry (mem v) d i j)"
    using cs unfolding child_space_def by blast+
  have eq: "\<forall>a. page_base a \<in> pt_pages (mem v) d \<longrightarrow> mem s' a = mem v a"
    using same v(3,4) ptf by (metis subsetD)
  have ald: "page_aligned d" using v(1) by (simp add: pt_ok_def pt_wf_def)
  note c = pt_cong[OF ald eq]
  show "i < 1024 \<Longrightarrow> j < 1024 \<Longrightarrow> pt_entry (mem s') d i j = pt_entry (mem v) d i j" by (rule c(3))
  have "kmem_pages s' (drop m ps)"
  proof (rule kmem_pages_frame[of v, OF _ hd])
    show "kmem_pages v (drop m ps)" using v(1) by (simp add: pt_ok_def)
    fix a assume "in_pages a (drop m ps)"
    then have "page_base a \<noteq> tf" "page_base a \<noteq> ptf" using v(2) ptf set_drop_subset[of m ps] by auto
    then show "mem s' a = mem v a" by (rule same)
  qed
  then show "pt_ok s' d (drop m ps)" using v(1) c(1,2) by (simp add: pt_ok_def)
  have f: "(PTE_R OR PTE_W) AND 0xFFFFFC00 = 0" by (simp add: pte_flag_defs)
  have "pt_entry (mem v) d (vpn1 VA_TRAPFRAME) (vpn0 VA_TRAPFRAME) = Some (leaf_pte tf (PTE_R OR PTE_W))"
    using ent[OF vpn_bound, of VA_TRAPFRAME VA_TRAPFRAME] by simp
  then show "kvmem_get_pa d VA_TRAPFRAME s' = tf"
    unfolding kvmem_get_pa_entry using c(3) leaf_pte_simps(1)[OF f, of tf] page_base_aligned[OF v(5)] by simp
  assume va: "page_base va \<noteq> VA_TRAPFRAME"
  have "page_base VA_TRAPFRAME = VA_TRAPFRAME"
    by (simp add: VA_TRAPFRAME_def VA_MAX_def PAGE_SIZE_def page_base_def)
  with va have nt: "\<not> (vpn1 va = vpn1 VA_TRAPFRAME \<and> vpn0 va = vpn0 VA_TRAPFRAME)" using same_page_iff by metis
  have dat: "\<forall>a. page_base a \<in> set ps - pt_pages (mem v) d - {tf} - set (drop m ps) \<longrightarrow> mem s' a = mem v a"
    using same ptf by (metis Diff_iff singletonI)
  have "copied m0 (mem v) (set ps - pt_pages (mem v) d - {tf} - set (drop m ps))
    (pt_entry m0 src (vpn1 va) (vpn0 va)) (pt_entry (mem v) d (vpn1 va) (vpn0 va))"
    using ent[OF vpn_bound, of va va] nt by (simp only: if_False)
  from copied_frame[OF this subset_refl dat]
  show "copied m0 (mem s') (set ps - pt_pages (mem s') d - {tf} - set (drop m ps))
      (pt_entry m0 src (vpn1 va) (vpn0 va)) (pt_entry (mem s') d (vpn1 va) (vpn0 va))" using c(1,3) by simp
qed

text \<open>The end of fork on an address space that is ready.\<close>

lemma fork_tail_child:
  fixes w :: "'a kproc_scheme"
  assumes w: "i < length (procs w)" "i \<noteq> current w" "uart_live w"
    and fld: "trapframe (procs w ! i) = tf" "pagetable (procs w ! i) = d" "trapframe (cur w) = ptf"
      "kernel_stack_top (procs w ! i) = ks" "pid (procs w ! i) = c"
    and cs: "child_space m0 src ps d tf m w" and ptf: "page_aligned ptf" "ptf \<notin> set ps"
  shows "\<exists>s'. fork_tail i w = Inr (c, s') \<and> current s' = current w \<and>
    procs s' = (procs w)[i := (procs w ! i)\<lparr>user_stack := kvmem_get_pa d VA_USER_STACK s', proc_context := \<lparr>ra = At_ktrap_to_user, ctx_sp = ks\<rparr>\<rparr>] \<and>
    kvmem_get_pa d VA_TRAPFRAME s' = tf \<and> pt_ok s' d (drop m ps) \<and>
    (\<forall>va. page_base va \<noteq> VA_TRAPFRAME \<longrightarrow> copied m0 (mem s') (set ps - pt_pages (mem s') d - {tf} - set (drop m ps))
       (pt_entry m0 src (vpn1 va) (vpn0 va)) (pt_entry (mem s') d (vpn1 va) (vpn0 va))) \<and>
    (\<forall>f. tf_get tf f s' = (if f = TF_a0 then 0 else if f = TF_kernel_sp then ks
       else if f = TF_kernel_trap then sym_addr w Sym_ktrap_from_user_handler else tf_get ptf f w)) \<and>
    (\<forall>f. tf_get ptf f s' = (if f = TF_a0 then c else tf_get ptf f w)) \<and>
    (\<forall>a. page_base a \<noteq> tf \<and> page_base a \<noteq> ptf \<longrightarrow> mem s' a = mem w a)"
proof -
  let ?W = "w\<lparr>mem := memcpy tf ptf PAGE_SIZE (mem w)\<rparr>" and ?k = "sym_addr w Sym_ktrap_from_user_handler"
  let ?S = "tf_set tf TF_a0 0 (tf_set ptf TF_a0 c (tf_set tf TF_kernel_trap ?k (tf_set tf TF_kernel_sp ks ?W)))"
  have tf: "page_aligned tf" "tf \<noteq> ptf" "tf \<notin> pt_pages (mem w) d" "page_aligned d"
    using cs ptf(2) by (auto simp: child_space_def pt_ok_def pt_wf_def)
  from fork_tail_run[OF w fld] obtain s' where s': "fork_tail i w = Inr (c, s')" "current s' = current w" "kmem_head s' = kmem_head w"
    "procs s' = (procs w)[i := (procs w ! i)\<lparr>user_stack := kvmem_get_pa d VA_USER_STACK ?W, proc_context := \<lparr>ra = At_ktrap_to_user, ctx_sp = ks\<rparr>\<rparr>]"
    "mem s' = mem ?S" by blast
  note ff = fork_frames[OF tf(1) ptf(1) tf(2), where W = ?W and w = w and c = c and k = ?k and ks = ks]
  have tg: "tf_get p f s' = tf_get p f ?S" for p f unfolding tf_get_def s'(5) ..
  have same: "mem s' a = mem w a" if "page_base a \<noteq> tf" "page_base a \<noteq> ptf" for a
    unfolding s'(5) using ff(3) that by simp
  note view = fork_view[OF cs ptf(2) s'(3) same]
  have eqW: "\<forall>a. page_base a \<in> pt_pages (mem w) d \<longrightarrow> mem ?W a = mem w a"
    using memcpy_page[OF tf(1) ptf(1) tf(2), of "mem w"] tf(3) by auto
  have "kvmem_get_pa d VA_USER_STACK ?W = kvmem_get_pa d VA_USER_STACK s'"
    unfolding kvmem_get_pa_entry using pt_cong(3)[OF tf(4) eqW] view(3) by simp
  then show ?thesis
    using s'(1,2,4) view(1,2,4) same by (intro exI[of _ s'] conjI) (simp_all add: tg ff del: mem_tf_set)
qed

text \<open>
  C7: fork succeeds while a control block and enough pages are free. The child gets the first free
  control block, with a process id of its own, an address space that is a copy of the parent's
  (\<open>copied\<close>: shared kernel pages, user pages duplicated into fresh memory, absent pages absent) but
  for its own trap frame page, and a trap frame that equals the parent's but for the result 0 and
  the kernel entries; the parent sees the child's process id as its result. Every other control
  block, and every byte outside the pages of the allocator and the parent's trap frame, is
  unchanged. The child keeps whatever file table its control block held before.
\<close>

theorem fork_correct:
  fixes s :: "'a kproc_scheme"
  assumes i: "find_unused s = Some i" "length (procs s) = NUM_PROCESSES" "proc_state (cur s) \<noteq> UNUSED" and live: "uart_live s"
    and pre: "copy_pre s (pagetable (cur s)) ps" "copy_cost (mem s) (pagetable (cur s)) + 2 \<le> length ps"
    and tf: "page_aligned (trapframe (cur s))" "trapframe (cur s) \<notin> set ps"
  shows "\<exists>s' d tf stk m. kproc_fork s = Inr (of_nat i + 1, s') \<and> current s' = current s \<and>
    procs s' = (procs s)[i := fork_child i d tf stk (procs s ! i)] \<and>
    stk = kvmem_get_pa d VA_USER_STACK s' \<and> kvmem_get_pa d VA_TRAPFRAME s' = tf \<and>
    pt_ok s' d (drop m ps) \<and> d \<in> set ps \<and> tf \<in> set ps \<and>
    (\<forall>va. page_base va \<noteq> VA_TRAPFRAME \<longrightarrow>
       copied (mem s) (mem s') (set ps - pt_pages (mem s') d - {tf} - set (drop m ps))
         (pt_entry (mem s) (pagetable (cur s)) (vpn1 va) (vpn0 va)) (pt_entry (mem s') d (vpn1 va) (vpn0 va))) \<and>
    (\<forall>f. tf_get tf f s' = (if f = TF_a0 then 0 else if f = TF_kernel_sp then kernel_stack_top (procs s ! i)
       else if f = TF_kernel_trap then sym_addr s Sym_ktrap_from_user_handler else tf_get (trapframe (cur s)) f s)) \<and>
    (\<forall>f. tf_get (trapframe (cur s)) f s' = (if f = TF_a0 then of_nat i + 1 else tf_get (trapframe (cur s)) f s)) \<and>
    (\<forall>a. \<not> in_pages a ps \<and> page_base a \<noteq> trapframe (cur s) \<longrightarrow> mem s' a = mem s a)"
proof -
  let ?src = "pagetable (cur s)" and ?ptf = "trapframe (cur s)" and ?d = "hd ps" and ?ks = "kernel_stack_top (procs s ! i)"
  let ?s1 = "proc_upd i (\<lambda>p. p\<lparr>pid := of_nat i + 1\<rparr>) (proc_upd i (\<lambda>p. p\<lparr>proc_state := RUNNABLE\<rparr>) s)"
  note fu = find_unused_Some[OF i(1)]
  have ic: "i \<noteq> current s" using fu(2) i(3) by (auto simp: cur_def)
  have "copy_pre ?s1 ?src ps" "copy_cost (mem ?s1) ?src + 2 \<le> length ps" using pre by simp_all
  from fork_tables[OF this] obtain t tf u v m where
    run: "kvmem_copy_pagetable ?src ?s1 = Inr (?d, t)" "kmem_alloc t = Inr (tf, u)"
      "kvmem_map_page ?d VA_TRAPFRAME tf (PTE_R OR PTE_W) u = Inr v"
    and fr: "kmem_frame ?s1 t" "kmem_frame t u" "kmem_frame u v" and cs: "child_space (mem s) ?src ps ?d tf m v" by auto
  note fk = fork_run[OF i(1,2) ic live run fr]
  let ?w = "proc_upd i (\<lambda>p. p\<lparr>trapframe := tf\<rparr>) (proc_upd i (\<lambda>p. p\<lparr>pagetable := ?d\<rparr>) v)"
  have iw: "i < length (procs ?w)" "i \<noteq> current ?w" "uart_live ?w" "cur ?w = cur s"
    using fk fu(1) i(2) ic by (simp_all add: uart_live_def cur_def)
  have fld: "trapframe (procs ?w ! i) = tf" "pagetable (procs ?w ! i) = ?d" "trapframe (cur ?w) = ?ptf"
    "kernel_stack_top (procs ?w ! i) = ?ks" "pid (procs ?w ! i) = of_nat i + 1" "child_space (mem s) ?src ps ?d tf m ?w"
    using fk fu(1) i(2) iw(4) cs by (simp_all add: child_space_def)
  from fork_tail_child[OF iw(1-3) fld tf] obtain s' where s': "fork_tail i ?w = Inr (of_nat i + 1, s')" "current s' = current ?w"
    "procs s' = (procs ?w)[i := (procs ?w ! i)\<lparr>user_stack := kvmem_get_pa ?d VA_USER_STACK s', proc_context := \<lparr>ra = At_ktrap_to_user, ctx_sp = ?ks\<rparr>\<rparr>]"
    "kvmem_get_pa ?d VA_TRAPFRAME s' = tf" "pt_ok s' ?d (drop m ps)"
    "\<forall>va. page_base va \<noteq> VA_TRAPFRAME \<longrightarrow> copied (mem s) (mem s') (set ps - pt_pages (mem s') ?d - {tf} - set (drop m ps))
       (pt_entry (mem s) ?src (vpn1 va) (vpn0 va)) (pt_entry (mem s') ?d (vpn1 va) (vpn0 va))"
    "\<forall>f. tf_get tf f s' = (if f = TF_a0 then 0 else if f = TF_kernel_sp then ?ks
       else if f = TF_kernel_trap then sym_addr ?w Sym_ktrap_from_user_handler else tf_get ?ptf f ?w)"
    "\<forall>f. tf_get ?ptf f s' = (if f = TF_a0 then of_nat i + 1 else tf_get ?ptf f ?w)"
    "\<forall>a. page_base a \<noteq> tf \<and> page_base a \<noteq> ?ptf \<longrightarrow> mem s' a = mem ?w a" by blast
  have vs: "mem v a = mem s a" if "\<not> in_pages a ps" for a using cs that by (simp add: child_space_def)
  have pv: "tf_get ?ptf f ?w = tf_get ?ptf f s" for f by (rule tf_get_page[OF tf(1)]) (use vs tf(2) in auto)
  have d: "?d \<in> set ps" "tf \<in> set ps" using cs pt_root_page by (auto simp: child_space_def)
  have procs: "procs s' = (procs s)[i := fork_child i ?d tf (kvmem_get_pa ?d VA_USER_STACK s') (procs s ! i)]"
    unfolding s'(3) using fk(2) fu(1) i(2) by (simp add: fork_child_eq)
  have "mem s' a = mem s a" if "\<not> in_pages a ps" "page_base a \<noteq> ?ptf" for a
    using s'(9) vs[OF that(1)] that d(2) by (metis proc_upd_simps(1))
  moreover have "kproc_fork s = Inr (of_nat i + 1, s')" "current s' = current s" using fk(1,3) s'(1,2) by simp_all
  ultimately show ?thesis
    using procs s'(4-8) d fk(4)
    by (intro exI[of _ s'] exI[of _ ?d] exI[of _ tf] exI[of _ "kvmem_get_pa ?d VA_USER_STACK s'"] exI[of _ m] conjI) (simp_all add: pv)
qed

theorem fork_correct_witness:
  "\<exists>s' tf. kproc_fork kproc_static = Inr (2, s') \<and> pid (procs s' ! 1) = 2 \<and> proc_state (procs s' ! 1) = RUNNABLE \<and>
     tf = trapframe (procs s' ! 1) \<and> tf_get tf TF_a0 s' = 0 \<and> tf_get 0x80106000 TF_a0 s' = 2 \<and>
     tf_get tf TF_sp s' = tf_get 0x80106000 TF_sp kproc_static"
proof -
  let ?ps = "[0x80100000, 0x80101000, 0x80102000, 0x80103000, 0x80104000] :: addr list"
  have nv: "\<not> pt_valid (mem kvmem_user) 0x80105000 i" if "i < 1024" for i by (rule kvmem_user_ok(2)[OF that])
  then have "root_cost (mem kvmem_user) 0x80105000 i = 0" if "i < 1024" for i using that by (simp add: root_cost_def)
  then have cost: "copy_cost (mem kvmem_user) 0x80105000 = 1" by (simp add: copy_cost_def)
  have "pt_ok kproc_static 0x80105000 ?ps"
    using kvmem_user_ok(1) by (simp add: pt_ok_def kmem_pages_def)
  then have pre: "copy_pre kproc_static 0x80105000 ?ps" using nv by (simp add: copy_pre_def pt_entry_def)
  have live: "uart_live kproc_static"
    using kmem_static_ok(3) by (simp add: uart_live_def kvmem_user_def kmem_free_def)
  have cur: "cur kproc_static = blank_process\<lparr>pid := 1, proc_state := RUNNING, pagetable := 0x80105000,
     trapframe := 0x80106000, user_stack := 0x80107000\<rparr>" by (simp add: cur_def)
  have fu: "find_unused kproc_static = Some 1"
    by (simp add: find_unused_def NUM_PROCESSES_def upt_rec blank_process_def)
  from fork_correct[OF fu, where ps = ?ps] pre live cost cur show ?thesis
    by (auto simp: NUM_PROCESSES_def blank_process_def page_aligned_def fork_child_def)
qed

end
