(* ===== verification/Kexec_Load.thy ===== *)
theory Kexec_Load
  imports Kexec Kproc_Fork
begin

text \<open>
  Correctness of the segment loader of \<^verbatim>\<open>src/kernel/kproc.c\<close> (lines 94 to 114 and 317 to 339): which
  bytes a program finds at which virtual address, and what loading leaves alone.
\<close>

section \<open>One page\<close>

lemma memcpy_into_page:
  assumes "page_aligned p" "n \<le> 4096" "\<forall>k < unat n. page_base (src + of_nat k) \<noteq> p"
  shows "memcpy p src n m a = (if a - p < n then m (src + (a - p)) else m a)"
    and "page_base a \<noteq> p \<Longrightarrow> memcpy p src n m a = m a"
proof -
  have "n \<le> p - src" if "n \<noteq> 0"
  proof (rule ccontr)
    assume "\<not> n \<le> p - src"
    then have "unat (p - src) < unat n" by (simp add: word_le_nat_alt)
    with assms(3) have "page_base (src + of_nat (unat (p - src))) \<noteq> p" by blast
    then show False using page_base_aligned[OF assms(1)] by simp
  qed
  moreover have "n \<le> src - p" if "n \<noteq> 0"
  proof (rule ccontr)
    assume "\<not> n \<le> src - p"
    then have "src - p < 4096" using assms(2) by simp
    then have "page_base src = p" using page_offset_iff[OF assms(1)] by simp
    moreover have "0 < unat n" using that by (simp add: unat_gt_0)
    ultimately show False using assms(3) by auto
  qed
  ultimately have "disjoint_regions p src n" by (auto simp: disjoint_regions_def)
  from memcpy_apply[OF this] show 1: "memcpy p src n m a = (if a - p < n then m (src + (a - p)) else m a)" for a .
  assume "page_base a \<noteq> p"
  then have "\<not> a - p < n" using page_offset_iff[OF assms(1), of a] assms(2) by (meson order_less_le_trans)
  then show "memcpy p src n m a = m a" by (simp add: 1)
qed

abbreviation PTE_URWX :: u32 where
  "PTE_URWX \<equiv> PTE_R OR PTE_W OR PTE_X OR PTE_U"

text \<open>Loading changes memory, the free list, the console and the heap pointer of the process, and nothing else.\<close>

definition img_frame :: "nat \<Rightarrow> 'a kproc_scheme \<Rightarrow> 'a kproc_scheme \<Rightarrow> bool" where
  "img_frame i s t \<longleftrightarrow> (\<exists>h. procs t = (procs s)[i := (procs s ! i)\<lparr>free_heap_page := h\<rparr>]) \<and>
     t = s\<lparr>mem := mem t, kmem_head := kmem_head t, lsr_pos := lsr_pos t, uart_writes := uart_writes t, procs := procs t\<rparr>"

lemma img_frame_simps:
  assumes "img_frame i s t"
  shows "length (procs t) = length (procs s)" "current t = current s" "free_ram_end t = free_ram_end s" "sym_addr t = sym_addr s"
    "uart_live t = uart_live s" "csr t = csr s" "kproc.more t = kproc.more s" "k \<noteq> i \<Longrightarrow> procs t ! k = procs s ! k"
    "\<exists>h. procs t ! i = (procs s ! i)\<lparr>free_heap_page := h\<rparr>"
proof -
  have t: "t = s\<lparr>mem := mem t, kmem_head := kmem_head t, lsr_pos := lsr_pos t, uart_writes := uart_writes t, procs := procs t\<rparr>"
    using assms by (simp add: img_frame_def)
  show "current t = current s" "free_ram_end t = free_ram_end s" "sym_addr t = sym_addr s" "csr t = csr s" "kproc.more t = kproc.more s"
    by (subst t, simp)+
  show "uart_live t = uart_live s" by (subst t) (simp add: uart_live_def)
  obtain h where h: "procs t = (procs s)[i := (procs s ! i)\<lparr>free_heap_page := h\<rparr>]" using assms by (auto simp: img_frame_def)
  then show "length (procs t) = length (procs s)" "k \<noteq> i \<Longrightarrow> procs t ! k = procs s ! k" by simp_all
  show "\<exists>h. procs t ! i = (procs s ! i)\<lparr>free_heap_page := h\<rparr>"
  proof (cases "i < length (procs s)")
    case True
    then show ?thesis using h by (intro exI[of _ h]) simp
  next
    case False
    then have "procs t = procs s" using h by (simp add: list_update_beyond)
    then show ?thesis by (intro exI[of _ "free_heap_page (procs s ! i)"]) simp
  qed
qed

lemma img_frame_trans: "img_frame i s t \<Longrightarrow> img_frame i t u \<Longrightarrow> img_frame i s u"
proof -
  assume a: "img_frame i s t" and b: "img_frame i t u"
  obtain h k where "procs t = (procs s)[i := (procs s ! i)\<lparr>free_heap_page := h\<rparr>]" "procs u = (procs t)[i := (procs t ! i)\<lparr>free_heap_page := k\<rparr>]"
    using a b by (auto simp: img_frame_def)
  then have "\<exists>k. procs u = (procs s)[i := (procs s ! i)\<lparr>free_heap_page := k\<rparr>]" using img_frame_simps(9)[OF a] by auto
  moreover have "u = s\<lparr>mem := mem u, kmem_head := kmem_head u, lsr_pos := lsr_pos u, uart_writes := uart_writes u, procs := procs u\<rparr>"
    using a b by (cases s; cases t; cases u) (simp add: img_frame_def)
  ultimately show ?thesis by (simp add: img_frame_def)
qed

lemma img_frame_kmem: "kmem_frame s t \<Longrightarrow> img_frame i s t"
  using kmem_frame_kproc(1)[of s t]
  by (cases s; cases t) (auto simp: img_frame_def kmem_frame_def intro!: exI[of _ "free_heap_page (procs s ! i)"])

lemma img_frame_upds:
  "img_frame i s (s\<lparr>lsr_pos := p, uart_writes := w\<rparr>)" "img_frame i s (proc_upd i (\<lambda>p. p\<lparr>free_heap_page := f p\<rparr>) s)"
  "img_frame i s (s\<lparr>mem := m\<rparr>)"
  by (auto simp: img_frame_def proc_upd_def intro: exI[of _ "free_heap_page (procs s ! i)"])

text \<open>The header of a segment lies outside the pages that loading may take.\<close>

definition outside :: "addr \<Rightarrow> nat \<Rightarrow> addr set \<Rightarrow> bool" where
  "outside p n P \<longleftrightarrow> (\<forall>k < n. page_base (p + of_nat k) \<notin> P)"

lemma load32_outside:
  assumes "outside p n P" "o' + 4 \<le> n" "\<And>a. page_base a \<notin> P \<Longrightarrow> m' a = m a"
  shows "load32 m' (p + of_nat o') = load32 m (p + of_nat o')"
proof -
  have "m' (p + of_nat (o' + k)) = m (p + of_nat (o' + k))" if "k < 4" for k
  proof -
    have "o' + k < n" using assms(2) that by simp
    with assms(1) have "page_base (p + of_nat (o' + k)) \<notin> P" unfolding outside_def by blast
    then show ?thesis by (rule assms(3))
  qed
  from this[of 0] this[of 1] this[of 2] this[of 3] show ?thesis by (simp add: load32_def ac_simps)
qed

lemma program_header_outside:
  assumes "outside eph 32 P" "\<And>a. page_base a \<notin> P \<Longrightarrow> m' a = m a"
  shows "elf_program_header_at m' eph = elf_program_header_at m eph"
  using load32_outside[OF assms(1) _ assms(2), of 0] load32_outside[OF assms(1) _ assms(2), of 4]
    load32_outside[OF assms(1) _ assms(2), of 8] load32_outside[OF assms(1) _ assms(2), of 12]
    load32_outside[OF assms(1) _ assms(2), of 16] load32_outside[OF assms(1) _ assms(2), of 20]
    load32_outside[OF assms(1) _ assms(2), of 24] load32_outside[OF assms(1) _ assms(2), of 28]
  by (simp add: elf_program_header_at_def)

text \<open>
  What one more page does to the table at \<open>root\<close>: page \<open>fr\<close> of the free pages holds the bytes \<open>bs\<close> and
  zeroes behind them, the virtual page of \<open>va\<close> maps to it, and only pages of the table and
  pages taken from the allocator change.
\<close>

definition page_loaded :: "addr \<Rightarrow> addr list \<Rightarrow> nat \<Rightarrow> addr \<Rightarrow> u32 \<Rightarrow> (nat \<Rightarrow> u8) \<Rightarrow> 'a kmem_scheme \<Rightarrow> 'b kmem_scheme \<Rightarrow> bool" where
  "page_loaded root ps m fr va bs s t \<longleftrightarrow> pt_ok t root (drop m ps) \<and> fr \<in> set ps \<and> fr \<notin> set (drop m ps) \<and>
     fr \<notin> pt_pages (mem t) root \<and> pt_pages (mem t) root \<subseteq> pt_pages (mem s) root \<union> set ps \<and>
     (\<forall>i < 1024. \<forall>j < 1024. pt_entry (mem t) root i j =
        (if i = vpn1 va \<and> j = vpn0 va then Some (leaf_pte fr PTE_URWX) else pt_entry (mem s) root i j)) \<and>
     (\<forall>k < 4096. mem t (fr + of_nat k) = bs k) \<and>
     (\<forall>a. page_base a \<notin> pt_pages (mem s) root \<union> set ps \<longrightarrow> mem t a = mem s a) \<and>
     (\<forall>a. page_base a \<notin> pt_pages (mem s) root \<union> set (take m ps) \<longrightarrow> mem t a = mem s a)"

lemma load_page_ok:
  fixes s :: "'a kproc_scheme"
  assumes ok: "pt_ok s root ps" and root: "pagetable (procs s ! i) = root" and room: "2 \<le> length ps"
    and n: "n \<le> 4096" and src: "\<forall>k < unat n. page_base (st + idx * PAGE_SIZE + of_nat k) \<notin> set ps"
    and eph: "outside eph 32 (set ps)"
  shows "\<exists>t m fr. load_page heap i eph st idx n s =
      Inr (if heap then proc_upd i (\<lambda>p. p\<lparr>free_heap_page := free_heap_page p + PAGE_SIZE\<rparr>) t else t) \<and>
    kmem_frame s t \<and> m \<le> 2 \<and> page_loaded root ps m fr (ph_vaddr (elf_program_header_at (mem s) eph) + idx * PAGE_SIZE)
      (\<lambda>k. if k < unat n then mem s (st + idx * PAGE_SIZE + of_nat k) else 0) s t"
proof -
  obtain fr qs where ps: "ps = fr # qs" using room by (cases ps) auto
  let ?src = "st + idx * PAGE_SIZE" and ?va = "ph_vaddr (elf_program_header_at (mem s) eph) + idx * PAGE_SIZE"
  have qs: "qs \<noteq> []" using room by (auto simp: ps)
  have al: "page_aligned fr" "fr \<notin> set qs" using ok by (auto simp: pt_ok_def kmem_pages_def ps)
  obtain s1 where s1: "kmem_alloc s = Inr (fr, s1)" "kmem_frame s s1" "\<And>a. mem s1 a = (if page_base a = fr then 0 else mem s a)"
    and map: "\<And>m. (\<And>a. page_base a \<noteq> fr \<Longrightarrow> m a = mem s a) \<Longrightarrow>
       \<exists>t new. kvmem_map_page root ?va fr PTE_URWX (s1\<lparr>mem := m\<rparr>) = Inr t \<and> frame_mapped root fr qs ?va PTE_URWX new m s t"
    using alloc_map_page[OF ok[unfolded ps] qs, of ?va PTE_URWX] by blast
  let ?m = "memcpy fr ?src n (mem s1)"
  have "\<forall>k < unat n. page_base (?src + of_nat k) \<noteq> fr" using src by (simp add: ps)
  note mc = memcpy_into_page[OF al(1) n this]
  have other: "?m a = mem s a" if "page_base a \<noteq> fr" for a using mc(2)[OF that] s1(3) that by simp
  have bytes: "?m (fr + of_nat k) = (if k < unat n then mem s (?src + of_nat k) else 0)" if "k < 4096" for k
    using that src s1(3) page_base_add[OF al(1) that] by (simp add: mc(1) ps word_less_nat_alt)
  have hdr: "elf_program_header_at ?m eph = elf_program_header_at (mem s) eph"
    by (rule program_header_outside[OF eph]) (use other in \<open>auto simp: ps\<close>)
  from map[OF other] obtain t new where t: "kvmem_map_page root ?va fr PTE_URWX (s1\<lparr>mem := ?m\<rparr>) = Inr t"
    and fm: "frame_mapped root fr qs ?va PTE_URWX new ?m s t" by blast
  have tm: "\<And>a. page_base a \<notin> pt_pages (mem s) root \<union> set new \<Longrightarrow> mem t a = ?m a" and
    new: "new = take (length new) qs" "length new \<le> 1" "pt_pages (mem t) root = pt_pages (mem s) root \<union> set new" "fr \<notin> pt_pages (mem t) root"
    using fm unfolding frame_mapped_def by blast+
  have sub: "set new \<subseteq> set qs" using new(1) by (metis set_take_subset)
  have mm: "take (Suc (length new)) ps = fr # new" "drop (Suc (length new)) ps = drop (length new) qs" using new(1) by (simp_all add: ps)
  have "mem t (fr + of_nat k) = (if k < unat n then mem s (?src + of_nat k) else 0)" if "k < 4096" for k
    using tm[of "fr + of_nat k"] bytes[OF that] new(3,4) page_base_add[OF al(1) that] by simp
  moreover have "mem t a = mem s a" if "page_base a \<notin> pt_pages (mem s) root \<union> set (fr # new)" for a
    using tm[of a] other[of a] that by simp
  ultimately have "page_loaded root ps (Suc (length new)) fr ?va (\<lambda>k. if k < unat n then mem s (?src + of_nat k) else 0) s t"
    unfolding page_loaded_def mm using fm sub al(2) in_set_dropD[of _ "length new" qs]
    by (auto simp: frame_mapped_def ps)
  moreover have "load_page heap i eph st idx n s =
      Inr (if heap then proc_upd i (\<lambda>p. p\<lparr>free_heap_page := free_heap_page p + PAGE_SIZE\<rparr>) t else t)"
    using s1(1) t hdr root kmem_frame_kproc(1)[OF s1(2)] by (simp add: load_page_def Let_def)
  ultimately show ?thesis using fm new(2) by (auto simp: frame_mapped_def)
qed

section \<open>A segment\<close>

text \<open>The bytes of page \<open>j\<close> of a segment of \<open>len\<close> bytes at \<open>st\<close>, zero behind the end.\<close>

definition seg_byte :: "(addr \<Rightarrow> u8) \<Rightarrow> addr \<Rightarrow> nat \<Rightarrow> nat \<Rightarrow> nat \<Rightarrow> u8" where
  "seg_byte mm st len j k = (if 4096 * j + k < len then mm (st + of_nat (4096 * j + k)) else 0)"

definition seg_va :: "u32 \<Rightarrow> nat \<Rightarrow> u32" where
  "seg_va va j = va + of_nat j * PAGE_SIZE"

lemma page_aligned_add:
  assumes "page_aligned a" "page_aligned b"
  shows "page_aligned (a + b)"
proof -
  have "unat (a + b) mod 4096 = (unat a + unat b) mod 4096"
    by (simp add: unat_word_ariths mod_mod_cancel)
  also have "\<dots> = 0" using assms mod_add_eq[of "unat a" 4096 "unat b"] by (simp add: page_aligned_def)
  finally show ?thesis by (simp add: page_aligned_def)
qed

lemma page_aligned_times: "page_aligned (of_nat j * PAGE_SIZE)"
  by (simp add: page_aligned_def PAGE_SIZE_def unat_word_ariths mod_mod_cancel)

lemma seg_va_inj:
  assumes "page_aligned va" "j < 1048576" "k < 1048576"
  shows "vpn1 (seg_va va j) = vpn1 (seg_va va k) \<and> vpn0 (seg_va va j) = vpn0 (seg_va va k) \<longleftrightarrow> j = k"
proof
  assume "vpn1 (seg_va va j) = vpn1 (seg_va va k) \<and> vpn0 (seg_va va j) = vpn0 (seg_va va k)"
  then have eq: "page_base (seg_va va j) = page_base (seg_va va k)" by (simp add: same_page_iff)
  have "page_aligned (seg_va va j)" for j
    unfolding seg_va_def by (rule page_aligned_add[OF assms(1) page_aligned_times])
  with eq have "seg_va va j = seg_va va k" by (simp add: page_base_aligned)
  then have "unat (4096 * of_nat j :: u32) = unat (4096 * of_nat k :: u32)" by (simp add: seg_va_def PAGE_SIZE_def mult.commute)
  then show "j = k" unfolding page_number(1)[OF assms(2)] page_number(1)[OF assms(3)] by simp
qed simp

definition seg_inv :: "nat \<Rightarrow> addr \<Rightarrow> addr list \<Rightarrow> addr \<Rightarrow> u32 \<Rightarrow> nat \<Rightarrow> 'a kproc_scheme \<Rightarrow> nat \<Rightarrow> (nat \<Rightarrow> addr) \<Rightarrow> nat \<Rightarrow> 'a kproc_scheme \<Rightarrow> bool" where
  "seg_inv i root ps st va len s m fr k t \<longleftrightarrow> m \<le> 2 * k \<and> pt_ok t root (drop m ps) \<and> pagetable (procs t ! i) = root \<and>
     pt_pages (mem t) root \<subseteq> pt_pages (mem s) root \<union> set ps \<and> inj_on fr {..<k} \<and>
     (\<forall>a. page_base a \<notin> pt_pages (mem s) root \<union> set ps \<longrightarrow> mem t a = mem s a) \<and>
     (\<forall>j < k. fr j \<in> set ps \<and> fr j \<notin> set (drop m ps) \<and> fr j \<notin> pt_pages (mem t) root \<and>
        pt_entry (mem t) root (vpn1 (seg_va va j)) (vpn0 (seg_va va j)) = Some (leaf_pte (fr j) PTE_URWX) \<and>
        (\<forall>x < 4096. mem t (fr j + of_nat x) = seg_byte (mem s) st len j x)) \<and>
     (\<forall>x < 1024. \<forall>y < 1024. (\<forall>j < k. \<not> (x = vpn1 (seg_va va j) \<and> y = vpn0 (seg_va va j))) \<longrightarrow>
        pt_entry (mem t) root x y = pt_entry (mem s) root x y) \<and> img_frame i s t"

lemma page_loadedD:
  assumes "page_loaded root ps m fr va bs s t"
  shows "pt_ok t root (drop m ps)" "fr \<in> set ps" "fr \<notin> set (drop m ps)" "fr \<notin> pt_pages (mem t) root"
    "pt_pages (mem t) root \<subseteq> pt_pages (mem s) root \<union> set ps"
    "\<And>x y. x < 1024 \<Longrightarrow> y < 1024 \<Longrightarrow> pt_entry (mem t) root x y =
      (if x = vpn1 va \<and> y = vpn0 va then Some (leaf_pte fr PTE_URWX) else pt_entry (mem s) root x y)"
    "\<And>k. k < 4096 \<Longrightarrow> mem t (fr + of_nat k) = bs k"
    "\<And>a. page_base a \<notin> pt_pages (mem s) root \<union> set ps \<Longrightarrow> mem t a = mem s a"
  using assms unfolding page_loaded_def by blast+

lemma page_loaded_bytes:
  "page_loaded root ps m fr va bs s t \<Longrightarrow> (\<And>k. k < 4096 \<Longrightarrow> bs k = bs' k) \<Longrightarrow> page_loaded root ps m fr va bs' s t"
  by (simp add: page_loaded_def)

text \<open>The frames loaded before stay what they were.\<close>

lemma seg_frames_kept:
  assumes "seg_inv i root ps st va len s m fr k t" "page_loaded root (drop m ps) m' f v bs t u" "\<forall>p \<in> set ps. page_aligned p"
    "j < k" "x < 4096"
  shows "fr j \<noteq> f" "fr j \<notin> pt_pages (mem u) root" "mem u (fr j + of_nat x) = mem t (fr j + of_nat x)"
proof -
  note pl = page_loadedD[OF assms(2)]
  have f: "fr j \<in> set ps" "fr j \<notin> set (drop m ps)" "fr j \<notin> pt_pages (mem t) root" using assms(1,4) by (simp_all add: seg_inv_def)
  then show "fr j \<noteq> f" "fr j \<notin> pt_pages (mem u) root" using pl(2,5) by auto
  have "page_base (fr j + of_nat x) = fr j" using page_base_add[of "fr j" x] assms(3,5) f(1) by blast
  then show "mem u (fr j + of_nat x) = mem t (fr j + of_nat x)" using pl(8) f by simp
qed

lemma seg_inv_extend:
  fixes s t u :: "'a kproc_scheme"
  assumes inv: "seg_inv i root ps st va len s m fr k t" and new: "page_loaded root (drop m ps) m' f (seg_va va k) (seg_byte (mem s) st len k) t u"
    and m': "m' \<le> 2" and k: "k < 1048576" and al: "page_aligned va" "\<forall>p \<in> set ps. page_aligned p" and root: "pagetable (procs u ! i) = root"
    and frm: "img_frame i t u"
  shows "seg_inv i root ps st va len s (m + m') (fr(k := f)) (Suc k) u"
  unfolding seg_inv_def
proof (intro conjI allI impI)
  let ?P = "pt_pages (mem s) root \<union> set ps"
  have t: "m \<le> 2 * k" "pt_pages (mem t) root \<subseteq> ?P" "\<And>a. page_base a \<notin> ?P \<Longrightarrow> mem t a = mem s a" using inv by (auto simp: seg_inv_def)
  note pl = page_loadedD[OF new] and old = seg_frames_kept[OF inv new al(2)]
  have sub: "set (drop m ps) \<subseteq> set ps" by (rule set_drop_subset)
  show "m + m' \<le> 2 * Suc k" using t(1) m' by simp
  show "pt_ok u root (drop (m + m') ps)" using pl(1) by (simp add: add.commute)
  show "pagetable (procs u ! i) = root" by (rule root)
  show "img_frame i s u" using inv frm by (auto simp: seg_inv_def intro: img_frame_trans)
  show "pt_pages (mem u) root \<subseteq> ?P" using pl(5) t(2) sub by blast
  show "inj_on (fr(k := f)) {..<Suc k}"
    using inv old(1)[of _ 0] unfolding lessThan_Suc by (auto simp: seg_inv_def inj_on_def)
  show "mem u a = mem s a" if "page_base a \<notin> ?P" for a
    using pl(8)[of a] t(3)[OF that] that t(2) sub by (metis Un_iff subsetD)
  show "pt_entry (mem u) root x y = pt_entry (mem s) root x y"
    if "x < 1024" "y < 1024" "\<forall>j < Suc k. \<not> (x = vpn1 (seg_va va j) \<and> y = vpn0 (seg_va va j))" for x y
    using pl(6)[OF that(1,2)] inv that by (auto simp: seg_inv_def)
  fix j assume j: "j < Suc k"
  have sd: "set (drop (m + m') ps) \<subseteq> set (drop m ps)" by (simp add: set_drop_subset_set_drop)
  have dd: "drop m' (drop m ps) = drop (m + m') ps" by (simp add: add.commute)
  from inv have fr: "fr j \<in> set ps" "fr j \<notin> set (drop m ps)"
    "pt_entry (mem t) root (vpn1 (seg_va va j)) (vpn0 (seg_va va j)) = Some (leaf_pte (fr j) PTE_URWX)"
    "\<And>x. x < 4096 \<Longrightarrow> mem t (fr j + of_nat x) = seg_byte (mem s) st len j x" if "j \<noteq> k"
    using that j by (simp_all add: seg_inv_def)
  show "(fr(k := f)) j \<in> set ps" using fr pl(2) sub by auto
  show "(fr(k := f)) j \<notin> set (drop (m + m') ps)" using fr pl(3) sd unfolding dd by auto
  show "(fr(k := f)) j \<notin> pt_pages (mem u) root" using j pl(4) old(2)[of j 0] by auto
  show "pt_entry (mem u) root (vpn1 (seg_va va j)) (vpn0 (seg_va va j)) = Some (leaf_pte ((fr(k := f)) j) PTE_URWX)"
    using j fr(3) pl(6)[OF vpn_bound, of "seg_va va j" "seg_va va j"] seg_va_inj[OF al(1), of j k] k by auto
  show "mem u ((fr(k := f)) j + of_nat x) = seg_byte (mem s) st len j x" if "x < 4096" for x
    using j fr(4)[OF _ that] pl(7)[OF that] old(3)[of j x] that by auto
qed

lemma seg_inv_step:
  fixes s t :: "'a kproc_scheme"
  assumes inv: "seg_inv i root ps st va len s m fr k t" and room: "2 * Suc k \<le> length ps" and k: "k < 1048576"
    and al: "page_aligned va" and va: "va = ph_vaddr (elf_program_header_at (mem s) eph)" and i: "i < length (procs t)"
    and out: "outside eph 32 (pt_pages (mem s) root \<union> set ps)" "outside st len (pt_pages (mem s) root \<union> set ps)"
    and aln: "\<forall>p \<in> set ps. page_aligned p"
    and n: "n \<le> 4096" "unat n = min 4096 (len - 4096 * k)" "4096 * k \<le> len"
  shows "\<exists>t' m' f. load_page heap i eph st (of_nat k) n t = Inr t' \<and> length (procs t') = length (procs t) \<and>
    seg_inv i root ps st va len s m' (fr(k := f)) (Suc k) t'"
proof -
  let ?P = "pt_pages (mem s) root \<union> set ps" and ?upd = "\<lambda>u. proc_upd i (\<lambda>p. p\<lparr>free_heap_page := free_heap_page p + PAGE_SIZE\<rparr>) u"
  from inv have t: "m \<le> 2 * k" "pt_ok t root (drop m ps)" "pagetable (procs t ! i) = root"
    "\<And>a. page_base a \<notin> ?P \<Longrightarrow> mem t a = mem s a" by (auto simp: seg_inv_def)
  have sub: "set (drop m ps) \<subseteq> set ps" by (rule set_drop_subset)
  have src: "page_base (st + of_nat (4096 * k + x)) \<notin> ?P" if "x < unat n" for x
  proof -
    have "4096 * k + x < len" using that n(2) by linarith
    then show ?thesis using out(2) unfolding outside_def by blast
  qed
  have eq: "st + of_nat k * PAGE_SIZE + of_nat x = st + of_nat (4096 * k + x)" for x by (simp add: PAGE_SIZE_def)
  have hd: "elf_program_header_at (mem t) eph = elf_program_header_at (mem s) eph"
    by (rule program_header_outside[OF out(1)]) (use t(4) in auto)
  have o: "outside eph 32 (set (drop m ps))" using out(1) sub by (auto simp: outside_def)
  have sr: "\<forall>x < unat n. page_base (st + of_nat k * PAGE_SIZE + of_nat x) \<notin> set (drop m ps)"
    using src sub unfolding eq by auto
  have rm: "2 \<le> length (drop m ps)" using t(1) room by simp
  from load_page_ok[OF t(2,3) rm n(1) sr o, of heap, unfolded hd va[symmetric] eq, folded seg_va_def]
  obtain u m' f where u: "load_page heap i eph st (of_nat k) n t = Inr (if heap then ?upd u else u)"
    "kmem_frame t u" "m' \<le> 2" "page_loaded root (drop m ps) m' f (seg_va va k)
      (\<lambda>x. if x < unat n then mem t (st + of_nat (4096 * k + x)) else 0) t u" by blast
  have pu: "procs u = procs t" by (rule kmem_frame_kproc(1)[OF u(2)])
  have "(if x < unat n then mem t (st + of_nat (4096 * k + x)) else 0) = seg_byte (mem s) st len k x" if "x < 4096" for x
    using src[of x] t(4) n that by (auto simp: seg_byte_def)
  from seg_inv_extend[OF inv page_loaded_bytes[OF u(4) this] u(3) k al aln _ img_frame_kmem[OF u(2)]] t(3)
  have "seg_inv i root ps st va len s (m + m') (fr(k := f)) (Suc k) u" by (simp add: pu)
  moreover from this have "seg_inv i root ps st va len s (m + m') (fr(k := f)) (Suc k) (?upd u)"
    using i by (auto simp: seg_inv_def pt_ok_upd pu intro: img_frame_trans[OF _ img_frame_upds(2)])
  ultimately show ?thesis using u(1) pu by (cases heap) auto
qed

lemma kprintf_all_ok:
  assumes "uart_live s" "\<forall>(fmt, args) \<in> set xs. format_text (fmt @ [CHR 0x0A]) args \<noteq> None"
  shows "\<exists>p w. kprintf_all xs s = Inr (s\<lparr>lsr_pos := p, uart_writes := w\<rparr>)"
  using assms
proof (induction xs arbitrary: s)
  case Nil
  then show ?case by (simp add: kprintf_all_def exI[of _ "lsr_pos s"] exI[of _ "uart_writes s"])
next
  case (Cons x xs)
  obtain fmt args where x: "x = (fmt, args)" by (cases x)
  with Cons.prems(2) obtain r out where "format_text (fmt @ [CHR 0x0A]) args = Some (r, out)" by auto
  from kprintf_sends[OF Cons.prems(1) this] obtain p w where
    t: "kprintf (fmt @ [CHR 0x0A]) args s = Inr (r, s\<lparr>lsr_pos := p, uart_writes := w\<rparr>)" by (auto simp: sends_def)
  have "uart_live (s\<lparr>lsr_pos := p, uart_writes := w\<rparr>)" using Cons.prems(1) by (simp add: uart_live_def)
  from Cons.IH[OF this] Cons.prems(2) show ?case by (auto simp: kprintf_all_def x t)
qed

lemma elf_dumps_ok:
  assumes "uart_live s"
  shows "\<exists>p w. elf_dump_program_header eph s = Inr (s\<lparr>lsr_pos := p, uart_writes := w\<rparr>)"
    and "\<exists>p w. elf_dump_header eh s = Inr (s\<lparr>lsr_pos := p, uart_writes := w\<rparr>)"
  unfolding elf_dump_program_header_def elf_dump_header_def Let_def
  by (rule kprintf_all_ok[OF assms]; simp)+

text \<open>The number of pages of a segment of \<open>len\<close> bytes.\<close>

definition seg_pages :: "nat \<Rightarrow> nat" where
  "seg_pages len = (len + 4095) div 4096"

lemma seg_pages_eq: "seg_pages len = len div 4096 + (if len mod 4096 = 0 then 0 else 1)"
proof -
  have "(r + 4095) div 4096 = (if r = 0 then 0 else 1)" if "r < 4096" for r :: nat
    using that by (cases "r = 0") (auto intro: div_nat_eqI)
  from this[of "len mod 4096"] show ?thesis
    using div_add1_eq[of len 4095 4096] by (auto simp: seg_pages_def)
qed

lemma load_segment_ok:
  fixes s :: "'a kproc_scheme"
  assumes live: "uart_live s" and ok: "pt_ok s root ps" and root: "pagetable (procs s ! i) = root"
    and i: "i < length (procs s)" and hdr: "elf_program_header_at (mem s) eph = h"
    and al: "page_aligned (ph_vaddr h)" and room: "2 * seg_pages (unat (ph_memsz h)) \<le> length ps"
    and out: "outside eph 32 (pt_pages (mem s) root \<union> set ps)"
      "outside (file + ph_offset h) (unat (ph_memsz h)) (pt_pages (mem s) root \<union> set ps)"
  shows "\<exists>t m fr. load_segment heap i file eph s = Inr t \<and>
    seg_inv i root ps (file + ph_offset h) (ph_vaddr h) (unat (ph_memsz h)) s m fr (seg_pages (unat (ph_memsz h))) t"
proof -
  let ?st = "file + ph_offset h" and ?len = "unat (ph_memsz h)"
  let ?full = "ph_memsz h div PAGE_SIZE" and ?last = "ph_memsz h mod PAGE_SIZE"
  let ?I = "\<lambda>k t. length (procs t) = length (procs s) \<and> (\<exists>m fr. seg_inv i root ps ?st (ph_vaddr h) ?len s m fr k t)"
  have w: "unat ?full = ?len div 4096" "unat ?last = ?len mod 4096" by (simp_all add: PAGE_SIZE_def unat_div_distrib unat_mod_distrib)
  have len: "?len < 4294967296" by (rule unat32_bound)
  have aln: "\<forall>p \<in> set ps. page_aligned p" using ok by (simp add: pt_ok_def kmem_pages_def)
  from elf_dumps_ok(1)[OF live, of eph] obtain p wr where d: "elf_dump_program_header eph s = Inr (s\<lparr>lsr_pos := p, uart_writes := wr\<rparr>)"
    by blast
  let ?s = "s\<lparr>lsr_pos := p, uart_writes := wr\<rparr>"
  have step: "\<exists>t'. load_page heap i eph ?st (of_nat k) n t = Inr t' \<and> ?I (Suc k) t'"
    if I: "?I k t" and k: "k < seg_pages ?len" and n: "n \<le> 4096" "unat n = min 4096 (?len - 4096 * k)" for k n t
  proof -
    from I obtain m fr where inv: "seg_inv i root ps ?st (ph_vaddr h) ?len s m fr k t" by blast
    have kk: "k < 1048576" "4096 * k \<le> ?len" using k len by (auto simp: seg_pages_eq split: if_splits)
    have "2 * Suc k \<le> length ps" using room k by simp
    from seg_inv_step[OF inv this kk(1) al _ _ out aln n kk(2), of heap] I i hdr obtain t' m' f where
      "load_page heap i eph ?st (of_nat k) n t = Inr t'" "length (procs t') = length (procs t)"
      "seg_inv i root ps ?st (ph_vaddr h) ?len s m' (fr(k := f)) (Suc k) t'" by auto
    with I show ?thesis by auto
  qed
  have "?I 0 ?s" using ok root img_frame_upds(1) by (auto simp: seg_inv_def pt_ok_def kmem_pages_def exI[of _ 0])
  then have "\<exists>t. kfold (\<lambda>k. load_page heap i eph ?st (of_nat k) PAGE_SIZE) [0..<unat ?full] ?s = Inr t \<and>
      ?I (length [0..<unat ?full]) t"
  proof (rule kfold_invariant)
    fix k t assume "k < length [0..<unat ?full]" "?I k t"
    moreover from this have k: "k < ?len div 4096" by (simp add: w(1))
    then have "4096 * Suc k \<le> 4096 * (?len div 4096)" by simp
    then have "4096 * Suc k \<le> ?len" using order_trans[OF _ times_div_less_eq_dividend[of 4096 ?len]] by simp
    ultimately show "\<exists>t'. load_page heap i eph ?st (of_nat ([0..<unat ?full] ! k)) PAGE_SIZE t = Inr t' \<and> ?I (Suc k) t'"
      using step[of t k 4096] k by (simp add: seg_pages_eq PAGE_SIZE_def min_def)
  qed
  then obtain t where t: "kfold (\<lambda>k. load_page heap i eph ?st (of_nat k) PAGE_SIZE) [0..<unat ?full] ?s = Inr t"
    "?I (?len div 4096) t" by (auto simp: w(1))
  have ld: "load_segment heap i file eph s = (if 0 < ?last then load_page heap i eph ?st ?full ?last t else Inr t)"
    using hdr by (simp add: load_segment_def d t(1) Let_def)
  show ?thesis
  proof (cases "0 < ?last")
    case False
    then have "?len mod 4096 = 0" using w(2) by (simp add: word_less_nat_alt)
    then show ?thesis using ld False t(2) by (auto simp: seg_pages_eq)
  next
    case True
    then have r: "?len mod 4096 \<noteq> 0" using w(2) by (simp add: word_less_nat_alt)
    have "of_nat (?len div 4096) = ?full" by (simp add: w(1)[symmetric])
    moreover have "?last \<le> 4096" "unat ?last = min 4096 (?len - 4096 * (?len div 4096))"
      using w(2) minus_mult_div_eq_mod[of ?len 4096] by (simp_all add: word_le_nat_alt)
    ultimately show ?thesis
      using step[OF t(2), of ?last] r ld True by (auto simp: seg_pages_eq)
  qed
qed


lemma seg_va_page:
  assumes "page_aligned va" "x < 4294967296"
  shows "vpn1 (va + of_nat x) = vpn1 (seg_va va (x div 4096))" "vpn0 (va + of_nat x) = vpn0 (seg_va va (x div 4096))"
proof -
  have "page_aligned (seg_va va (x div 4096))"
    unfolding seg_va_def by (rule page_aligned_add[OF assms(1) page_aligned_times])
  from page_base_add[OF this, of "x mod 4096"] have "page_base (seg_va va (x div 4096) + of_nat (x mod 4096)) = seg_va va (x div 4096)"
    by simp
  moreover have "(of_nat x :: u32) = of_nat (x div 4096) * 4096 + of_nat (x mod 4096)"
    by (metis div_mult_mod_eq of_nat_add of_nat_mult of_nat_numeral)
  then have "seg_va va (x div 4096) + of_nat (x mod 4096) = va + of_nat x" by (simp add: seg_va_def PAGE_SIZE_def)
  ultimately have "page_base (va + of_nat x) = page_base (seg_va va (x div 4096))"
    using page_base_aligned[OF \<open>page_aligned (seg_va va (x div 4096))\<close>] by simp
  then show "vpn1 (va + of_nat x) = vpn1 (seg_va va (x div 4096))" "vpn0 (va + of_nat x) = vpn0 (seg_va va (x div 4096))"
    by (simp_all add: same_page_iff)
qed

end
