(* ===== verification/Kexec_Args.thy ===== *)
theory Kexec_Args
  imports Kexec Kproc_Fork
begin

text \<open>
  The arguments of \<open>kproc_exec\<close> (\<^verbatim>\<open>src/kernel/kproc.c\<close> lines 258 to 387): what the loops over \<open>argv\<close>
  read from user memory, the error path for an unknown file, and the layout of the new stack.
\<close>

section \<open>Strings and argument vectors of user memory\<close>

lemma uload8_uart [simp]:
  "uload8 va (s\<lparr>lsr_pos := p\<rparr>) = uload8 va s" "uload8 va (s\<lparr>uart_writes := w\<rparr>) = uload8 va s"
  using mmu_translate_cong[of "s\<lparr>lsr_pos := p\<rparr>" s Load va] mmu_translate_cong[of "s\<lparr>uart_writes := w\<rparr>" s Load va]
  by (simp_all add: uload8_def split: option.split)

lemma uload32_uart [simp]:
  "uload32 va (s\<lparr>lsr_pos := p\<rparr>) = uload32 va s" "uload32 va (s\<lparr>uart_writes := w\<rparr>) = uload32 va s"
  by (simp_all add: uload32_def)

lemma path_reader_uart [simp]:
  "path_reader va (s\<lparr>lsr_pos := p\<rparr>) = path_reader va s" "path_reader va (s\<lparr>uart_writes := w\<rparr>) = path_reader va s"
  by (simp_all add: path_reader_def fun_eq_iff)

lemma read_string_ok:
  assumes "reads_string rd bs"
  shows "read_string rd = Inr bs"
proof -
  let ?b = "\<lambda>(fin :: bool, cs :: u8 list). \<not> fin"
  let ?c = "\<lambda>(fin :: bool, cs). kbind (rd (length cs)) (\<lambda>b. Inr (if b = 0 then (True, cs) else (False, cs @ [b])))"
  have r: "rd k = Inr (if k < length bs then bs ! k else 0)" if "k \<le> length bs" for k
    using assms that by (auto simp: reads_string_def)
  have nz: "k < length bs \<Longrightarrow> bs ! k \<noteq> 0" for k using assms nth_mem by (fastforce simp: reads_string_def)
  have "kwhile ?b ?c (False, take k bs) = Inr (True, bs)" if "k \<le> length bs" for k
    using that
  proof (induction "length bs - k" arbitrary: k)
    case 0
    then have "take k bs = bs" "k = length bs" by simp_all
    then show ?case using r[of k] by (simp add: kwhile_step)
  next
    case (Suc d)
    then have k: "k < length bs" by simp
    then have eq: "?c (False, take k bs) = Inr (False, take (Suc k) bs)"
      using r[of k] nz[OF k] by (simp add: take_Suc_conv_app_nth)
    have "kwhile ?b ?c (False, take k bs) = kwhile ?b ?c (False, take (Suc k) bs)"
      using kwhile_step[of ?b "(False, take k bs)" ?c] unfolding eq by simp
    then show ?case using Suc.hyps(1)[of "Suc k"] Suc.hyps(2) k by simp
  qed
  from this[of 0] show ?thesis by (simp add: read_string_def)
qed

lemma ustring_ok:
  assumes "reads_string (path_reader va s) bs"
  shows "ustring va s = Inr bs"
  unfolding ustring_def by (rule read_string_ok[OF assms])

text \<open>A null-terminated vector of pointers to strings, given as the pointers with their strings.\<close>

definition user_args :: "'a machine_scheme \<Rightarrow> addr \<Rightarrow> (addr \<times> u8 list) list \<Rightarrow> bool" where
  "user_args s argv as \<longleftrightarrow>
     (\<forall>i < length as. argv + 4 * of_nat i \<noteq> 0 \<and> uload32 (argv + 4 * of_nat i) s = Inr (fst (as ! i)) \<and>
        fst (as ! i) \<noteq> 0 \<and> reads_string (path_reader (fst (as ! i)) s) (snd (as ! i))) \<and>
     (argv + 4 * of_nat (length as) = 0 \<or> uload32 (argv + 4 * of_nat (length as)) s = Inr 0)"

lemma user_args_uart [simp]: "user_args (s\<lparr>lsr_pos := p, uart_writes := w\<rparr>) argv as = user_args s argv as"
  by (simp add: user_args_def)

lemma kprintf_str:
  assumes "uart_live s" "format_text fmt args = Some (r, out)"
  shows "\<exists>p w. kprintf fmt args s = Inr (r, s\<lparr>lsr_pos := p, uart_writes := w\<rparr>)"
  using kprintf_sends[OF assms] by (auto simp: sends_def)

lemma exec_count_ok:
  fixes s :: "'a machine_scheme"
  assumes "uart_live s" "user_args s argv as"
  shows "\<exists>p w. exec_count argv s = Inr (length as, s\<lparr>lsr_pos := p, uart_writes := w\<rparr>)"
proof -
  define b where "b = (\<lambda>(fin :: bool, argc :: nat, s :: 'a machine_scheme). \<not> fin)"
  define c where "c = (\<lambda>(fin :: bool, argc, s :: 'a machine_scheme).
          if argv + 4 * of_nat argc = 0 then Inr (True, argc, s)
          else kbind (uload32 (argv + 4 * of_nat argc) s) (\<lambda>arg.
            if arg = 0 then Inr (True, argc, s)
            else kbind (ustring arg s) (\<lambda>str.
              kbind (kprintf (''Kernel got argv in exec = %s'' @ [CHR 0x0A]) [VStr str] s) (\<lambda>(_, s).
                Inr (False, argc + 1, s)))))"
  have "\<exists>p w. kwhile b c (False, k, t) = Inr (True, length as, t\<lparr>lsr_pos := p, uart_writes := w\<rparr>)"
    if "k \<le> length as" "uart_live t" "user_args t argv as" for k and t :: "'a machine_scheme"
    using that
  proof (induction "length as - k" arbitrary: k t)
    case 0
    then have "c (False, k, t) = Inr (True, length as, t)" by (auto simp: user_args_def c_def)
    then have w: "kwhile b c (False, k, t) = Inr (True, length as, t)" by (simp add: kwhile_step b_def)
    have eq: "t\<lparr>lsr_pos := lsr_pos t, uart_writes := uart_writes t\<rparr> = t" by simp
    show ?case
      by (rule exI[of _ "lsr_pos t"], rule exI[of _ "uart_writes t"]) (unfold eq, rule w)
  next
    case (Suc d)
    then have k: "k < length as" by simp
    with Suc.prems(3) have a: "argv + 4 * of_nat k \<noteq> 0" "uload32 (argv + 4 * of_nat k) t = Inr (fst (as ! k))" "fst (as ! k) \<noteq> 0"
      "reads_string (path_reader (fst (as ! k)) t) (snd (as ! k))" by (auto simp: user_args_def)
    obtain r out where "format_text (''Kernel got argv in exec = %s'' @ [CHR 0x0A]) [VStr (snd (as ! k))] = Some (r, out)" by simp
    from kprintf_str[OF Suc.prems(2) this] obtain p w where
      "kprintf (''Kernel got argv in exec = %s'' @ [CHR 0x0A]) [VStr (snd (as ! k))] t = Inr (r, t\<lparr>lsr_pos := p, uart_writes := w\<rparr>)" by blast
    with a ustring_ok[OF a(4)] have "c (False, k, t) = Inr (False, Suc k, t\<lparr>lsr_pos := p, uart_writes := w\<rparr>)" by (simp add: c_def)
    then have step: "kwhile b c (False, k, t) = kwhile b c (False, Suc k, t\<lparr>lsr_pos := p, uart_writes := w\<rparr>)"
      by (simp add: kwhile_step b_def)
    have "uart_live (t\<lparr>lsr_pos := p, uart_writes := w\<rparr>)" using Suc.prems(2) by (simp add: uart_live_def)
    from Suc.hyps(1)[of "Suc k", OF _ _ this] Suc.hyps(2) Suc.prems(3) k step show ?case by auto
  qed
  from this[of 0 s] assms obtain p w where "kwhile b c (False, 0, s) = Inr (True, length as, s\<lparr>lsr_pos := p, uart_writes := w\<rparr>)"
    by auto
  then have "exec_count argv s = Inr (length as, s\<lparr>lsr_pos := p, uart_writes := w\<rparr>)"
    by (simp add: exec_count_def b_def[symmetric] c_def[symmetric])
  then show ?thesis by blast
qed

text \<open>Everything that \<open>kproc_exec\<close> does before it looks for the file changes the console only.\<close>

lemma exec_start:
  fixes s :: "'a filesystem_scheme"
  assumes "uart_live s" "reads_string (path_reader path s) bs" "user_args s argv as"
  shows "\<exists>l w. \<forall>K. kbind (ustring path s) (\<lambda>str. kbind (kprintf (''kproc_exec got filepath %s'' @ [CHR 0x0A]) [VStr str] s) (\<lambda>(_, s).
      kbind (exec_count argv s) K)) = K (length as, s\<lparr>lsr_pos := l, uart_writes := w\<rparr>)"
proof -
  obtain r out where "format_text (''kproc_exec got filepath %s'' @ [CHR 0x0A]) [VStr bs] = Some (r, out)" by simp
  from kprintf_str[OF assms(1) this] obtain p w where
    1: "kprintf (''kproc_exec got filepath %s'' @ [CHR 0x0A]) [VStr bs] s = Inr (r, s\<lparr>lsr_pos := p, uart_writes := w\<rparr>)" by blast
  let ?t = "s\<lparr>lsr_pos := p, uart_writes := w\<rparr>"
  have "uart_live ?t" "user_args ?t argv as" using assms(1,3) by (simp_all add: uart_live_def)
  from exec_count_ok[OF this] obtain p' w' where "exec_count argv ?t = Inr (length as, ?t\<lparr>lsr_pos := p', uart_writes := w'\<rparr>)" by blast
  then show ?thesis using 1 ustring_ok[OF assms(2)] by (intro exI[of _ p'] exI[of _ w']) (simp del: kprintf.simps)
qed

text \<open>
  Executing a file that is not on the disk fails: \<open>kproc_exec\<close> returns -1 and nothing but the console
  has changed, so the calling program goes on with its memory and its registers.
\<close>

theorem kproc_exec_not_found:
  fixes s :: "'a filesystem_scheme"
  assumes "uart_live s" "reads_string (path_reader path s) bs" "user_args s argv as" "fs_names s ns" "bs \<notin> set ns"
  shows "\<exists>p w. kproc_exec path argv s = Inr (-1, s\<lparr>lsr_pos := p, uart_writes := w\<rparr>)"
proof -
  from exec_start[OF assms(1-3)] obtain l w where st: "\<And>K. kbind (ustring path s) (\<lambda>str. kbind (kprintf (''kproc_exec got filepath %s'' @ [CHR 0x0A]) [VStr str] s)
      (\<lambda>(_, s). kbind (exec_count argv s) K)) = (K (length as, s\<lparr>lsr_pos := l, uart_writes := w\<rparr>) :: (u32 \<times> 'a filesystem_scheme) kres)" by blast
  let ?u = "s\<lparr>lsr_pos := l, uart_writes := w\<rparr>"
  have "name_reader i ?u = name_reader i s" for i by (rule ext) (simp add: name_reader_def fs_data_def)
  then have "fs_names ?u ns" "reads_string (path_reader path ?u) bs" using assms(2,4) by (simp_all add: fs_names_def)
  moreover have "find (\<lambda>i. ns ! i = bs) [0..<MAX_FS_FILES] = None"
    using assms(4,5) by (auto simp: find_None_iff fs_names_def)
  ultimately have "filesystem_get_filedata path ?u = Inr None"
    using locate_ok[of ?u ns path bs] by (simp add: filesystem_get_filedata_def)
  then show ?thesis unfolding kproc_exec_def st by auto
qed

theorem kproc_exec_not_found_witness:
  "\<exists>t. kproc_exec 0x80400068 0 fs_static = Inr (-1, t) \<and> procs t = procs fs_static \<and> mem t = mem fs_static"
proof -
  have "uart_live fs_static"
    using kmem_static_ok(3) by (simp add: uart_live_def fs_static_def kproc.defs filesystem.defs kvmem_user_def kmem_free_def)
  moreover have "reads_string (path_reader 0x80400068 fs_static) [1, 2, 3]"
    by (auto simp: reads_string_def path_reader_def uload8_def mmu_translate_def less_Suc_eq numeral_3_eq_3)
  moreover have "user_args fs_static 0 []" by (simp add: user_args_def)
  ultimately show ?thesis using kproc_exec_not_found[OF _ _ _ fs_static_ok(3)] by fastforce
qed

section \<open>Bytes of a page\<close>

lemma put_bytes_snoc: "put_bytes pa i (bs @ [b]) m = (put_bytes pa i bs m)(pa (i + length bs) := b)"
  by (induction bs arbitrary: i m) simp_all

lemma put_bytes_page:
  assumes "page_aligned p" "off + length bs \<le> 4096"
  shows "y < 4096 \<Longrightarrow> put_bytes (\<lambda>i. p + of_nat (off + i)) 0 bs m (p + of_nat y) =
      (if off \<le> y \<and> y < off + length bs then bs ! (y - off) else m (p + of_nat y))"
    and "page_base a \<noteq> p \<Longrightarrow> put_bytes (\<lambda>i. p + of_nat (off + i)) 0 bs m a = m a"
proof -
  show "put_bytes (\<lambda>i. p + of_nat (off + i)) 0 bs m (p + of_nat y) =
      (if off \<le> y \<and> y < off + length bs then bs ! (y - off) else m (p + of_nat y))" if "y < 4096"
    using assms(2)
  proof (induction bs rule: rev_induct)
    case (snoc b bs)
    have "p + of_nat y = p + of_nat (off + length bs) \<longleftrightarrow> y = off + length bs"
      using page_addr_eq_iff[OF assms(1) assms(1) that, of "off + length bs"] snoc.prems by simp
    with snoc show ?case by (auto simp: put_bytes_snoc nth_append simp del: of_nat_add)
  qed auto
  show "put_bytes (\<lambda>i. p + of_nat (off + i)) 0 bs m a = m a" if "page_base a \<noteq> p"
    using assms(2)
  proof (induction bs rule: rev_induct)
    case (snoc b bs)
    have "a \<noteq> p + of_nat (off + length bs)" using page_base_add[OF assms(1), of "off + length bs"] snoc.prems that by auto
    with snoc show ?case by (auto simp: put_bytes_snoc simp del: of_nat_add)
  qed simp
qed

lemma store32_page_byte:
  assumes "page_aligned p" "off + 4 \<le> 4096" "y < 4096" "y < off \<or> off + 4 \<le> y"
  shows "store32 m (p + of_nat off) v (p + of_nat y) = m (p + of_nat y)"
proof -
  have "p + of_nat y \<noteq> p + of_nat (off + k)" if "k < 4" for k
    using page_addr_eq_iff[OF assms(1) assms(1,3), of "off + k"] assms(2,4) that by auto
  from this[of 0] this[of 1] this[of 2] this[of 3] show ?thesis by (simp add: store32_def ac_simps)
qed

lemma store32_page_other:
  assumes "page_aligned p" "off + 4 \<le> 4096" "page_base a \<noteq> p"
  shows "store32 m (p + of_nat off) v a = m a"
proof -
  have "a \<noteq> p + of_nat (off + k)" if "k < 4" for k
    using page_base_add[OF assms(1), of "off + k"] assms(2,3) that by auto
  from this[of 0] this[of 1] this[of 2] this[of 3] show ?thesis by (simp add: store32_def ac_simps)
qed

lemma load32_store32_page:
  assumes "page_aligned p" "x + 4 \<le> 4096" "y + 4 \<le> 4096" "x + 4 \<le> y \<or> y + 4 \<le> x"
  shows "load32 (store32 m (p + of_nat x) v) (p + of_nat y) = load32 m (p + of_nat y)"
proof -
  have "store32 m (p + of_nat x) v (p + of_nat (y + k)) = m (p + of_nat (y + k))" if "k < 4" for k
    using assms that by (intro store32_page_byte) auto
  from this[of 0] this[of 1] this[of 2] this[of 3] show ?thesis by (simp add: load32_def ac_simps)
qed

text \<open>A vector of words stored from offset \<open>off\<close> of a page on.\<close>

lemma fold_words:
  fixes s :: "'a machine_scheme" and ws :: "u32 list"
  assumes "page_aligned p" "off + 4 * n \<le> 4096"
  defines "t \<equiv> fold (\<lambda>k. set_word (p + of_nat off) k (ws ! k)) [0..<n] s"
  shows "\<forall>k < n. word_at (mem t) (p + of_nat off) k = ws ! k"
    "\<forall>y < 4096. y < off \<or> off + 4 * n \<le> y \<longrightarrow> mem t (p + of_nat y) = mem s (p + of_nat y)"
    "\<forall>a. page_base a \<noteq> p \<longrightarrow> mem t a = mem s a" "t = s\<lparr>mem := mem t\<rparr>"
proof -
  have sl: "slot (p + of_nat off) k = p + of_nat (off + 4 * k)" for k by (simp add: slot_def)
  have "(\<forall>k < n. word_at (mem t) (p + of_nat off) k = ws ! k) \<and>
    (\<forall>y < 4096. y < off \<or> off + 4 * n \<le> y \<longrightarrow> mem t (p + of_nat y) = mem s (p + of_nat y)) \<and>
    (\<forall>a. page_base a \<noteq> p \<longrightarrow> mem t a = mem s a) \<and> t = s\<lparr>mem := mem t\<rparr>"
    using assms(2) unfolding t_def
  proof (induction n)
    case 0
    then show ?case by simp
  next
    case (Suc n)
    let ?t = "fold (\<lambda>k. set_word (p + of_nat off) k (ws ! k)) [0..<n] s"
    have t: "\<forall>k < n. load32 (mem ?t) (p + of_nat (off + 4 * k)) = ws ! k"
      "\<forall>y < 4096. y < off \<or> off + 4 * n \<le> y \<longrightarrow> mem ?t (p + of_nat y) = mem s (p + of_nat y)"
      "\<forall>a. page_base a \<noteq> p \<longrightarrow> mem ?t a = mem s a" "?t = s\<lparr>mem := mem ?t\<rparr>"
      using Suc unfolding sl by auto
    have m: "mem (set_word (p + of_nat off) n (ws ! n) ?t) = store32 (mem ?t) (p + of_nat (off + 4 * n)) (ws ! n)"
      by (simp only: set_word_simps sl)
    have "load32 (store32 (mem ?t) (p + of_nat (off + 4 * n)) (ws ! n)) (p + of_nat (off + 4 * k)) = ws ! k" if "k < Suc n" for k
    proof (cases "k = n")
      case False
      then have "k < n" using that by simp
      then have "load32 (store32 (mem ?t) (p + of_nat (off + 4 * n)) (ws ! n)) (p + of_nat (off + 4 * k)) =
          load32 (mem ?t) (p + of_nat (off + 4 * k))"
        using Suc.prems by (intro load32_store32_page[OF assms(1)]) auto
      then show ?thesis using t(1) \<open>k < n\<close> by simp
    qed (simp del: of_nat_add)
    moreover have "store32 (mem ?t) (p + of_nat (off + 4 * n)) (ws ! n) (p + of_nat y) = mem s (p + of_nat y)"
      if "y < 4096" "y < off \<or> off + 4 * Suc n \<le> y" for y
    proof -
      have "store32 (mem ?t) (p + of_nat (off + 4 * n)) (ws ! n) (p + of_nat y) = mem ?t (p + of_nat y)"
        using that Suc.prems by (intro store32_page_byte[OF assms(1)]) auto
      then show ?thesis using t(2) that by auto
    qed
    moreover have "store32 (mem ?t) (p + of_nat (off + 4 * n)) (ws ! n) a = mem s a" if "page_base a \<noteq> p" for a
      using store32_page_other[OF assms(1) _ that, of "off + 4 * n"] t(3) that Suc.prems by simp
    moreover have "set_word (p + of_nat off) n (ws ! n) ?t = s\<lparr>mem := mem (set_word (p + of_nat off) n (ws ! n) ?t)\<rparr>"
    proof -
      obtain X where X: "?t = s\<lparr>mem := X\<rparr>" using t(4) by blast
      show ?thesis unfolding X by (simp add: set_word_def)
    qed
    ultimately show ?case unfolding sl by (simp add: m del: of_nat_add of_nat_mult set_word_simps)
  qed
  then show "\<forall>k < n. word_at (mem t) (p + of_nat off) k = ws ! k"
    "\<forall>y < 4096. y < off \<or> off + 4 * n \<le> y \<longrightarrow> mem t (p + of_nat y) = mem s (p + of_nat y)"
    "\<forall>a. page_base a \<noteq> p \<longrightarrow> mem t a = mem s a" "t = s\<lparr>mem := mem t\<rparr>" by blast+
qed

section \<open>The argument vector\<close>

text \<open>The bytes that the first \<open>k\<close> arguments take, terminators included.\<close>

definition args_len :: "(addr \<times> u8 list) list \<Rightarrow> nat \<Rightarrow> nat" where
  "args_len as k = (\<Sum>i < k. length (snd (as ! i)) + 1)"

lemma args_len_Suc: "args_len as (Suc k) = args_len as k + (length (snd (as ! k)) + 1)"
  by (simp add: args_len_def)

lemma args_len_mono: "j \<le> k \<Longrightarrow> args_len as j \<le> args_len as k"
  unfolding args_len_def by (rule sum_mono2) auto

text \<open>The arguments are readable and stay so whatever is written into the pages \<open>P\<close>.\<close>

definition stable_args :: "'a machine_scheme \<Rightarrow> addr set \<Rightarrow> addr \<Rightarrow> (addr \<times> u8 list) list \<Rightarrow> bool" where
  "stable_args s P argv as \<longleftrightarrow> (\<forall>m. (\<forall>a. page_base a \<notin> P \<longrightarrow> m a = mem s a) \<longrightarrow> user_args (s\<lparr>mem := m\<rparr>) argv as)"

definition push_inv ::
  "'a kproc_scheme \<Rightarrow> addr \<Rightarrow> addr \<Rightarrow> (addr \<times> u8 list) list \<Rightarrow> nat \<Rightarrow> addr \<times> u32 list \<times> 'a kproc_scheme \<Rightarrow> bool" where
  "push_inv s tf pg as k = (\<lambda>(phys, tmp, t).
     phys = pg + of_nat (4096 - args_len as k) \<and> tmp = map (\<lambda>i. VA_TRAPFRAME - of_nat (args_len as (Suc i))) [0..<k] \<and>
     t = s\<lparr>mem := mem t\<rparr> \<and> (\<forall>a. page_base a \<notin> {tf, pg} \<longrightarrow> mem t a = mem s a) \<and>
     (\<forall>f. tf_get tf f t = (if f = TF_sp then VA_TRAPFRAME - of_nat (args_len as k) else tf_get tf f s)) \<and>
     (\<forall>i < k. \<forall>x \<le> length (snd (as ! i)).
        mem t (pg + of_nat (4096 - args_len as (Suc i) + x)) = (snd (as ! i) @ [0]) ! x))"

lemma copy_string_ok:
  fixes t :: "'a kproc_scheme"
  assumes pg: "page_aligned pg" and off: "off + Suc (length bs) \<le> 4096"
    and rd: "\<And>m k. (\<forall>a. page_base a \<noteq> pg \<longrightarrow> m a = mem t a) \<Longrightarrow> k \<le> length bs \<Longrightarrow>
      uload8 (arg + of_nat k) (t\<lparr>mem := m\<rparr>) = Inr ((bs @ [0]) ! k)"
  shows "kfold (\<lambda>k s. kbind (uload8 (arg + of_nat k) s) (\<lambda>b.
      Inr (s\<lparr>mem := (mem s)(pg + of_nat off + of_nat k := b)\<rparr>))) [0..<Suc (length bs)] t =
    Inr (t\<lparr>mem := put_bytes (\<lambda>i. pg + of_nat (off + i)) 0 (bs @ [0]) (mem t)\<rparr>)"
proof -
  let ?f = "\<lambda>k (s :: 'a kproc_scheme). kbind (uload8 (arg + of_nat k) s) (\<lambda>b. Inr (s\<lparr>mem := (mem s)(pg + of_nat off + of_nat k := b)\<rparr>))"
  let ?m = "\<lambda>k. put_bytes (\<lambda>i. pg + of_nat (off + i)) 0 (take k (bs @ [0])) (mem t)"
  let ?P = "\<lambda>k u. u = t\<lparr>mem := ?m k\<rparr>"
  have "\<exists>u. kfold ?f [0..<Suc (length bs)] t = Inr u \<and> ?P (length [0..<Suc (length bs)]) u"
  proof (rule kfold_invariant)
    show "?P 0 t" by simp
  next
    fix k u assume k: "k < length [0..<Suc (length bs)]" and u: "?P k u"
    have "\<forall>a. page_base a \<noteq> pg \<longrightarrow> ?m k a = mem t a"
      using off k by (intro allI impI put_bytes_page(2)[OF pg]) simp_all
    from rd[OF this, of k] k have r: "uload8 (arg + of_nat k) u = Inr ((bs @ [0]) ! k)" by (simp add: u)
    have "?m (Suc k) = (?m k)(pg + of_nat (off + k) := (bs @ [0]) ! k)"
    proof -
      have "k < length (bs @ [0])" using k by simp
      then have "take (Suc k) (bs @ [0]) = take k (bs @ [0]) @ [(bs @ [0]) ! k]" "length (take k (bs @ [0])) = k"
        by (simp_all only: take_Suc_conv_app_nth length_take)
      then show ?thesis by (simp only: put_bytes_snoc add_0)
    qed
    then have "?f k u = Inr (t\<lparr>mem := ?m (Suc k)\<rparr>)" using r by (simp add: u add.assoc)
    then show "\<exists>u'. ?f ([0..<Suc (length bs)] ! k) u = Inr u' \<and> ?P (Suc k) u'" using k by (simp del: upt_Suc)
  qed
  then show ?thesis by simp
qed

lemma user_args_mem:
  assumes "user_args (t\<lparr>mem := m\<rparr>) argv as" "i < length as" "k \<le> length (snd (as ! i))"
  shows "uload8 (fst (as ! i) + of_nat k) (t\<lparr>mem := m\<rparr>) = Inr ((snd (as ! i) @ [0]) ! k)"
  using assms by (auto simp: user_args_def reads_string_def path_reader_def nth_append)

text \<open>One string is pushed: the stack pointer in the trap frame is lowered and the string is copied to the page of the stack.\<close>

definition pushed :: "addr \<Rightarrow> addr \<Rightarrow> (addr \<times> u8 list) list \<Rightarrow> nat \<Rightarrow> 'a kproc_scheme \<Rightarrow> 'a kproc_scheme" where
  "pushed tf pg as k t =
     (let u = tf_set tf TF_sp (VA_TRAPFRAME - of_nat (args_len as (Suc k))) t in
      u\<lparr>mem := put_bytes (\<lambda>i. pg + of_nat (4096 - args_len as (Suc k) + i)) 0 (snd (as ! k) @ [0]) (mem u)\<rparr>)"

lemma pushed_mem:
  fixes t :: "'a kproc_scheme"
  assumes tf: "page_aligned tf" "page_aligned pg" "tf \<noteq> pg" and L: "args_len as (Suc k) \<le> 4096"
  shows "pushed tf pg as k t = t\<lparr>mem := mem (pushed tf pg as k t)\<rparr>"
    "page_base a \<notin> {tf, pg} \<Longrightarrow> mem (pushed tf pg as k t) a = mem t a"
    "tf_get tf f (pushed tf pg as k t) = (if f = TF_sp then VA_TRAPFRAME - of_nat (args_len as (Suc k)) else tf_get tf f t)"
    "x \<le> length (snd (as ! k)) \<Longrightarrow> mem (pushed tf pg as k t) (pg + of_nat (4096 - args_len as (Suc k) + x)) = (snd (as ! k) @ [0]) ! x"
    "4096 - args_len as k \<le> y \<Longrightarrow> y < 4096 \<Longrightarrow> mem (pushed tf pg as k t) (pg + of_nat y) = mem t (pg + of_nat y)"
proof -
  let ?bs = "snd (as ! k)" and ?L' = "args_len as (Suc k)" and ?v = "pushed tf pg as k t"
  let ?u = "tf_set tf TF_sp (VA_TRAPFRAME - of_nat ?L') t"
  have off: "4096 - ?L' + Suc (length ?bs) \<le> 4096" using L args_len_Suc[of as k] by simp
  have mv: "mem ?v = put_bytes (\<lambda>i. pg + of_nat (4096 - ?L' + i)) 0 (?bs @ [0]) (mem ?u)" by (simp add: pushed_def Let_def)
  note pb = put_bytes_page[OF tf(2), of "4096 - ?L'" "?bs @ [0]" _ "mem ?u", simplified length_append_singleton, OF off, folded mv]
  have mu: "mem ?u a = mem t a" if "page_base a \<noteq> tf" for a using tf_set_other[OF tf(1) that] .
  show "?v = t\<lparr>mem := mem ?v\<rparr>" by (simp add: pushed_def Let_def tf_set_def set_word_def)
  show "page_base a \<notin> {tf, pg} \<Longrightarrow> mem ?v a = mem t a" using pb(2)[of a] mu[of a] by simp
  have "tf_get tf f ?v = tf_get tf f ?u" by (rule tf_get_page[OF tf(1)]) (use pb(2) tf(3) in simp)
  then show "tf_get tf f ?v = (if f = TF_sp then VA_TRAPFRAME - of_nat ?L' else tf_get tf f t)"
    using tf_get_set[OF tf(1,1), of f TF_sp _ t] by auto
  show "mem ?v (pg + of_nat (4096 - ?L' + x)) = (?bs @ [0]) ! x" if "x \<le> length ?bs"
    using pb(1)[of "4096 - ?L' + x"] off that by simp
  show "mem ?v (pg + of_nat y) = mem t (pg + of_nat y)" if "4096 - args_len as k \<le> y" "y < 4096"
    using pb(1)[OF that(2)] that L args_len_Suc[of as k] mu[of "pg + of_nat y"] page_base_add[OF tf(2) that(2)] tf(3) by auto
qed

lemma push_arg_run:
  fixes t :: "'a kproc_scheme"
  assumes tf: "trapframe (cur t) = tf" "page_aligned tf" "page_aligned pg" and L: "args_len as (Suc k) \<le> 4096"
    and st: "stable_args t {tf, pg} argv as" and k: "k < length as" and sp: "tf_get tf TF_sp t = VA_TRAPFRAME - of_nat (args_len as k)"
  shows "push_arg argv k (pg + of_nat (4096 - args_len as k), tmp, t) =
    Inr (pg + of_nat (4096 - args_len as (Suc k)), tmp @ [VA_TRAPFRAME - of_nat (args_len as (Suc k))], pushed tf pg as k t)"
proof -
  let ?bs = "snd (as ! k)" and ?n = "Suc (length (snd (as ! k)))" and ?L' = "args_len as (Suc k)"
  let ?sp = "VA_TRAPFRAME - of_nat ?L'" let ?u = "tf_set tf TF_sp ?sp t"
  have n: "?L' = args_len as k + ?n" using args_len_Suc[of as k] by simp
  have "user_args t argv as" using st[unfolded stable_args_def, rule_format, of "mem t"] by simp
  then have rd: "uload32 (argv + 4 * of_nat k) t = Inr (fst (as ! k))" "ustring (fst (as ! k)) t = Inr ?bs"
    using k ustring_ok by (auto simp: user_args_def)
  have alen: "(of_nat (length ?bs) + 1 :: u32) = of_nat ?n" "unat (of_nat ?n :: u32) = ?n" using L n by (simp, intro unat_of_nat32, simp)
  have ph: "pg + of_nat (4096 - args_len as k) - of_nat ?n = pg + of_nat (4096 - ?L')" using L n by (simp add: of_nat_diff algebra_simps)
  have sp': "tf_get tf TF_sp t - of_nat ?n = ?sp" using n by (simp add: sp algebra_simps)
  have tg: "tf_get tf TF_sp ?u = ?sp" using tf_get_set[OF tf(2,2), of TF_sp TF_sp ?sp t] by auto
  have mu: "mem ?u a = mem t a" if "page_base a \<noteq> tf" for a using tf_set_other[OF tf(2) that] .
  have rd8: "uload8 (fst (as ! k) + of_nat j) (?u\<lparr>mem := m\<rparr>) = Inr ((?bs @ [0]) ! j)"
    if m: "\<forall>a. page_base a \<noteq> pg \<longrightarrow> m a = mem ?u a" and j: "j \<le> length ?bs" for m j
  proof -
    have "?u\<lparr>mem := m\<rparr> = t\<lparr>mem := m\<rparr>" by (simp add: tf_set_def set_word_def)
    moreover have "user_args (t\<lparr>mem := m\<rparr>) argv as" using st m mu unfolding stable_args_def by auto
    ultimately show ?thesis using user_args_mem[OF _ k j] by simp
  qed
  have off: "4096 - ?L' + ?n \<le> 4096" using L n by simp
  show ?thesis using copy_string_ok[OF tf(3) off rd8]
    by (simp add: push_arg_def rd tf(1) alen ph sp' tg pushed_def Let_def del: of_nat_Suc of_nat_add upt_Suc mem_tf_set)
qed

lemma push_arg_step:
  fixes s :: "'a kproc_scheme"
  assumes tf: "trapframe (cur s) = tf" "page_aligned tf" "page_aligned pg" "tf \<noteq> pg"
    and st: "stable_args s {tf, pg} argv as" and k: "k < length as" and len: "args_len as (length as) \<le> 4096"
    and inv: "push_inv s tf pg as k r"
  shows "\<exists>r'. push_arg argv k r = Inr r' \<and> push_inv s tf pg as (Suc k) r'"
proof -
  obtain phys tmp t where r: "r = (phys, tmp, t)" by (cases r)
  have L: "args_len as (Suc k) \<le> 4096" using args_len_mono[of "Suc k" "length as" as] k len by simp
  from inv have t: "phys = pg + of_nat (4096 - args_len as k)" "t = s\<lparr>mem := mem t\<rparr>" "\<forall>a. page_base a \<notin> {tf, pg} \<longrightarrow> mem t a = mem s a"
    "tf_get tf TF_sp t = VA_TRAPFRAME - of_nat (args_len as k)" by (simp_all add: push_inv_def r)
  have tm: "t\<lparr>mem := m\<rparr> = s\<lparr>mem := m\<rparr>" for m by (subst t(2)) simp
  have cur: "trapframe (cur t) = tf" using tf(1) by (subst t(2)) simp
  have stt: "stable_args t {tf, pg} argv as" using st t(3) unfolding stable_args_def tm by auto
  note run = push_arg_run[OF cur tf(2,3) L stt k t(4), of tmp] and pm = pushed_mem[OF tf(2-4) L, where t = t]
  have str: "mem (pushed tf pg as k t) (pg + of_nat (4096 - args_len as (Suc i) + x)) = (snd (as ! i) @ [0]) ! x"
    if i: "i < Suc k" and x: "x \<le> length (snd (as ! i))" for i x
  proof (cases "i = k")
    case False
    then have ik: "i < k" using i by simp
    have "args_len as (Suc i) \<le> args_len as k" "args_len as k \<le> 4096"
      using args_len_mono[of "Suc i" k as] args_len_mono[of k "Suc k" as] ik L by simp_all
    then have "4096 - args_len as k \<le> 4096 - args_len as (Suc i) + x" "4096 - args_len as (Suc i) + x < 4096"
      using x args_len_Suc[of as i] by linarith+
    from pm(5)[OF this] show ?thesis using inv ik x by (simp add: push_inv_def r)
  qed (use pm(4) x in simp)
  have "pushed tf pg as k t = s\<lparr>mem := mem (pushed tf pg as k t)\<rparr>" using pm(1) unfolding tm .
  then have "push_inv s tf pg as (Suc k) (pg + of_nat (4096 - args_len as (Suc k)), tmp @ [VA_TRAPFRAME - of_nat (args_len as (Suc k))], pushed tf pg as k t)"
    using inv pm(2,3) str t(3) unfolding push_inv_def r prod.case by (auto simp del: of_nat_add)
  with run show ?thesis by (auto simp: r t(1))
qed

lemma push_loop:
  fixes s :: "'a kproc_scheme"
  assumes tf: "trapframe (cur s) = tf" "page_aligned tf" "page_aligned pg" "tf \<noteq> pg"
    and st: "stable_args s {tf, pg} argv as" and sp: "tf_get tf TF_sp s = VA_USER_STACK_INIT" and len: "args_len as (length as) \<le> 4096"
  shows "\<exists>r. kfold (push_arg argv) [0..<length as] (pg + PAGE_SIZE, [], s) = Inr r \<and> push_inv s tf pg as (length as) r"
proof -
  have "push_inv s tf pg as 0 (pg + PAGE_SIZE, [], s)"
    using sp by (simp add: push_inv_def args_len_def PAGE_SIZE_def VA_USER_STACK_INIT_def)
  then have "\<exists>r. kfold (push_arg argv) [0..<length as] (pg + PAGE_SIZE, [], s) = Inr r \<and> push_inv s tf pg as (length [0..<length as]) r"
    by (rule kfold_invariant) (use push_arg_step[OF tf st] len in simp)
  then show ?thesis by simp
qed

lemma word_at_offset:
  assumes "off + 4 * i + 4 \<le> 4096" "\<And>y. y < 4096 \<Longrightarrow> m' (pg + of_nat y) = m (pg + of_nat y)"
  shows "word_at m' (pg + of_nat off) i = word_at m (pg + of_nat off) i"
proof -
  have "m' (pg + of_nat (off + 4 * i + k)) = m (pg + of_nat (off + 4 * i + k))" if "k < 4" for k
    using that assms(1) by (intro assms(2)) simp
  from this[of 0] this[of 1] this[of 2] this[of 3] show ?thesis
    unfolding slot_def by (intro load32_cong) (simp_all add: ac_simps)
qed

lemma exec_args_ok:
  fixes s :: "'a kproc_scheme"
  assumes tf: "trapframe (cur s) = tf" "page_aligned tf" "page_aligned pg" "tf \<noteq> pg"
    and st: "stable_args s {tf, pg} argv as" and sp: "tf_get tf TF_sp s = VA_USER_STACK_INIT"
    and len: "args_len as (length as) + 4 * length as \<le> 4096"
  defines "base \<equiv> 4096 - (args_len as (length as) + 4 * length as)"
  shows "\<exists>t. exec_args argv (length as) pg s = Inr t \<and> t = s\<lparr>mem := mem t\<rparr> \<and>
    (\<forall>a. page_base a \<notin> {tf, pg} \<longrightarrow> mem t a = mem s a) \<and>
    (\<forall>f. tf_get tf f t = (if f = TF_a0 then of_nat (length as) else if f = TF_a1 \<or> f = TF_sp then VA_USER_STACK + of_nat base
       else tf_get tf f s)) \<and>
    (\<forall>i < length as. word_at (mem t) (pg + of_nat base) i = VA_USER_STACK + of_nat (4096 - args_len as (Suc i)) \<and>
       (\<forall>x \<le> length (snd (as ! i)). mem t (pg + of_nat (4096 - args_len as (Suc i) + x)) = (snd (as ! i) @ [0]) ! x))"
proof -
  let ?n = "length as" let ?L = "args_len as ?n"
  have va: "VA_TRAPFRAME - of_nat m = VA_USER_STACK + of_nat (4096 - m)" if "m \<le> 4096" for m
    using that by (simp add: VA_USER_STACK_def VA_USER_STACK_INIT_def PAGE_SIZE_def of_nat_diff)
  obtain phys tmp t where run: "kfold (push_arg argv) [0..<?n] (pg + PAGE_SIZE, [], s) = Inr (phys, tmp, t)"
    and inv: "push_inv s tf pg as ?n (phys, tmp, t)" using push_loop[OF tf st sp] len by auto
  from inv have t: "phys = pg + of_nat (4096 - ?L)" "t = s\<lparr>mem := mem t\<rparr>" "\<forall>a. page_base a \<notin> {tf, pg} \<longrightarrow> mem t a = mem s a"
    "\<forall>f. tf_get tf f t = (if f = TF_sp then VA_TRAPFRAME - of_nat ?L else tf_get tf f s)" by (auto simp: push_inv_def)
  have tmp: "tmp ! i = VA_TRAPFRAME - of_nat (args_len as (Suc i))" if "i < ?n" for i using inv that by (simp add: push_inv_def)
  have off: "base + 4 * ?n \<le> 4096" "base + 4 * ?n = 4096 - ?L" using len by (simp_all add: base_def)
  have ph: "phys - of_nat ?n * 4 = pg + of_nat base" using len by (simp add: t(1) base_def of_nat_diff algebra_simps)
  define u where "u = fold (\<lambda>k. set_word (pg + of_nat base) k (tmp ! k)) [0..<?n] t"
  note fw = fold_words[OF tf(3) off(1), where ws = tmp and s = t, folded u_def]
  have us: "u = s\<lparr>mem := mem u\<rparr>" 
  proof -
    obtain X Y where "t = s\<lparr>mem := X\<rparr>" "u = t\<lparr>mem := Y\<rparr>" using t(2) fw(4) by blast
    then show ?thesis by simp
  qed
  have cur: "trapframe (cur u) = tf" using tf(1) by (subst us) simp
  have tu: "tf_get tf f u = tf_get tf f t" for f by (rule tf_get_page[OF tf(2)]) (use fw(3) tf(4) in simp)
  let ?b = "VA_USER_STACK + of_nat base"
  have sp': "tf_get tf TF_sp u - of_nat ?n * 4 = ?b"
    using t(4) len by (simp add: tu base_def VA_USER_STACK_def VA_USER_STACK_INIT_def PAGE_SIZE_def of_nat_diff algebra_simps)
  let ?w = "tf_set tf TF_a1 ?b (tf_set tf TF_a0 (of_nat ?n) (tf_set tf TF_sp ?b u))"
  have ex: "exec_args argv ?n pg s = Inr ?w"
    using run by (simp add: exec_args_def ph u_def[symmetric] cur sp' Let_def tf_get_set[OF tf(2,2)] del: mem_tf_set)
  have mw: "mem ?w a = mem u a" if "page_base a \<noteq> tf" for a by (simp add: tf_set_other[OF tf(2) that] del: mem_tf_set)
  have pgb: "mem ?w (pg + of_nat y) = mem u (pg + of_nat y)" if "y < 4096" for y
    using mw page_base_add[OF tf(3) that] tf(4) by simp
  have ww: "word_at (mem ?w) (pg + of_nat base) i = tmp ! i" if "i < ?n" for i
  proof -
    have "word_at (mem ?w) (pg + of_nat base) i = word_at (mem u) (pg + of_nat base) i"
      using that off by (intro word_at_offset pgb) simp
    then show ?thesis using fw(1) that by simp
  qed
  show ?thesis
  proof (rule exI[of _ ?w], intro conjI allI impI)
    show "exec_args argv ?n pg s = Inr ?w" by (rule ex)
    obtain Y where "u = s\<lparr>mem := Y\<rparr>" using us by blast
    then show "?w = s\<lparr>mem := mem ?w\<rparr>" by (simp add: tf_set_def set_word_def)
    show "mem ?w a = mem s a" if "page_base a \<notin> {tf, pg}" for a using that mw[of a] fw(3) t(3) by simp
    show "tf_get tf f ?w = (if f = TF_a0 then of_nat ?n else if f = TF_a1 \<or> f = TF_sp then ?b else tf_get tf f s)" for f
      using t(4) by (simp add: tf_get_set[OF tf(2,2)] tu)
  next
    fix i assume i: "i < ?n"
    have le: "args_len as (Suc i) \<le> ?L" "args_len as (Suc i) = args_len as i + (length (snd (as ! i)) + 1)"
      using args_len_mono[of "Suc i" ?n as] i args_len_Suc[of as i] by simp_all
    show "word_at (mem ?w) (pg + of_nat base) i = VA_USER_STACK + of_nat (4096 - args_len as (Suc i))"
      using ww[OF i] tmp[OF i] va[of "args_len as (Suc i)"] le len by simp
    fix x assume x: "x \<le> length (snd (as ! i))"
    define y where "y = 4096 - args_len as (Suc i) + x"
    have y: "y < 4096" "base + 4 * ?n \<le> y" using le x len off by (simp_all add: y_def)
    have "mem ?w (pg + of_nat y) = mem t (pg + of_nat y)" using pgb[OF y(1)] fw(2) y by simp
    then show "mem ?w (pg + of_nat (4096 - args_len as (Suc i) + x)) = (snd (as ! i) @ [0]) ! x"
      using inv i x by (simp add: push_inv_def y_def del: mem_tf_set)
  qed
qed

end
