(* ===== verification/Plic.thy ===== *)
theory Plic
  imports Kexec
begin

text \<open>
  The platform interrupt controller, \<^verbatim>\<open>src/kernel/plic.c\<close> with the addresses of \<^verbatim>\<open>plic.h\<close>. The device is
  not code of the kernel: it is a log of register writes and an oracle \<open>plic_claim_at\<close> that gives the
  value of each read of the claim register.
\<close>

definition PLIC :: u32 where "PLIC = 0x0C000000"
definition PLIC_PRIORITY :: u32 where "PLIC_PRIORITY = PLIC + 0x0"
definition PLIC_ENABLE_S :: "u32 \<Rightarrow> u32" where "PLIC_ENABLE_S hart = PLIC + 0x2080 + hart * 0x100"
definition PLIC_PRIORITY_THR_S :: "u32 \<Rightarrow> u32" where "PLIC_PRIORITY_THR_S hart = PLIC + 0x201000 + hart * 0x2000"
definition PLIC_CLAIM_S :: "u32 \<Rightarrow> u32" where "PLIC_CLAIM_S hart = PLIC + 0x201004 + hart * 0x2000"
definition UART0_IRQ :: u32 where "UART0_IRQ = 10"

record plic = filesystem +
  plic_writes :: "(u32 \<times> u32) list"
  plic_claim_at :: "nat \<Rightarrow> u32"
  plic_pos :: nat

definition plic_write :: "u32 \<Rightarrow> u32 \<Rightarrow> 'a plic_scheme \<Rightarrow> 'a plic_scheme" where
  "plic_write reg v s = s\<lparr>plic_writes := plic_writes s @ [(reg, v)]\<rparr>"

definition PlicInit :: "'a plic_scheme \<Rightarrow> 'a plic_scheme" where
  "PlicInit s = plic_write (PLIC_PRIORITY + UART0_IRQ * 4) 1 s"

definition PlicInitHart :: "'a plic_scheme \<Rightarrow> 'a plic_scheme" where
  "PlicInitHart s = plic_write (PLIC_PRIORITY_THR_S 0) 0 (plic_write (PLIC_ENABLE_S 0) (push_bit (unat UART0_IRQ) 1) s)"

definition PlicClaim :: "'a plic_scheme \<Rightarrow> u32 \<times> 'a plic_scheme" where
  "PlicClaim s = (plic_claim_at s (plic_pos s), s\<lparr>plic_pos := Suc (plic_pos s)\<rparr>)"

definition PlicComplete :: "u32 \<Rightarrow> 'a plic_scheme \<Rightarrow> 'a plic_scheme" where
  "PlicComplete irq s = plic_write (PLIC_CLAIM_S 0) irq s"

section \<open>What the controller is told\<close>

text \<open>
  The last value written to a register, as the controller keeps it. An interrupt is delivered to
  supervisor mode when its source is enabled and its priority exceeds the threshold.
\<close>

definition plic_reg :: "u32 \<Rightarrow> 'a plic_scheme \<Rightarrow> u32 option" where
  "plic_reg reg s = map_of (rev (plic_writes s)) reg"

definition plic_delivers :: "nat \<Rightarrow> 'a plic_scheme \<Rightarrow> bool" where
  "plic_delivers irq s \<longleftrightarrow>
     (case (plic_reg (PLIC_PRIORITY + 4 * of_nat irq) s, plic_reg (PLIC_ENABLE_S 0) s, plic_reg (PLIC_PRIORITY_THR_S 0) s) of
        (Some prio, Some en, Some thr) \<Rightarrow> bit en irq \<and> thr < prio | _ \<Rightarrow> False)"

lemma plic_init_delivers: "irq < 32 \<Longrightarrow> plic_writes s = [] \<Longrightarrow> plic_delivers irq (PlicInitHart (PlicInit s)) \<longleftrightarrow> irq = 10"
proof -
  assume irq: "irq < 32" and s: "plic_writes s = []"
  have "PLIC_PRIORITY + 4 * of_nat irq = PLIC_PRIORITY + UART0_IRQ * 4 \<longleftrightarrow> irq = 10"
  proof
    assume "PLIC_PRIORITY + 4 * of_nat irq = PLIC_PRIORITY + UART0_IRQ * 4"
    then have "unat (of_nat (4 * irq) :: u32) = unat (40 :: u32)" by (simp add: UART0_IRQ_def)
    moreover have "unat (of_nat (4 * irq) :: u32) = 4 * irq" by (rule unat_of_nat32) (use irq in simp)
    ultimately show "irq = 10" by simp
  qed (simp add: UART0_IRQ_def)
  moreover have "bit (1024 :: u32) irq \<longleftrightarrow> irq = 10"
  proof -
    have e: "(1024 :: u32) = 2 ^ 10" by simp
    show ?thesis unfolding e bit_exp_iff using irq by (auto simp: possible_bit_def)
  qed
  ultimately show ?thesis
    using s by (auto simp: plic_delivers_def plic_reg_def PlicInit_def PlicInitHart_def plic_write_def PLIC_ENABLE_S_def
        PLIC_PRIORITY_THR_S_def PLIC_PRIORITY_def PLIC_def UART0_IRQ_def split: option.splits if_splits)
qed

end
