(* ===== verification/Ksyscall.thy ===== *)
theory Ksyscall
  imports Kexec_Load Kexec_Args Plic
begin

text \<open>
  The system call routines of \<^verbatim>\<open>src/kernel/ksyscall.c\<close> over the components that implement them. A
  routine from which control goes to the scheduler instead of back to the caller has no result
  value: its result is \<open>None\<close>.
\<close>

definition SYS_fork :: u32 where "SYS_fork = 1"
definition SYS_exit :: u32 where "SYS_exit = 2"
definition SYS_read :: u32 where "SYS_read = 5"
definition SYS_kill :: u32 where "SYS_kill = 6"
definition SYS_exec :: u32 where "SYS_exec = 7"
definition SYS_getpid :: u32 where "SYS_getpid = 11"
definition SYS_sbrk :: u32 where "SYS_sbrk = 12"
definition SYS_sleep :: u32 where "SYS_sleep = 13"
definition SYS_open :: u32 where "SYS_open = 15"
definition SYS_write :: u32 where "SYS_write = 16"
definition SYS_close :: u32 where "SYS_close = 21"

lemmas sys_defs = SYS_fork_def SYS_exit_def SYS_read_def SYS_kill_def SYS_exec_def SYS_getpid_def SYS_sbrk_def
  SYS_sleep_def SYS_open_def SYS_write_def SYS_close_def

definition ksys_fork :: "'a filesystem_scheme \<Rightarrow> (u32 \<times> 'a filesystem_scheme) kres" where
  "ksys_fork s = kproc_fork s"

definition ksys_read :: "u32 \<Rightarrow> addr \<Rightarrow> u32 \<Rightarrow> 'a filesystem_scheme \<Rightarrow> (u32 \<times> 'a filesystem_scheme) kres" where
  "ksys_read fd buf sz s =
     (if fd = 0 then TtyRead buf sz s
      else if fd = 1 \<or> fd = 2 then Inr (0, s)
      else kbind (kproc_file_get fd s) (\<lambda>file_handle. filesystem_file_read file_handle buf sz s))"

definition ksys_exit :: "'a filesystem_scheme \<Rightarrow> u32 option \<times> 'a filesystem_scheme" where
  "ksys_exit s = (None, kproc_free s)"

definition ksys_write :: "u32 \<Rightarrow> addr \<Rightarrow> u32 \<Rightarrow> 'a filesystem_scheme \<Rightarrow> (u32 \<times> 'a filesystem_scheme) kres" where
  "ksys_write fd data sz s =
     (if fd = 1 then kbind (TtyWrite data sz s) (\<lambda>(_, s). Inr (0, s)) else Inr (-1, s))"

definition ksys_kill :: "u32 \<Rightarrow> 'a filesystem_scheme \<Rightarrow> u32 option \<times> 'a filesystem_scheme" where
  "ksys_kill target s = kproc_kill target s"

definition ksys_open :: "addr \<Rightarrow> u32 \<Rightarrow> 'a filesystem_scheme \<Rightarrow> (u32 \<times> 'a filesystem_scheme) kres" where
  "ksys_open path mode s = filesystem_file_open path mode s"

definition ksys_close :: "u32 \<Rightarrow> 'a filesystem_scheme \<Rightarrow> (u32 \<times> 'a filesystem_scheme) kres" where
  "ksys_close fd s = filesystem_file_close fd s"

definition ksys_exec :: "addr \<Rightarrow> addr \<Rightarrow> 'a filesystem_scheme \<Rightarrow> (u32 \<times> 'a filesystem_scheme) kres" where
  "ksys_exec path argv s = kproc_exec path argv s"

text \<open>The value 0 that \<open>ksys_sleep\<close> returns is delivered when the process runs again.\<close>

definition ksys_sleep :: "'a filesystem_scheme \<Rightarrow> u32 option \<times> 'a filesystem_scheme" where
  "ksys_sleep s = (None, kproc_yield After_sleep s)"

definition ksys_sbrk :: "'a filesystem_scheme \<Rightarrow> (u32 \<times> 'a filesystem_scheme) kres" where
  "ksys_sbrk s = kproc_add_page s"

end
