(* ===== verification/Ktrap.thy ===== *)
theory Ktrap
  imports Ksyscall
begin

text \<open>
  Traps, \<^verbatim>\<open>src/kernel/ktrap.c\<close>, with the entry and exit code of \<^verbatim>\<open>src/kernel/uservec.S\<close>: how a trap of
  a user program reaches the kernel, how a system call is dispatched, and how control returns to
  user mode. What the hart does on a trap and on \<open>sret\<close> follows the privileged architecture.
\<close>

section \<open>The hart\<close>

text \<open>The user-visible registers, named like the words of the trap frame that save them.\<close>

type_synonym uregs = "tf_field \<Rightarrow> u32"

definition saved_regs :: "tf_field list" where
  "saved_regs = [TF_ra, TF_sp, TF_gp, TF_tp, TF_t0, TF_t1, TF_t2, TF_s0, TF_s1, TF_a1, TF_a2, TF_a3, TF_a4, TF_a5, TF_a6, TF_a7,
     TF_s2, TF_s3, TF_s4, TF_s5, TF_s6, TF_s7, TF_s8, TF_s9, TF_s10, TF_s11, TF_t3, TF_t4, TF_t5, TF_t6]"

text \<open>A program in user mode: where it is and what its registers hold.\<close>

record user_entry =
  ue_pc :: u32
  ue_regs :: uregs

text \<open>A trap from user mode: the cause and the program counter are recorded, and interrupts are off.\<close>

definition hart_trap :: "u32 \<Rightarrow> user_entry \<Rightarrow> 'a machine_scheme \<Rightarrow> 'a machine_scheme" where
  "hart_trap cause u s =
     (let st = csr s Sstatus;
          st = st AND NOT SSTATUS_SPP_MASK;
          st = (if st AND MSTATUS_SIE \<noteq> 0 then st OR SSTATUS_SPIE else st AND NOT SSTATUS_SPIE) AND NOT MSTATUS_SIE
      in WRITE_CSR Sstatus st (WRITE_CSR Scause cause (WRITE_CSR Sepc (ue_pc u) s)))"

text \<open>The entry code saves the registers through the page table of the process.\<close>

definition uservec :: "uregs \<Rightarrow> 'a machine_scheme \<Rightarrow> 'a machine_scheme kres" where
  "uservec r s =
     (let s = WRITE_CSR Sscratch (r TF_a0) s in
      case mmu_translate s Store VA_TRAPFRAME of
        None \<Rightarrow> Inl (KernelFault VA_TRAPFRAME)
      | Some tf \<Rightarrow>
          (let s = fold (\<lambda>f. tf_set tf f (r f)) saved_regs s in
           Inr (tf_set tf TF_a0 (READ_CSR Sscratch s) s)))"

text \<open>The exit code switches the page table, restores the registers and returns with \<open>sret\<close>.\<close>

definition enter_user_process :: "u32 \<Rightarrow> 'a machine_scheme \<Rightarrow> (user_entry \<times> 'a machine_scheme) kres" where
  "enter_user_process satp s =
     (let s = WRITE_CSR Satp satp s in
      case mmu_translate s Load VA_TRAPFRAME of
        None \<Rightarrow> Inl (KernelFault VA_TRAPFRAME)
      | Some tf \<Rightarrow>
          if csr s Sstatus AND SSTATUS_SPP_MASK \<noteq> 0 then Inl (Undefined ''sret to supervisor mode'')
          else Inr (\<lparr>ue_pc = csr s Sepc, ue_regs = (\<lambda>f. tf_get tf f s)\<rparr>,
            WRITE_CSR Sstatus
              ((if csr s Sstatus AND SSTATUS_SPIE \<noteq> 0 then csr s Sstatus OR MSTATUS_SIE
                else csr s Sstatus AND NOT MSTATUS_SIE) OR SSTATUS_SPIE) s))"

section \<open>Handlers\<close>

definition ktrap_init :: "'a machine_scheme \<Rightarrow> 'a machine_scheme" where
  "ktrap_init s = WRITE_CSR Stvec (sym_addr s Sym_kernelvec) s"

definition ktrap_to_user :: "'a kproc_scheme \<Rightarrow> (user_entry \<times> 'a kproc_scheme) kres" where
  "ktrap_to_user s =
     (let sstatus = READ_CSR Sstatus s;
          s = WRITE_CSR Stvec (sym_addr s Sym_uservec) s;
          s = tf_set (trapframe (cur s)) TF_kernel_sp (kernel_stack_top (cur s)) s;
          s = tf_set (trapframe (cur s)) TF_kernel_trap (sym_addr s Sym_ktrap_from_user_handler) s;
          sstatus = sstatus AND NOT SSTATUS_SPP_MASK;
          sstatus = sstatus OR SSTATUS_SPIE;
          s = WRITE_CSR Sstatus sstatus s;
          s = WRITE_CSR Sepc (tf_get (trapframe (cur s)) TF_epc s) s
      in enter_user_process (SATP_SV32 OR drop_bit 12 (pagetable (cur s))) s)"

definition KtrapInterruptHandle :: "u32 \<Rightarrow> bool \<Rightarrow> 'a plic_scheme \<Rightarrow> (u32 \<times> 'a plic_scheme) kres" where
  "KtrapInterruptHandle type fromUserMode s =
     (if type = SCAUSE_SMODE_EXTERNAL_INTR then
        (case PlicClaim s of (irq, s) \<Rightarrow>
           if irq = UART0_IRQ then kbind (UartInterruptHandle s) (\<lambda>s. Inr (irq, PlicComplete irq s))
           else kpanic ''ktrap.c'' 236 (''Unhandled S-Mode external interrupt in  mode'' @ [CHR 0x0A]) s)
      else if type = SCAUSE_SMODE_TIMER_INTR then
        kpanic ''ktrap.c'' 241 (''Unhandled S-Mode timer interrupt in  mode'' @ [CHR 0x0A]) s
      else if type = SCAUSE_SMODE_SOFTWARE_INTR then
        kpanic ''ktrap.c'' 246 (''Unhandled S-Mode software interrupt in %s mode'' @ [CHR 0x0A]) s
      else kpanic ''ktrap.c'' 251 (''Unhandled interrupt in %s mode'' @ [CHR 0x0A]) s)"

text \<open>
  The switch over the system call number. The result says whether the process goes on; otherwise
  the processor was given to the scheduler.
\<close>

definition set_a0 :: "u32 \<Rightarrow> 'a kproc_scheme \<Rightarrow> 'a kproc_scheme" where
  "set_a0 retval s = tf_set (trapframe (cur s)) TF_a0 retval s"

abbreviation arg :: "tf_field \<Rightarrow> 'a kproc_scheme \<Rightarrow> u32" where
  "arg f s \<equiv> tf_get (trapframe (cur s)) f s"

definition ktrap_syscall :: "'a plic_scheme \<Rightarrow> (bool \<times> 'a plic_scheme) kres" where
  "ktrap_syscall s =
     (let a7 = arg TF_a7 s in
      if a7 = SYS_fork then kbind (ksys_fork s) (\<lambda>(_, s). Inr (True, s))
      else if a7 = SYS_read then
        kbind (ksys_read (arg TF_a0 s) (arg TF_a1 s) (arg TF_a2 s) s) (\<lambda>(retval, s). Inr (True, set_a0 retval s))
      else if a7 = SYS_write then
        kbind (ksys_write (arg TF_a0 s) (arg TF_a1 s) (arg TF_a2 s) s) (\<lambda>(_, s). Inr (True, s))
      else if a7 = SYS_exit then (case ksys_exit s of (_, s) \<Rightarrow> Inr (False, s))
      else if a7 = SYS_getpid then Inr (True, set_a0 (pid (cur s)) s)
      else if a7 = SYS_kill then
        (case ksys_kill (arg TF_a0 s) s of
           (None, s) \<Rightarrow> Inr (False, s)
         | (Some retval, s) \<Rightarrow> Inr (True, set_a0 retval s))
      else if a7 = SYS_open then
        kbind (ksys_open (arg TF_a0 s) (arg TF_a1 s) s) (\<lambda>(retval, s). Inr (True, set_a0 retval s))
      else if a7 = SYS_close then kbind (ksys_close (arg TF_a0 s) s) (\<lambda>(retval, s). Inr (True, set_a0 retval s))
      else if a7 = SYS_exec then kbind (ksys_exec (arg TF_a0 s) (arg TF_a1 s) s) (\<lambda>(_, s). Inr (True, s))
      else if a7 = SYS_sleep then (case ksys_sleep s of (_, s) \<Rightarrow> Inr (False, s))
      else if a7 = SYS_sbrk then kbind (ksys_sbrk s) (\<lambda>(retval, s). Inr (True, set_a0 retval s))
      else kpanic ''kernel/ktrap.c'' 122 ''unhandled umode ecall'' s)"

text \<open>The result is \<open>None\<close> when the handler ended in the scheduler.\<close>

definition ktrap_from_user_handler :: "'a plic_scheme \<Rightarrow> (user_entry option \<times> 'a plic_scheme) kres" where
  "ktrap_from_user_handler s =
     (let scause = READ_CSR Scause s; sepc = READ_CSR Sepc s; sstatus = READ_CSR Sstatus s;
          trapType = 0x7FFFFFFF AND scause;
          s = WRITE_CSR Stvec (sym_addr s Sym_kernelvec) s;
          s = tf_set (trapframe (cur s)) TF_epc sepc s;
          from_kernel = (sstatus AND SSTATUS_SPP_MASK = SSTATUS_SPP_S);
          is_exception = (scause AND SCAUSE_INTR_BIT = 0);
          trap_code = scause AND SCAUSE_CODE_MASK in
      if from_kernel then kpanic ''kernel/ktrap.c'' 62 ''uservec started handling traps from supervisor mode'' s
      else
        kbind
          (if is_exception then
             (let s = tf_set (trapframe (cur s)) TF_epc (tf_get (trapframe (cur s)) TF_epc s + 4) s in
              if trap_code = SCAUSE_UMODE_ECALL then ktrap_syscall s
              else if trap_code = SCAUSE_IACCESS_FAULT then
                kpanic ''kernel/ktrap.c'' 128 ''INSTRUCTION ACCESS FAULT Exception'' s
              else if trap_code = SCAUSE_ILLEGAL_INSTR then
                kpanic ''kernel/ktrap.c'' 133 ''ILLEGAL INSTRUCTION Exception'' s
              else kpanic ''kernel/ktrap.c'' 137 ''unhandled exception code'' s)
           else kbind (KtrapInterruptHandle trapType True s) (\<lambda>(_, s). Inr (True, s)))
          (\<lambda>(goes_on, s). if goes_on then kbind (ktrap_to_user s) (\<lambda>(u, s). Inr (Some u, s)) else Inr (None, s)))"

text \<open>What a process does when the scheduler switches to it, by the place its context was saved at.\<close>

definition ktrap_resume :: "'a plic_scheme \<Rightarrow> (user_entry \<times> 'a plic_scheme) kres" where
  "ktrap_resume s =
     (case ra (proc_context (cur s)) of
        At_ktrap_to_user \<Rightarrow> ktrap_to_user s
      | After_sleep \<Rightarrow> ktrap_to_user (set_a0 0 s)
      | After_free \<Rightarrow> kpanic ''kernel/kproc.c'' 140 ''should never return after process was freed'' s)"

definition ktrap_from_supervisor_handler :: "'a plic_scheme \<Rightarrow> 'a plic_scheme kres" where
  "ktrap_from_supervisor_handler s =
     (let scause = READ_CSR Scause s; stval = READ_CSR Stval s; sepc = READ_CSR Sepc s; sstatus = READ_CSR Sstatus s;
          trapType = 0x7FFFFFFF AND scause;
          from_kernel = (sstatus AND SSTATUS_SPP_MASK = SSTATUS_SPP_S);
          is_exception = (scause AND SCAUSE_INTR_BIT = 0) in
      if \<not> from_kernel then
        kbind (kprintf (''sstatus=%x, scause=%x, stval=%x, sepc=%x'' @ [CHR 0x0A])
                 [VInt sstatus, VInt scause, VInt stval, VInt sepc] s) (\<lambda>(_, s).
          kpanic ''kernel/ktrap.c'' 201 ''Trap not from kernel mode was handled by kernel trap handler'' s)
      else if is_exception then kpanic ''kernel/ktrap.c'' 206 ''Exception from kernel mode happened'' s
      else kbind (KtrapInterruptHandle trapType False s) (\<lambda>(irq, s). Inr (PlicComplete irq s)))"

definition kdump_trapframe :: "addr \<Rightarrow> 'a machine_scheme \<Rightarrow> 'a machine_scheme kres" where
  "kdump_trapframe frame s =
     kprintf_all ((''TRAP FRAME:'', []) # map (\<lambda>(fmt, f). (fmt, [VInt (tf_get frame f s)]))
       [(''ra=%x'', TF_ra), (''sp=%x'', TF_sp), (''gp=%x'', TF_gp), (''tp=%x'', TF_tp), (''t0=%x'', TF_t0), (''t1=%x'', TF_t1),
        (''t2=%x'', TF_t2), (''t3=%x'', TF_t3), (''t4=%x'', TF_t4), (''t5=%x'', TF_t5), (''t6=%x'', TF_t6), (''a0=%x'', TF_a0),
        (''a1=%x'', TF_a1), (''a2=%x'', TF_a2), (''a3=%x'', TF_a3), (''a4=%x'', TF_a4), (''a5=%x'', TF_a5), (''a6=%x'', TF_a6),
        (''a7=%x'', TF_a7), (''s0=%x'', TF_s0), (''s1=%x'', TF_s1), (''s2=%x'', TF_s2), (''s3=%x'', TF_s3), (''s4=%x'', TF_s4),
        (''s5=%x'', TF_s5), (''s6=%x'', TF_s6), (''s7=%x'', TF_s7), (''s8=%x'', TF_s8), (''s9=%x'', TF_s9), (''s10=%x'', TF_s10),
        (''s11=%x'', TF_s11), (''kernel_sp=%x'', TF_kernel_sp)]) s"

section \<open>Entering and leaving the kernel\<close>

text \<open>
  The page table of the current process is active and maps the trap frame of the process at the
  top of the address space.
\<close>

definition tf_mapped :: "(addr \<Rightarrow> u8) \<Rightarrow> process \<Rightarrow> bool" where
  "tf_mapped m p \<longleftrightarrow> pt_wf m (pagetable p) \<and> page_aligned (trapframe p) \<and> trapframe p \<notin> pt_pages m (pagetable p) \<and>
     pt_entry m (pagetable p) (vpn1 VA_TRAPFRAME) (vpn0 VA_TRAPFRAME) = Some (leaf_pte (trapframe p) (PTE_R OR PTE_W))"

definition user_ready :: "'a kproc_scheme \<Rightarrow> bool" where
  "user_ready s \<longleftrightarrow> active_table s (pagetable (cur s)) \<and> tf_mapped (mem s) (cur s)"

lemma tf_mapped_translate:
  assumes "active_table s (pagetable p)" "tf_mapped (mem s) p"
  shows "mmu_translate s acc VA_TRAPFRAME = Some (trapframe p)"
proof -
  have f: "(PTE_R OR PTE_W) AND 0xFFFFFC00 = 0" by (simp add: pte_flag_defs)
  have "page_base (trapframe p) = trapframe p" using assms(2) page_base_aligned by (simp add: tf_mapped_def)
  moreover have "VA_TRAPFRAME AND 0xFFF = 0" by (simp add: VA_TRAPFRAME_def VA_MAX_def PAGE_SIZE_def)
  moreover have "sv32_permits acc st (PTE_R OR PTE_W)" "sv32_leaf (PTE_R OR PTE_W)" for st
    by (simp_all add: sv32_permits_def sv32_leaf_def pte_flag_defs split: access.split)
  ultimately show ?thesis
    using assms mmu_translate_entry[OF assms(1), of acc VA_TRAPFRAME] leaf_pte_simps[OF f]
    by (simp add: tf_mapped_def)
qed

lemma tf_mapped_frame:
  assumes "tf_mapped m p" "\<And>a. page_base a \<noteq> trapframe p \<Longrightarrow> m' a = m a"
  shows "tf_mapped m' p"
proof -
  have al: "page_aligned (pagetable p)" using assms(1) by (simp add: tf_mapped_def pt_wf_def)
  have "\<forall>a. page_base a \<in> pt_pages m (pagetable p) \<longrightarrow> m' a = m a"
    using assms(1) by (intro allI impI assms(2)) (auto simp: tf_mapped_def)
  note c = pt_cong[OF al this]
  show ?thesis using assms(1) c(1,2) c(3)[OF vpn_bound] by (simp add: tf_mapped_def)
qed

lemma tf_mapped_tf_set: "tf_mapped (mem s) p \<Longrightarrow> tf_mapped (mem (tf_set (trapframe p) f v s)) p"
  by (rule tf_mapped_frame) (auto simp: tf_set_other tf_mapped_def simp del: mem_tf_set)

lemma WRITE_CSR_simps [simp]:
  "mem (WRITE_CSR r v s) = mem s" "csr (WRITE_CSR r v s) = (csr s)(r := v)" "sym_addr (WRITE_CSR r v s) = sym_addr s"
  "tf_get tf f (WRITE_CSR r v s) = tf_get tf f s" "uart_live (WRITE_CSR r v s) = uart_live s"
  by (simp_all add: WRITE_CSR_def tf_get_def uart_live_def)

lemma WRITE_CSR_kproc [simp]:
  "procs (WRITE_CSR r v s) = procs s" "current (WRITE_CSR r v s) = current s" "cur (WRITE_CSR r v s) = cur s"
  by (simp_all add: WRITE_CSR_def cur_def)

lemma READ_CSR_simp [simp]: "READ_CSR r s = csr s r"
  by (simp add: READ_CSR_def)

text \<open>Leaving the kernel.\<close>

lemma spp_bits:
  "(x AND NOT SSTATUS_SPP_MASK OR SSTATUS_SPIE) AND SSTATUS_SPP_MASK = 0"
  "(x AND NOT SSTATUS_SPP_MASK OR SSTATUS_SPIE) AND SSTATUS_SPIE \<noteq> 0"
proof -
  have b: "bit SSTATUS_SPP_MASK n \<longleftrightarrow> n = 8" "bit SSTATUS_SPIE n \<longleftrightarrow> n = 5" if "n < 32" for n
    unfolding SSTATUS_SPP_MASK_def SSTATUS_SPIE_def using that by (auto simp only: bit_push_bit_iff bit_1_iff) auto
  show "(x AND NOT SSTATUS_SPP_MASK OR SSTATUS_SPIE) AND SSTATUS_SPP_MASK = 0"
    by (rule bit_word_eqI) (auto simp: bit_simps b)
  have "bit ((x AND NOT SSTATUS_SPP_MASK OR SSTATUS_SPIE) AND SSTATUS_SPIE) 5" by (simp add: bit_simps b)
  then show "(x AND NOT SSTATUS_SPP_MASK OR SSTATUS_SPIE) AND SSTATUS_SPIE \<noteq> 0" by auto
qed

lemma ktrap_to_user_ok:
  fixes s :: "'a kproc_scheme"
  assumes "tf_mapped (mem s) (cur s)"
  defines "tf \<equiv> trapframe (cur s)"
  shows "\<exists>u t. ktrap_to_user s = Inr (u, t) \<and> ue_pc u = tf_get tf TF_epc s \<and>
    (\<forall>f. f \<notin> {TF_kernel_sp, TF_kernel_trap} \<longrightarrow> ue_regs u f = tf_get tf f s) \<and>
    procs t = procs s \<and> current t = current s \<and> kproc.more t = kproc.more s \<and> user_ready t \<and>
    csr t Stvec = sym_addr s Sym_uservec \<and> tf_get tf TF_kernel_sp t = kernel_stack_top (cur s) \<and>
    tf_get tf TF_kernel_trap t = sym_addr s Sym_ktrap_from_user_handler \<and>
    (\<forall>a. page_base a \<noteq> tf \<longrightarrow> mem t a = mem s a) \<and> uart_writes t = uart_writes s"
proof -
  define s1 where "s1 = tf_set tf TF_kernel_trap (sym_addr s Sym_ktrap_from_user_handler)
    (tf_set tf TF_kernel_sp (kernel_stack_top (cur s)) (WRITE_CSR Stvec (sym_addr s Sym_uservec) s))"
  define s2 where "s2 = WRITE_CSR Satp (SATP_SV32 OR drop_bit 12 (pagetable (cur s))) (WRITE_CSR Sepc (tf_get tf TF_epc s1)
    (WRITE_CSR Sstatus (csr s Sstatus AND NOT SSTATUS_SPP_MASK OR SSTATUS_SPIE) s1))"
  have al: "page_aligned tf" using assms(1) by (simp add: tf_def tf_mapped_def)
  have c: "cur s1 = cur s" "cur s2 = cur s" "mem s2 = mem s1" by (simp_all add: s1_def s2_def)
  have "tf_mapped (mem s1) (cur s)" unfolding s1_def tf_def
    by (intro tf_mapped_tf_set) (use assms(1) in simp)
  then have m2: "tf_mapped (mem s2) (cur s)" "active_table s2 (pagetable (cur s))" by (simp_all add: c active_table_def s2_def)
  note tr = tf_mapped_translate[OF m2(2,1), of Load]
  have g: "tf_get tf f s1 = (if f = TF_kernel_trap then sym_addr s Sym_ktrap_from_user_handler
      else if f = TF_kernel_sp then kernel_stack_top (cur s) else tf_get tf f s)" for f
    using al by (simp add: s1_def tf_get_set del: mem_tf_set)
  have g2: "tf_get p f s2 = tf_get p f s1" for p f by (simp add: s2_def)
  let ?st = "(csr s2 Sstatus OR MSTATUS_SIE) OR SSTATUS_SPIE"
  have st: "csr s2 Sstatus = csr s Sstatus AND NOT SSTATUS_SPP_MASK OR SSTATUS_SPIE" by (simp add: s2_def)
  define s0 where "s0 = WRITE_CSR Sepc (tf_get tf TF_epc s1) (WRITE_CSR Sstatus (csr s Sstatus AND NOT SSTATUS_SPP_MASK OR SSTATUS_SPIE) s1)"
  have "ktrap_to_user s = enter_user_process (SATP_SV32 OR drop_bit 12 (pagetable (cur s))) s0"
    by (simp add: ktrap_to_user_def Let_def s0_def s1_def tf_def del: mem_tf_set)
  moreover have "WRITE_CSR Satp (SATP_SV32 OR drop_bit 12 (pagetable (cur s))) s0 = s2" by (simp add: s0_def s2_def)
  ultimately have run: "ktrap_to_user s = Inr (\<lparr>ue_pc = tf_get tf TF_epc s, ue_regs = (\<lambda>f. tf_get tf f s2)\<rparr>, WRITE_CSR Sstatus ?st s2)"
    using tr spp_bits[of "csr s Sstatus"] g[of TF_epc]
    by (simp add: enter_user_process_def tf_def[symmetric] st) (simp add: s2_def tf_def)
  have oth: "\<forall>a. page_base a \<noteq> tf \<longrightarrow> mem s1 a = mem s a" using al by (simp add: s1_def tf_set_other del: mem_tf_set)
  let ?t = "WRITE_CSR Sstatus ?st s2"
  have "procs ?t = procs s" "current ?t = current s" "kproc.more ?t = kproc.more s" "csr ?t Stvec = sym_addr s Sym_uservec"
    "uart_writes ?t = uart_writes s"
    by (simp_all add: s2_def s1_def del: mem_tf_set) (simp_all add: WRITE_CSR_def tf_set_def set_word_def)
  moreover have "user_ready ?t" using m2 by (simp add: user_ready_def c active_table_def)
  ultimately show ?thesis using run oth by (simp add: g g2 c(3) del: fun_upd_apply)
qed

text \<open>Entering the kernel: everything but memory of the trap frame page and the registers of the hart is kept.\<close>

definition entered :: "addr \<Rightarrow> 'a kproc_scheme \<Rightarrow> 'a kproc_scheme \<Rightarrow> bool" where
  "entered tf s t \<longleftrightarrow> t = s\<lparr>mem := mem t, csr := csr t\<rparr> \<and> (\<forall>a. page_base a \<noteq> tf \<longrightarrow> mem t a = mem s a) \<and>
     csr t Satp = csr s Satp \<and> csr t Sstatus AND SSTATUS_SUM = csr s Sstatus AND SSTATUS_SUM"

lemma entered_simps:
  assumes "entered tf s t"
  shows "procs t = procs s" "current t = current s" "cur t = cur s" "kproc.more t = kproc.more s" "sym_addr t = sym_addr s"
    "uart_live t = uart_live s" "lsr_at t = lsr_at s" "kmem_head t = kmem_head s" "uart_writes t = uart_writes s"
proof -
  obtain m c where t: "t = s\<lparr>mem := m, csr := c\<rparr>" using assms unfolding entered_def by blast
  show "procs t = procs s" "current t = current s" "cur t = cur s" "kproc.more t = kproc.more s" "sym_addr t = sym_addr s"
    "uart_live t = uart_live s" "lsr_at t = lsr_at s" "kmem_head t = kmem_head s" "uart_writes t = uart_writes s"
    by (simp_all add: t cur_def uart_live_def)
qed

lemma entered_refl: "entered tf s s"
  by (simp add: entered_def)

lemma entered_tf_set: "page_aligned tf \<Longrightarrow> entered tf s t \<Longrightarrow> entered tf s (tf_set tf f v t)"
proof -
  assume al: "page_aligned tf" and e: "entered tf s t"
  obtain m c where t: "t = s\<lparr>mem := m, csr := c\<rparr>" using e unfolding entered_def by blast
  have "tf_set tf f v t = s\<lparr>mem := mem (tf_set tf f v t), csr := csr (tf_set tf f v t)\<rparr>"
    by (simp add: t tf_set_def set_word_def)
  then show ?thesis using e by (simp add: entered_def tf_set_other[OF al] del: mem_tf_set)
qed

lemma entered_csr:
  "r \<noteq> Satp \<Longrightarrow> r = Sstatus \<longrightarrow> v AND SSTATUS_SUM = csr t Sstatus AND SSTATUS_SUM \<Longrightarrow> entered tf s t \<Longrightarrow>
   entered tf s (WRITE_CSR r v t)"
proof -
  assume r: "r \<noteq> Satp" "r = Sstatus \<longrightarrow> v AND SSTATUS_SUM = csr t Sstatus AND SSTATUS_SUM" and e: "entered tf s t"
  obtain m c where t: "t = s\<lparr>mem := m, csr := c\<rparr>" using e unfolding entered_def by blast
  show ?thesis using e r by (simp add: entered_def) (simp add: t WRITE_CSR_def)
qed

lemma entered_hart_trap: "entered tf s (hart_trap cause u s)"
proof -
  have b: "bit SSTATUS_SPP_MASK n \<longleftrightarrow> n = 8" "bit SSTATUS_SPIE n \<longleftrightarrow> n = 5" "bit MSTATUS_SIE n \<longleftrightarrow> n = 1"
    "bit SSTATUS_SUM n \<longleftrightarrow> n = 18" if "n < 32" for n
    unfolding SSTATUS_SPP_MASK_def SSTATUS_SPIE_def MSTATUS_SIE_def SSTATUS_SUM_def
    using that by (auto simp only: bit_push_bit_iff bit_1_iff) auto
  show ?thesis unfolding hart_trap_def Let_def
    by (intro entered_csr entered_refl) (auto intro!: bit_word_eqI simp: bit_simps b)
qed

lemma entered_ready: "entered (trapframe (cur s)) s t \<Longrightarrow> user_ready s \<Longrightarrow> user_ready t"
  using tf_mapped_frame[of "mem s" "cur s" "mem t"] entered_simps(3)[of "trapframe (cur s)" s t]
  by (simp add: user_ready_def active_table_def entered_def)

lemma fold_tf_set:
  assumes "page_aligned tf"
  shows "tf_get tf g (fold (\<lambda>f. tf_set tf f (r f)) fs s) = (if g \<in> set fs then r g else tf_get tf g s)"
    "entered tf s0 s \<Longrightarrow> entered tf s0 (fold (\<lambda>f. tf_set tf f (r f)) fs s)"
    "csr (fold (\<lambda>f. tf_set tf f (r f)) fs u) = csr u"
  using assms by (induction fs arbitrary: s u) (auto simp: tf_get_set entered_tf_set simp del: mem_tf_set)

abbreviation user_regs :: "tf_field set" where
  "user_regs \<equiv> insert TF_a0 (set saved_regs)"

lemma uservec_ok:
  fixes s :: "'a kproc_scheme"
  assumes "user_ready s"
  defines "tf \<equiv> trapframe (cur s)"
  shows "\<exists>t. uservec (ue_regs u) (hart_trap cause u s) = Inr t \<and> entered tf s t \<and>
    csr t Scause = cause \<and> csr t Sepc = ue_pc u \<and> csr t Sstatus AND SSTATUS_SPP_MASK = 0 \<and>
    (\<forall>f. tf_get tf f t = (if f \<in> user_regs then ue_regs u f else tf_get tf f s))"
proof -
  let ?h = "hart_trap cause u s" let ?s1 = "WRITE_CSR Sscratch (ue_regs u TF_a0) ?h"
  let ?s2 = "fold (\<lambda>f. tf_set tf f (ue_regs u f)) saved_regs ?s1" let ?t = "tf_set tf TF_a0 (ue_regs u TF_a0) ?s2"
  have al: "page_aligned tf" using assms(1) by (simp add: user_ready_def tf_mapped_def tf_def)
  have e1: "entered tf s ?s1" by (intro entered_csr entered_hart_trap) simp_all
  have h: "csr ?h Scause = cause" "csr ?h Sepc = ue_pc u" by (simp_all add: hart_trap_def Let_def)
  have spp: "csr ?h Sstatus AND SSTATUS_SPP_MASK = 0"
  proof -
    have b: "bit SSTATUS_SPP_MASK n \<longleftrightarrow> n = 8" "bit SSTATUS_SPIE n \<longleftrightarrow> n = 5" "bit MSTATUS_SIE n \<longleftrightarrow> n = 1" if "n < 32" for n
      unfolding SSTATUS_SPP_MASK_def SSTATUS_SPIE_def MSTATUS_SIE_def using that by (auto simp only: bit_push_bit_iff bit_1_iff) auto
    show ?thesis by (rule bit_word_eqI) (auto simp: hart_trap_def Let_def bit_simps b)
  qed
  have "user_ready ?s1" using entered_ready[OF _ assms(1)] e1 by (simp add: tf_def)
  then have tr: "mmu_translate ?s1 Store VA_TRAPFRAME = Some tf"
    using tf_mapped_translate[of ?s1 "cur s" Store] entered_simps(3)[OF e1] by (simp add: user_ready_def tf_def)
  have e2: "entered tf s ?s2" by (rule fold_tf_set(2)[OF al e1])
  have "uservec (ue_regs u) ?h = Inr ?t" unfolding uservec_def Let_def tr by (simp add: fold_tf_set(3)[OF al] del: mem_tf_set)
  moreover have "entered tf s ?t" by (rule entered_tf_set[OF al e2])
  moreover have "tf_get tf f ?t = (if f \<in> user_regs then ue_regs u f else tf_get tf f s)" for f
  proof -
    have "tf_get tf f ?s1 = tf_get tf f s" by (simp add: hart_trap_def Let_def)
    then show ?thesis using al by (auto simp: tf_get_set fold_tf_set(1)[OF al] simp del: mem_tf_set)
  qed
  ultimately show ?thesis using h spp by (simp add: fold_tf_set(3)[OF al] del: mem_tf_set)
qed

section \<open>System calls\<close>

text \<open>A trap of the running user program, from the instruction that caused it to the next one in user mode.\<close>

definition user_trap :: "u32 \<Rightarrow> user_entry \<Rightarrow> 'a plic_scheme \<Rightarrow> (user_entry option \<times> 'a plic_scheme) kres" where
  "user_trap cause u s = kbind (uservec (ue_regs u) (hart_trap cause u s)) ktrap_from_user_handler"

text \<open>The handler up to the dispatch of a system call.\<close>

lemma handler_dispatch:
  fixes s :: "'a plic_scheme"
  assumes "user_ready s" "cause AND SCAUSE_INTR_BIT = 0"
  defines "tf \<equiv> trapframe (cur s)"
  shows "\<exists>t. entered tf s t \<and>
    (\<forall>f. tf_get tf f t = (if f \<in> user_regs then ue_regs u f else if f = TF_epc then ue_pc u + 4 else tf_get tf f s)) \<and>
    user_trap cause u s = kbind
      (if cause AND SCAUSE_CODE_MASK = SCAUSE_UMODE_ECALL then ktrap_syscall t
       else if cause AND SCAUSE_CODE_MASK = SCAUSE_IACCESS_FAULT then kpanic ''kernel/ktrap.c'' 128 ''INSTRUCTION ACCESS FAULT Exception'' t
       else if cause AND SCAUSE_CODE_MASK = SCAUSE_ILLEGAL_INSTR then kpanic ''kernel/ktrap.c'' 133 ''ILLEGAL INSTRUCTION Exception'' t
       else kpanic ''kernel/ktrap.c'' 137 ''unhandled exception code'' t)
      (\<lambda>(goes_on, s). if goes_on then kbind (ktrap_to_user s) (\<lambda>(u, s). Inr (Some u, s)) else Inr (None, s))"
proof -
  from uservec_ok[OF assms(1), of u cause] obtain t where t: "uservec (ue_regs u) (hart_trap cause u s) = Inr t" "entered tf s t"
    "csr t Scause = cause" "csr t Sepc = ue_pc u" "csr t Sstatus AND SSTATUS_SPP_MASK = 0"
    "\<forall>f. tf_get tf f t = (if f \<in> user_regs then ue_regs u f else tf_get tf f s)" unfolding tf_def by blast
  have al: "page_aligned tf" using assms(1) by (simp add: user_ready_def tf_mapped_def tf_def)
  have c: "cur t = cur s" by (rule entered_simps(3)[OF t(2)])
  define t1 where "t1 = tf_set tf TF_epc (ue_pc u) (WRITE_CSR Stvec (sym_addr t Sym_kernelvec) t)"
  define t2 where "t2 = tf_set tf TF_epc (ue_pc u + 4) t1"
  have "entered tf s t2" unfolding t2_def t1_def by (intro entered_tf_set al entered_csr t(2)) simp_all
  moreover have "TF_epc \<notin> user_regs" by (simp add: saved_regs_def)
  then have "tf_get tf f t2 = (if f \<in> user_regs then ue_regs u f else if f = TF_epc then ue_pc u + 4 else tf_get tf f s)" for f
    using t(6) al by (auto simp: t2_def t1_def tf_get_set simp del: mem_tf_set)
  moreover have "SSTATUS_SPP_S \<noteq> 0" by (simp add: SSTATUS_SPP_S_def)
  then have "ktrap_from_user_handler t = kbind
      (if cause AND SCAUSE_CODE_MASK = SCAUSE_UMODE_ECALL then ktrap_syscall t2
       else if cause AND SCAUSE_CODE_MASK = SCAUSE_IACCESS_FAULT then kpanic ''kernel/ktrap.c'' 128 ''INSTRUCTION ACCESS FAULT Exception'' t2
       else if cause AND SCAUSE_CODE_MASK = SCAUSE_ILLEGAL_INSTR then kpanic ''kernel/ktrap.c'' 133 ''ILLEGAL INSTRUCTION Exception'' t2
       else kpanic ''kernel/ktrap.c'' 137 ''unhandled exception code'' t2)
      (\<lambda>(goes_on, s). if goes_on then kbind (ktrap_to_user s) (\<lambda>(u, s). Inr (Some u, s)) else Inr (None, s))"
    using t(3-5) assms(2) al
    by (simp add: ktrap_from_user_handler_def Let_def c tf_def[symmetric] t2_def t1_def tf_get_set del: mem_tf_set)
  ultimately show ?thesis using t(1) by (intro exI[of _ t2]) (simp add: user_trap_def)
qed

text \<open>A system call that comes back: what the program sees is the trap frame the call left.\<close>

lemma syscall_returns:
  fixes s :: "'a plic_scheme"
  assumes "user_ready s"
    and "\<And>t. entered (trapframe (cur s)) s t \<Longrightarrow> (\<forall>f. arg f t = (if f \<in> user_regs then ue_regs u f
        else if f = TF_epc then ue_pc u + 4 else arg f s)) \<Longrightarrow>
      \<exists>t'. ktrap_syscall t = Inr (True, t') \<and> tf_mapped (mem t') (cur t') \<and> Q t t'"
  shows "\<exists>t t' u' v. entered (trapframe (cur s)) s t \<and> (\<forall>f. arg f t = (if f \<in> user_regs then ue_regs u f
        else if f = TF_epc then ue_pc u + 4 else arg f s)) \<and> Q t t' \<and>
    user_trap SCAUSE_UMODE_ECALL u s = Inr (Some u', v) \<and> ue_pc u' = arg TF_epc t' \<and>
    (\<forall>f \<in> user_regs. ue_regs u' f = arg f t') \<and> procs v = procs t' \<and> current v = current t' \<and> kproc.more v = kproc.more t' \<and>
    user_ready v \<and> (\<forall>a. page_base a \<noteq> trapframe (cur t') \<longrightarrow> mem v a = mem t' a) \<and> uart_writes v = uart_writes t'"
proof -
  have e: "SCAUSE_UMODE_ECALL AND SCAUSE_INTR_BIT = 0" "SCAUSE_UMODE_ECALL AND SCAUSE_CODE_MASK = SCAUSE_UMODE_ECALL"
    by (simp_all add: SCAUSE_UMODE_ECALL_def SCAUSE_INTR_BIT_def SCAUSE_CODE_MASK_def)
  from handler_dispatch[OF assms(1) e(1), of u] e(2) obtain t where t: "entered (trapframe (cur s)) s t"
    "\<forall>f. tf_get (trapframe (cur s)) f t = (if f \<in> user_regs then ue_regs u f else if f = TF_epc then ue_pc u + 4 else arg f s)"
    "user_trap SCAUSE_UMODE_ECALL u s = kbind (ktrap_syscall t)
      (\<lambda>(goes_on, s). if goes_on then kbind (ktrap_to_user s) (\<lambda>(u, s). Inr (Some u, s)) else Inr (None, s))" by auto
  have a: "\<forall>f. arg f t = (if f \<in> user_regs then ue_regs u f else if f = TF_epc then ue_pc u + 4 else arg f s)"
    using t(2) entered_simps(3)[OF t(1)] by simp
  from assms(2)[OF t(1) a] obtain t' where t': "ktrap_syscall t = Inr (True, t')" "tf_mapped (mem t') (cur t')" "Q t t'" by blast
  from ktrap_to_user_ok[OF t'(2)] obtain u' v where v: "ktrap_to_user t' = Inr (u', v)" "ue_pc u' = arg TF_epc t'"
    "\<forall>f. f \<notin> {TF_kernel_sp, TF_kernel_trap} \<longrightarrow> ue_regs u' f = arg f t'" "procs v = procs t'" "current v = current t'"
    "kproc.more v = kproc.more t'" "user_ready v" "\<forall>a. page_base a \<noteq> trapframe (cur t') \<longrightarrow> mem v a = mem t' a"
    "uart_writes v = uart_writes t'" by blast
  have "\<forall>f \<in> user_regs. ue_regs u' f = arg f t'" using v(3) by (auto simp: saved_regs_def)
  then show ?thesis using t(1,3) a t'(1,3) v(1,2,4-9) by auto
qed

lemma ready_tf: "user_ready s \<Longrightarrow> page_aligned (trapframe (cur s))" "user_ready s \<Longrightarrow> tf_mapped (mem s) (cur s)"
  by (simp_all add: user_ready_def tf_mapped_def)

lemma set_a0_simps [simp]:
  "cur (set_a0 v s) = cur s" "procs (set_a0 v s) = procs s" "current (set_a0 v s) = current s" "kproc.more (set_a0 v s) = kproc.more s"
  by (simp_all add: set_a0_def tf_set_def set_word_def cur_def)

lemma set_a0_get: "page_aligned (trapframe (cur s)) \<Longrightarrow> arg f (set_a0 v s) = (if f = TF_a0 then v else arg f s)"
  by (simp add: set_a0_def tf_get_set del: mem_tf_set)

lemma set_a0_mapped: "tf_mapped (mem s) (cur s) \<Longrightarrow> tf_mapped (mem (set_a0 v s)) (cur s)"
  unfolding set_a0_def by (rule tf_mapped_tf_set)

lemma saved_regs_mem [simp]: "TF_epc \<notin> set saved_regs" "TF_a7 \<in> set saved_regs" "TF_a1 \<in> set saved_regs" "TF_a2 \<in> set saved_regs"
  by (simp_all add: saved_regs_def)

text \<open>The first process of \<open>fs_static\<close> in user mode, with its trap frame mapped.\<close>

definition trap_mem :: "addr \<Rightarrow> u8" where
  "trap_mem = store32 (store32 (\<lambda>_. 0) (slot 0x80105000 1023) (leaf_pte 0x80108000 0))
     (slot 0x80108000 1023) (leaf_pte 0x80106000 (PTE_R OR PTE_W))"

definition trap_static :: plic where
  "trap_static = filesystem.extend (fs_static\<lparr>mem := trap_mem, csr := (\<lambda>_. 0)(Satp := SATP_SV32 OR drop_bit 12 0x80105000)\<rparr>)
     (plic.fields [] (\<lambda>_. 10) 0)"

lemma trap_static_simps [simp]:
  "mem trap_static = trap_mem" "csr trap_static = (\<lambda>_. 0)(Satp := SATP_SV32 OR drop_bit 12 0x80105000)"
  "procs trap_static = procs kproc_static" "current trap_static = 0" "lsr_at trap_static = lsr_at kmem_static"
  by (simp_all add: trap_static_def filesystem.defs plic.defs fs_static_def kproc.defs kvmem_user_def kmem_free_def)

lemma trap_mem_words:
  assumes "i < 1024"
  shows "word_at trap_mem 0x80105000 i = (if i = 1023 then leaf_pte 0x80108000 0 else 0)"
    "word_at trap_mem 0x80108000 i = (if i = 1023 then leaf_pte 0x80106000 (PTE_R OR PTE_W) else 0)"
proof -
  have al: "page_aligned 0x80105000" "page_aligned 0x80108000" by (simp_all add: page_aligned_def)
  have z: "word_at (\<lambda>_. 0) p k = 0" for p k by (simp add: load32_def)
  show "word_at trap_mem 0x80105000 i = (if i = 1023 then leaf_pte 0x80108000 0 else 0)"
    "word_at trap_mem 0x80108000 i = (if i = 1023 then leaf_pte 0x80106000 (PTE_R OR PTE_W) else 0)"
    unfolding trap_mem_def using word_at_store32[OF al(2,1) _ assms] word_at_store32[OF al(1,1) _ assms]
      word_at_store32[OF al(2,2) _ assms] word_at_store32[OF al(1,2) _ assms] z by auto
qed

text \<open>Any memory whose page table has these words is as good, whatever else it maps.\<close>

lemma trap_words_ready:
  assumes w: "\<And>i. i < 1024 \<Longrightarrow> word_at m 0x80105000 i = (if i = 1023 then leaf_pte 0x80108000 0 else 0)"
    "word_at m 0x80108000 1023 = leaf_pte 0x80106000 (PTE_R OR PTE_W)"
  shows "user_ready (trap_static\<lparr>mem := m\<rparr>)" "pt_wf m 0x80105000"
    "pt_entry m 0x80105000 1023 j = (if word_at m 0x80108000 j AND PTE_V = 0 then None else Some (word_at m 0x80108000 j))"
proof -
  let ?e = "leaf_pte 0x80108000 0"
  have f: "(0 :: u32) AND 0xFFFFFC00 = 0" "(PTE_R OR PTE_W) AND 0xFFFFFC00 = 0" by (simp_all add: pte_flag_defs)
  have e: "pte_table ?e = 0x80108000" "\<not> sv32_leaf ?e" "?e AND PTE_V \<noteq> 0" "leaf_pte 0x80106000 (PTE_R OR PTE_W) AND PTE_V \<noteq> 0"
    using leaf_pte_simps(1)[OF f(1), of "0x80108000"] leaf_pte_simps(3)[OF f(1), of "0x80108000"]
    by (simp_all add: page_base_def sv32_leaf_def) (simp_all add: leaf_pte_def page_base_def pte_flag_defs)
  have v: "pt_valid m 0x80105000 i \<longleftrightarrow> i = 1023" if "i < 1024" for i
    using w(1)[OF that] e(3) by (simp add: pt_valid_def)
  have t: "pt_tab m 0x80105000 1023 = 0x80108000" using w(1)[of 1023] e(1) by (simp add: pt_tab_def)
  show wf: "pt_wf m 0x80105000"
    using v t e(2) w(1)[of 1023] by (auto simp: pt_wf_def page_aligned_def)
  show ent: "pt_entry m 0x80105000 1023 j = (if word_at m 0x80108000 j AND PTE_V = 0 then None else Some (word_at m 0x80108000 j))" for j
    using v[of 1023] t by (simp add: pt_entry_def pt_valid_def)
  have "pt_pages m 0x80105000 = {0x80105000, 0x80108000}" using v t by (auto simp: pt_pages_def)
  moreover have "vpn1 VA_TRAPFRAME = 1023" "vpn0 VA_TRAPFRAME = 1023"
    by (simp_all add: vpn_div VA_TRAPFRAME_def VA_MAX_def PAGE_SIZE_def)
  ultimately show "user_ready (trap_static\<lparr>mem := m\<rparr>)"
    using wf ent[of 1023] w(2) e(4) by (simp add: user_ready_def tf_mapped_def active_table_def cur_def page_aligned_def)
qed

text \<open>The same page table with one more page \<open>pg\<close>, at \<open>0xFFC05000\<close>.\<close>

definition page_mem :: "addr \<Rightarrow> addr \<Rightarrow> u8" where
  "page_mem pg = store32 trap_mem (slot 0x80108000 5) (leaf_pte pg (PTE_R OR PTE_W))"

lemma page_mem_ready:
  fixes s :: "'a plic_scheme"
  assumes m: "\<And>a. page_base a \<in> {0x80105000, 0x80108000} \<Longrightarrow> mem s a = page_mem pg a" and act: "active_table s 0x80105000"
  shows "pagetable (cur s) = 0x80105000 \<Longrightarrow> trapframe (cur s) = 0x80106000 \<Longrightarrow> user_ready s"
    "vpn1 va = 1023 \<Longrightarrow> vpn0 va = 5 \<Longrightarrow> mmu_translate s Load va = Some (page_base pg OR (va AND 0xFFF))"
proof -
  have al: "page_aligned 0x80105000" "page_aligned 0x80108000" by (simp_all add: page_aligned_def)
  have f: "(PTE_R OR PTE_W) AND 0xFFFFFC00 = 0" by (simp add: pte_flag_defs)
  have byte: "word_at (mem s) p i = word_at (page_mem pg) p i" if "p \<in> {0x80105000, 0x80108000}" "i < 1024" for p i
    by (rule load32_page_cong[OF that(2)], rule m) (use that(1) al page_base_add[of p] in auto)
  have w: "word_at (mem s) 0x80105000 i = (if i = 1023 then leaf_pte 0x80108000 0 else 0)"
    "word_at (mem s) 0x80108000 i = (if i = 5 then leaf_pte pg (PTE_R OR PTE_W) else if i = 1023 then leaf_pte 0x80106000 (PTE_R OR PTE_W) else 0)"
    if "i < 1024" for i
    using byte[OF _ that] word_at_store32[OF al(2,1) _ that] word_at_store32[OF al(2,2) _ that] trap_mem_words[OF that]
    by (auto simp: page_mem_def)
  note r = trap_words_ready[of "mem s", OF w(1)]
  have "tf_mapped (mem s) (cur trap_static)" using r(1) w(2)[of 1023] by (simp add: user_ready_def cur_def)
  then show "pagetable (cur s) = 0x80105000 \<Longrightarrow> trapframe (cur s) = 0x80106000 \<Longrightarrow> user_ready s"
    using act by (simp add: user_ready_def tf_mapped_def cur_def)
  have "leaf_pte pg (PTE_R OR PTE_W) AND PTE_V \<noteq> 0" by (simp add: leaf_pte_def bit.conj_disj_distrib2 pte_flag_defs)
  then have "pt_entry (mem s) 0x80105000 1023 5 = Some (leaf_pte pg (PTE_R OR PTE_W))" using r(3)[of 5] w(2)[of 5] w(2)[of 1023] by simp
  moreover have "pt_wf (mem s) 0x80105000" by (rule r(2)) (simp_all add: w)
  moreover have "sv32_permits Load st (PTE_R OR PTE_W)" "sv32_leaf (PTE_R OR PTE_W)" for st
    by (simp_all add: sv32_permits_def sv32_leaf_def pte_flag_defs)
  ultimately show "vpn1 va = 1023 \<Longrightarrow> vpn0 va = 5 \<Longrightarrow> mmu_translate s Load va = Some (page_base pg OR (va AND 0xFFF))"
    using mmu_translate_entry[OF act] leaf_pte_simps[OF f, where pa = pg] by simp
qed

lemma trap_static_ready: "user_ready trap_static" "uart_live trap_static"
proof -
  have "trap_static\<lparr>mem := trap_mem\<rparr> = trap_static" by (simp add: trap_static_def filesystem.defs plic.defs)
  moreover have "user_ready (trap_static\<lparr>mem := trap_mem\<rparr>)" by (rule trap_words_ready) (simp_all add: trap_mem_words)
  ultimately show "user_ready trap_static" by (simp only:)
  show "uart_live trap_static" using kmem_static_ok(3) by (simp add: uart_live_def)
qed

text \<open>
  The system call \<open>getpid\<close> from the \<open>ecall\<close> instruction back to user mode: the program goes on at the
  next instruction with its process identifier in \<open>a0\<close> and every other register as it was.
\<close>

lemma syscall_getpid:
  fixes s :: "'a plic_scheme"
  assumes "user_ready s" "ue_regs u TF_a7 = SYS_getpid"
  shows "\<exists>u' v. user_trap SCAUSE_UMODE_ECALL u s = Inr (Some u', v) \<and> ue_pc u' = ue_pc u + 4 \<and>
    (\<forall>f \<in> user_regs. ue_regs u' f = (if f = TF_a0 then pid (cur s) else ue_regs u f)) \<and>
    procs v = procs s \<and> current v = current s \<and> kproc.more v = kproc.more s \<and> user_ready v \<and>
    (\<forall>a. page_base a \<noteq> trapframe (cur s) \<longrightarrow> mem v a = mem s a)"
proof -
  let ?Q = "\<lambda>t t'. t' = set_a0 (pid (cur t)) t"
  have "\<exists>t'. ktrap_syscall t = Inr (True, t') \<and> tf_mapped (mem t') (cur t') \<and> ?Q t t'"
    if e: "entered (trapframe (cur s)) s t" and a: "\<forall>f. arg f t = (if f \<in> user_regs then ue_regs u f
        else if f = TF_epc then ue_pc u + 4 else arg f s)" for t
  proof -
    have "arg TF_a7 t = SYS_getpid" using a assms(2) by simp
    then have "ktrap_syscall t = Inr (True, set_a0 (pid (cur t)) t)" by (simp add: ktrap_syscall_def sys_defs)
    moreover have "tf_mapped (mem t) (cur t)" using entered_ready[OF e assms(1)] ready_tf(2) by blast
    ultimately show ?thesis using set_a0_mapped by auto
  qed
  from syscall_returns[OF assms(1), of u ?Q, OF this] obtain t t' u' v where v: "entered (trapframe (cur s)) s t"
    "\<forall>f. arg f t = (if f \<in> user_regs then ue_regs u f else if f = TF_epc then ue_pc u + 4 else arg f s)"
    "user_trap SCAUSE_UMODE_ECALL u s = Inr (Some u', v)" "ue_pc u' = arg TF_epc t'"
    "\<forall>f \<in> user_regs. ue_regs u' f = arg f t'" "procs v = procs t'" "current v = current t'"
    "kproc.more v = kproc.more t'" "user_ready v" "\<forall>a. page_base a \<noteq> trapframe (cur t') \<longrightarrow> mem v a = mem t' a"
    and t': "t' = set_a0 (pid (cur t)) t" by blast
  note es = entered_simps[OF v(1)]
  have al: "page_aligned (trapframe (cur t))" using ready_tf(1)[OF assms(1)] es(3) by simp
  have sg: "arg f t' = (if f = TF_a0 then pid (cur t) else arg f t)" for f unfolding t' by (rule set_a0_get[OF al])
  have "\<forall>a. page_base a \<noteq> trapframe (cur s) \<longrightarrow> mem v a = mem s a"
    using v(1,10) es(3) al by (simp add: t' set_a0_def tf_set_other entered_def del: mem_tf_set)
  moreover have "ue_pc u' = ue_pc u + 4" "\<forall>f \<in> user_regs. ue_regs u' f = (if f = TF_a0 then pid (cur s) else ue_regs u f)"
    using v(2,4,5) es(3) by (simp_all add: sg)
  ultimately show ?thesis using v(3,6-9) es(1,2,4) by (simp add: t')
qed

text \<open>
  C34: an exception of a user program other than a system call stops the whole kernel: the handler
  panics with the message for its cause instead of ending the program.
\<close>

theorem user_exception_panics:
  fixes s :: "'a plic_scheme"
  assumes "user_ready s" "uart_live s" "cause AND SCAUSE_INTR_BIT = 0" "cause AND SCAUSE_CODE_MASK \<noteq> SCAUSE_UMODE_ECALL"
  shows "\<exists>out. user_trap cause u s = Inl (Panic
    (if cause AND SCAUSE_CODE_MASK = SCAUSE_IACCESS_FAULT then ''INSTRUCTION ACCESS FAULT Exception''
     else if cause AND SCAUSE_CODE_MASK = SCAUSE_ILLEGAL_INSTR then ''ILLEGAL INSTRUCTION Exception''
     else ''unhandled exception code'') out)"
proof -
  from handler_dispatch[OF assms(1,3), of u] assms(4) obtain t where t: "entered (trapframe (cur s)) s t"
    "user_trap cause u s = kbind
      (if cause AND SCAUSE_CODE_MASK = SCAUSE_IACCESS_FAULT then kpanic ''kernel/ktrap.c'' 128 ''INSTRUCTION ACCESS FAULT Exception'' t
       else if cause AND SCAUSE_CODE_MASK = SCAUSE_ILLEGAL_INSTR then kpanic ''kernel/ktrap.c'' 133 ''ILLEGAL INSTRUCTION Exception'' t
       else kpanic ''kernel/ktrap.c'' 137 ''unhandled exception code'' t)
      (\<lambda>(goes_on, s). if goes_on then kbind (ktrap_to_user s) (\<lambda>(u, s). Inr (Some u, s)) else Inr (None, s))" by auto
  have "uart_live t" using entered_simps(6)[OF t(1)] assms(2) by simp
  from kpanic_sends[OF this] have p: "\<exists>out. (kpanic f l m t :: (bool \<times> 'a plic_scheme) kres) = Inl (Panic m out)" for f l m by blast
  let ?k = "cause AND SCAUSE_CODE_MASK"
  have "\<exists>out. (if ?k = SCAUSE_IACCESS_FAULT then kpanic ''kernel/ktrap.c'' 128 ''INSTRUCTION ACCESS FAULT Exception'' t
       else if ?k = SCAUSE_ILLEGAL_INSTR then kpanic ''kernel/ktrap.c'' 133 ''ILLEGAL INSTRUCTION Exception'' t
       else kpanic ''kernel/ktrap.c'' 137 ''unhandled exception code'' t :: (bool \<times> 'a plic_scheme) kres) =
    Inl (Panic (if ?k = SCAUSE_IACCESS_FAULT then ''INSTRUCTION ACCESS FAULT Exception''
     else if ?k = SCAUSE_ILLEGAL_INSTR then ''ILLEGAL INSTRUCTION Exception'' else ''unhandled exception code'') out)"
    by (cases "?k = SCAUSE_IACCESS_FAULT"; cases "?k = SCAUSE_ILLEGAL_INSTR"; simp only: if_True if_False p simp_thms)
  then obtain out where o: "(if ?k = SCAUSE_IACCESS_FAULT then kpanic ''kernel/ktrap.c'' 128 ''INSTRUCTION ACCESS FAULT Exception'' t
       else if ?k = SCAUSE_ILLEGAL_INSTR then kpanic ''kernel/ktrap.c'' 133 ''ILLEGAL INSTRUCTION Exception'' t
       else kpanic ''kernel/ktrap.c'' 137 ''unhandled exception code'' t :: (bool \<times> 'a plic_scheme) kres) =
    Inl (Panic (if ?k = SCAUSE_IACCESS_FAULT then ''INSTRUCTION ACCESS FAULT Exception''
     else if ?k = SCAUSE_ILLEGAL_INSTR then ''ILLEGAL INSTRUCTION Exception'' else ''unhandled exception code'') out)" by blast
  show ?thesis unfolding t(2) o kbind_Inl by blast
qed

theorem user_exception_panics_witness:
  "\<exists>out. user_trap 2 \<lparr>ue_pc = 0xC0000010, ue_regs = \<lambda>_. 0\<rparr> trap_static = Inl (Panic ''ILLEGAL INSTRUCTION Exception'' out)"
  using user_exception_panics[OF trap_static_ready, of 2 "\<lparr>ue_pc = 0xC0000010, ue_regs = \<lambda>_. 0\<rparr>"]
  by (simp add: SCAUSE_INTR_BIT_def SCAUSE_CODE_MASK_def SCAUSE_UMODE_ECALL_def SCAUSE_IACCESS_FAULT_def SCAUSE_ILLEGAL_INSTR_def)

end
