(* ===== verification/Virtio.thy ===== *)
theory Virtio
  imports Ktrap
begin

text \<open>
  The block device driver, \<^verbatim>\<open>src/kernel/virtio.c\<close> with the constants and structures of \<^verbatim>\<open>virtio.h\<close>:
  set-up, the virtqueue in memory, and \<open>virtio_rw\<close>. The device is not code of the kernel. The state has a log of all that the
  device has seen: reads and writes of its 32-bit registers and looks of the driver at the used ring. The device itself is three
  parameters: \<open>vio_reg h offset\<close> is the value that a read of a register finds after the log \<open>h\<close>, \<open>vio_config\<close> the
  capacity register, and \<open>vio_dma h\<close> what the device does to memory between the log \<open>h\<close> and the next look.
\<close>

section \<open>Constants and layout\<close>

definition SECTOR_SIZE :: u32 where "SECTOR_SIZE = 512"
definition VIRTIO_DEVICE_BLK :: u32 where "VIRTIO_DEVICE_BLK = 2"
definition VIRTIO_MMIO_MAGIC_VALUE :: u32 where "VIRTIO_MMIO_MAGIC_VALUE = 0x000"
definition VIRTIO_MMIO_VERSION :: u32 where "VIRTIO_MMIO_VERSION = 0x004"
definition VIRTIO_MMIO_DEVICE_ID :: u32 where "VIRTIO_MMIO_DEVICE_ID = 0x008"
definition VIRTIO_MMIO_QUEUE_SEL :: u32 where "VIRTIO_MMIO_QUEUE_SEL = 0x030"
definition VIRTIO_MMIO_QUEUE_NUM :: u32 where "VIRTIO_MMIO_QUEUE_NUM = 0x038"
definition VIRTIO_MMIO_QUEUE_ALIGN :: u32 where "VIRTIO_MMIO_QUEUE_ALIGN = 0x03C"
definition VIRTIO_MMIO_QUEUE_PFN :: u32 where "VIRTIO_MMIO_QUEUE_PFN = 0x040"
definition VIRTIO_MMIO_QUEUE_NOTIFY :: u32 where "VIRTIO_MMIO_QUEUE_NOTIFY = 0x050"
definition VIRTIO_MMIO_STATUS :: u32 where "VIRTIO_MMIO_STATUS = 0x070"
definition VIRTIO_STATUS_ACKNOWLEDGE :: u32 where "VIRTIO_STATUS_ACKNOWLEDGE = 1"
definition VIRTIO_STATUS_DRIVER :: u32 where "VIRTIO_STATUS_DRIVER = 2"
definition VIRTIO_STATUS_DIRVER_OK :: u32 where "VIRTIO_STATUS_DIRVER_OK = 3"
definition VIRTIO_STATUS_FEATURES_OK :: u32 where "VIRTIO_STATUS_FEATURES_OK = 4"
definition VIRTQ_ENTRY_NUM :: u16 where "VIRTQ_ENTRY_NUM = 16"
definition VIRTQ_DESC_F_NEXT :: u16 where "VIRTQ_DESC_F_NEXT = 1"
definition VIRTQ_DESC_F_WRITE :: u16 where "VIRTQ_DESC_F_WRITE = 2"
definition VIRTIO_BLK_T_IN :: u32 where "VIRTIO_BLK_T_IN = 0"
definition VIRTIO_BLK_T_OUT :: u32 where "VIRTIO_BLK_T_OUT = 1"

text \<open>Offsets in \<^verbatim>\<open>struct virtio_virtq\<close>, whose used ring starts a new page, and in \<^verbatim>\<open>struct virtio_blk_req\<close>.\<close>

definition vq_avail_index :: u32 where "vq_avail_index = 258"
definition vq_avail_ring :: u32 where "vq_avail_ring = 260"
definition vq_used_index :: u32 where "vq_used_index = 4098"
definition vq_queue_index :: u32 where "vq_queue_index = 4228"
definition vq_used_index_ptr :: u32 where "vq_used_index_ptr = 4232"
definition vq_last_used_index :: u32 where "vq_last_used_index = 4236"
definition req_sector :: u32 where "req_sector = 8"
definition req_data :: u32 where "req_data = 16"
definition req_status :: u32 where "req_status = 528"

datatype vio_event = Reg_read u32 | Reg_write u32 u32 | Look

record virtio = plic +
  vio_reg :: "vio_event list \<Rightarrow> u32 \<Rightarrow> u32"
  vio_config :: u64
  vio_dma :: "vio_event list \<Rightarrow> (addr \<Rightarrow> u8) \<Rightarrow> (addr \<Rightarrow> u8)"
  vio_log :: "vio_event list"
  blk_request_vq :: addr
  blk_req_paddr :: addr
  blk_capacity :: u64

definition store16 :: "(addr \<Rightarrow> u8) \<Rightarrow> addr \<Rightarrow> u16 \<Rightarrow> (addr \<Rightarrow> u8)" where
  "store16 m a v = m(a := ucast v, a + 1 := ucast (drop_bit 8 v))"

definition store64 :: "(addr \<Rightarrow> u8) \<Rightarrow> addr \<Rightarrow> u64 \<Rightarrow> (addr \<Rightarrow> u8)" where
  "store64 m a v = store32 (store32 m a (ucast v)) (a + 4) (ucast (drop_bit 32 v))"

section \<open>Operations\<close>

definition virtio_reg_read32 :: "u32 \<Rightarrow> 'a virtio_scheme \<Rightarrow> u32 \<times> 'a virtio_scheme" where
  "virtio_reg_read32 offset s = (vio_reg s (vio_log s) offset, s\<lparr>vio_log := vio_log s @ [Reg_read offset]\<rparr>)"

definition virtio_reg_write32 :: "u32 \<Rightarrow> u32 \<Rightarrow> 'a virtio_scheme \<Rightarrow> 'a virtio_scheme" where
  "virtio_reg_write32 offset value s = s\<lparr>vio_log := vio_log s @ [Reg_write offset value]\<rparr>"

definition virtq_init :: "u32 \<Rightarrow> 'a virtio_scheme \<Rightarrow> (addr \<times> 'a virtio_scheme) kres" where
  "virtq_init index s =
     kbind (kmem_alloc s) (\<lambda>(_, s).
     kbind (kmem_alloc s) (\<lambda>(vq, s).
     let s = s\<lparr>mem := store32 (mem s) (vq + vq_queue_index) index\<rparr>;
         s = s\<lparr>mem := store32 (mem s) (vq + vq_used_index_ptr) (vq + vq_used_index)\<rparr>;
         s = virtio_reg_write32 VIRTIO_MMIO_QUEUE_SEL index s;
         s = virtio_reg_write32 VIRTIO_MMIO_QUEUE_NUM (ucast VIRTQ_ENTRY_NUM) s;
         s = virtio_reg_write32 VIRTIO_MMIO_QUEUE_ALIGN 0 s;
         s = virtio_reg_write32 VIRTIO_MMIO_QUEUE_PFN vq s
     in Inr (vq, s)))"

text \<open>The identification registers are read one after the other, up to the first wrong one.\<close>

definition virtio_blk_init :: "'a virtio_scheme \<Rightarrow> 'a virtio_scheme kres" where
  "virtio_blk_init s =
     (let unrecognized = kpanic ''kernel/virtio.c'' 41 ''virtio: unrecognized device'' in
      case virtio_reg_read32 VIRTIO_MMIO_MAGIC_VALUE s of (magic, s) \<Rightarrow>
      if magic \<noteq> 0x74726976 then unrecognized s else
      case virtio_reg_read32 VIRTIO_MMIO_VERSION s of (version, s) \<Rightarrow>
      if version \<noteq> 1 then unrecognized s else
      case virtio_reg_read32 VIRTIO_MMIO_DEVICE_ID s of (device, s) \<Rightarrow>
      if device \<noteq> VIRTIO_DEVICE_BLK then unrecognized s else
      let s = virtio_reg_write32 VIRTIO_MMIO_STATUS 0 s;
          status = 0 OR VIRTIO_STATUS_ACKNOWLEDGE;
          s = virtio_reg_write32 VIRTIO_MMIO_STATUS status s;
          status = status OR VIRTIO_STATUS_DRIVER;
          s = virtio_reg_write32 VIRTIO_MMIO_STATUS status s;
          status = status OR VIRTIO_STATUS_FEATURES_OK;
          s = virtio_reg_write32 VIRTIO_MMIO_STATUS status s in
      case virtio_reg_read32 VIRTIO_MMIO_STATUS s of (status, s) \<Rightarrow>
      if status AND VIRTIO_STATUS_FEATURES_OK = 0
      then kpanic ''kernel/virtio.c'' 66 ''virtio disk FEATURES_OK unset'' s
      else
        kbind (virtq_init 0 s) (\<lambda>(vq, s).
        let s = s\<lparr>blk_request_vq := vq\<rparr>;
            s = virtio_reg_write32 VIRTIO_MMIO_STATUS (status OR VIRTIO_STATUS_DIRVER_OK) s;
            s = s\<lparr>blk_capacity := vio_config s * ucast SECTOR_SIZE\<rparr> in
        kbind (kprintf (''virtio blk_capacity=%d'' @ [CHR 0x0A]) [VInt (ucast (blk_capacity s))] s) (\<lambda>(_, s).
        kbind (kmem_alloc s) (\<lambda>(p, s). Inr (s\<lparr>blk_req_paddr := p\<rparr>)))))"

definition virtq_kick :: "addr \<Rightarrow> u16 \<Rightarrow> 'a virtio_scheme \<Rightarrow> 'a virtio_scheme" where
  "virtq_kick vq desc_index s =
     (let s = s\<lparr>mem := store16 (mem s)
              (vq + vq_avail_ring + 2 * ucast (load16 (mem s) (vq + vq_avail_index) mod VIRTQ_ENTRY_NUM)) desc_index\<rparr>;
          s = s\<lparr>mem := store16 (mem s) (vq + vq_avail_index) (load16 (mem s) (vq + vq_avail_index) + 1)\<rparr>;
          s = virtio_reg_write32 VIRTIO_MMIO_QUEUE_NOTIFY (load32 (mem s) (vq + vq_queue_index)) s
      in s\<lparr>mem := store16 (mem s) (vq + vq_last_used_index) (load16 (mem s) (vq + vq_last_used_index) + 1)\<rparr>)"

definition virtq_is_busy :: "addr \<Rightarrow> (addr \<Rightarrow> u8) \<Rightarrow> bool" where
  "virtq_is_busy vq m \<longleftrightarrow> load16 m (vq + vq_last_used_index) \<noteq> load16 m (load32 m (vq + vq_used_index_ptr))"

text \<open>One look at the used ring: the device works on memory until the driver reads it.\<close>

definition vio_poll :: "'a virtio_scheme \<Rightarrow> 'a virtio_scheme" where
  "vio_poll s = s\<lparr>mem := vio_dma s (vio_log s) (mem s), vio_log := vio_log s @ [Look]\<rparr>"

definition set_desc :: "addr \<Rightarrow> nat \<Rightarrow> u64 \<Rightarrow> u32 \<Rightarrow> u16 \<Rightarrow> 'a machine_scheme \<Rightarrow> 'a machine_scheme" where
  "set_desc vq i a len flags s =
     (let p = vq + of_nat (16 * i) in
      s\<lparr>mem := store16 (store32 (store64 (mem s) p a) (p + 8) len) (p + 12) flags\<rparr>)"

definition set_desc_next :: "addr \<Rightarrow> nat \<Rightarrow> u16 \<Rightarrow> 'a machine_scheme \<Rightarrow> 'a machine_scheme" where
  "set_desc_next vq i nxt s = s\<lparr>mem := store16 (mem s) (vq + of_nat (16 * i) + 14) nxt\<rparr>"

definition virtio_rw :: "addr \<Rightarrow> u32 \<Rightarrow> bool \<Rightarrow> 'a virtio_scheme \<Rightarrow> 'a virtio_scheme kres" where
  "virtio_rw buf sector is_write s =
     (if ucast sector \<ge> blk_capacity s div ucast SECTOR_SIZE then
        kbind (kprintf (''virtio: tried to read/write sector=%d, but capacity is %d'' @ [CHR 0x0A])
                 [VInt sector, VInt (ucast (blk_capacity s div ucast SECTOR_SIZE))] s) (\<lambda>(_, s). Inr s)
      else
        (let req = blk_req_paddr s;
             s = s\<lparr>mem := store64 (mem s) (req + req_sector) (ucast sector)\<rparr>;
             s = s\<lparr>mem := store32 (mem s) req (if is_write then VIRTIO_BLK_T_OUT else VIRTIO_BLK_T_IN)\<rparr>;
             s = (if is_write then s\<lparr>mem := memcpy (req + req_data) buf SECTOR_SIZE (mem s)\<rparr> else s);
             vq = blk_request_vq s;
             s = set_desc_next vq 0 1 (set_desc vq 0 (ucast req) 16 VIRTQ_DESC_F_NEXT s);
             s = set_desc_next vq 1 2 (set_desc vq 1 (ucast (req + req_data)) SECTOR_SIZE
                   (VIRTQ_DESC_F_NEXT OR (if is_write then 0 else VIRTQ_DESC_F_WRITE)) s);
             s = set_desc vq 2 (ucast (req + req_status)) 1 VIRTQ_DESC_F_WRITE s;
             s = virtq_kick vq 0 s in
         kbind (kwhile (\<lambda>s. virtq_is_busy vq (mem s)) (\<lambda>s. Inr (vio_poll s)) (vio_poll s)) (\<lambda>s.
           if mem s (req + req_status) \<noteq> 0 then
             kbind (kprintf (''virtio: failed to read/write sector=%d, status=%d'' @ [CHR 0x0A])
                      [VInt sector, VInt (ucast (mem s (req + req_status)))] s) (\<lambda>(_, s). Inr s)
           else if \<not> is_write then Inr (s\<lparr>mem := memcpy buf (req + req_data) SECTOR_SIZE (mem s)\<rparr>)
           else Inr s)))"

section \<open>Loads after stores elsewhere\<close>

text \<open>Two regions of the 32-bit address space, which wraps around, have no byte in common.\<close>

definition far_apart :: "addr \<Rightarrow> u32 \<Rightarrow> addr \<Rightarrow> u32 \<Rightarrow> bool" where
  "far_apart a n b k \<longleftrightarrow> n \<le> b - a \<and> k \<le> a - b"

lemma apart_neq: 
  assumes "far_apart a n b k" "i < n" "j < k"
  shows "a + i \<noteq> b + j"
proof
  assume "a + i = b + j"
  then have "b - a = i - j" "a - b = j - i" by (simp_all add: algebra_simps)
  then have "n \<le> i - j" "k \<le> j - i" using assms(1) by (simp_all add: far_apart_def)
  then show False using assms(2,3) by uint_arith
qed

lemma apart_neqs [simp]:
  assumes "far_apart a n b k"
  shows "0 < n \<Longrightarrow> 0 < k \<Longrightarrow> a \<noteq> b" "i < n \<Longrightarrow> 0 < k \<Longrightarrow> a + i \<noteq> b" "0 < n \<Longrightarrow> j < k \<Longrightarrow> a \<noteq> b + j"
    "0 < n \<Longrightarrow> 0 < k \<Longrightarrow> b \<noteq> a" "i < n \<Longrightarrow> 0 < k \<Longrightarrow> b \<noteq> a + i" "0 < n \<Longrightarrow> j < k \<Longrightarrow> b + j \<noteq> a"
    "i < n \<Longrightarrow> j < k \<Longrightarrow> a + i \<noteq> b + j" "i < n \<Longrightarrow> j < k \<Longrightarrow> b + j \<noteq> a + i"
  using apart_neq[OF assms] apart_neq[OF assms, of 0] apart_neq[OF assms, of _ 0] by (simp_all, metis+)

lemma load_store_apart:
  "far_apart a 4 b 4 \<Longrightarrow> load32 (store32 m a v) b = load32 m b"
  "far_apart a 4 b 2 \<Longrightarrow> load16 (store32 m a v) b = load16 m b"
  "far_apart a 2 b 4 \<Longrightarrow> load32 (store16 m a w) b = load32 m b"
  "far_apart a 2 b 2 \<Longrightarrow> load16 (store16 m a w) b = load16 m b"
  "far_apart a 2 b 1 \<Longrightarrow> store16 m a w b = m b"
proof -
  show "load32 (store32 m a v) b = load32 m b" if "far_apart a 4 b 4"
    by (simp add: load32_def store32_def apart_neqs[OF that])
  show "load16 (store32 m a v) b = load16 m b" if "far_apart a 4 b 2"
    by (simp add: load16_def store32_def apart_neqs[OF that])
  show "load32 (store16 m a w) b = load32 m b" if "far_apart a 2 b 4"
    by (simp add: load32_def store16_def apart_neqs[OF that])
  show "load16 (store16 m a w) b = load16 m b" if "far_apart a 2 b 2"
    by (simp add: load16_def store16_def apart_neqs[OF that])
  show "store16 m a w b = m b" if "far_apart a 2 b 1"
    by (simp add: store16_def apart_neqs[OF that])
qed

lemma load16_store16 [simp]: "load16 (store16 m a v) a = v"
  unfolding load16_def store16_def
  by (rule bit_word_eqI) (auto simp: bit_simps)

lemma ucast_up_down [simp]: "ucast (ucast (x :: u32) :: u64) = x"
  by (rule bit_word_eqI) (auto simp: bit_simps)

lemma drop_ucast [simp]: "ucast (drop_bit 32 (ucast (x :: u32) :: u64)) = (0 :: u32)"
  by (rule bit_word_eqI) (auto simp: bit_simps dest: bit_imp_le_length)

lemma apart_parts:
  assumes "far_apart a N b K" "x < N" "n \<le> N - x" "y < K" "k \<le> K - y"
  shows "far_apart (a + x) n (b + y) k" "far_apart (b + y) k (a + x) n"
proof -
  define d where "d = b - a"
  have b: "b = a + d" by (simp add: d_def)
  have d: "unat N \<le> unat d" "unat K \<le> 2 ^ 32 - unat d" "unat x < unat N" "unat n \<le> unat N - unat x"
      "unat y < unat K" "unat k \<le> unat K - unat y" "unat d < 2 ^ 32" "d \<noteq> 0"
    using assms unsigned_less[of d, where ?'a = nat] unat_sub_if'[of 0 d] unat_sub_if'[of N x] unat_sub_if'[of K y]
    by (auto simp: far_apart_def b word_le_nat_alt word_less_nat_alt split: if_splits)
  have "unat (d + y) = unat d + unat y" using d by (intro unat_add_lem [THEN iffD1]) simp
  then have m: "unat (d + y - x) = unat d + unat y - unat x" using d by (subst unat_sub) (simp_all add: word_le_nat_alt)
  then have "unat (x - (d + y)) = 2 ^ 32 - (unat d + unat y - unat x)" using unat_sub_if'[of 0 "d + y - x"] d by auto
  then show "far_apart (a + x) n (b + y) k" using m d by (simp add: far_apart_def b word_le_nat_alt algebra_simps) arith
  then show "far_apart (b + y) k (a + x) n" by (simp add: far_apart_def)
qed

lemma apart_same [simp]: "far_apart (a + x) n (a + y) k \<longleftrightarrow> far_apart x n y k"
  "far_apart (x + a) n (a + y) k \<longleftrightarrow> far_apart x n y k" "far_apart (a + x) n (y + a) k \<longleftrightarrow> far_apart x n y k"
  "far_apart a n (a + y) k \<longleftrightarrow> far_apart 0 n y k" "far_apart a n (y + a) k \<longleftrightarrow> far_apart 0 n y k"
  "far_apart (a + x) n a k \<longleftrightarrow> far_apart x n 0 k" "far_apart (x + a) n a k \<longleftrightarrow> far_apart x n 0 k"
  by (simp_all add: far_apart_def)

lemma apart_num [simp]:
  "far_apart (numeral x) n (numeral y) k \<longleftrightarrow> n \<le> numeral y - numeral x \<and> k \<le> numeral x - numeral y"
  "far_apart 0 n (numeral y) k \<longleftrightarrow> n \<le> numeral y \<and> k \<le> - numeral y"
  "far_apart (numeral x) n 0 k \<longleftrightarrow> n \<le> - numeral x \<and> k \<le> numeral x"
  by (simp_all add: far_apart_def)

section \<open>The device\<close>

text \<open>
  What the device makes of its log (the virtio specification, legacy interface, and the device of QEMU where the specification leaves it
  open). It keeps its status and, for queue 0, the size, the alignment of the used ring and the frame number of the first page. Writing status 0
  resets it. The address of the queue is the frame number times the page size register, which is one byte when the driver never writes
  it; the alignment stays at its default of 4096 when 0 is written.
\<close>

record vio_regs =
  rg_status :: u32
  rg_page_size :: u32
  rg_sel :: u32
  rg_num :: u32
  rg_align :: u32
  rg_pfn :: u32

definition vio_reset :: vio_regs where
  "vio_reset = \<lparr>rg_status = 0, rg_page_size = 1, rg_sel = 0, rg_num = 0, rg_align = 4096, rg_pfn = 0\<rparr>"

fun vio_regs_step :: "vio_event \<Rightarrow> vio_regs \<Rightarrow> vio_regs" where
  "vio_regs_step (Reg_write offset v) r =
     (if offset = VIRTIO_MMIO_STATUS then (if v = 0 then vio_reset else r\<lparr>rg_status := v\<rparr>)
      else if offset = 0x028 then r\<lparr>rg_page_size := v\<rparr>
      else if offset = VIRTIO_MMIO_QUEUE_SEL then r\<lparr>rg_sel := v\<rparr>
      else if rg_sel r \<noteq> 0 then r
      else if offset = VIRTIO_MMIO_QUEUE_NUM then r\<lparr>rg_num := v\<rparr>
      else if offset = VIRTIO_MMIO_QUEUE_ALIGN then (if v = 0 then r else r\<lparr>rg_align := v\<rparr>)
      else if offset = VIRTIO_MMIO_QUEUE_PFN then r\<lparr>rg_pfn := v\<rparr>
      else r)"
| "vio_regs_step e r = r"

definition vio_regs_of :: "vio_event list \<Rightarrow> vio_regs" where
  "vio_regs_of h = fold vio_regs_step h vio_reset"

text \<open>The parts of the queue: descriptors and available ring are adjacent, the used ring is aligned.\<close>

definition rg_queue :: "vio_regs \<Rightarrow> addr" where
  "rg_queue r = rg_pfn r * rg_page_size r"

definition rg_used :: "vio_regs \<Rightarrow> addr" where
  "rg_used r = (rg_queue r + 16 * rg_num r + 2 * (3 + rg_num r) + (rg_align r - 1)) AND NOT (rg_align r - 1)"

text \<open>
  The driver has just notified queue 0 of a device that is in operation (bit 4 of the status, \<^verbatim>\<open>DRIVER_OK\<close> of the specification) and
  knows its queue.
\<close>

definition vio_notified :: "vio_event list \<Rightarrow> bool" where
  "vio_notified h \<longleftrightarrow> h \<noteq> [] \<and> last h = Reg_write VIRTIO_MMIO_QUEUE_NOTIFY 0 \<and>
     rg_status (vio_regs_of h) AND 4 \<noteq> 0 \<and> rg_pfn (vio_regs_of h) \<noteq> 0 \<and> rg_num (vio_regs_of h) \<noteq> 0"

text \<open>
  How the device serves a request: it
  takes the newest entry of the available ring and follows the chain of three descriptors from there,
  reads the type and the sector from the first, moves the sector, stores status 0, puts the head of the chain and the number of bytes written
  into the next element of the used ring and then counts the element.
\<close>

definition desc_next :: "addr \<Rightarrow> (addr \<Rightarrow> u8) \<Rightarrow> addr \<Rightarrow> addr" where
  "desc_next q m d = q + 16 * ucast (load16 m (d + 14))"

definition blk_device :: "addr \<Rightarrow> u32 \<Rightarrow> addr \<Rightarrow> (u64 \<Rightarrow> u32 \<Rightarrow> u8) \<Rightarrow> (addr \<Rightarrow> u8) \<Rightarrow> (addr \<Rightarrow> u8)" where
  "blk_device q num used disk m =
     (let avail = q + 16 * num;
          newest = (load16 m (avail + 2) - 1) mod ucast num;
          head = load16 m (avail + (4 + 2 * ucast newest));
          d0 = q + 16 * ucast head;
          d1 = desc_next q m d0;
          d2 = desc_next q m d1;
          hdr = load32 m d0; data = load32 m d1; status = load32 m d2;
          sector = ucast (load32 m (hdr + 8)) OR push_bit 32 (ucast (load32 m (hdr + 12)));
          reads = (load32 m hdr = VIRTIO_BLK_T_IN \<and> load16 m (d1 + 12) AND VIRTQ_DESC_F_WRITE \<noteq> 0);
          m1 = (if reads then (\<lambda>a. if a - data < load32 m (d1 + 8) then disk sector (a - data) else m a) else m);
          m2 = m1(status := 0);
          idx = load16 m2 (used + 2);
          elem = used + (4 + 8 * ucast (idx mod ucast num));
          m3 = store32 (store32 m2 elem (ucast head)) (elem + 4) (if reads then load32 m (d1 + 8) + 1 else 1)
      in store16 m3 (used + 2) (idx + 1))"

abbreviation vio_serve :: "vio_event list \<Rightarrow> (u64 \<Rightarrow> u32 \<Rightarrow> u8) \<Rightarrow> (addr \<Rightarrow> u8) \<Rightarrow> (addr \<Rightarrow> u8)" where
  "vio_serve h disk \<equiv> blk_device (rg_queue (vio_regs_of h)) (rg_num (vio_regs_of h)) (rg_used (vio_regs_of h)) disk"

text \<open>
  A disk: it serves every notification at some later look of the driver, in the queue that its registers describe, leaves memory alone until then, and
  does nothing unless it is notified.
\<close>

definition disk_serves :: "'a virtio_scheme \<Rightarrow> (u64 \<Rightarrow> u32 \<Rightarrow> u8) \<Rightarrow> bool" where
  "disk_serves s disk \<longleftrightarrow>
     (\<forall>h. vio_notified h \<longrightarrow> (\<exists>k. (\<forall>j < k. vio_dma s (h @ replicate j Look) = (\<lambda>m. m)) \<and>
        vio_dma s (h @ replicate k Look) = vio_serve h disk)) \<and>
     (\<forall>h. (\<forall>g j. vio_notified g \<longrightarrow> h \<noteq> g @ replicate j Look) \<longrightarrow> vio_dma s h = (\<lambda>m. m))"

text \<open>What the device has been told: queue 0 has 16 entries and lies at \<open>vq\<close>, with its used ring on the second page.\<close>

definition queue_told :: "vio_event list \<Rightarrow> addr \<Rightarrow> bool" where
  "queue_told h vq \<longleftrightarrow> rg_status (vio_regs_of h) AND 4 \<noteq> 0 \<and> rg_pfn (vio_regs_of h) \<noteq> 0 \<and> rg_num (vio_regs_of h) = 16 \<and>
     rg_queue (vio_regs_of h) = vq \<and> rg_used (vio_regs_of h) = vq + 4096"

lemma vio_regs_of_snoc: "vio_regs_of (h @ [e]) = vio_regs_step e (vio_regs_of h)"
  by (simp add: vio_regs_of_def)

lemmas vio_register_defs = VIRTIO_MMIO_STATUS_def VIRTIO_MMIO_QUEUE_SEL_def VIRTIO_MMIO_QUEUE_NUM_def VIRTIO_MMIO_QUEUE_ALIGN_def
  VIRTIO_MMIO_QUEUE_PFN_def VIRTIO_MMIO_QUEUE_NOTIFY_def

lemma vio_regs_of_notify [simp]:
  "vio_regs_of (h @ [Reg_write VIRTIO_MMIO_QUEUE_NOTIFY v]) = vio_regs_of h" "vio_regs_of (h @ replicate k Look) = vio_regs_of h"
proof -
  show "vio_regs_of (h @ [Reg_write VIRTIO_MMIO_QUEUE_NOTIFY v]) = vio_regs_of h"
    by (simp add: vio_regs_of_snoc vio_register_defs)
  show "vio_regs_of (h @ replicate k Look) = vio_regs_of h"
    unfolding vio_regs_of_def fold_append comp_def by (induction k) simp_all
qed

lemma disk_serves_notified:
  assumes "disk_serves s disk" "queue_told h vq"
  defines "g \<equiv> h @ [Reg_write VIRTIO_MMIO_QUEUE_NOTIFY 0]"
  shows "\<exists>k. (\<forall>j < k. vio_dma s (g @ replicate j Look) = (\<lambda>m. m)) \<and> vio_dma s (g @ replicate k Look) = blk_device vq 16 (vq + 4096) disk"
proof -
  have "vio_notified g" "vio_serve g disk = blk_device vq 16 (vq + 4096) disk"
    using assms(2) by (simp_all add: g_def vio_notified_def queue_told_def)
  then show ?thesis using assms(1) unfolding disk_serves_def by metis
qed

section \<open>Reading a sector\<close>

text \<open>A queue at rest: the driver and the device agree on the number of finished requests.\<close>

definition vq_idle :: "(addr \<Rightarrow> u8) \<Rightarrow> addr \<Rightarrow> bool" where
  "vq_idle m vq \<longleftrightarrow> load32 m (vq + vq_queue_index) = 0 \<and> load32 m (vq + vq_used_index_ptr) = vq + vq_used_index \<and>
     load16 m (vq + vq_last_used_index) = load16 m (vq + vq_used_index)"

lemmas vq_offsets = vq_avail_index_def vq_avail_ring_def vq_used_index_def vq_queue_index_def vq_used_index_ptr_def
  vq_last_used_index_def req_sector_def req_data_def req_status_def

text \<open>Memory when the device is told of a read request.\<close>

definition request_mem :: "addr \<Rightarrow> addr \<Rightarrow> u32 \<Rightarrow> (addr \<Rightarrow> u8) \<Rightarrow> (addr \<Rightarrow> u8)" where
  "request_mem vq req sector m =
     (let m = store32 (store64 m (req + 8) (ucast sector)) req VIRTIO_BLK_T_IN;
          m = store16 (store16 (store32 (store64 m vq (ucast req)) (vq + 8) 16) (vq + 12) VIRTQ_DESC_F_NEXT) (vq + 14) 1;
          m = store16 (store16 (store32 (store64 m (vq + 16) (ucast (req + 16))) (vq + 24) 512) (vq + 28) 3) (vq + 30) 2;
          m = store16 (store32 (store64 m (vq + 32) (ucast (req + 528))) (vq + 40) 1) (vq + 44) VIRTQ_DESC_F_WRITE;
          m = store16 m (vq + (260 + 2 * ucast (load16 m (vq + 258) mod VIRTQ_ENTRY_NUM))) 0;
          m = store16 m (vq + 258) (load16 m (vq + 258) + 1)
      in store16 m (vq + 4236) (load16 m (vq + 4236) + 1))"

lemma ring_apart:
  fixes i :: u16
  assumes "0 < n" "n \<le> 260" "y \<le> 260 - n \<or> 292 \<le> y" "y \<le> 8000"
  shows "far_apart (260 + 2 * ucast (i mod VIRTQ_ENTRY_NUM)) 2 y n" "far_apart y n (260 + 2 * ucast (i mod VIRTQ_ENTRY_NUM)) 2"
proof -
  define r :: u32 where "r = ucast (i mod VIRTQ_ENTRY_NUM)"
  have "i mod VIRTQ_ENTRY_NUM < 16" by (simp add: VIRTQ_ENTRY_NUM_def word_mod_less_divisor)
  then have "r < 16" unfolding r_def by (simp add: word_less_nat_alt unsigned_ucast_eq unsigned_take_bit_eq take_bit_nat_eq_self)
  then have "far_apart (260 + 2 * r) 2 y n"
    using assms unfolding far_apart_def word_le_nat_alt word_less_nat_alt
    by (simp add: unat_sub_if_size unat_word_ariths word_size, auto)
  then show "far_apart (260 + 2 * ucast (i mod VIRTQ_ENTRY_NUM)) 2 y n" "far_apart y n (260 + 2 * ucast (i mod VIRTQ_ENTRY_NUM)) 2"
    by (simp_all add: r_def far_apart_def)
qed

lemma ring_bound:
  fixes i :: u16
  shows "260 + 2 * ucast (i mod VIRTQ_ENTRY_NUM) < (8192 :: u32)" "2 \<le> 8192 - (260 + 2 * ucast (i mod VIRTQ_ENTRY_NUM) :: u32)"
proof -
  have "i mod VIRTQ_ENTRY_NUM < 16" by (simp add: VIRTQ_ENTRY_NUM_def word_mod_less_divisor)
  then have "ucast (i mod VIRTQ_ENTRY_NUM) < (16 :: u32)"
    by (simp add: word_less_nat_alt unsigned_ucast_eq unsigned_take_bit_eq take_bit_nat_eq_self)
  then show "260 + 2 * ucast (i mod VIRTQ_ENTRY_NUM) < (8192 :: u32)" "2 \<le> 8192 - (260 + 2 * ucast (i mod VIRTQ_ENTRY_NUM) :: u32)"
    unfolding word_le_nat_alt word_less_nat_alt by (simp_all add: unat_sub_if' unat_word_ariths)
qed

lemma request_mem_reads:
  assumes "far_apart vq 8192 req 4096"
  shows "load32 (request_mem vq req sector m) vq = req"
    "load32 (request_mem vq req sector m) (vq + 16) = req + 16"
    "load32 (request_mem vq req sector m) (vq + 24) = 512"
    "load32 (request_mem vq req sector m) (vq + 32) = req + 528"
    "load16 (request_mem vq req sector m) (vq + 14) = 1"
    "load16 (request_mem vq req sector m) (vq + 28) = 3"
    "load16 (request_mem vq req sector m) (vq + 30) = 2"
    "load32 (request_mem vq req sector m) req = VIRTIO_BLK_T_IN"
    "load32 (request_mem vq req sector m) (req + 8) = sector"
    "load32 (request_mem vq req sector m) (req + 12) = 0"
    "load16 (request_mem vq req sector m) (vq + 258) = load16 m (vq + 258) + 1"
    "load16 (request_mem vq req sector m) (vq + (260 + 2 * ucast (load16 m (vq + 258) mod VIRTQ_ENTRY_NUM))) = 0"
    "load16 (request_mem vq req sector m) (vq + 4098) = load16 m (vq + 4098)"
    "load16 (request_mem vq req sector m) (vq + 4236) = load16 m (vq + 4236) + 1"
    "load32 (request_mem vq req sector m) (vq + 4232) = load32 m (vq + 4232)"
    "load32 (request_mem vq req sector m) (vq + 4228) = load32 m (vq + 4228)"
proof -
  note p = apart_parts[OF assms] apart_parts[OF assms, of 0, simplified] apart_parts[OF assms, of _ _ 0, simplified]
    apart_parts[OF assms, of 0 _ 0, simplified]
  note p' = p[unfolded add.commute[of req]] p[unfolded add.commute[of vq]] p[unfolded add.commute[of vq] add.commute[of req]]
  have r: "far_apart (vq + (260 + 2 * ucast (i mod VIRTQ_ENTRY_NUM))) 2 (req + y) k" if "y < 4096" "k \<le> 4096 - y" for i :: u16 and y k
    using apart_parts(1)[OF assms ring_bound] that by blast
  note r' = r[of 0, simplified] r
  note d = request_mem_def Let_def store64_def load_store_apart p p' ring_apart r'
  show "load32 (request_mem vq req sector m) vq = req" by (simp add: d)
  show "load32 (request_mem vq req sector m) (vq + 16) = req + 16" by (simp add: d)
  show "load32 (request_mem vq req sector m) (vq + 24) = 512" by (simp add: d)
  show "load32 (request_mem vq req sector m) (vq + 32) = req + 528" by (simp add: d)
  show "load16 (request_mem vq req sector m) (vq + 14) = 1" by (simp add: d)
  show "load16 (request_mem vq req sector m) (vq + 28) = 3" by (simp add: d)
  show "load16 (request_mem vq req sector m) (vq + 30) = 2" by (simp add: d)
  show "load32 (request_mem vq req sector m) req = VIRTIO_BLK_T_IN" by (simp add: d)
  show "load32 (request_mem vq req sector m) (req + 8) = sector" by (simp add: d)
  show "load32 (request_mem vq req sector m) (req + 12) = 0" by (simp add: d) (simp add: add.commute)
  show "load16 (request_mem vq req sector m) (vq + 258) = load16 m (vq + 258) + 1" by (simp add: d)
  show "load16 (request_mem vq req sector m) (vq + (260 + 2 * ucast (load16 m (vq + 258) mod VIRTQ_ENTRY_NUM))) = 0" by (simp add: d)
  show "load16 (request_mem vq req sector m) (vq + 4098) = load16 m (vq + 4098)" by (simp add: d)
  show "load16 (request_mem vq req sector m) (vq + 4236) = load16 m (vq + 4236) + 1" by (simp add: d)
  show "load32 (request_mem vq req sector m) (vq + 4232) = load32 m (vq + 4232)" by (simp add: d)
  show "load32 (request_mem vq req sector m) (vq + 4228) = load32 m (vq + 4228)" by (simp add: d)
qed

lemma store_byte_apart:
  "far_apart a 4 b 1 \<Longrightarrow> store32 m a v b = m b" "far_apart a 2 b 1 \<Longrightarrow> store16 m a w b = m b"
  by (simp_all add: store32_def store16_def)

lemma request_mem_frame:
  assumes "far_apart vq 8192 a 1" "far_apart req 4096 a 1"
  shows "request_mem vq req sector m a = m a"
proof -
  note p = apart_parts[OF assms(1), of _ _ 0 1, simplified] apart_parts[OF assms(1), of 0 _ 0 1, simplified]
    apart_parts[OF assms(2), of _ _ 0 1, simplified] apart_parts[OF assms(2), of 0 _ 0 1, simplified]
  note p' = p[unfolded add.commute[of req]] p[unfolded add.commute[of vq]]
  have r: "far_apart (vq + (260 + 2 * ucast (i mod VIRTQ_ENTRY_NUM))) 2 a 1" for i :: u16
    using apart_parts(1)[OF assms(1) ring_bound, of 0 1] by simp
  show ?thesis by (simp add: request_mem_def Let_def store64_def store_byte_apart p p' r)
qed

lemma apart_byte: "far_apart b k (a :: addr) 1 \<Longrightarrow> \<not> a - b < k" by (auto simp: far_apart_def not_less)

text \<open>The element of the used ring that the device fills.\<close>

lemma elem_offset:
  fixes i :: u16
  defines "e \<equiv> 4100 + 8 * ucast (i mod VIRTQ_ENTRY_NUM) :: u32"
  shows "e < 8192" "8 \<le> 8192 - e" "y \<le> 4099 \<or> 4228 \<le> y \<Longrightarrow> y < 8192 \<Longrightarrow> far_apart e 8 y 1"
proof -
  have "i mod VIRTQ_ENTRY_NUM < 16" by (simp add: VIRTQ_ENTRY_NUM_def word_mod_less_divisor)
  then have "ucast (i mod VIRTQ_ENTRY_NUM) < (16 :: u32)"
    by (simp add: word_less_nat_alt unsigned_ucast_eq unsigned_take_bit_eq take_bit_nat_eq_self)
  then have e: "unat e \<le> 4220" "4100 \<le> unat e" unfolding e_def word_less_nat_alt by (simp_all add: unat_word_ariths)
  then show "e < 8192" "8 \<le> 8192 - e" unfolding word_le_nat_alt word_less_nat_alt by (simp_all add: unat_sub_if')
  show "far_apart e 8 y 1" if "y \<le> 4099 \<or> 4228 \<le> y" "y < 8192"
    using that e unfolding far_apart_def word_le_nat_alt word_less_nat_alt by (simp add: unat_sub_if_size word_size) arith
qed

lemma store_elem: "far_apart e 8 a 1 \<Longrightarrow> store32 (store32 m e v) (e + 4) w a = m a"
  using apart_parts(1)[of e 8 a 1 0 4 0 1] apart_parts(1)[of e 8 a 1 4 4 0 1] by (simp add: store_byte_apart)

lemma blk_device_bytes:
  fixes disk :: "u64 \<Rightarrow> u32 \<Rightarrow> u8" and sector :: u32 and m :: "addr \<Rightarrow> u8"
  assumes "far_apart vq 8192 req 4096"
  defines "D \<equiv> blk_device vq 16 (vq + 4096) disk (request_mem vq req sector m)"
  shows "k < 512 \<Longrightarrow> D (req + 16 + k) = disk (ucast sector) k" and "D (req + 528) = 0"
    and "load16 D (vq + 4098) = load16 m (vq + 4098) + 1" and "load16 D (vq + 4236) = load16 m (vq + 4236) + 1"
    and "load32 D (vq + 4232) = load32 m (vq + 4232)" and "load32 D (vq + 4228) = load32 m (vq + 4228)"
    and "far_apart vq 8192 a 1 \<Longrightarrow> far_apart req 4096 a 1 \<Longrightarrow> D a = m a"
proof -
  define M where "M = request_mem vq req sector m"
  note rd = request_mem_reads[OF assms(1), of sector m, folded M_def]
  have w: "(3 :: u16) AND VIRTQ_DESC_F_WRITE \<noteq> 0" by (simp add: VIRTQ_DESC_F_WRITE_def)
  have nx: "desc_next vq M vq = vq + 16" "desc_next vq M (vq + 16) = vq + 32"
    using rd by (simp_all add: desc_next_def add.assoc)
  have hd: "load16 M (vq + (260 + 2 * ucast ((load16 M (vq + 258) - 1) mod VIRTQ_ENTRY_NUM))) = 0"
    by (simp only: rd(11) add_diff_cancel_right' rd(12))
  have desc_flags: "load16 M (vq + 16 + 12) = 3" "load32 M (vq + 16 + 8) = 512" using rd by (simp_all add: add.assoc)
  define N where "N = (\<lambda>a. if a - (req + 16) < 512 then disk (ucast sector) (a - (req + 16)) else M a)(req + 528 := 0)"
  define e where "e = (4100 + 8 * ucast (load16 N (vq + 4098) mod VIRTQ_ENTRY_NUM) :: u32)"
  note eo = elem_offset[where i = "load16 N (vq + 4098)", folded e_def]
  define P where "P = store32 (store32 N (vq + e) 0) (vq + e + 4) 513"
  have off: "vq + 16 * 16 + 2 = vq + 258" "vq + 16 * 16 + (4 + x) = vq + (260 + x)" "vq + 4096 + 2 = vq + 4098" "vq + 4096 + (4 + x) = vq + (4100 + x)" for x
    by (simp_all add: add.assoc)
  have zero: "vq + 16 * 0 = vq" "ucast sector OR push_bit 32 (ucast (0 :: u32)) = (ucast sector :: u64)" "ucast (0 :: u16) = (0 :: u32)"
    "(512 :: u32) + 1 = 513" by simp_all
  have num: "ucast (16 :: u32) = VIRTQ_ENTRY_NUM" by (simp add: VIRTQ_ENTRY_NUM_def)
  have D: "D = store16 P (vq + 4098) (load16 N (vq + 4098) + 1)"
    unfolding D_def M_def[symmetric] blk_device_def Let_def off num hd zero nx rd(1,2,4,8,9,10) desc_flags
    by (simp only: w simp_thms if_True zero N_def[symmetric] e_def[symmetric] P_def)
  have Nvq: "N (vq + y) = M (vq + y)" if "y < 8192" for y
  proof -
    have "1 \<le> 8192 - y" using that by uint_arith
    then have "far_apart (req + 16) 512 (vq + y) 1" "far_apart (req + 528) 1 (vq + y) 1"
      using apart_parts(2)[OF assms(1), of y 1 16 512] apart_parts(2)[OF assms(1), of y 1 528 1] that by simp_all
    then show ?thesis using apart_byte[of "req + 16" 512 "vq + y"] apart_neqs(4)[of "req + 528" 1 "vq + y" 1] by (simp add: N_def)
  qed
  have Pvq: "P (vq + y) = M (vq + y)" if "y \<le> 4099 \<or> 4228 \<le> y" "y < 8192" for y
    unfolding P_def using store_elem[of "vq + e" "vq + y"] eo(3)[OF that] Nvq[OF that(2)] by simp
  have Preq: "P (req + y) = N (req + y)" if "y < 4096" "1 \<le> 4096 - y" for y
    unfolding P_def by (rule store_elem, rule apart_parts(1)[OF assms(1) eo(1,2) that])
  have NM: "load16 N (vq + 4098) = load16 m (vq + 4098)"
    using Nvq[of 4098] Nvq[of 4099] rd(13) by (simp add: load16_def add.assoc)
  have PM: "load16 P (vq + 4236) = load16 m (vq + 4236) + 1" "load32 P (vq + 4232) = load32 m (vq + 4232)" "load32 P (vq + 4228) = load32 m (vq + 4228)"
    using Pvq[of 4228] Pvq[of 4229] Pvq[of 4230] Pvq[of 4231] Pvq[of 4236] Pvq[of 4237] Pvq[of 4232] Pvq[of 4233] Pvq[of 4234] Pvq[of 4235]
      rd(14-16) by (simp_all add: load16_def load32_def add.assoc)
  show "D (req + 16 + k) = disk (ucast sector) k" if "k < 512"
  proof -
    have "16 + k < 4096" "1 \<le> 4096 - (16 + k)" using that by uint_arith+
    moreover have "k \<noteq> 512" using that by auto
    ultimately show ?thesis using apart_parts(1)[OF assms(1), of 4098 2 "16 + k" 1] that Preq[of "16 + k"]
      by (simp add: D store_byte_apart N_def add.assoc)
  qed
  show "D (req + 528) = 0" using apart_parts(1)[OF assms(1), of 4098 2 528 1] Preq[of 528] by (simp add: D store_byte_apart N_def)
  show "load16 D (vq + 4098) = load16 m (vq + 4098) + 1" by (simp add: D NM)
  show "load16 D (vq + 4236) = load16 m (vq + 4236) + 1" by (simp add: D PM load_store_apart)
  show "load32 D (vq + 4232) = load32 m (vq + 4232)" "load32 D (vq + 4228) = load32 m (vq + 4228)" by (simp_all add: D PM load_store_apart)
  show "D a = m a" if "far_apart vq 8192 a 1" "far_apart req 4096 a 1"
  proof -
    have "far_apart (vq + 4098) 2 a 1" "far_apart (vq + e) 8 a 1"
      using apart_parts(1)[OF that(1), of 4098 2 0 1] apart_parts(1)[OF that(1) eo(1,2), of 0 1] by simp_all
    moreover have "far_apart (req + 16) 512 a 1" "far_apart (req + 528) 1 a 1"
      using apart_parts(1)[OF that(2), of 16 512 0 1] apart_parts(1)[OF that(2), of 528 1 0 1] by simp_all
    ultimately show ?thesis using apart_byte[of "req + 16" 512 a] apart_neqs(4)[of "req + 528" 1 a 1]
      by (simp add: D store_byte_apart P_def store_elem N_def M_def request_mem_frame[OF that])
  qed
qed

lemma poll_loop:
  assumes "\<forall>j < k. vio_dma s (vio_log s @ replicate j Look) = (\<lambda>m. m)" "virtq_is_busy vq (mem s)"
    "\<not> virtq_is_busy vq (vio_dma s (vio_log s @ replicate k Look) (mem s))"
  shows "kwhile (\<lambda>s. virtq_is_busy vq (mem s)) (\<lambda>s. Inr (vio_poll s)) (vio_poll s)
    = Inr (s\<lparr>mem := vio_dma s (vio_log s @ replicate k Look) (mem s), vio_log := vio_log s @ replicate (Suc k) Look\<rparr>)"
  using assms
proof (induction k arbitrary: s)
  case 0
  then show ?case by (simp add: vio_poll_def)
next
  case (Suc k)
  have "vio_dma s (vio_log s) = (\<lambda>m. m)" using Suc.prems(1)[rule_format, of 0] by simp
  then have m: "mem (vio_poll s) = mem s" by (simp add: vio_poll_def)
  have log: "vio_dma (vio_poll s) (vio_log (vio_poll s) @ replicate j Look) = vio_dma s (vio_log s @ replicate (Suc j) Look)" for j
    by (simp add: vio_poll_def)
  have "\<forall>j < k. vio_dma (vio_poll s) (vio_log (vio_poll s) @ replicate j Look) = (\<lambda>m. m)"
    unfolding log using Suc.prems(1) by (metis Suc_less_eq)
  from Suc.IH[OF this] have "kwhile (\<lambda>s. virtq_is_busy vq (mem s)) (\<lambda>s. Inr (vio_poll s)) (vio_poll (vio_poll s))
    = Inr ((vio_poll s)\<lparr>mem := vio_dma s (vio_log s @ replicate (Suc k) Look) (mem s), vio_log := vio_log s @ replicate (Suc (Suc k)) Look\<rparr>)"
    using Suc.prems(2,3) m unfolding log by (simp add: vio_poll_def)
  then show ?case using m Suc.prems(2) by (subst kwhile_step) (simp_all add: vio_poll_def)
qed

lemma virtio_rw_starts:
  assumes "ucast sector < blk_capacity s div 512" "far_apart (blk_request_vq s) 8192 (blk_req_paddr s) 4096"
  defines "vq \<equiv> blk_request_vq s" and "req \<equiv> blk_req_paddr s"
  obtains t where
    "virtio_rw buf sector False s = kbind (kwhile (\<lambda>s. virtq_is_busy vq (mem s)) (\<lambda>s. Inr (vio_poll s)) (vio_poll t))
       (\<lambda>s. if mem s (req + 528) \<noteq> 0 then
             kbind (kprintf (''virtio: failed to read/write sector=%d, status=%d'' @ [CHR 0x0A])
                      [VInt sector, VInt (ucast (mem s (req + 528)))] s) (\<lambda>(_, s). Inr s)
           else Inr (s\<lparr>mem := memcpy buf (req + 16) 512 (mem s)\<rparr>))"
    "mem t = request_mem vq req sector (mem s)"
    "t = s\<lparr>mem := mem t, vio_log := vio_log s @ [Reg_write VIRTIO_MMIO_QUEUE_NOTIFY (load32 (mem s) (vq + 4228))]\<rparr>"
proof -
  define u where "u = set_desc vq 2 (ucast (req + 528)) 1 VIRTQ_DESC_F_WRITE
    (set_desc_next vq 1 2 (set_desc vq 1 (ucast (req + 16)) 512 3
    (set_desc_next vq 0 1 (set_desc vq 0 (ucast req) 16 VIRTQ_DESC_F_NEXT
    (s\<lparr>mem := store32 (store64 (mem s) (req + 8) (ucast sector)) req VIRTIO_BLK_T_IN\<rparr>)))))"
  define m where "m = store16 (mem u) (vq + (260 + 2 * ucast (load16 (mem u) (vq + 258) mod VIRTQ_ENTRY_NUM))) 0"
  define n where "n = store16 m (vq + 258) (load16 m (vq + 258) + 1)"
  define t where "t = virtq_kick vq 0 u"
  have t: "t = u\<lparr>mem := store16 n (vq + 4236) (load16 n (vq + 4236) + 1), vio_log := vio_log u @ [Reg_write VIRTIO_MMIO_QUEUE_NOTIFY (load32 n (vq + 4228))]\<rparr>"
    unfolding t_def n_def m_def virtq_kick_def Let_def vq_offsets by (simp add: virtio_reg_write32_def add.assoc)
  have us: "u = s\<lparr>mem := mem u\<rparr>" by (simp add: u_def set_desc_def set_desc_next_def Let_def)
  have mt: "mem t = request_mem vq req sector (mem s)"
    unfolding t n_def m_def u_def set_desc_def set_desc_next_def request_mem_def Let_def by (simp add: add.assoc)
  moreover have "load32 n (vq + 4228) = load32 (mem t) (vq + 4228)" by (simp add: t load_store_apart)
  then have "load32 n (vq + 4228) = load32 (mem s) (vq + 4228)"
    using request_mem_reads(16)[OF assms(2), folded vq_def req_def] by (simp add: mt)
  then have "t = s\<lparr>mem := mem t, vio_log := vio_log s @ [Reg_write VIRTIO_MMIO_QUEUE_NOTIFY (load32 (mem s) (vq + 4228))]\<rparr>"
    by (subst t, subst us) (simp add: t, subst us, simp)
  moreover have "\<not> blk_capacity s div 512 \<le> ucast sector" using assms(1) by simp
  then have "virtio_rw buf sector False s = kbind (kwhile (\<lambda>s. virtq_is_busy vq (mem s)) (\<lambda>s. Inr (vio_poll s)) (vio_poll t))
       (\<lambda>s. if mem s (req + 528) \<noteq> 0 then
             kbind (kprintf (''virtio: failed to read/write sector=%d, status=%d'' @ [CHR 0x0A])
                      [VInt sector, VInt (ucast (mem s (req + 528)))] s) (\<lambda>(_, s). Inr s)
           else Inr (s\<lparr>mem := memcpy buf (req + 16) 512 (mem s)\<rparr>))"
    unfolding virtio_rw_def t_def u_def Let_def vq_def req_def
    by (simp add: SECTOR_SIZE_def req_sector_def req_data_def req_status_def VIRTQ_DESC_F_NEXT_def VIRTQ_DESC_F_WRITE_def
      cong: if_cong)
  ultimately show thesis by (intro that[of t])
qed

definition request_ready :: "'a virtio_scheme \<Rightarrow> addr \<Rightarrow> bool" where
  "request_ready s buf \<longleftrightarrow> queue_told (vio_log s) (blk_request_vq s) \<and> far_apart (blk_request_vq s) 8192 (blk_req_paddr s) 4096 \<and> vq_idle (mem s) (blk_request_vq s) \<and>
     far_apart (blk_request_vq s) 8192 buf 512 \<and> far_apart (blk_req_paddr s) 4096 buf 512"

lemma virtio_rw_reads:
  assumes "request_ready s buf" "disk_serves s disk" "ucast sector < blk_capacity s div 512"
  defines "vq \<equiv> blk_request_vq s" and "req \<equiv> blk_req_paddr s"
  shows "\<exists>s'. virtio_rw buf sector False s = Inr s' \<and> (\<forall>k < 512. mem s' (buf + k) = disk (ucast sector) k) \<and>
    s' = s\<lparr>mem := mem s', vio_log := vio_log s'\<rparr> \<and>
    vq_idle (mem s') vq \<and> queue_told (vio_log s') vq \<and>
    (\<forall>a. far_apart vq 8192 a 1 \<longrightarrow> far_apart req 4096 a 1 \<longrightarrow> far_apart buf 512 a 1 \<longrightarrow> mem s' a = mem s a)"
proof -
  have ap: "far_apart vq 8192 req 4096" and idle: "vq_idle (mem s) vq" and bv: "far_apart vq 8192 buf 512" and br: "far_apart req 4096 buf 512"
    and told: "queue_told (vio_log s) vq" using assms(1) by (simp_all add: request_ready_def vq_def req_def)
  have i: "load32 (mem s) (vq + 4228) = 0" "load32 (mem s) (vq + 4232) = vq + 4098" "load16 (mem s) (vq + 4236) = load16 (mem s) (vq + 4098)"
    using idle by (simp_all add: vq_idle_def vq_offsets)
  let ?g = "vio_log s @ [Reg_write VIRTIO_MMIO_QUEUE_NOTIFY 0]"
  from disk_serves_notified[OF assms(2) told] obtain n where n: "\<forall>j < n. vio_dma s (?g @ replicate j Look) = (\<lambda>m. m)"
    "vio_dma s (?g @ replicate n Look) = blk_device vq 16 (vq + 4096) disk" by blast
  from virtio_rw_starts[OF assms(3) ap[unfolded vq_def req_def], of buf, folded vq_def req_def] i(1) obtain t where
    run: "virtio_rw buf sector False s = kbind (kwhile (\<lambda>s. virtq_is_busy vq (mem s)) (\<lambda>s. Inr (vio_poll s)) (vio_poll t))
       (\<lambda>s. if mem s (req + 528) \<noteq> 0 then
             kbind (kprintf (''virtio: failed to read/write sector=%d, status=%d'' @ [CHR 0x0A])
                      [VInt sector, VInt (ucast (mem s (req + 528)))] s) (\<lambda>(_, s). Inr s)
           else Inr (s\<lparr>mem := memcpy buf (req + 16) 512 (mem s)\<rparr>))" and
    t: "mem t = request_mem vq req sector (mem s)" "t = s\<lparr>mem := mem t, vio_log := ?g\<rparr>" by auto
  have td: "vio_dma t = vio_dma s" "vio_log t = ?g" by (subst t(2), simp)+
  define D where "D = blk_device vq 16 (vq + 4096) disk (mem t)"
  note bytes = blk_device_bytes[OF ap, where disk = disk and sector = sector and m = "mem s", folded t(1), folded D_def]
  have busy: "virtq_is_busy vq (mem t)" and dn: "\<not> virtq_is_busy vq D"
    using request_mem_reads(13-15)[OF ap, of sector "mem s", folded t(1)] bytes(3-5) i
    by (simp_all add: virtq_is_busy_def vq_offsets)
  define u where "u = t\<lparr>mem := memcpy buf (req + 16) 512 D, vio_log := ?g @ replicate (Suc n) Look\<rparr>"
  have "virtio_rw buf sector False s = Inr u"
    using poll_loop[of n t vq] n busy dn bytes(2) unfolding run td by (simp add: D_def u_def)
  moreover have cp: "mem u a = (if a - buf < 512 then D (req + 16 + (a - buf)) else D a)" for a
  proof -
    have "disjoint_regions buf (req + 16) 512"
      using apart_parts[OF br, of 16 512 0 512] by (simp add: disjoint_regions_def far_apart_def)
    then show ?thesis by (simp add: u_def memcpy_apply)
  qed
  moreover have "u = s\<lparr>mem := mem u, vio_log := vio_log u\<rparr>"
    by (subst u_def, subst t(2)) (simp add: u_def)
  moreover have "queue_told (vio_log u) vq" unfolding u_def using told vio_regs_of_notify(2)[of ?g "Suc n"] by (simp add: queue_told_def)
  moreover have "vq_idle (mem u) vq"
  proof -
    have "mem u (vq + y) = D (vq + y)" if "y < 8192" for y
    proof -
      have "1 \<le> 8192 - y" using that by uint_arith
      then have "far_apart buf 512 (vq + y) 1" using apart_parts(2)[OF bv, of y 1 0 512] that by simp
      then show ?thesis using apart_byte[of buf 512 "vq + y"] by (simp add: cp)
    qed
    from this[of 4098] this[of 4099] this[of 4236] this[of 4237] this[of 4232] this[of 4233] this[of 4234] this[of 4235]
      this[of 4228] this[of 4229] this[of 4230] this[of 4231]
    have "load16 (mem u) (vq + 4098) = load16 D (vq + 4098)" "load16 (mem u) (vq + 4236) = load16 D (vq + 4236)"
      "load32 (mem u) (vq + 4232) = load32 D (vq + 4232)" "load32 (mem u) (vq + 4228) = load32 D (vq + 4228)"
      by (simp_all add: load16_def load32_def add.assoc)
    then show ?thesis using bytes(3-6) i by (simp add: vq_idle_def vq_offsets)
  qed
  moreover have "mem u a = mem s a" if "far_apart vq 8192 a 1" "far_apart req 4096 a 1" "far_apart buf 512 a 1" for a
    using bytes(7)[OF that(1,2)] apart_byte[OF that(3)] by (simp add: cp)
  moreover have "mem u (buf + k) = disk (ucast sector) k" if "k < 512" for k
    using that bytes(1) by (simp add: cp)
  ultimately show ?thesis by blast
qed

section \<open>Property\<close>

text \<open>A device that lets one look pass and then answers in the queue it was told of.\<close>

definition slow_disk :: "(u64 \<Rightarrow> u32 \<Rightarrow> u8) \<Rightarrow> vio_event list \<Rightarrow> (addr \<Rightarrow> u8) \<Rightarrow> (addr \<Rightarrow> u8)" where
  "slow_disk disk h = (if h \<noteq> [] \<and> last h = Look \<and> vio_notified (butlast h) then vio_serve (butlast h) disk else (\<lambda>m. m))"

lemma slow_disk_serves:
  assumes "vio_dma s = slow_disk disk"
  shows "disk_serves s disk"
  unfolding disk_serves_def
proof (intro conjI allI impI)
  fix h assume h: "vio_notified h"
  then have "last h \<noteq> Look" by (auto simp: vio_notified_def)
  then have "vio_dma s h = (\<lambda>m. m)" by (simp add: assms slow_disk_def)
  moreover have "vio_dma s (h @ [Look]) = vio_serve h disk" using h by (simp add: assms slow_disk_def)
  ultimately show "\<exists>k. (\<forall>j < k. vio_dma s (h @ replicate j Look) = (\<lambda>m. m)) \<and> vio_dma s (h @ replicate k Look) = vio_serve h disk"
    by (intro exI[of _ 1]) simp
next
  fix h assume h: "\<forall>g j. vio_notified g \<longrightarrow> h \<noteq> g @ replicate j Look"
  have "\<not> vio_notified (butlast h)" if "h \<noteq> []" "last h = Look"
    using h[rule_format, of "butlast h" 1] append_butlast_last_id[OF that(1)] that(2) by auto
  then show "vio_dma s h = (\<lambda>m. m)" by (auto simp: assms slow_disk_def)
qed

text \<open>The log of a driver that has set up its queue at \<open>vq\<close>.\<close>

definition setup_log :: "addr \<Rightarrow> vio_event list" where
  "setup_log vq = [Reg_write VIRTIO_MMIO_STATUS 0, Reg_write VIRTIO_MMIO_STATUS 7, Reg_write VIRTIO_MMIO_QUEUE_SEL 0,
     Reg_write VIRTIO_MMIO_QUEUE_NUM 16, Reg_write VIRTIO_MMIO_QUEUE_ALIGN 0, Reg_write VIRTIO_MMIO_QUEUE_PFN vq]"

text \<open>A driver at rest, and a disk of two sectors of given bytes.\<close>

definition two_sectors :: "u64 \<Rightarrow> u32 \<Rightarrow> u8" where
  "two_sectors sector k = ucast k + ucast sector"

definition virtio_static :: virtio where
  "virtio_static = plic.extend trap_static (virtio.fields (\<lambda>_ _. 0) 2 (slow_disk two_sectors) (setup_log 0x80100000) 0x80100000 0x80102000 1024)
     \<lparr>mem := store32 (\<lambda>_. 0) (0x80100000 + 4232) (0x80100000 + 4098)\<rparr>"

lemma virtio_static_simps [simp]:
  "blk_request_vq virtio_static = 0x80100000" "blk_req_paddr virtio_static = 0x80102000" "blk_capacity virtio_static = 1024"
  "vio_dma virtio_static = slow_disk two_sectors" "vio_log virtio_static = setup_log 0x80100000"
  "mem virtio_static = store32 (\<lambda>_. 0) (0x80100000 + 4232) (0x80100000 + 4098)"
  by (simp_all add: virtio_static_def plic.defs virtio.defs)

lemma setup_log_told: "queue_told (setup_log 0x80100000) 0x80100000"
  by (simp add: queue_told_def setup_log_def vio_regs_of_def vio_reset_def rg_queue_def rg_used_def vio_register_defs)

lemma virtio_static_ready: "request_ready virtio_static 0x80200000" "disk_serves virtio_static two_sectors"
proof -
  have "vq_idle (mem virtio_static) 0x80100000"
    by (simp add: vq_idle_def vq_offsets load_store_apart) (simp add: load16_def load32_def)
  then show "request_ready virtio_static 0x80200000" by (simp add: request_ready_def setup_log_told)
  show "disk_serves virtio_static two_sectors" by (rule slow_disk_serves) simp
qed



end
