(* ===== verification/Fs_Init.thy ===== *)
theory Fs_Init
  imports Virtio Kexec_Args
begin

text \<open>
  Reading the disk at boot, \<open>filesystem_init\<close> of \<^verbatim>\<open>src/kernel/filesystem.c\<close>: the disk is a tar archive,
  whose members are copied into \<open>filesystem_files\<close>, names and sizes into the table and contents into
  kernel memory. The address of the sector buffer is a parameter of the state.
\<close>

section \<open>Definitions\<close>

record fsboot = virtio +
  fs_buffer :: addr

text \<open>Offsets in \<^verbatim>\<open>struct tar_header\<close>.\<close>

definition th_name :: u32 where "th_name = 0"
definition th_size :: u32 where "th_size = 124"

definition mem_reader :: "addr \<Rightarrow> 'a machine_scheme \<Rightarrow> reader" where
  "mem_reader a s i = Inr (mem s (a + of_nat i))"

definition mem_bytes :: "(addr \<Rightarrow> u8) \<Rightarrow> addr \<Rightarrow> nat \<Rightarrow> u8 list" where
  "mem_bytes m a n = map (\<lambda>i. m (a + of_nat i)) [0..<n]"

definition kprint_string :: "reader \<Rightarrow> 'a uart_dev_scheme \<Rightarrow> 'a uart_dev_scheme kres" where
  "kprint_string rd s =
     kbind (read_string rd) (\<lambda>str. kbind (kprintf (''%s'' @ [CHR 0x0A]) [VStr str] s) (\<lambda>(_, s). Inr s))"

text \<open>The contents of one member, sector by sector.\<close>

definition fs_copy_data ::
  "nat \<Rightarrow> u32 \<times> u32 \<times> u64 \<times> 'a fsboot_scheme \<Rightarrow> (u32 \<times> u32 \<times> u64 \<times> 'a fsboot_scheme) kres" where
  "fs_copy_data i =
     kwhile (\<lambda>(copied_data, copied_sectors, current_sector, s). copied_data < fs_size (filesystem_files s ! i))
       (\<lambda>(copied_data, copied_sectors, current_sector, s).
          kbind (virtio_rw (fs_data i s + copied_sectors * SECTOR_SIZE) (ucast current_sector) False s) (\<lambda>s.
          let current_sector = current_sector + 1;
              copied_sectors = copied_sectors + 1;
              copied_data = copied_data + SECTOR_SIZE in
          if copied_sectors = of_nat MAX_FILESIZE div SECTOR_SIZE \<and> copied_data < fs_size (filesystem_files s ! i) then
            kbind (kprint_string (name_reader i s) s) (\<lambda>s.
              kpanic ''kernel/filesystem.c'' 75 ''filesystem: File too big'' s)
          else Inr (copied_data, copied_sectors, current_sector, s)))"

text \<open>One turn of the loop over the members; the flag is the \<open>break\<close>.\<close>

definition fs_read_member ::
  "bool \<times> nat \<times> u64 \<times> 'a fsboot_scheme \<Rightarrow> (bool \<times> nat \<times> u64 \<times> 'a fsboot_scheme) kres" where
  "fs_read_member = (\<lambda>(brk, i, current_sector, s).
     kbind (virtio_rw (fs_buffer s) (ucast current_sector) False s) (\<lambda>s.
     kbind (kprint_string (mem_reader (fs_buffer s + th_name) s) s) (\<lambda>s.
     kbind (kprint_string (mem_reader (fs_buffer s + th_size) s) s) (\<lambda>s.
     if mem s (fs_buffer s + th_name) = 0 then Inr (True, i, current_sector, s)
     else
       (let data_size = oct2int (mem_bytes (mem s) (fs_buffer s + th_size) 11);
            s = s\<lparr>filesystem_files := (filesystem_files s)[i := \<lparr>fs_exists = True,
                  fs_name = mem_bytes (mem s) (fs_buffer s + th_name) 100, fs_size = data_size\<rparr>]\<rparr> in
        kbind (fs_copy_data i (0, 0, current_sector + 1, s)) (\<lambda>(_, _, current_sector, s).
          Inr (False, i + 1, current_sector, s)))))))"

definition fs_list_one :: "nat \<Rightarrow> bool \<times> 'a fsboot_scheme \<Rightarrow> (bool \<times> 'a fsboot_scheme) kres" where
  "fs_list_one i = (\<lambda>(fin, s).
     if fin \<or> \<not> fs_exists (filesystem_files s ! i) then Inr (True, s)
     else kbind (read_string (name_reader i s)) (\<lambda>str.
       kbind (kprintf (''%d: FILE NAME = %s'' @ [CHR 0x0A]) [VInt (of_nat i), VStr str] s) (\<lambda>(_, s).
       kbind (kprintf (''    FILE_SIZE = %d'' @ [CHR 0x0A]) [VInt (fs_size (filesystem_files s ! i))] s) (\<lambda>(_, s).
         Inr (False, s)))))"

definition filesystem_init :: "'a fsboot_scheme \<Rightarrow> 'a fsboot_scheme kres" where
  "filesystem_init s =
     (let sector_cnt = blk_capacity s div ucast SECTOR_SIZE in
      kbind (kwhile (\<lambda>(brk, i, current_sector, s). \<not> brk \<and> i < MAX_FS_FILES \<and> current_sector < sector_cnt)
               fs_read_member (False, 0, 0, s)) (\<lambda>(_, _, _, s).
      kbind (kfold fs_list_one [0..<MAX_FS_FILES] (False, s)) (\<lambda>(_, s). Inr s)))"

section \<open>Tar archives\<close>

text \<open>The size field of a header: eleven octal digits.\<close>

definition octal :: "nat \<Rightarrow> u8 list" where
  "octal n = map (\<lambda>i. 48 + of_nat (n div 8 ^ (10 - i) mod 8)) [0..<11]"

lemma octal_digit: "ucast (48 + of_nat (n mod 8) :: u8) = (48 + of_nat (n mod 8) :: u32)"
proof -
  have d: "n mod 8 < 8" by simp
  have "n mod 8 = 0 \<or> n mod 8 = 1 \<or> n mod 8 = 2 \<or> n mod 8 = 3 \<or> n mod 8 = 4 \<or> n mod 8 = 5 \<or> n mod 8 = 6 \<or> n mod 8 = 7"
    using d by arith
  then show ?thesis by (elim disjE) simp_all
qed

lemma oct2int_octal:
  assumes "n < 8 ^ 11"
  shows "oct2int (octal n) = of_nat n"
proof -
  have "oct2int_loop (map (\<lambda>i. 48 + of_nat (n div 8 ^ (10 - i) mod 8)) [k..<11]) (of_nat (n div 8 ^ (11 - k))) = of_nat n"
    if "k \<le> 11" for k
    using that
  proof (induction "11 - k" arbitrary: k)
    case (Suc d)
    then have k: "k < 11" by simp
    then have e: "11 - k = Suc (10 - k)" by simp
    have "n div 8 ^ (11 - k) = n div 8 ^ (10 - k) div 8" unfolding e by (simp only: power_Suc2 div_mult2_eq)
    then have "n div 8 ^ (10 - k) = n div 8 ^ (11 - k) * 8 + n div 8 ^ (10 - k) mod 8" by simp
    then have "of_nat (n div 8 ^ (11 - k)) * 8 + of_nat (n div 8 ^ (10 - k) mod 8) = (of_nat (n div 8 ^ (10 - k)) :: u32)"
      by (metis of_nat_add of_nat_mult of_nat_numeral)
    moreover have "11 - Suc k = 10 - k" using k by simp
    ultimately show ?case using Suc.hyps(1)[of "Suc k"] Suc.hyps(2) k by (simp add: upt_conv_Cons octal_digit)
  qed simp
  from this[of 0] assms show ?thesis by (simp add: oct2int_def octal_def)
qed

text \<open>How many sectors the contents of a file take.\<close>

definition sectors :: "nat \<Rightarrow> nat" where
  "sectors n = (n + 511) div 512"

lemma sectors_iff: "j < sectors n \<longleftrightarrow> 512 * j < n"
  unfolding sectors_def by arith

text \<open>
  A disk holds an archive from sector \<open>cs\<close> on: for each member a header with its name and its size and
  the contents in the sectors behind it; a zero block, the end of the disk or a full table ends it.
\<close>

definition tar_header_at :: "(u64 \<Rightarrow> u32 \<Rightarrow> u8) \<Rightarrow> nat \<Rightarrow> u8 list \<Rightarrow> nat \<Rightarrow> bool" where
  "tar_header_at disk cs name n \<longleftrightarrow> 0 \<notin> set name \<and> name \<noteq> [] \<and> length name < 100 \<and>
     (\<forall>k < length name. disk (of_nat cs) (of_nat k) = name ! k) \<and> disk (of_nat cs) (of_nat (length name)) = 0 \<and>
     (\<forall>k < 11. disk (of_nat cs) (124 + of_nat k) = octal n ! k) \<and> disk (of_nat cs) 135 = 0"

definition tar_data_at :: "(u64 \<Rightarrow> u32 \<Rightarrow> u8) \<Rightarrow> nat \<Rightarrow> u8 list \<Rightarrow> bool" where
  "tar_data_at disk cs bs \<longleftrightarrow> (\<forall>k < length bs. disk (of_nat (cs + k div 512)) (of_nat (k mod 512)) = bs ! k)"

primrec tar_at :: "(u64 \<Rightarrow> u32 \<Rightarrow> u8) \<Rightarrow> nat \<Rightarrow> nat \<Rightarrow> nat \<Rightarrow> (u8 list \<times> u8 list) list \<Rightarrow> bool" where
  "tar_at disk cnt i cs [] \<longleftrightarrow> i = MAX_FS_FILES \<or> cs = cnt \<or> (cs < cnt \<and> disk (of_nat cs) 0 = 0 \<and> disk (of_nat cs) 124 = 0)"
| "tar_at disk cnt i cs (f # fs) \<longleftrightarrow> i < MAX_FS_FILES \<and> tar_header_at disk cs (fst f) (length (snd f)) \<and>
     length (snd f) \<le> MAX_FILESIZE \<and> tar_data_at disk (Suc cs) (snd f) \<and>
     Suc cs + sectors (length (snd f)) \<le> cnt \<and> tar_at disk cnt (Suc i) (Suc cs + sectors (length (snd f))) fs"

section \<open>The setting\<close>

text \<open>The whole array of files.\<close>

definition FS_AREA :: nat where "FS_AREA = MAX_FS_FILES * (4 + 100 + MAX_FILESIZE + 4)"

definition fs_ready :: "'a fsboot_scheme \<Rightarrow> bool" where
  "fs_ready s \<longleftrightarrow> uart_live s \<and> length (filesystem_files s) = MAX_FS_FILES \<and>
     request_ready s (fs_buffer s) \<and> far_apart (blk_request_vq s) 8192 (fs_base s) (of_nat FS_AREA) \<and>
     far_apart (blk_req_paddr s) 4096 (fs_base s) (of_nat FS_AREA) \<and> far_apart (fs_buffer s) 512 (fs_base s) (of_nat FS_AREA)"

text \<open>What stays as it is while the disk is read.\<close>

definition same_setting :: "'a fsboot_scheme \<Rightarrow> 'a fsboot_scheme \<Rightarrow> bool" where
  "same_setting s t \<longleftrightarrow> t = s\<lparr>mem := mem t, lsr_pos := lsr_pos t, uart_writes := uart_writes t, vio_log := vio_log t,
     filesystem_files := filesystem_files t\<rparr>"

lemma same_setting_refl [simp]: "same_setting s s" by (simp add: same_setting_def)

lemma same_setting_trans [trans]: "same_setting s t \<Longrightarrow> same_setting t u \<Longrightarrow> same_setting s u"
  by (cases s; cases t; cases u) (simp add: same_setting_def)

lemma same_setting_uart [simp]: "same_setting s (t\<lparr>lsr_pos := p, uart_writes := w\<rparr>) = same_setting s t"
  by (cases s; cases t) (auto simp: same_setting_def)

lemma same_setting_eqs:
  assumes "same_setting s t"
  shows "fs_data i t = fs_data i s" "disk_serves t disk = disk_serves s disk" "fs_buffer t = fs_buffer s" "blk_capacity t = blk_capacity s"
    "blk_request_vq t = blk_request_vq s" "blk_req_paddr t = blk_req_paddr s" "fs_base t = fs_base s" "lsr_at t = lsr_at s"
    "kmem_head t = kmem_head s" "procs t = procs s" "csr t = csr s" "free_ram_end t = free_ram_end s" "sym_addr t = sym_addr s"
    "kernel_pagetable t = kernel_pagetable s" "current t = current s"
  using assms by (cases s; cases t; simp add: same_setting_def fs_data_def disk_serves_def)+

text \<open>Addresses that the driver's own structures and the sector buffer do not use.\<close>

definition undriven :: "'a fsboot_scheme \<Rightarrow> addr \<Rightarrow> bool" where
  "undriven s a \<longleftrightarrow> far_apart (blk_request_vq s) 8192 a 1 \<and> far_apart (blk_req_paddr s) 4096 a 1"

lemma read_sector:
  assumes "fs_ready s" "disk_serves s disk" "cs < unat (blk_capacity s div 512)" "cs < 4294967296"
    and "far_apart (blk_request_vq s) 8192 buf 512" "far_apart (blk_req_paddr s) 4096 buf 512"
  shows "\<exists>t. virtio_rw buf (ucast (of_nat cs :: u64)) False s = Inr t \<and> fs_ready t \<and> same_setting s t \<and>
    filesystem_files t = filesystem_files s \<and> (\<forall>k < 512. mem t (buf + k) = disk (of_nat cs) k) \<and>
    (\<forall>a. undriven s a \<longrightarrow> far_apart buf 512 a 1 \<longrightarrow> mem t a = mem s a)"
proof -
  have c: "ucast (ucast (of_nat cs :: u64) :: u32) = (of_nat cs :: u64)"
    using assms(4) by (simp add: word_unat_eq_iff unsigned_ucast_eq unsigned_take_bit_eq unat_of_nat take_bit_nat_eq_self)
  have "(of_nat cs :: u64) < blk_capacity s div 512"
    using assms(3,4) by (simp add: word_less_nat_alt unat_of_nat take_bit_nat_eq_self)
  moreover have "request_ready s buf" using assms(1,5,6) by (auto simp: fs_ready_def request_ready_def)
  ultimately obtain t where t: "virtio_rw buf (ucast (of_nat cs :: u64)) False s = Inr t"
    "\<forall>k < 512. mem t (buf + k) = disk (of_nat cs) k"
    "t = s\<lparr>mem := mem t, vio_log := vio_log t\<rparr>" "vq_idle (mem t) (blk_request_vq s)" "queue_told (vio_log t) (blk_request_vq s)"
    "\<forall>a. far_apart (blk_request_vq s) 8192 a 1 \<longrightarrow> far_apart (blk_req_paddr s) 4096 a 1 \<longrightarrow> far_apart buf 512 a 1 \<longrightarrow> mem t a = mem s a"
    using virtio_rw_reads[OF _ assms(2), of buf "ucast (of_nat cs :: u64)"] unfolding c by blast
  define m where "m = mem t"
  have "same_setting s t" "filesystem_files t = filesystem_files s"
    by (subst t(3), simp add: same_setting_def)+
  moreover have "fs_ready t" using assms(1) t(4,5) by (subst t(3), simp add: fs_ready_def request_ready_def uart_live_def)
  ultimately show ?thesis using t(1,2,6) by (auto simp: undriven_def)
qed

section \<open>Layout of the file area\<close>

lemma apart_nats:
  assumes "x + n \<le> y \<or> y + k \<le> x" "x + n < 2 ^ 31" "y + k < 2 ^ 31" "0 < n" "0 < k"
  shows "far_apart (of_nat x) (of_nat n) (of_nat y) (of_nat k)"
  unfolding far_apart_def word_le_nat_alt using assms by (auto simp: unat_sub_if')

lemma apart_nats_base:
  assumes "x + n \<le> y \<or> y + k \<le> x" "x + n < 2 ^ 31" "y + k < 2 ^ 31" "0 < n" "0 < k"
  shows "far_apart (b + of_nat x) (of_nat n) (b + of_nat y) (of_nat k)"
  using apart_nats[OF assms] by simp

definition fs_offset :: "nat \<Rightarrow> nat" where
  "fs_offset i = i * (4 + 100 + MAX_FILESIZE + 4) + 104"

lemma fs_data_offset: "fs_data i s + of_nat k = fs_base s + of_nat (fs_offset i + k)"
  by (simp add: fs_data_def fs_offset_def add.assoc del: of_nat_add) (simp add: algebra_simps)

lemma fs_offset_bounds:
  assumes "i < MAX_FS_FILES"
  shows "fs_offset i + MAX_FILESIZE \<le> FS_AREA" "FS_AREA < 2 ^ 31"
    and "j < i \<Longrightarrow> fs_offset j + MAX_FILESIZE \<le> fs_offset i"
proof -
  show "fs_offset i + MAX_FILESIZE \<le> FS_AREA" "FS_AREA < 2 ^ 31"
    using assms by (simp_all add: fs_offset_def FS_AREA_def MAX_FS_FILES_def MAX_FILESIZE_def)
  show "fs_offset j + MAX_FILESIZE \<le> fs_offset i" if "j < i"
    using mult_le_mono1[of "Suc j" i "4 + 100 + MAX_FILESIZE + 4"] that by (simp add: fs_offset_def)
qed

lemma in_area:
  assumes "far_apart p N (fs_base s) (of_nat FS_AREA)" "0 < N" "i < MAX_FS_FILES" "k + l \<le> MAX_FILESIZE" "0 < l"
  shows "far_apart p N (fs_data i s + of_nat k) (of_nat l)"
proof -
  note b = fs_offset_bounds(1,2)[OF assms(3)]
  have l: "unat (of_nat (fs_offset i + k) :: u32) = fs_offset i + k" "unat (of_nat FS_AREA :: u32) = FS_AREA"
      "unat (of_nat l :: u32) = l"
    using b assms(4) by (simp_all del: of_nat_add)
  have "(of_nat (fs_offset i + k) :: u32) < of_nat FS_AREA" unfolding word_less_nat_alt l using b assms(4,5) by simp
  moreover have "(of_nat l :: u32) \<le> of_nat FS_AREA - of_nat (fs_offset i + k)"
    unfolding word_le_nat_alt unat_sub_if' l using b assms(4,5) by simp
  ultimately show ?thesis using apart_parts(1)[OF assms(1), of 0 N "of_nat (fs_offset i + k)" "of_nat l"] assms(2)
    by (simp add: fs_data_offset)
qed

lemma files_apart:
  assumes "i < MAX_FS_FILES" "j < MAX_FS_FILES" "i \<noteq> j" "k < MAX_FILESIZE"
  shows "far_apart (fs_data i s) (of_nat MAX_FILESIZE) (fs_data j s + of_nat k) 1"
proof -
  have "fs_offset i + MAX_FILESIZE \<le> fs_offset j + k \<or> fs_offset j + k + 1 \<le> fs_offset i"
    using assms fs_offset_bounds(3)[OF assms(1), of j] fs_offset_bounds(3)[OF assms(2), of i] by (cases "i < j") auto
  then have "far_apart (fs_base s + of_nat (fs_offset i)) (of_nat MAX_FILESIZE) (fs_base s + of_nat (fs_offset j + k)) (of_nat 1)"
    by (rule apart_nats_base) (use fs_offset_bounds(1,2)[OF assms(1)] fs_offset_bounds(1,2)[OF assms(2)] assms(4) in auto)
  then show ?thesis using fs_data_offset[of i s 0] unfolding fs_data_offset[of j s k] by (simp del: of_nat_add apart_same)
qed

lemma file_apart:
  assumes "i < MAX_FS_FILES" "x + n \<le> k \<or> k + l \<le> x" "x + n \<le> MAX_FILESIZE" "k + l \<le> MAX_FILESIZE" "0 < n" "0 < l"
  shows "far_apart (fs_data i s + of_nat x) (of_nat n) (fs_data i s + of_nat k) (of_nat l)"
  unfolding fs_data_offset
  by (rule apart_nats_base) (use fs_offset_bounds(1,2)[OF assms(1)] assms(2-6) in auto)

lemma apart_shrink:
  assumes "far_apart (fs_data i s) (of_nat MAX_FILESIZE) a 1" "x + n \<le> MAX_FILESIZE" "0 < n"
  shows "far_apart (fs_data i s + of_nat x) (of_nat n) a 1"
proof -
  have l: "unat (of_nat x :: u32) = x" "unat (of_nat n :: u32) = n" "unat (of_nat MAX_FILESIZE :: u32) = MAX_FILESIZE"
    using assms(2) by (simp_all add: MAX_FILESIZE_def)
  have "(of_nat x :: u32) < of_nat MAX_FILESIZE" "(of_nat n :: u32) \<le> of_nat MAX_FILESIZE - of_nat x"
    unfolding word_less_nat_alt word_le_nat_alt unat_sub_if' l using assms(2,3) by simp_all
  from apart_parts(1)[OF assms(1) this, of 0 1] show ?thesis by simp
qed

section \<open>Contents of a member\<close>

definition copy_state :: "nat \<Rightarrow> nat \<Rightarrow> (u64 \<Rightarrow> u32 \<Rightarrow> u8) \<Rightarrow> nat \<Rightarrow> 'a fsboot_scheme \<Rightarrow> 'a fsboot_scheme \<Rightarrow> bool" where
  "copy_state i cs disk n s t \<longleftrightarrow> fs_ready t \<and> same_setting s t \<and> filesystem_files t = filesystem_files s \<and>
     (\<forall>k < n. mem t (fs_data i s + of_nat k) = disk (of_nat (cs + k div 512)) (of_nat (k mod 512))) \<and>
     (\<forall>a. undriven s a \<longrightarrow> far_apart (fs_data i s) (of_nat MAX_FILESIZE) a 1 \<longrightarrow> mem t a = mem s a)"

lemma copy_state_step:
  assumes "disk_serves s disk" "i < MAX_FS_FILES" "copy_state i cs disk (512 * j) s t" "512 * j + 512 \<le> MAX_FILESIZE"
    "cs + j < unat (blk_capacity s div 512)" "cs + j < 4294967296"
  shows "\<exists>u. virtio_rw (fs_data i t + of_nat j * SECTOR_SIZE) (ucast (of_nat (cs + j) :: u64)) False t = Inr u \<and>
    copy_state i cs disk (512 * Suc j) s u"
proof -
  define buf where "buf = fs_data i s + of_nat (512 * j)"
  have t: "fs_ready t" "same_setting s t" "filesystem_files t = filesystem_files s"
    "\<forall>k < 512 * j. mem t (fs_data i s + of_nat k) = disk (of_nat (cs + k div 512)) (of_nat (k mod 512))"
    "\<forall>a. undriven s a \<longrightarrow> far_apart (fs_data i s) (of_nat MAX_FILESIZE) a 1 \<longrightarrow> mem t a = mem s a"
    using assms(3) by (simp_all add: copy_state_def)
  note eq = same_setting_eqs[OF t(2)]
  have st: "undriven t a = undriven s a" for a by (simp add: undriven_def eq)
  have b: "fs_data i t + of_nat j * SECTOR_SIZE = buf" by (simp add: buf_def eq SECTOR_SIZE_def mult.commute)
  have r: "far_apart (blk_request_vq s) 8192 (fs_base s) (of_nat FS_AREA)" "far_apart (blk_req_paddr s) 4096 (fs_base s) (of_nat FS_AREA)"
    using t(1) by (simp_all add: fs_ready_def eq)
  have ap: "far_apart (blk_request_vq t) 8192 buf 512" "far_apart (blk_req_paddr t) 4096 buf 512"
    using in_area[OF r(1) _ assms(2), of "512 * j" 512] in_area[OF r(2) _ assms(2), of "512 * j" 512] assms(4)
    by (simp_all add: buf_def eq)
  have "disk_serves t disk" using assms(1) eq by simp
  from read_sector[OF t(1) this, of "cs + j" buf] ap assms(5,6) obtain u where
    u: "virtio_rw buf (ucast (of_nat (cs + j) :: u64)) False t = Inr u" "fs_ready u" "same_setting t u"
      "filesystem_files u = filesystem_files t" "\<forall>k < 512. mem u (buf + k) = disk (of_nat (cs + j)) k"
      "\<forall>a. undriven t a \<longrightarrow> far_apart buf 512 a 1 \<longrightarrow> mem u a = mem t a"
    by (auto simp: eq)
  have "mem u (fs_data i s + of_nat k) = disk (of_nat (cs + k div 512)) (of_nat (k mod 512))" if k: "k < 512 * Suc j" for k
  proof (cases "k < 512 * j")
    case True
    have "undriven t (fs_data i s + of_nat k)"
      using in_area[OF r(1) _ assms(2), of k 1] in_area[OF r(2) _ assms(2), of k 1] True assms(4) by (simp add: undriven_def eq)
    moreover have "far_apart buf 512 (fs_data i s + of_nat k) 1"
      using file_apart[OF assms(2), of "512 * j" 512 k 1 s] True assms(4) by (simp add: buf_def)
    ultimately show ?thesis using u(6) t(4) True by simp
  next
    case False
    then have d: "k div 512 = j" using k by auto
    then have d2: "k = 512 * j + k mod 512" using mult_div_mod_eq[of 512 k] by simp
    have "(of_nat (k mod 512) :: u32) < 512" by (simp add: word_less_nat_alt order.strict_trans[of _ 512])
    then have "mem u (buf + of_nat (k mod 512)) = disk (of_nat (cs + j)) (of_nat (k mod 512))" using u(5) by blast
    moreover have "buf + of_nat (k mod 512) = fs_data i s + of_nat k" unfolding buf_def by (subst (2) d2) (simp add: add.assoc)
    ultimately show ?thesis using d by simp
  qed
  moreover have "mem u a = mem s a" if "undriven s a" "far_apart (fs_data i s) (of_nat MAX_FILESIZE) a 1" for a
    using u(6) t(5) that apart_shrink[OF that(2), of "512 * j" 512] assms(4) by (simp add: st buf_def)
  ultimately show ?thesis unfolding b copy_state_def using u(1-4) t(2,3) same_setting_trans by auto
qed

lemma fs_copy_data_ok:
  assumes "fs_ready s" "disk_serves s disk" "i < MAX_FS_FILES" "fs_size (filesystem_files s ! i) = of_nat n" "n \<le> MAX_FILESIZE"
    "cs + sectors n \<le> unat (blk_capacity s div 512)" "cs + sectors n \<le> 4294967296"
  shows "\<exists>cd c t. fs_copy_data i (0, 0, of_nat cs, s) = Inr (cd, c, of_nat (cs + sectors n), t) \<and> copy_state i cs disk n s t"
proof -
  define b where "b = (\<lambda>(copied_data, copied_sectors :: u32, current_sector :: u64, s :: 'a fsboot_scheme).
    copied_data < fs_size (filesystem_files s ! i))"
  define c where "c = (\<lambda>(copied_data :: u32, copied_sectors, current_sector :: u64, s :: 'a fsboot_scheme).
          kbind (virtio_rw (fs_data i s + copied_sectors * SECTOR_SIZE) (ucast current_sector) False s) (\<lambda>s.
          let current_sector = current_sector + 1;
              copied_sectors = copied_sectors + 1;
              copied_data = copied_data + SECTOR_SIZE in
          if copied_sectors = of_nat MAX_FILESIZE div SECTOR_SIZE \<and> copied_data < fs_size (filesystem_files s ! i) then
            kbind (kprint_string (name_reader i s) s) (\<lambda>s.
              kpanic ''kernel/filesystem.c'' 75 ''filesystem: File too big'' s)
          else Inr (copied_data, copied_sectors, current_sector, s)))"
  have n: "n < 4294967296" using assms(5) by (simp add: MAX_FILESIZE_def)
  have less: "(of_nat (512 * j) :: u32) < of_nat n \<longleftrightarrow> 512 * j < n" if "512 * j \<le> MAX_FILESIZE" for j
    using that n by (simp add: word_less_nat_alt MAX_FILESIZE_def del: of_nat_mult)
  have sec: "512 * j \<le> MAX_FILESIZE" if "j \<le> sectors n" for j
    using that assms(5) by (simp add: sectors_def MAX_FILESIZE_def)
  have "\<exists>t. kwhile b c (0, 0, of_nat cs, s) = kwhile b c (of_nat (512 * j), of_nat j, of_nat (cs + j), t) \<and>
      copy_state i cs disk (512 * j) s t" if "j \<le> sectors n" for j
    using that
  proof (induction j)
    case 0
    have "copy_state i cs disk 0 s s" using assms(1) by (simp add: copy_state_def)
    then show ?case by (intro exI[of _ s]) simp
  next
    case (Suc j)
    then have j: "j < sectors n" "512 * j < n" "512 * j + 512 \<le> MAX_FILESIZE"
      using sectors_iff[of j n] sec[of "Suc j"] by simp_all
    from Suc.IH j(1) obtain t where
      t: "kwhile b c (0, 0, of_nat cs, s) = kwhile b c (of_nat (512 * j), of_nat j, of_nat (cs + j), t)"
        "copy_state i cs disk (512 * j) s t" by auto
    from copy_state_step[OF assms(2,3) t(2) j(3)] j(1) assms(6,7) obtain u where
      u: "virtio_rw (fs_data i t + of_nat j * SECTOR_SIZE) (ucast (of_nat (cs + j) :: u64)) False t = Inr u"
        "copy_state i cs disk (512 * Suc j) s u" by auto
    have f: "filesystem_files t = filesystem_files s" "filesystem_files u = filesystem_files s"
      using t(2) u(2) by (simp_all add: copy_state_def)
    have b: "b (of_nat (512 * j), of_nat j, of_nat (cs + j), t)"
      using less[of j] j by (simp add: b_def f assms(4) del: of_nat_mult)
    have "\<not> ((of_nat (Suc j) :: u32) = of_nat MAX_FILESIZE div SECTOR_SIZE \<and> (of_nat (512 * Suc j) :: u32) < of_nat n)"
    proof
      assume a: "(of_nat (Suc j) :: u32) = of_nat MAX_FILESIZE div SECTOR_SIZE \<and> (of_nat (512 * Suc j) :: u32) < of_nat n"
      then have "512 * Suc j < n" using less[of "Suc j"] j(3) by simp
      moreover have "unat (of_nat MAX_FILESIZE div SECTOR_SIZE :: u32) = 8192" by (simp add: SECTOR_SIZE_def MAX_FILESIZE_def)
      then have "unat (of_nat (Suc j) :: u32) = 8192" using a by simp
      then have "Suc j = 8192" using j(3) unat_of_nat32[of "Suc j"] by (simp add: MAX_FILESIZE_def del: of_nat_Suc)
      ultimately show False using assms(5) by (simp add: MAX_FILESIZE_def)
    qed
    then have "c (of_nat (512 * j), of_nat j, of_nat (cs + j), t) =
        Inr (of_nat (512 * Suc j), of_nat (Suc j), of_nat (cs + Suc j), u)"
      using u(1) f assms(4) by (auto simp: c_def SECTOR_SIZE_def algebra_simps)
    then show ?case using t(1) u(2) kwhile_step[of b _ c, OF b] by auto
  qed
  from this[of "sectors n"] obtain t where
    t: "kwhile b c (0, 0, of_nat cs, s) = kwhile b c (of_nat (512 * sectors n), of_nat (sectors n), of_nat (cs + sectors n), t)"
      "copy_state i cs disk (512 * sectors n) s t" by auto
  have "filesystem_files t = filesystem_files s" using t(2) by (simp add: copy_state_def)
  then have "\<not> b (of_nat (512 * sectors n), of_nat (sectors n), of_nat (cs + sectors n), t)"
    using less[OF sec, of "sectors n"] sectors_iff[of "sectors n" n] assms(4) by (simp add: b_def del: of_nat_mult)
  then have "fs_copy_data i (0, 0, of_nat cs, s) = Inr (of_nat (512 * sectors n), of_nat (sectors n), of_nat (cs + sectors n), t)"
    using t(1) unfolding fs_copy_data_def b_def[symmetric] c_def[symmetric] by simp
  moreover have "n \<le> 512 * sectors n" unfolding sectors_def by arith
  then have "copy_state i cs disk n s t" using t(2) unfolding copy_state_def by (auto intro: less_le_trans)
  ultimately show ?thesis by blast
qed

section \<open>One member\<close>

lemma kprint_string_ok:
  assumes "uart_live s" "reads_string rd bs"
  shows "\<exists>p w. kprint_string rd s = Inr (s\<lparr>lsr_pos := p, uart_writes := w\<rparr>)"
proof -
  have "format_text (''%s'' @ [CHR 0x0A]) [VStr bs] = Some (0, bs @ [10])" by simp
  from kprintf_str[OF assms(1) this] obtain p w where
    "kprintf (''%s'' @ [CHR 0x0A]) [VStr bs] s = Inr (0, s\<lparr>lsr_pos := p, uart_writes := w\<rparr>)" by blast
  then have "kprint_string rd s = Inr (s\<lparr>lsr_pos := p, uart_writes := w\<rparr>)"
    using read_string_ok[OF assms(2)] by (simp add: kprint_string_def del: kprintf.simps)
  then show ?thesis by blast
qed

lemma fs_ready_uart [simp]: "fs_ready (s\<lparr>lsr_pos := p, uart_writes := w\<rparr>) = fs_ready s"
  by (simp add: fs_ready_def uart_live_def request_ready_def)

text \<open>What a turn of the loop leaves of the rest.\<close>

definition member_frame :: "nat set \<Rightarrow> 'a fsboot_scheme \<Rightarrow> 'a fsboot_scheme \<Rightarrow> bool" where
  "member_frame I s t \<longleftrightarrow> fs_ready t \<and> same_setting s t \<and> (\<forall>j. j \<notin> I \<longrightarrow> filesystem_files t ! j = filesystem_files s ! j) \<and>
     (\<forall>a. undriven s a \<longrightarrow> far_apart (fs_buffer s) 512 a 1 \<longrightarrow> (\<forall>j \<in> I. far_apart (fs_data j s) (of_nat MAX_FILESIZE) a 1) \<longrightarrow>
       mem t a = mem s a)"

lemma member_frame_trans:
  assumes "member_frame I s t" "member_frame J t u"
  shows "member_frame (I \<union> J) s u"
proof -
  have st: "same_setting s t" using assms(1) by (simp add: member_frame_def)
  then have "undriven t a = undriven s a" for a by (simp add: undriven_def same_setting_eqs)
  then show ?thesis using assms same_setting_eqs[OF st] same_setting_trans[OF st] by (auto simp: member_frame_def)
qed

text \<open>File \<open>i\<close> is in the table, with its name, size and contents.\<close>

definition file_loaded :: "'a fsboot_scheme \<Rightarrow> nat \<Rightarrow> u8 list \<times> u8 list \<Rightarrow> bool" where
  "file_loaded t i f \<longleftrightarrow> fs_exists (filesystem_files t ! i) \<and> reads_string (name_reader i t) (fst f) \<and>
     unat (fs_size (filesystem_files t ! i)) = length (snd f) \<and> file_bytes i t = snd f"

lemma octal_text:
  "length (octal n) = 11" "0 \<notin> set (octal n)"
proof -
  have "(48 + of_nat (k mod 8) :: u8) \<noteq> 0" for k :: nat
  proof
    assume "(48 + of_nat (k mod 8) :: u8) = 0"
    then have "ucast (48 + of_nat (k mod 8) :: u8) = (0 :: u32)" by simp
    then have "(of_nat (48 + k mod 8) :: u32) = 0" unfolding octal_digit by simp
    then have "unat (of_nat (48 + k mod 8) :: u32) = 0" by simp
    moreover have "k mod 8 < 8" by simp
    ultimately show False by (subst (asm) unat_of_nat32) (simp_all del: of_nat_add)
  qed
  then show "0 \<notin> set (octal n)" by (auto simp: octal_def)
qed (simp add: octal_def)

text \<open>The strings of a header sector in the buffer.\<close>

lemma header_strings:
  assumes "tar_header_at disk cs name n" "\<forall>k < 512. mem t (buf + k) = disk (of_nat cs) k"
  shows "reads_string (mem_reader (buf + th_name) t) name" "reads_string (mem_reader (buf + th_size) t) (octal n)"
    and "mem t (buf + th_name) \<noteq> 0" "mem_bytes (mem t) (buf + th_size) 11 = octal n"
    and "\<forall>k < length name. mem_bytes (mem t) (buf + th_name) 100 ! k = name ! k" "mem_bytes (mem t) (buf + th_name) 100 ! length name = 0"
proof -
  have h: "0 \<notin> set name" "name \<noteq> []" "length name < 100" "\<forall>k < length name. disk (of_nat cs) (of_nat k) = name ! k"
    "disk (of_nat cs) (of_nat (length name)) = 0" "\<forall>k < 11. disk (of_nat cs) (124 + of_nat k) = octal n ! k" "disk (of_nat cs) 135 = 0"
    using assms(1) by (simp_all add: tar_header_at_def)
  have m: "mem t (buf + of_nat k) = disk (of_nat cs) (of_nat k)" if "k < 512" for k
    using assms(2) that by (simp add: word_less_nat_alt)
  have m2: "mem t (buf + 124 + of_nat k) = disk (of_nat cs) (124 + of_nat k)" if "k < 100" for k
    using m[of "124 + k"] that by (simp add: add.assoc)
  show "reads_string (mem_reader (buf + th_name) t) name"
    using h(1,3-5) m by (simp add: reads_string_def mem_reader_def th_name_def)
  show "reads_string (mem_reader (buf + th_size) t) (octal n)"
    using h(6,7) m2 octal_text[of n] m2[of 11] by (simp add: reads_string_def mem_reader_def th_size_def)
  show "mem t (buf + th_name) \<noteq> 0" using m[of 0] h(1,2,4) by (cases name) (auto simp: th_name_def)
  show "mem_bytes (mem t) (buf + th_size) 11 = octal n"
    using h(6) m2 by (simp add: mem_bytes_def th_size_def list_eq_iff_nth_eq octal_text)
  show "\<forall>k < length name. mem_bytes (mem t) (buf + th_name) 100 ! k = name ! k" "mem_bytes (mem t) (buf + th_name) 100 ! length name = 0"
    using h(3-5) m by (simp_all add: mem_bytes_def th_name_def)
qed

lemma fs_read_member_ok:
  assumes "fs_ready s" "disk_serves s disk" "i < MAX_FS_FILES" "tar_header_at disk cs name (length bs)" "tar_data_at disk (Suc cs) bs"
    "length bs \<le> MAX_FILESIZE" "Suc cs + sectors (length bs) \<le> unat (blk_capacity s div 512)" "Suc cs + sectors (length bs) \<le> 4294967296"
  shows "\<exists>t. fs_read_member (False, i, of_nat cs, s) = Inr (False, Suc i, of_nat (Suc cs + sectors (length bs)), t) \<and>
    member_frame {i} s t \<and> file_loaded t i (name, bs)"
proof -
  define n where "n = length bs"
  have rr: "far_apart (blk_request_vq s) 8192 (fs_buffer s) 512" "far_apart (blk_req_paddr s) 4096 (fs_buffer s) 512"
    using assms(1) by (simp_all add: fs_ready_def request_ready_def)
  from read_sector[OF assms(1,2), of cs "fs_buffer s"] rr assms(7,8) obtain t1 where
    t1: "virtio_rw (fs_buffer s) (ucast (of_nat cs :: u64)) False s = Inr t1" "fs_ready t1" "same_setting s t1"
      "filesystem_files t1 = filesystem_files s" "\<forall>k < 512. mem t1 (fs_buffer s + k) = disk (of_nat cs) k"
      "\<forall>a. undriven s a \<longrightarrow> far_apart (fs_buffer s) 512 a 1 \<longrightarrow> mem t1 a = mem s a" by auto
  note hs = header_strings[OF assms(4) t1(5)]
  have b: "fs_buffer t1 = fs_buffer s" using t1(3) by (rule same_setting_eqs)
  have live: "uart_live t1" using t1(2) by (simp add: fs_ready_def)
  from kprint_string_ok[OF live hs(1)] obtain p w where
    2: "kprint_string (mem_reader (fs_buffer s + th_name) t1) t1 = Inr (t1\<lparr>lsr_pos := p, uart_writes := w\<rparr>)" by blast
  have rd: "mem_reader a (t1\<lparr>lsr_pos := p, uart_writes := w\<rparr>) = mem_reader a t1" for a p w by (simp add: mem_reader_def fun_eq_iff)
  have "uart_live (t1\<lparr>lsr_pos := p, uart_writes := w\<rparr>)" using live by (simp add: uart_live_def)
  from kprint_string_ok[OF this hs(2)] obtain p' w' where
    3: "kprint_string (mem_reader (fs_buffer s + th_size) t1) (t1\<lparr>lsr_pos := p, uart_writes := w\<rparr>) = Inr (t1\<lparr>lsr_pos := p', uart_writes := w'\<rparr>)" by auto
  define fl where "fl = \<lparr>fs_exists = True, fs_name = mem_bytes (mem t1) (fs_buffer s + th_name) 100, fs_size = of_nat n\<rparr>"
  define t4 where "t4 = t1\<lparr>lsr_pos := p', uart_writes := w', filesystem_files := (filesystem_files s)[i := fl]\<rparr>"
  have len: "length (filesystem_files s) = MAX_FS_FILES" using assms(1) by (simp add: fs_ready_def)
  have t4: "fs_ready t4" "same_setting s t4" "mem t4 = mem t1" "filesystem_files t4 ! i = fl" "\<And>j. j \<noteq> i \<Longrightarrow> filesystem_files t4 ! j = filesystem_files s ! j"
    using t1(2) len assms(3) same_setting_trans[OF t1(3), of t4]
    by (simp_all add: t4_def fs_ready_def uart_live_def request_ready_def) (simp add: same_setting_def)
  note eq = same_setting_eqs[OF t4(2)]
  have "oct2int (octal n) = of_nat n" by (rule oct2int_octal) (use assms(6) in \<open>simp add: n_def MAX_FILESIZE_def\<close>)
  then have run: "fs_read_member (False, i, of_nat cs, s) =
      kbind (fs_copy_data i (0, 0, of_nat (Suc cs), t4)) (\<lambda>(_, _, current_sector, s). Inr (False, i + 1, current_sector, s))"
    using hs(3,4) 2 3 t1(1,4) by (simp add: fs_read_member_def b rd t4_def fl_def n_def add.commute)
  have d4: "disk_serves t4 disk" and s4: "fs_size (filesystem_files t4 ! i) = of_nat n" using assms(2) eq t4(4) by (simp_all add: fl_def)
  from fs_copy_data_ok[OF t4(1) d4 assms(3) s4, of "Suc cs"] assms(6-8) obtain cd c u where
    u: "fs_copy_data i (0, 0, of_nat (Suc cs), t4) = Inr (cd, c, of_nat (Suc cs + sectors n), u)" "copy_state i (Suc cs) disk n t4 u"
    unfolding n_def eq by blast
  have u': "fs_ready u" "same_setting t4 u" "filesystem_files u = filesystem_files t4"
    "\<forall>k < n. mem u (fs_data i s + of_nat k) = disk (of_nat (Suc cs + k div 512)) (of_nat (k mod 512))"
    "\<forall>a. undriven s a \<longrightarrow> far_apart (fs_data i s) (of_nat MAX_FILESIZE) a 1 \<longrightarrow> mem u a = mem t1 a"
    using u(2) by (simp_all add: copy_state_def eq undriven_def t4(3))
  have "member_frame {i} s u"
    using u'(1,3,5) t4(5) t1(6) same_setting_trans[OF t4(2) u'(2)] by (simp add: member_frame_def)
  moreover have "file_loaded u i (name, bs)"
  proof -
    have "fs_data i u = fs_data i s" using same_setting_eqs(1)[OF u'(2)] eq by simp
    moreover have "unat (fs_size (filesystem_files u ! i)) = n" using u'(3) t4(4) assms(6) by (simp add: fl_def n_def MAX_FILESIZE_def)
    ultimately have "file_bytes i u = bs" using u'(4) assms(5)
      by (intro nth_equalityI) (simp_all add: file_bytes_def n_def tar_data_at_def)
    moreover have "reads_string (name_reader i u) name"
      using assms(4) hs(5,6) u'(3) t4(4) by (simp add: reads_string_def name_reader_def tar_header_at_def fl_def)
    ultimately show ?thesis using u'(3) t4(4) assms(6) by (simp add: file_loaded_def fl_def n_def MAX_FILESIZE_def)
  qed
  ultimately show ?thesis using run u(1) by (auto simp: n_def)
qed

section \<open>The whole archive\<close>

lemma file_loaded_frame:
  assumes "file_loaded t i f" "member_frame I t u" "i \<notin> I" "I \<subseteq> {..<MAX_FS_FILES}" "i < MAX_FS_FILES" "fs_ready t"
    "length (fst f) < 100" "length (snd f) \<le> MAX_FILESIZE"
  shows "file_loaded u i f"
proof -
  have st: "same_setting t u" and f: "filesystem_files u ! i = filesystem_files t ! i" using assms(2,3) by (simp_all add: member_frame_def)
  note r = assms(6)[unfolded fs_ready_def]
  have "mem u (fs_data i t + of_nat k) = mem t (fs_data i t + of_nat k)" if "k < MAX_FILESIZE" for k
  proof -
    have "undriven t (fs_data i t + of_nat k)" "far_apart (fs_buffer t) 512 (fs_data i t + of_nat k) 1"
      using in_area[of _ _ t i k 1] r that assms(5) by (simp_all add: undriven_def)
    moreover have "\<forall>j \<in> I. far_apart (fs_data j t) (of_nat MAX_FILESIZE) (fs_data i t + of_nat k) 1"
      using files_apart[of _ i k t] assms(3-5) that by auto
    ultimately show ?thesis using assms(2) by (simp add: member_frame_def)
  qed
  then have "file_bytes i u = file_bytes i t"
    using assms(1,8) same_setting_eqs(1)[OF st] by (simp add: file_bytes_def f file_loaded_def)
  moreover have "name_reader i u k = name_reader i t k" if "k < 100" for k using that by (simp add: name_reader_def f)
  then have "reads_string (name_reader i u) (fst f) = reads_string (name_reader i t) (fst f)"
    using assms(7) by (simp add: reads_string_def)
  ultimately show ?thesis using assms(1) by (simp add: file_loaded_def f)
qed

lemma tar_at_length: "tar_at disk cnt i cs ms \<Longrightarrow> i \<le> MAX_FS_FILES \<Longrightarrow> i + length ms \<le> MAX_FS_FILES"
  by (induction ms arbitrary: i cs) fastforce+

lemma fs_read_end:
  assumes "fs_ready s" "disk_serves s disk" "cs < unat (blk_capacity s div 512)" "cs < 4294967296"
    "disk (of_nat cs) 0 = 0" "disk (of_nat cs) 124 = 0"
  shows "\<exists>t. fs_read_member (False, i, of_nat cs, s) = Inr (True, i, of_nat cs, t) \<and> member_frame {} s t"
proof -
  have rr: "far_apart (blk_request_vq s) 8192 (fs_buffer s) 512" "far_apart (blk_req_paddr s) 4096 (fs_buffer s) 512"
    using assms(1) by (simp_all add: fs_ready_def request_ready_def)
  from read_sector[OF assms(1-4), of "fs_buffer s"] rr obtain t1 where
    t1: "virtio_rw (fs_buffer s) (ucast (of_nat cs :: u64)) False s = Inr t1" "fs_ready t1" "same_setting s t1"
      "filesystem_files t1 = filesystem_files s" "\<forall>k < 512. mem t1 (fs_buffer s + k) = disk (of_nat cs) k"
      "\<forall>a. undriven s a \<longrightarrow> far_apart (fs_buffer s) 512 a 1 \<longrightarrow> mem t1 a = mem s a" by auto
  have b: "fs_buffer t1 = fs_buffer s" using t1(3) by (rule same_setting_eqs)
  have z: "mem t1 (fs_buffer s) = 0" "mem t1 (fs_buffer s + 124) = 0"
    using t1(5)[rule_format, of 0] t1(5)[rule_format, of 124] assms(5,6) by simp_all
  have live: "uart_live t1" using t1(2) by (simp add: fs_ready_def)
  have e: "reads_string (mem_reader (fs_buffer s + th_name) t1) []" "reads_string (mem_reader (fs_buffer s + th_size) t1) []"
    using z by (simp_all add: reads_string_def mem_reader_def th_name_def th_size_def)
  from kprint_string_ok[OF live e(1)] obtain p w where
    2: "kprint_string (mem_reader (fs_buffer s + th_name) t1) t1 = Inr (t1\<lparr>lsr_pos := p, uart_writes := w\<rparr>)" by blast
  have rd: "mem_reader a (t1\<lparr>lsr_pos := p, uart_writes := w\<rparr>) = mem_reader a t1" for a p w by (simp add: mem_reader_def fun_eq_iff)
  have "uart_live (t1\<lparr>lsr_pos := p, uart_writes := w\<rparr>)" using live by (simp add: uart_live_def)
  from kprint_string_ok[OF this e(2)] obtain p' w' where
    3: "kprint_string (mem_reader (fs_buffer s + th_size) t1) (t1\<lparr>lsr_pos := p, uart_writes := w\<rparr>) = Inr (t1\<lparr>lsr_pos := p', uart_writes := w'\<rparr>)" by auto
  have "fs_read_member (False, i, of_nat cs, s) = Inr (True, i, of_nat cs, t1\<lparr>lsr_pos := p', uart_writes := w'\<rparr>)"
    using 2 3 t1(1) z by (simp add: fs_read_member_def b rd th_name_def)
  moreover have "member_frame {} s (t1\<lparr>lsr_pos := p', uart_writes := w'\<rparr>)"
    using t1 by (simp add: member_frame_def)
  ultimately show ?thesis by blast
qed

lemma members_loop:
  assumes "fs_ready s" "disk_serves s disk" "tar_at disk (unat (blk_capacity s div 512)) i cs ms"
    "unat (blk_capacity s div 512) \<le> 4294967296" "cs \<le> unat (blk_capacity s div 512)" "i \<le> MAX_FS_FILES"
    "blk_capacity s div 512 = cnt"
  defines "b \<equiv> \<lambda>(brk :: bool, i, current_sector, s :: 'a fsboot_scheme). \<not> brk \<and> i < MAX_FS_FILES \<and> current_sector < cnt"
  shows "\<exists>brk i' cur t. kwhile b fs_read_member (False, i, of_nat cs, s) = Inr (brk, i', cur, t) \<and>
    member_frame {i..<i + length ms} s t \<and> (\<forall>j < length ms. file_loaded t (i + j) (ms ! j))"
  using assms(1-7)
proof (induction ms arbitrary: i cs s)
  case Nil
  have lt: "(of_nat cs :: u64) < blk_capacity s div 512 \<longleftrightarrow> cs < unat (blk_capacity s div 512)"
    using Nil.prems(4,5) by (simp add: word_less_nat_alt unat_of_nat take_bit_nat_eq_self)
  show ?case
  proof (cases "i < MAX_FS_FILES \<and> cs < unat (blk_capacity s div 512)")
    case True
    with Nil.prems obtain t where t: "fs_read_member (False, i, of_nat cs, s) = Inr (True, i, of_nat cs, t)" "member_frame {} s t"
      using fs_read_end[OF Nil.prems(1,2), of cs i] by auto
    have "b (False, i, of_nat cs, s)" using True lt Nil.prems(7) by (simp add: b_def)
    then have "kwhile b fs_read_member (False, i, of_nat cs, s) = kwhile b fs_read_member (True, i, of_nat cs, t)"
      using kwhile_step[of b "(False, i, of_nat cs, s)" fs_read_member] t(1) by simp
    moreover have "\<not> b (True, i, of_nat cs, t)" by (simp add: b_def)
    ultimately show ?thesis using t(2) by auto
  next
    case False
    then have "\<not> b (False, i, of_nat cs, s)" using lt Nil.prems(7) by (auto simp: b_def)
    moreover have "member_frame {} s s" using Nil.prems(1) by (simp add: member_frame_def)
    ultimately show ?thesis by auto
  qed
next
  case (Cons f ms)
  obtain name bs where f: "f = (name, bs)" by (cases f)
  define cs' where "cs' = Suc cs + sectors (length bs)"
  have h: "i < MAX_FS_FILES" "tar_header_at disk cs name (length bs)" "length bs \<le> MAX_FILESIZE" "tar_data_at disk (Suc cs) bs"
    "cs' \<le> unat (blk_capacity s div 512)" "tar_at disk (unat (blk_capacity s div 512)) (Suc i) cs' ms"
    using Cons.prems(3) by (simp_all add: f cs'_def)
  have le: "cs' \<le> 4294967296" using h(5) Cons.prems(4) by simp
  from fs_read_member_ok[OF Cons.prems(1,2) h(1,2,4,3)] h(5) le obtain t where
    t: "fs_read_member (False, i, of_nat cs, s) = Inr (False, Suc i, of_nat cs', t)" "member_frame {i} s t" "file_loaded t i f"
    unfolding cs'_def f by blast
  have st: "same_setting s t" "fs_ready t" using t(2) by (simp_all add: member_frame_def)
  have "cs < unat (blk_capacity s div 512)" using h(5) by (simp add: cs'_def)
  then have "b (False, i, of_nat cs, s)"
    using h(1) Cons.prems(4,7) by (simp add: b_def word_less_nat_alt unat_of_nat take_bit_nat_eq_self)
  then have step: "kwhile b fs_read_member (False, i, of_nat cs, s) = kwhile b fs_read_member (False, Suc i, of_nat cs', t)"
    using kwhile_step[of b "(False, i, of_nat cs, s)" fs_read_member] t(1) by simp
  have "\<exists>brk i' cur u. kwhile b fs_read_member (False, Suc i, of_nat cs', t) = Inr (brk, i', cur, u) \<and>
    member_frame {Suc i..<Suc i + length ms} t u \<and> (\<forall>j < length ms. file_loaded u (Suc i + j) (ms ! j))"
    by (rule Cons.IH) (use st h Cons.prems(2,4,7) same_setting_eqs[OF st(1)] in auto)
  then obtain brk i' cur u where u: "kwhile b fs_read_member (False, Suc i, of_nat cs', t) = Inr (brk, i', cur, u)"
    "member_frame {Suc i..<Suc i + length ms} t u" "\<forall>j < length ms. file_loaded u (Suc i + j) (ms ! j)" by blast
  have len: "Suc i + length ms \<le> MAX_FS_FILES" using tar_at_length[OF h(6)] h(1) by simp
  have "file_loaded u i f"
    by (rule file_loaded_frame[OF t(3) u(2)]) (use h len st in \<open>auto simp: f tar_header_at_def\<close>)
  then have "file_loaded u (i + j) ((f # ms) ! j)" if "j < length (f # ms)" for j
    using u(3) that by (cases j) auto
  moreover have "insert i {Suc i..<Suc i + length ms} = {i..<i + length (f # ms)}" by auto
  then have "member_frame {i..<i + length (f # ms)} s u" using member_frame_trans[OF t(2) u(2)] by simp
  ultimately show ?case using step u(1) by auto
qed

section \<open>Booting from the archive\<close>

lemma list_loop:
  assumes "uart_live s" "\<forall>i < MAX_FS_FILES. fs_exists (filesystem_files s ! i) \<longrightarrow> (\<exists>bs. reads_string (name_reader i s) bs)"
  shows "\<exists>fin p w. kfold fs_list_one [0..<MAX_FS_FILES] (False, s) = Inr (fin, s\<lparr>lsr_pos := p, uart_writes := w\<rparr>)"
proof -
  define P where "P = (\<lambda>(k :: nat) (r :: bool \<times> 'a fsboot_scheme). \<exists>fin p w. r = (fin, s\<lparr>lsr_pos := p, uart_writes := w\<rparr>))"
  have "\<exists>r. kfold fs_list_one [0..<MAX_FS_FILES] (False, s) = Inr r \<and> P (length [0..<MAX_FS_FILES]) r"
  proof (rule kfold_invariant)
    show "P 0 (False, s)" unfolding P_def by (intro exI[of _ False] exI[of _ "lsr_pos s"] exI[of _ "uart_writes s"]) simp
  next
    fix k r assume k: "k < length [0..<MAX_FS_FILES]" "P k r"
    then obtain fin p w where r: "r = (fin, s\<lparr>lsr_pos := p, uart_writes := w\<rparr>)" by (auto simp: P_def)
    let ?t = "s\<lparr>lsr_pos := p, uart_writes := w\<rparr>"
    show "\<exists>r'. fs_list_one ([0..<MAX_FS_FILES] ! k) r = Inr r' \<and> P (Suc k) r'"
    proof (cases "fin \<or> \<not> fs_exists (filesystem_files s ! k)")
      case True
      then show ?thesis using k by (auto simp: fs_list_one_def r P_def)
    next
      case False
      then obtain bs where bs: "reads_string (name_reader k s) bs" using assms(2) k(1) by auto
      have nr: "name_reader k ?t = name_reader k s" by (simp add: name_reader_def fun_eq_iff fs_data_def)
      have live: "uart_live ?t" using assms(1) by (simp add: uart_live_def)
      obtain r1 o1 where "format_text (''%d: FILE NAME = %s'' @ [CHR 0x0A]) [VInt (of_nat k), VStr bs] = Some (r1, o1)" by simp
      from kprintf_str[OF live this] obtain p1 w1 where
        1: "kprintf (''%d: FILE NAME = %s'' @ [CHR 0x0A]) [VInt (of_nat k), VStr bs] ?t = Inr (r1, s\<lparr>lsr_pos := p1, uart_writes := w1\<rparr>)" by auto
      let ?u = "s\<lparr>lsr_pos := p1, uart_writes := w1\<rparr>"
      have live': "uart_live ?u" using assms(1) by (simp add: uart_live_def)
      obtain r2 o2 where "format_text (''    FILE_SIZE = %d'' @ [CHR 0x0A]) [VInt (fs_size (filesystem_files s ! k))] = Some (r2, o2)" by simp
      from kprintf_str[OF live' this] obtain p2 w2 where
        2: "kprintf (''    FILE_SIZE = %d'' @ [CHR 0x0A]) [VInt (fs_size (filesystem_files s ! k))] ?u = Inr (r2, s\<lparr>lsr_pos := p2, uart_writes := w2\<rparr>)" by auto
      have "fs_list_one k r = Inr (False, s\<lparr>lsr_pos := p2, uart_writes := w2\<rparr>)"
        using False read_string_ok[OF bs] 1 2 by (simp add: fs_list_one_def r nr del: kprintf.simps append.simps)
      then show ?thesis using k(1) by (auto simp: P_def)
    qed
  qed
  then show ?thesis by (auto simp: P_def)
qed

lemma init_loads:
  assumes "fs_ready s" "filesystem_files s = replicate MAX_FS_FILES blank_file" "disk_serves s disk"
    "unat (blk_capacity s div 512) \<le> 2 ^ 32" "tar_at disk (unat (blk_capacity s div 512)) 0 0 ms"
  shows "\<exists>t. filesystem_init s = Inr t \<and> (\<forall>i < length ms. file_loaded t i (ms ! i)) \<and>
    fs_names t (map fst ms @ replicate (MAX_FS_FILES - length ms) []) \<and> member_frame {0..<length ms} s t"
proof -
  from members_loop[OF assms(1,3,5), of "blk_capacity s div 512"] assms(4) obtain brk i' cur t where
    t: "kwhile (\<lambda>(brk, i, current_sector, s'). \<not> brk \<and> i < MAX_FS_FILES \<and> current_sector < blk_capacity s div 512)
          fs_read_member (False, 0, 0, s) = Inr (brk, i', cur, t)"
      "member_frame {0..<length ms} s t" "\<forall>j < length ms. file_loaded t j (ms ! j)" by auto
  have live: "uart_live t" using t(2) by (simp add: member_frame_def fs_ready_def)
  have len: "length ms \<le> MAX_FS_FILES" using tar_at_length[OF assms(5)] by simp
  have blank: "filesystem_files t ! i = blank_file" if "length ms \<le> i" "i < MAX_FS_FILES" for i
    using t(2) assms(2) that by (simp add: member_frame_def)
  have nm: "reads_string (name_reader i t) ((map fst ms @ replicate (MAX_FS_FILES - length ms) []) ! i)" if "i < MAX_FS_FILES" for i
  proof (cases "i < length ms")
    case True
    then show ?thesis using t(3) by (simp add: nth_append file_loaded_def)
  next
    case False
    then show ?thesis using blank[of i] that by (simp add: nth_append reads_string_def name_reader_def blank_file_def)
  qed
  then obtain fin p w where u: "kfold fs_list_one [0..<MAX_FS_FILES] (False, t) = Inr (fin, t\<lparr>lsr_pos := p, uart_writes := w\<rparr>)"
    using list_loop[OF live] by blast
  let ?u = "t\<lparr>lsr_pos := p, uart_writes := w\<rparr>"
  have nr: "name_reader i ?u = name_reader i t" "file_bytes i ?u = file_bytes i t" for i
    by (simp_all add: name_reader_def fun_eq_iff fs_data_def file_bytes_def)
  have "filesystem_init s = Inr ?u" using t(1) u by (simp add: filesystem_init_def SECTOR_SIZE_def)
  moreover have "\<forall>i < length ms. file_loaded ?u i (ms ! i)" using t(3) by (simp add: file_loaded_def nr)
  moreover have "fs_names ?u (map fst ms @ replicate (MAX_FS_FILES - length ms) [])"
    using nm len by (simp add: fs_names_def nr)
  moreover have "member_frame {0..<length ms} s ?u" using t(2) by (simp add: member_frame_def)
  ultimately show ?thesis by blast
qed

section \<open>Property\<close>

text \<open>A disk of two sectors with one file \<open>h\<close> of three bytes.\<close>

definition demo_disk :: "u64 \<Rightarrow> u32 \<Rightarrow> u8" where
  "demo_disk sec k = (if sec = 0
     then if k = 0 then 104 else if 124 \<le> k \<and> k < 135 then octal 3 ! unat (k - 124) else 0
     else if k < 3 then ucast k + 1 else 0)"

definition fsboot_static :: fsboot where
  "fsboot_static = virtio.extend virtio_static (fsboot.fields 0x80200000)
     \<lparr>vio_dma := slow_disk demo_disk, filesystem_files := replicate MAX_FS_FILES blank_file, fs_base := 0x80400000\<rparr>"

lemma fsboot_static_simps [simp]:
  "fs_buffer fsboot_static = 0x80200000" "fs_base fsboot_static = 0x80400000" "vio_dma fsboot_static = slow_disk demo_disk" "vio_log fsboot_static = setup_log 0x80100000"
  "filesystem_files fsboot_static = replicate MAX_FS_FILES blank_file" "blk_request_vq fsboot_static = 0x80100000"
  "blk_req_paddr fsboot_static = 0x80102000" "blk_capacity fsboot_static = 1024" "mem fsboot_static = mem virtio_static"
  "lsr_at fsboot_static = lsr_at trap_static"
  by (simp_all add: fsboot_static_def virtio_static_def plic.defs virtio.defs fsboot.defs)

lemma fsboot_static_ready: "fs_ready fsboot_static" "disk_serves fsboot_static demo_disk"
proof -
  have "request_ready fsboot_static 0x80200000" using virtio_static_ready(1) by (simp add: request_ready_def del: virtio_static_simps(6))
  moreover have "uart_live fsboot_static" using trap_static_ready(2) by (simp add: uart_live_def)
  ultimately show "fs_ready fsboot_static" by (simp add: fs_ready_def FS_AREA_def MAX_FS_FILES_def MAX_FILESIZE_def)
  show "disk_serves fsboot_static demo_disk" by (rule slow_disk_serves) simp
qed

lemma demo_disk_tar: "tar_at demo_disk 2 0 0 [([104], [1, 2, 3])]"
proof -
  have "(124 + of_nat k :: u32) \<noteq> 0" if "k < 11" for k using that of_nat32_inj[of "124 + k" 0] by simp
  then have "tar_header_at demo_disk 0 [104] 3"
    by (simp add: tar_header_at_def demo_disk_def word_less_nat_alt word_le_nat_alt unat_word_ariths)
  moreover have "tar_data_at demo_disk 1 [1, 2, 3]"
    by (auto simp: tar_data_at_def demo_disk_def less_Suc_eq numeral_3_eq_3)
  ultimately show ?thesis by (simp add: MAX_FS_FILES_def MAX_FILESIZE_def sectors_def numeral_3_eq_3)
qed

text \<open>
  C17: Boot from disk. For a device that serves every notification of its queue in finite time and a disk that holds a
  tar archive of at most twelve files of at most four megabytes, \<open>filesystem_init\<close> returns without
  panic, and every member is in the file table at its position with its name, its size and exactly its
  contents; the other slots have the empty name. The last conjunct is what opening a file by its name
  relies on.
\<close>

theorem filesystem_init_loads_archive:
  assumes "fs_ready s" "filesystem_files s = replicate MAX_FS_FILES blank_file" "disk_serves s disk"
    "unat (blk_capacity s div 512) \<le> 2 ^ 32" "tar_at disk (unat (blk_capacity s div 512)) 0 0 ms"
  shows "\<exists>t. filesystem_init s = Inr t \<and> (\<forall>i < length ms. file_loaded t i (ms ! i)) \<and>
    fs_names t (map fst ms @ replicate (MAX_FS_FILES - length ms) [])"
  using init_loads[OF assms] by blast

theorem filesystem_init_loads_archive_witness:
  "\<exists>t. filesystem_init fsboot_static = Inr t \<and> file_bytes 0 t = [1, 2, 3]"
proof -
  have "filesystem_files fsboot_static = replicate MAX_FS_FILES blank_file" "unat (blk_capacity fsboot_static div 512) \<le> 2 ^ 32"
    "tar_at demo_disk (unat (blk_capacity fsboot_static div 512)) 0 0 [([104], [1, 2, 3])]" using demo_disk_tar by simp_all
  from filesystem_init_loads_archive[OF fsboot_static_ready(1) this(1) fsboot_static_ready(2) this(2,3)]
  show ?thesis by (auto simp: file_loaded_def)
qed

end
