(* ===== verification/Boot.thy ===== *)
theory Boot
  imports Fs_Init
begin

text \<open>
  Boot: \<open>start_setup\<close> of \<^verbatim>\<open>src/kernel/start.c\<close>, which leaves machine mode, and \<open>kernel_main\<close> of
  \<^verbatim>\<open>src/kernel/kernel.c\<close>, the order in which the components are brought up. Here the set-up of the disk
  driver is proved to establish what reading a sector relies on.
\<close>

section \<open>Definitions\<close>

text \<open>The privilege modes, by their encoding in \<open>mstatus\<close>, and the \<open>mret\<close> instruction: it continues at
  \<open>mepc\<close> in the mode that \<open>mstatus\<close> names.\<close>

datatype privilege = User_mode | Supervisor_mode | Reserved_mode | Machine_mode

definition mret :: "'a machine_scheme \<Rightarrow> privilege \<times> addr" where
  "mret s =
     (let mpp = drop_bit 11 (csr s Mstatus AND MSTATUS_MPP_MASK) in
      (if mpp = 0 then User_mode else if mpp = 1 then Supervisor_mode else if mpp = 2 then Reserved_mode else Machine_mode,
       csr s Mepc))"

definition start_setup :: "'a machine_scheme \<Rightarrow> (privilege \<times> addr) \<times> 'a machine_scheme" where
  "start_setup s =
     (let curr_mstatus = READ_CSR Mstatus s;
          curr_mstatus = curr_mstatus AND NOT MSTATUS_MPP_MASK;
          curr_mstatus = curr_mstatus OR MSTATUS_MPP_S;
          s = WRITE_CSR Mstatus curr_mstatus s;
          s = WRITE_CSR Pmpaddr0 0xFFFFFFFF s;
          s = WRITE_CSR Pmpcfg0 0x0F s;
          s = WRITE_CSR Medeleg 0xFFFFFFFF s;
          s = WRITE_CSR Mideleg 0xFFFFFFFF s;
          s = WRITE_CSR Sie (READ_CSR Sie s OR SIE_SEIE OR SIE_SSIE OR SIE_STIE) s;
          s = WRITE_CSR Mepc (sym_addr s Sym_kernel_main) s;
          s = WRITE_CSR Satp 0 s;
          curr_mstatus = READ_CSR Mstatus s;
          s = WRITE_CSR Mstatus (curr_mstatus OR MSTATUS_SIE) s
      in (mret s, s))"

text \<open>
  The whole bring-up. The result is the process that the scheduler switches to; \<open>kproc_scheduler\<close> does
  not return in C, so the code behind it is dead.
\<close>

definition kernel_main :: "'a fsboot_scheme \<Rightarrow> (nat \<times> 'a fsboot_scheme) kres" where
  "kernel_main s =
     (let sstatus = READ_CSR Sstatus s;
          s = WRITE_CSR Sstatus (sstatus OR SSTATUS_SUM) s;
          s = uart_init s in
      kbind (kmem_init s) (\<lambda>s.
      kbind (kvmem_init_kernel s) (\<lambda>s.
      let s = kvmem_init_hart s;
          s = ktrap_init s;
          s = PlicInit s;
          s = PlicInitHart s;
          s = kproc_init s in
      kbind (virtio_blk_init s) (\<lambda>s.
      kbind (filesystem_init s) (\<lambda>s.
      kbind (kproc_create (fs_data 2 s) s) (\<lambda>(_, s).
        kproc_scheduler 0 s))))))"

section \<open>The disk driver at boot\<close>

lemma page_gap:
  assumes "page_aligned p" "page_aligned q" "q \<noteq> p" "q \<noteq> p + 4096"
  shows "far_apart p 8192 q 4096"
proof -
  have "page_aligned (- x)" if "page_aligned x" for x :: u32
    using that unat_sub_if'[of 0 x] unat32_bound[of x] by (auto simp: page_aligned_def mod_eq_0_iff_dvd split: if_splits)
  then have "page_aligned (q - p)" "page_aligned (p - q)"
    using page_aligned_add[of q "- p"] page_aligned_add[of p "- q"] assms(1,2) by simp_all
  then obtain i j where "unat (q - p) = 4096 * i" "unat (p - q) = 4096 * j" by (auto simp: page_aligned_def elim!: dvdE)
  moreover have "unat (q - p) \<noteq> 0" "unat (p - q) \<noteq> 0" using assms(3) by (simp_all add: unat_eq_0)
  moreover have "q - p \<noteq> 4096" using assms(4) by (auto simp: diff_eq_eq)
  then have "unat (q - p) \<noteq> unat (4096 :: u32)" by (simp add: word_unat_eq_iff)
  ultimately show ?thesis by (auto simp: far_apart_def word_le_nat_alt)
qed

text \<open>What the device is told of the queue at \<open>p\<close>.\<close>

definition queue_log :: "addr \<Rightarrow> vio_event list" where
  "queue_log p = [Reg_write VIRTIO_MMIO_QUEUE_SEL 0, Reg_write VIRTIO_MMIO_QUEUE_NUM 16, Reg_write VIRTIO_MMIO_QUEUE_ALIGN 0,
     Reg_write VIRTIO_MMIO_QUEUE_PFN p]"

text \<open>All that the device sees of the set-up.\<close>

definition init_log :: "addr \<Rightarrow> vio_event list" where
  "init_log p = map Reg_read [VIRTIO_MMIO_MAGIC_VALUE, VIRTIO_MMIO_VERSION, VIRTIO_MMIO_DEVICE_ID] @ map (Reg_write VIRTIO_MMIO_STATUS) [0, 1, 3, 7] @
     [Reg_read VIRTIO_MMIO_STATUS] @ queue_log p @ [Reg_write VIRTIO_MMIO_STATUS 7]"

lemma init_log_told:
  assumes "page_aligned p" "p \<noteq> 0"
  shows "queue_told (h @ init_log p) p"
proof -
  have regs: "vio_regs_of (h @ init_log p) = \<lparr>rg_status = 7, rg_page_size = 1, rg_sel = 0, rg_num = 16, rg_align = 4096, rg_pfn = p\<rparr>"
    by (simp add: vio_regs_of_def init_log_def queue_log_def vio_reset_def vio_register_defs)
  have "page_base (p + 4096 + of_nat 293) = p + 4096"
    by (rule page_base_add) (use page_aligned_add[OF assms(1), of 4096] in \<open>simp_all add: page_aligned_def\<close>)
  then have "(p + 4389) AND 0xFFFFF000 = p + 4096" by (simp add: page_base_def add.assoc)
  moreover have "(0xFFFFF000 :: u32) = - 4096" by simp
  ultimately have "(p + 4389) AND - 4096 = p + 4096" by (simp only:)
  with regs show ?thesis using assms(2) by (simp add: queue_told_def rg_queue_def rg_used_def add.assoc)
qed

lemma virtq_init_ok:
  assumes "kmem_pages s ((p + 4096) # p # ps)"
  shows "\<exists>t. virtq_init 0 s = Inr (p, t) \<and> kmem_pages t ps \<and> vq_idle (mem t) p \<and>
    (\<forall>a. page_base a \<notin> {p, p + 4096} \<longrightarrow> mem t a = mem s a) \<and>
    t = s\<lparr>mem := mem t, kmem_head := kmem_head t, vio_log := vio_log s @ queue_log p\<rparr>"
proof -
  from kmem_alloc_ok[OF assms] obtain s1 where
    1: "kmem_alloc s = Inr (p + 4096, s1)" "kmem_pages s1 (p # ps)" "\<forall>a. mem s1 a = (if page_base a = p + 4096 then 0 else mem s a)"
      "s1 = s\<lparr>mem := mem s1, kmem_head := kmem_head s1\<rparr>" by blast
  from kmem_alloc_ok[OF 1(2)] obtain s2 where
    2: "kmem_alloc s1 = Inr (p, s2)" "kmem_pages s2 ps" "\<forall>a. mem s2 a = (if page_base a = p then 0 else mem s1 a)"
      "s2 = s1\<lparr>mem := mem s2, kmem_head := kmem_head s2\<rparr>" by blast
  have al: "page_aligned (p + 4096)" "p + 4096 \<notin> set ps" using assms by (simp_all add: kmem_pages_def)
  have pb: "page_base (p + of_nat (4096 + k)) = p + 4096" if "k < 4096" for k
    using page_base_add[OF al(1) that] by (simp add: add.assoc)
  define m where "m = store32 (store32 (mem s2) (p + vq_queue_index) 0) (p + vq_used_index_ptr) (p + vq_used_index)"
  define t where "t = s2\<lparr>mem := m, vio_log := vio_log s2 @ queue_log p\<rparr>"
  have run: "virtq_init 0 s = Inr (p, t)"
    using 1(1) 2(1) by (simp add: virtq_init_def virtio_reg_write32_def queue_log_def t_def m_def VIRTQ_ENTRY_NUM_def)
  have z: "mem s2 (p + of_nat (4096 + k)) = 0" if "k < 4096" for k
    using 1(3) 2(3) pb[OF that] by auto
  have "load16 (mem s2) (p + 4236) = 0" "load16 (mem s2) (p + 4098) = 0"
    using z[of 140] z[of 141] z[of 2] z[of 3] by (simp_all add: load16_def add.assoc)
  then have idle: "vq_idle (mem t) p"
    by (simp add: t_def m_def vq_idle_def vq_offsets load_store_apart)
  have fr: "mem t a = mem s2 a" if "page_base a \<noteq> p + 4096" for a
  proof -
    have "a \<noteq> p + of_nat (4096 + k)" if "k < 4096" for k using pb[OF that] \<open>page_base a \<noteq> p + 4096\<close> by auto
    from this[of 132] this[of 133] this[of 134] this[of 135] this[of 136] this[of 137] this[of 138] this[of 139]
    show ?thesis by (simp add: t_def m_def store32_def vq_offsets add.assoc)
  qed
  have "in_pages a ps \<Longrightarrow> page_base a \<noteq> p + 4096" for a using al(2) by auto
  then have "kmem_pages t ps" by (intro kmem_pages_frame[OF 2(2)]) (simp_all add: fr, simp add: t_def)
  moreover have "mem t a = mem s a" if "page_base a \<notin> {p, p + 4096}" for a using fr[of a] 1(3) 2(3) that by simp
  moreover have "t = s\<lparr>mem := mem t, kmem_head := kmem_head t, vio_log := vio_log s @ queue_log p\<rparr>"
    by (subst t_def, subst 2(4), subst 1(4)) (simp add: t_def, subst 2(4), subst 1(4), simp)
  ultimately show ?thesis using run idle by blast
qed

text \<open>The device identifies itself as a legacy block device, and its status reads as the driver has set it.\<close>

definition disk_identifies :: "'a virtio_scheme \<Rightarrow> bool" where
  "disk_identifies s \<longleftrightarrow> (\<forall>h. vio_reg s h VIRTIO_MMIO_MAGIC_VALUE = 0x74726976 \<and> vio_reg s h VIRTIO_MMIO_VERSION = 1 \<and>
     vio_reg s h VIRTIO_MMIO_DEVICE_ID = 2 \<and> vio_reg s h VIRTIO_MMIO_STATUS = rg_status (vio_regs_of h))"

lemma vq_idle_cong:
  assumes "\<And>k. k < 4096 \<Longrightarrow> m' (vq + of_nat (4096 + k)) = m (vq + of_nat (4096 + k))"
  shows "vq_idle m' vq = vq_idle m vq"
proof -
  have "load16 m' (vq + 4098) = load16 m (vq + 4098)" "load16 m' (vq + 4236) = load16 m (vq + 4236)"
      "load32 m' (vq + 4232) = load32 m (vq + 4232)" "load32 m' (vq + 4228) = load32 m (vq + 4228)"
    using assms[of 132] assms[of 133] assms[of 134] assms[of 135] assms[of 2] assms[of 3] assms[of 136] assms[of 137] assms[of 138] assms[of 139] assms[of 140] assms[of 141]
    by (simp_all add: load16_def load32_def add.assoc)
  then show ?thesis by (simp add: vq_idle_def vq_offsets)
qed

text \<open>What the set-up of the driver changes.\<close>

definition driver_frame :: "'a virtio_scheme \<Rightarrow> 'a virtio_scheme \<Rightarrow> bool" where
  "driver_frame s t \<longleftrightarrow> t = s\<lparr>mem := mem t, kmem_head := kmem_head t, lsr_pos := lsr_pos t, uart_writes := uart_writes t,
     vio_log := vio_log t, blk_request_vq := blk_request_vq t, blk_capacity := blk_capacity t,
     blk_req_paddr := blk_req_paddr t\<rparr>"

lemma driver_frame_trans: "driver_frame s t \<Longrightarrow> driver_frame t u \<Longrightarrow> driver_frame s u"
  by (cases s; cases t; cases u) (simp add: driver_frame_def)

lemma blk_init_ready:
  assumes "kmem_pages s ((p + 4096) # p # q # ps)" "disk_identifies s" "uart_live s"
  shows "\<exists>t. virtio_blk_init s = Inr t \<and> driver_frame s t \<and> (\<forall>a. page_base a \<notin> {p, p + 4096, q} \<longrightarrow> mem t a = mem s a) \<and> blk_request_vq t = p \<and> blk_req_paddr t = q \<and> kmem_pages t ps \<and>
    blk_capacity t = vio_config s * 512 \<and> vio_log t = vio_log s @ init_log p \<and>
    (\<forall>buf. far_apart p 8192 buf 512 \<longrightarrow> far_apart q 4096 buf 512 \<longrightarrow> request_ready t buf)"
proof -
  define w where "w = vio_log s @ map Reg_read [VIRTIO_MMIO_MAGIC_VALUE, VIRTIO_MMIO_VERSION, VIRTIO_MMIO_DEVICE_ID] @
    map (Reg_write VIRTIO_MMIO_STATUS) [0, 1, 3, 7]"
  define s1 where "s1 = s\<lparr>vio_log := w @ [Reg_read VIRTIO_MMIO_STATUS]\<rparr>"
  have st: "vio_reg s w VIRTIO_MMIO_STATUS = 7"
    using assms(2) by (simp add: disk_identifies_def w_def vio_regs_of_def vio_reset_def)
  have "kmem_pages s1 ((p + 4096) # p # q # ps)" using assms(1) by (simp add: s1_def kmem_pages_def)
  from virtq_init_ok[OF this] obtain t where t: "virtq_init 0 s1 = Inr (p, t)" "kmem_pages t (q # ps)" "vq_idle (mem t) p"
    "\<forall>a. page_base a \<notin> {p, p + 4096} \<longrightarrow> mem t a = mem s1 a"
    "t = s1\<lparr>mem := mem t, kmem_head := kmem_head t, vio_log := vio_log s1 @ queue_log p\<rparr>" by blast
  have "vio_config t = vio_config s1" "lsr_at t = lsr_at s1" by (subst t(5), simp)+
  then have tf: "vio_config t = vio_config s" "uart_live t" using assms(3) by (simp_all add: s1_def uart_live_def)
  define fmt where "fmt = ''virtio blk_capacity=%d'' @ [CHR 0x0A]"
  define rest where "rest = (\<lambda>(vq, s :: 'a virtio_scheme).
        let s = s\<lparr>blk_request_vq := vq\<rparr>;
            s = virtio_reg_write32 VIRTIO_MMIO_STATUS (7 OR VIRTIO_STATUS_DIRVER_OK) s;
            s = s\<lparr>blk_capacity := vio_config s * ucast SECTOR_SIZE\<rparr> in
        kbind (kprintf fmt [VInt (ucast (blk_capacity s))] s) (\<lambda>(_, s).
        kbind (kmem_alloc s) (\<lambda>(p, s). Inr (s\<lparr>blk_req_paddr := p\<rparr>))))"
  have start: "virtio_blk_init s = kbind (virtq_init 0 s1) rest"
    using assms(2)
    unfolding virtio_blk_init_def Let_def virtio_reg_read32_def virtio_reg_write32_def disk_identifies_def rest_def fmt_def[symmetric]
    using st by (simp add: s1_def w_def VIRTIO_DEVICE_BLK_def VIRTIO_STATUS_ACKNOWLEDGE_def
        VIRTIO_STATUS_DRIVER_def VIRTIO_STATUS_FEATURES_OK_def)
  define t1 where "t1 = t\<lparr>blk_request_vq := p, vio_log := vio_log t @ [Reg_write VIRTIO_MMIO_STATUS (7 OR VIRTIO_STATUS_DIRVER_OK)],
    blk_capacity := vio_config s * 512\<rparr>"
  have "uart_live t1" using tf(2) by (simp add: t1_def uart_live_def)
  moreover obtain r out where "format_text fmt [VInt (ucast (blk_capacity t1))] = Some (r, out)" unfolding fmt_def by simp
  ultimately obtain lp lw where
    pr: "kprintf fmt [VInt (ucast (blk_capacity t1))] t1 = Inr (r, t1\<lparr>lsr_pos := lp, uart_writes := lw\<rparr>)"
    using kprintf_str by blast
  define t2 where "t2 = t1\<lparr>lsr_pos := lp, uart_writes := lw\<rparr>"
  have "kmem_pages t2 (q # ps)" using t(2) by (simp add: t2_def t1_def kmem_pages_def)
  from kmem_alloc_ok[OF this] obtain u where
    u: "kmem_alloc t2 = Inr (q, u)" "kmem_pages u ps" "\<forall>a. mem u a = (if page_base a = q then 0 else mem t2 a)"
      "u = t2\<lparr>mem := mem u, kmem_head := kmem_head u\<rparr>" by blast
  define v where "v = u\<lparr>blk_req_paddr := q\<rparr>"
  have run: "virtio_blk_init s = Inr v"
    using t(1) pr u(1) tf(1) unfolding start
    by (simp add: rest_def t1_def t2_def v_def SECTOR_SIZE_def virtio_reg_write32_def)
  have al: "page_aligned p" "page_aligned q" "page_aligned (p + 4096)" "q \<noteq> p" "q \<noteq> p + 4096" "p \<noteq> 0" using assms(1) by (auto simp: kmem_pages_def)
  have m: "mem v a = (if page_base a = q then 0 else mem t a)" for a using u(3) by (simp add: v_def t2_def t1_def)
  have "page_base (p + of_nat (4096 + k)) \<noteq> q" if "k < 4096" for k
    using page_base_add[OF al(3) that] al(5) by (simp add: add.assoc)
  then have "vq_idle (mem v) p" using t(3) vq_idle_cong[of "mem v" p "mem t"] m by simp
  moreover have v: "blk_request_vq v = p" "blk_req_paddr v = q" "blk_capacity v = vio_config s * 512"
      "vio_log v = vio_log t @ [Reg_write VIRTIO_MMIO_STATUS (7 OR VIRTIO_STATUS_DIRVER_OK)]"
    unfolding v_def by (simp_all, (subst u(4), simp add: t2_def t1_def)+)
  moreover have log: "vio_log v = vio_log s @ init_log p"
    unfolding v(4) by (subst t(5)) (simp add: s1_def w_def init_log_def VIRTIO_STATUS_DIRVER_OK_def)
  moreover have "queue_told (vio_log v) p" unfolding log by (rule init_log_told[OF al(1,6)])
  moreover have "driver_frame s s1" by (simp add: driver_frame_def s1_def)
  then have "driver_frame s t" by (rule driver_frame_trans) (subst t(5), simp add: driver_frame_def)
  then have "driver_frame s t2" by (rule driver_frame_trans) (simp add: driver_frame_def t2_def t1_def)
  then have "driver_frame s u" by (rule driver_frame_trans) (subst u(4), simp add: driver_frame_def)
  then have "driver_frame s v" by (rule driver_frame_trans) (simp add: driver_frame_def v_def)
  moreover have "mem v a = mem s a" if "page_base a \<notin> {p, p + 4096, q}" for a using m[of a] t(4) that by (simp add: s1_def)
  moreover have "kmem_pages v ps" using u(2) by (simp add: v_def kmem_pages_def)
  ultimately show ?thesis using run page_gap[OF al(1,2,4,5)] by (auto simp: request_ready_def)
qed

section \<open>Properties\<close>

text \<open>
  Leaving machine mode. From any state of the registers, \<open>start_setup\<close> ends in supervisor mode at
  \<open>kernel_main\<close>, with paging off, every exception and interrupt delegated, the supervisor's three
  interrupt sources enabled, and all other bits of \<open>mstatus\<close> as they were.
\<close>

lemma start_setup_enters_supervisor:
  "\<exists>s'. start_setup s = ((Supervisor_mode, sym_addr s Sym_kernel_main), s') \<and> s' = s\<lparr>csr := csr s'\<rparr> \<and> csr s' Satp = 0 \<and>
     csr s' Medeleg = -1 \<and> csr s' Mideleg = -1 \<and> csr s' Sie AND 0x222 = 0x222 \<and>
     csr s' Mstatus AND NOT (MSTATUS_MPP_MASK OR MSTATUS_SIE) = csr s Mstatus AND NOT (MSTATUS_MPP_MASK OR MSTATUS_SIE)"
proof -
  define x where "x = csr s Mstatus"
  have c: "NOT (0x1800 :: u32) AND 0x1800 = 0" "(0x800 :: u32) AND 0x1800 = 0x800" "(2 :: u32) AND 0x1800 = 0"
    by (simp_all add: and.commute[of "NOT _"])
  have "(x AND NOT 0x1800 OR 0x800 OR 2) AND 0x1800 = 0x800"
    unfolding bit.conj_disj_distrib2 and.assoc c by simp
  then have mpp: "drop_bit 11 ((x AND NOT 0x1800 OR 0x800 OR 2) AND 0x1800) = 1" by simp
  have d: "NOT (0x1800 :: u32) AND NOT (0x1802) = NOT (0x1802)" "(0x800 :: u32) AND NOT (0x1802) = 0" "(2 :: u32) AND NOT (0x1802) = 0"
    by (simp_all add: and.commute[of "NOT _"])
  have keep: "(x AND NOT 0x1800 OR 0x800 OR 2) AND NOT 0x1802 = x AND NOT 0x1802"
    unfolding bit.conj_disj_distrib2 and.assoc d by simp
  have m: "MSTATUS_MPP_MASK = 0x1800" "MSTATUS_MPP_S = 0x800" "MSTATUS_SIE = 2" "(0x1800 :: u32) OR 2 = 0x1802"
    by (simp_all add: MSTATUS_MPP_MASK_def MSTATUS_MPP_S_def MSTATUS_SIE_def)
  have e: "(y OR SIE_SEIE OR SIE_SSIE OR SIE_STIE) AND 0x222 = 0x222" for y :: u32
  proof -
    have "y OR SIE_SEIE OR SIE_SSIE OR SIE_STIE = y OR 0x222" by (simp add: SIE_SEIE_def SIE_SSIE_def SIE_STIE_def or.assoc)
    then show ?thesis by (simp add: bit.conj_disj_distrib2 or.commute)
  qed
  show ?thesis unfolding start_setup_def mret_def Let_def m READ_CSR_def WRITE_CSR_def using mpp keep e
    by (simp add: x_def or.assoc)
qed

end
