(* ===== verification/Kexec_Image.thy ===== *)
theory Kexec_Image
  imports Kexec_Load Kexec_Args
begin

text \<open>
  A whole program image: \<open>setup_image\<close> of \<open>kproc_create\<close> and \<open>kproc_exec\<close> (\<^verbatim>\<open>src/kernel/kproc.c\<close>). The kernel mapping, every segment
  of the file, the trap frame and the stack are put together to the address space in which the program starts.
\<close>

section \<open>The kernel in a new address space\<close>

lemma map_kernel_ok:
  fixes s :: "'a kproc_scheme"
  assumes root: "pagetable (procs s ! i) = root" "\<forall>a. page_base a = root \<longrightarrow> mem s a = 0" "page_aligned root"
    and qs: "kmem_pages s qs" "root \<notin> set qs" "tables_for N \<le> length qs"
    and N: "page_aligned (free_ram_end s)" "unat (free_ram_end s) = 4096 * N"
  shows "\<exists>t. map_kernel i s = Inr t \<and> kmem_frame s t \<and> pt_ok t root (drop (tables_for N) qs) \<and> ident_upto (mem t) root N \<and>
    pt_pages (mem t) root = insert root (set (take (tables_for N) qs)) \<and>
    (\<forall>a. page_base a \<noteq> root \<and> \<not> in_pages a qs \<longrightarrow> mem t a = mem s a)"
proof -
  have "ident_inv s root qs 0 0 s"
    using blank_table_ok[OF root(2,3)] blank_table[OF root(2,3)] qs by (auto simp: ident_inv_def ident_upto_def pt_ok_def tables_for_def)
  moreover have "pagetable (procs t ! i) = root" if "kmem_frame s t" for t using kmem_frame_kproc(1)[OF that] root(1) by simp
  ultimately have "\<exists>pa t. kwhile (\<lambda>(pa, s). pa < free_ram_end s)
       (\<lambda>(pa, s). kbind (kvmem_map_page (pagetable (procs s ! i)) pa pa (PTE_R OR PTE_W OR PTE_X) s)
          (\<lambda>s. Inr (pa + PAGE_SIZE, s))) (0, s) = Inr (pa, t) \<and> ident_inv s root qs N pa t"
    using ident_loop[of s root qs "\<lambda>s. pagetable (procs s ! i)" N] qs(3) N by simp
  then show ?thesis by (auto simp: map_kernel_def ident_inv_def)
qed

section \<open>The segments of a file\<close>

text \<open>Program header \<open>k\<close> of the file at \<open>eh\<close>, and the virtual pages of a segment.\<close>

definition header_of :: "(addr \<Rightarrow> u8) \<Rightarrow> addr \<Rightarrow> nat \<Rightarrow> elf_program_header" where
  "header_of m eh k = elf_program_header_at m (eh + eh_phoff (elf_header_at m eh) + of_nat k * 32)"

definition seg_vas :: "elf_program_header \<Rightarrow> u32 set" where
  "seg_vas h = (\<lambda>x. page_base (ph_vaddr h + of_nat x)) ` {..<4096 * seg_pages (unat (ph_memsz h))}"

definition elf_count :: "(addr \<Rightarrow> u8) \<Rightarrow> addr \<Rightarrow> nat" where
  "elf_count m eh = unat (eh_phnum (elf_header_at m eh))"

definition elf_pages :: "(addr \<Rightarrow> u8) \<Rightarrow> addr \<Rightarrow> nat \<Rightarrow> nat" where
  "elf_pages m eh n = (\<Sum>k < n. seg_pages (unat (ph_memsz (header_of m eh k))))"

text \<open>
  The file lies outside the pages \<open>P\<close>, its segments start at page boundaries and share no virtual page with each other, the
  trap frame or the stack.
\<close>

definition elf_loadable :: "(addr \<Rightarrow> u8) \<Rightarrow> addr \<Rightarrow> addr set \<Rightarrow> bool" where
  "elf_loadable m eh P \<longleftrightarrow> outside eh 52 P \<and>
     (\<forall>k < elf_count m eh. let h = header_of m eh k in
        outside (eh + eh_phoff (elf_header_at m eh) + of_nat k * 32) 32 P \<and> outside (eh + ph_offset h) (unat (ph_memsz h)) P \<and>
        page_aligned (ph_vaddr h) \<and> VA_TRAPFRAME \<notin> seg_vas h \<and> VA_USER_STACK \<notin> seg_vas h \<and>
        (\<forall>j < k. seg_vas (header_of m eh j) \<inter> seg_vas h = {}))"

lemma outside_mono: "outside p n P \<Longrightarrow> Q \<subseteq> P \<Longrightarrow> outside p n Q"
  by (auto simp: outside_def)

lemma load16_outside:
  assumes "outside p n P" "o' + 2 \<le> n" "\<And>a. page_base a \<notin> P \<Longrightarrow> m' a = m a"
  shows "load16 m' (p + of_nat o') = load16 m (p + of_nat o')"
proof -
  have "m' (p + of_nat (o' + k)) = m (p + of_nat (o' + k))" if "k < 2" for k
  proof -
    have "o' + k < n" using assms(2) that by simp
    with assms(1) have "page_base (p + of_nat (o' + k)) \<notin> P" unfolding outside_def by blast
    then show ?thesis by (rule assms(3))
  qed
  from this[of 0] this[of 1] show ?thesis by (simp add: load16_def ac_simps)
qed

lemma header_outside:
  assumes "outside eh 52 P" "\<And>a. page_base a \<notin> P \<Longrightarrow> m' a = m a"
  shows "eh_phnum (elf_header_at m' eh) = eh_phnum (elf_header_at m eh)" "eh_phoff (elf_header_at m' eh) = eh_phoff (elf_header_at m eh)"
    "eh_entry (elf_header_at m' eh) = eh_entry (elf_header_at m eh)"
  using load16_outside[OF assms(1) _ assms(2), of 44] load32_outside[OF assms(1) _ assms(2), of 28] load32_outside[OF assms(1) _ assms(2), of 24]
  by (simp_all add: elf_header_at_def)

text \<open>Segment \<open>h\<close> of the file is in memory, in frames of \<open>F\<close>.\<close>

definition seg_at :: "addr \<Rightarrow> addr set \<Rightarrow> (addr \<Rightarrow> u8) \<Rightarrow> addr \<Rightarrow> elf_program_header \<Rightarrow> (addr \<Rightarrow> u8) \<Rightarrow> bool" where
  "seg_at root F m0 file h m \<longleftrightarrow> (\<forall>x < 4096 * seg_pages (unat (ph_memsz h)). \<exists>fr \<in> F. page_aligned fr \<and>
     pt_entry m root (vpn1 (ph_vaddr h + of_nat x)) (vpn0 (ph_vaddr h + of_nat x)) = Some (leaf_pte fr PTE_URWX) \<and>
     m (fr + of_nat (x mod 4096)) = (if x < unat (ph_memsz h) then m0 (file + ph_offset h + of_nat x) else 0))"

lemma seg_at_mono:
  assumes "seg_at root F m0 file h m" "F \<subseteq> F'" "\<And>a. page_base a \<in> F \<Longrightarrow> m' a = m a"
    "\<And>va. page_base va \<in> seg_vas h \<Longrightarrow> pt_entry m' root (vpn1 va) (vpn0 va) = pt_entry m root (vpn1 va) (vpn0 va)"
  shows "seg_at root F' m0 file h m'"
  unfolding seg_at_def
proof (intro allI impI)
  fix x assume x: "x < 4096 * seg_pages (unat (ph_memsz h))"
  let ?va = "ph_vaddr h + of_nat x"
  from assms(1) x obtain fr where fr: "fr \<in> F" "page_aligned fr" "pt_entry m root (vpn1 ?va) (vpn0 ?va) = Some (leaf_pte fr PTE_URWX)"
    "m (fr + of_nat (x mod 4096)) = (if x < unat (ph_memsz h) then m0 (file + ph_offset h + of_nat x) else 0)" by (auto simp: seg_at_def)
  have "page_base ?va \<in> seg_vas h" using x by (auto simp: seg_vas_def)
  moreover have "page_base (fr + of_nat (x mod 4096)) = fr" by (rule page_base_add[OF fr(2)]) simp
  ultimately show "\<exists>fr \<in> F'. page_aligned fr \<and> pt_entry m' root (vpn1 ?va) (vpn0 ?va) = Some (leaf_pte fr PTE_URWX) \<and>
      m' (fr + of_nat (x mod 4096)) = (if x < unat (ph_memsz h) then m0 (file + ph_offset h + of_nat x) else 0)"
    using fr assms(2-4) by (intro bexI[of _ fr]) auto
qed

lemma load_segment_at:
  fixes s :: "'a kproc_scheme"
  assumes live: "uart_live s" and ok: "pt_ok s root ps" and root: "pagetable (procs s ! i) = root"
    and i: "i < length (procs s)" and hdr: "elf_program_header_at (mem s) eph = h"
    and al: "page_aligned (ph_vaddr h)" and room: "2 * seg_pages (unat (ph_memsz h)) \<le> length ps"
    and out: "outside eph 32 (pt_pages (mem s) root \<union> set ps)"
      "outside (file + ph_offset h) (unat (ph_memsz h)) (pt_pages (mem s) root \<union> set ps)"
  shows "\<exists>t m. load_segment heap i file eph s = Inr t \<and> m \<le> 2 * seg_pages (unat (ph_memsz h)) \<and> pt_ok t root (drop m ps) \<and>
    img_frame i s t \<and> pt_pages (mem t) root \<subseteq> pt_pages (mem s) root \<union> set ps \<and>
    (\<forall>a. page_base a \<notin> pt_pages (mem s) root \<union> set ps \<longrightarrow> mem t a = mem s a) \<and>
    seg_at root (set ps - pt_pages (mem t) root - set (drop m ps)) (mem s) file h (mem t) \<and>
    (\<forall>va. page_base va \<notin> seg_vas h \<longrightarrow> pt_entry (mem t) root (vpn1 va) (vpn0 va) = pt_entry (mem s) root (vpn1 va) (vpn0 va))"
proof -
  let ?len = "unat (ph_memsz h)" and ?va = "ph_vaddr h"
  from load_segment_ok[OF assms] obtain t m fr where t: "load_segment heap i file eph s = Inr t"
    and inv: "seg_inv i root ps (file + ph_offset h) ?va ?len s m fr (seg_pages ?len) t" by blast
  have aln: "\<forall>p \<in> set ps. page_aligned p" using ok by (simp add: pt_ok_def kmem_pages_def)
  have K: "4096 * seg_pages ?len \<le> 4294967296" using unat32_bound[of "ph_memsz h"] by (auto simp: seg_pages_eq)
  have "seg_at root (set ps - pt_pages (mem t) root - set (drop m ps)) (mem s) file h (mem t)"
    unfolding seg_at_def
  proof (intro allI impI)
    fix x assume x: "x < 4096 * seg_pages ?len"
    have j: "x div 4096 < seg_pages ?len" using x by (simp add: less_mult_imp_div_less mult.commute)
    have "seg_byte (mem s) (file + ph_offset h) ?len (x div 4096) (x mod 4096) =
        (if x < ?len then mem s (file + ph_offset h + of_nat x) else 0)" by (simp add: seg_byte_def)
    with inv j aln show "\<exists>fr \<in> set ps - pt_pages (mem t) root - set (drop m ps). page_aligned fr \<and>
        pt_entry (mem t) root (vpn1 (?va + of_nat x)) (vpn0 (?va + of_nat x)) = Some (leaf_pte fr PTE_URWX) \<and>
        mem t (fr + of_nat (x mod 4096)) = (if x < ?len then mem s (file + ph_offset h + of_nat x) else 0)"
      using seg_va_page[OF al, of x] x K by (intro bexI[of _ "fr (x div 4096)"]) (auto simp: seg_inv_def)
  qed
  moreover have "pt_entry (mem t) root (vpn1 wa) (vpn0 wa) = pt_entry (mem s) root (vpn1 wa) (vpn0 wa)" if wa: "page_base wa \<notin> seg_vas h" for wa
  proof -
    have "\<not> (vpn1 wa = vpn1 (seg_va ?va j) \<and> vpn0 wa = vpn0 (seg_va ?va j))" if "j < seg_pages ?len" for j
    proof -
      have "page_base wa \<noteq> page_base (?va + of_nat (4096 * j))" using wa that unfolding seg_vas_def by fastforce
      then show ?thesis by (simp add: same_page_iff seg_va_def PAGE_SIZE_def mult.commute)
    qed
    then show ?thesis using inv vpn_bound[of wa] by (simp add: seg_inv_def)
  qed
  ultimately show ?thesis using t inv by (auto simp: seg_inv_def)
qed

text \<open>After the first \<open>k\<close> segments, of the file at \<open>eh\<close> in \<open>s\<close>, with \<open>n\<close> of the pages \<open>ps\<close> in use.\<close>

definition prog_inv :: "nat \<Rightarrow> addr \<Rightarrow> addr list \<Rightarrow> addr \<Rightarrow> 'a kproc_scheme \<Rightarrow> nat \<Rightarrow> nat \<Rightarrow> 'a kproc_scheme \<Rightarrow> bool" where
  "prog_inv i root ps eh s k n t \<longleftrightarrow> n \<le> 2 * elf_pages (mem s) eh k \<and> pt_ok t root (drop n ps) \<and> img_frame i s t \<and>
     pt_pages (mem t) root \<subseteq> pt_pages (mem s) root \<union> set ps \<and>
     (\<forall>a. page_base a \<notin> pt_pages (mem s) root \<union> set ps \<longrightarrow> mem t a = mem s a) \<and>
     (\<forall>j < k. seg_at root (set ps - pt_pages (mem t) root - set (drop n ps)) (mem s) eh (header_of (mem s) eh j) (mem t)) \<and>
     (\<forall>va. (\<forall>j < k. page_base va \<notin> seg_vas (header_of (mem s) eh j)) \<longrightarrow>
        pt_entry (mem t) root (vpn1 va) (vpn0 va) = pt_entry (mem s) root (vpn1 va) (vpn0 va))"

lemma prog_inv_step:
  fixes s t :: "'a kproc_scheme"
  assumes inv: "prog_inv i root ps eh s k n t" and k: "k < elf_count (mem s) eh" and live: "uart_live s"
    and i: "i < length (procs s)" "pagetable (procs s ! i) = root" and el: "elf_loadable (mem s) eh (pt_pages (mem s) root \<union> set ps)"
    and room: "2 * elf_pages (mem s) eh (Suc k) \<le> length ps"
  shows "\<exists>u n'. load_segment heap i eh (eh + eh_phoff (elf_header_at (mem t) eh) + of_nat k * 32) t = Inr u \<and> prog_inv i root ps eh s (Suc k) n' u"
proof -
  let ?P = "pt_pages (mem s) root \<union> set ps" and ?h = "header_of (mem s) eh k" and ?eph = "eh + eh_phoff (elf_header_at (mem s) eh) + of_nat k * 32"
  have t: "n \<le> 2 * elf_pages (mem s) eh k" "pt_ok t root (drop n ps)" "img_frame i s t" "pt_pages (mem t) root \<subseteq> ?P"
    "\<And>a. page_base a \<notin> ?P \<Longrightarrow> mem t a = mem s a" using inv by (auto simp: prog_inv_def)
  have h: "outside ?eph 32 ?P" "outside (eh + ph_offset ?h) (unat (ph_memsz ?h)) ?P" "page_aligned (ph_vaddr ?h)"
    "\<And>j. j < k \<Longrightarrow> seg_vas (header_of (mem s) eh j) \<inter> seg_vas ?h = {}"
    using el k by (auto simp: elf_loadable_def Let_def)
  have off: "eh_phoff (elf_header_at (mem t) eh) = eh_phoff (elf_header_at (mem s) eh)"
    by (rule header_outside(2)[where P = ?P]) (use el t(5) in \<open>auto simp: elf_loadable_def\<close>)
  have hd: "elf_program_header_at (mem t) ?eph = ?h"
    using program_header_outside[OF h(1) t(5)] by (simp add: header_of_def)
  have sub: "pt_pages (mem t) root \<union> set (drop n ps) \<subseteq> ?P" using t(4) set_drop_subset[of n ps] by auto
  note fr = img_frame_simps[OF t(3)]
  have "uart_live t" "pagetable (procs t ! i) = root" "i < length (procs t)" using fr live i by auto
  moreover have "2 * seg_pages (unat (ph_memsz ?h)) \<le> length (drop n ps)" using room t(1) by (simp add: elf_pages_def)
  ultimately obtain u m where u: "load_segment heap i eh ?eph t = Inr u" "m \<le> 2 * seg_pages (unat (ph_memsz ?h))"
    "pt_ok u root (drop m (drop n ps))" "img_frame i t u" "pt_pages (mem u) root \<subseteq> pt_pages (mem t) root \<union> set (drop n ps)"
    "\<And>a. page_base a \<notin> pt_pages (mem t) root \<union> set (drop n ps) \<Longrightarrow> mem u a = mem t a"
    "seg_at root (set (drop n ps) - pt_pages (mem u) root - set (drop m (drop n ps))) (mem t) eh ?h (mem u)"
    "\<And>va. page_base va \<notin> seg_vas ?h \<Longrightarrow> pt_entry (mem u) root (vpn1 va) (vpn0 va) = pt_entry (mem t) root (vpn1 va) (vpn0 va)"
    using load_segment_at[OF _ t(2) _ _ hd h(3) _ outside_mono[OF h(1) sub] outside_mono[OF h(2) sub], of i heap] by blast
  have dd: "drop m (drop n ps) = drop (n + m) ps" "set (drop (n + m) ps) \<subseteq> set (drop n ps)" "set (drop n ps) \<subseteq> set ps"
    by (simp_all add: add.commute set_drop_subset_set_drop set_drop_subset)
  let ?F = "\<lambda>v n. set ps - pt_pages (mem v) root - set (drop n ps)"
  have "seg_at root (?F u (n + m)) (mem s) eh (header_of (mem s) eh j) (mem u)" if "j < Suc k" for j
  proof (cases "j = k")
    case True
    have "seg_at root (?F u (n + m)) (mem t) eh ?h (mem u)" by (rule seg_at_mono[OF u(7)]) (use dd in auto)
    moreover have "mem t (eh + ph_offset ?h + of_nat x) = mem s (eh + ph_offset ?h + of_nat x)" if "x < unat (ph_memsz ?h)" for x
      using h(2) that t(5) unfolding outside_def by blast
    ultimately show ?thesis unfolding True seg_at_def by (auto split: if_splits)
  next
    case False
    then have j: "j < k" using that by simp
    show ?thesis
    proof (rule seg_at_mono)
      show "seg_at root (?F t n) (mem s) eh (header_of (mem s) eh j) (mem t)" using inv j by (simp add: prog_inv_def)
      show "?F t n \<subseteq> ?F u (n + m)" using u(5) dd by auto
      show "mem u a = mem t a" if "page_base a \<in> ?F t n" for a using u(6) that by blast
      show "pt_entry (mem u) root (vpn1 va) (vpn0 va) = pt_entry (mem t) root (vpn1 va) (vpn0 va)"
        if "page_base va \<in> seg_vas (header_of (mem s) eh j)" for va using u(8) h(4)[OF j] that by blast
    qed
  qed
  moreover have "mem u a = mem s a" if "page_base a \<notin> ?P" for a using u(6)[of a] t(5)[OF that] sub that by (metis subsetD)
  moreover have "n + m \<le> 2 * elf_pages (mem s) eh (Suc k)" using t(1) u(2) by (simp add: elf_pages_def)
  moreover have "pt_pages (mem u) root \<subseteq> ?P" using u(5) sub by blast
  ultimately have "prog_inv i root ps eh s (Suc k) (n + m) u"
    using u(3,4,8) inv img_frame_trans[OF t(3) u(4)] unfolding prog_inv_def dd(1) by auto
  then show ?thesis using u(1) unfolding off by blast
qed

lemma load_program_ok:
  fixes s :: "'a kproc_scheme"
  assumes live: "uart_live s" and ok: "pt_ok s root ps" and i: "i < length (procs s)" "pagetable (procs s ! i) = root"
    and el: "elf_loadable (mem s) eh (pt_pages (mem s) root \<union> set ps)" and room: "2 * elf_pages (mem s) eh (elf_count (mem s) eh) \<le> length ps"
  shows "\<exists>t n. load_program heap i eh s = Inr t \<and> prog_inv i root ps eh s (elf_count (mem s) eh) n t"
proof -
  let ?n = "elf_count (mem s) eh"
  let ?b = "\<lambda>(hi, s :: 'a kproc_scheme). hi < unat (eh_phnum (elf_header_at (mem s) eh))"
  let ?c = "\<lambda>(hi, s :: 'a kproc_scheme). kbind (load_segment heap i eh (eh + eh_phoff (elf_header_at (mem s) eh) + of_nat hi * 32) s) (\<lambda>s. Inr (hi + 1, s))"
  let ?I = "\<lambda>(hi, t). hi \<le> ?n \<and> (\<exists>n. prog_inv i root ps eh s hi n t)"
  have b: "?b (hi, t) \<longleftrightarrow> hi < ?n" if "prog_inv i root ps eh s hi n t" for hi n t
  proof -
    have "eh_phnum (elf_header_at (mem t) eh) = eh_phnum (elf_header_at (mem s) eh)"
      by (rule header_outside(1)) (use el that in \<open>auto simp: elf_loadable_def prog_inv_def\<close>)
    then show ?thesis by (simp add: elf_count_def)
  qed
  have "\<exists>r. kwhile ?b ?c (0, s) = Inr r \<and> ?I r \<and> \<not> ?b r"
  proof (rule kwhile_total[where m = "\<lambda>(hi, t). ?n - hi"])
    have "prog_inv i root ps eh s 0 0 s" using ok img_frame_kmem[OF kmem_frame_refl] by (auto simp: prog_inv_def)
    then show "?I (0, s)" by auto
  next
    fix r assume "?I r" "?b r"
    then obtain hi t n where r: "r = (hi, t)" "prog_inv i root ps eh s hi n t" "hi < ?n" using b by (cases r) auto
    have "elf_pages (mem s) eh (Suc hi) \<le> elf_pages (mem s) eh ?n" unfolding elf_pages_def by (rule sum_mono2) (use r(3) in auto)
    then have "2 * elf_pages (mem s) eh (Suc hi) \<le> length ps" using room by simp
    from prog_inv_step[OF r(2,3) live i el this, of heap] r(3)
    show "\<exists>r'. ?c r = Inr r' \<and> ?I r' \<and> (case r' of (hi, t) \<Rightarrow> ?n - hi) < (case r of (hi, t) \<Rightarrow> ?n - hi)" by (auto simp: r(1))
  qed
  then obtain hi t n where "kwhile ?b ?c (0, s) = Inr (hi, t)" "hi \<le> ?n" "prog_inv i root ps eh s hi n t" "\<not> ?b (hi, t)" by auto
  moreover from this have "hi = ?n" using b by fastforce
  ultimately show ?thesis by (auto simp: load_program_def)
qed

section \<open>The address space\<close>

text \<open>Loading a program touches memory, the free list, the console and the control blocks only.\<close>

definition rest_same :: "'a kproc_scheme \<Rightarrow> 'a kproc_scheme \<Rightarrow> bool" where
  "rest_same s t \<longleftrightarrow>
     t = s\<lparr>mem := mem t, kmem_head := kmem_head t, lsr_pos := lsr_pos t, uart_writes := uart_writes t, procs := procs t\<rparr>"

lemma rest_same_trans: "rest_same s t \<Longrightarrow> rest_same t u \<Longrightarrow> rest_same s u"
  by (cases s; cases t; cases u) (simp add: rest_same_def)

lemma rest_same_intros:
  "img_frame i s t \<Longrightarrow> rest_same s t" "kmem_frame s t \<Longrightarrow> rest_same s t" "rest_same s (proc_upd i f s)" "rest_same s (tf_set p q v s)"
  "rest_same s (s\<lparr>lsr_pos := l, uart_writes := w\<rparr>)"
  using img_frame_kmem[of s t] by (auto simp: rest_same_def img_frame_def proc_upd_def tf_set_def set_word_def)

lemma rest_same_simps:
  assumes "rest_same s t"
  shows "current t = current s" "free_ram_end t = free_ram_end s" "sym_addr t = sym_addr s" "uart_live t = uart_live s" "csr t = csr s"
    "kproc.more t = kproc.more s"
  using assms by (cases s; cases t; simp add: rest_same_def uart_live_def)+

text \<open>The control block and the trap frame of the new image, before anything is mapped.\<close>

definition image_ctx :: "nat \<Rightarrow> addr \<Rightarrow> 'a kproc_scheme \<Rightarrow> 'a kproc_scheme" where
  "image_ctx i tf s =
     (let s = proc_upd i (\<lambda>p. p\<lparr>trapframe := tf\<rparr>) s;
          s = proc_upd i (\<lambda>p. p\<lparr>proc_context := (proc_context p)\<lparr>ra := At_ktrap_to_user\<rparr>\<rparr>) s;
          s = proc_upd i (\<lambda>p. p\<lparr>proc_context := (proc_context p)\<lparr>ctx_sp := kernel_stack_top p\<rparr>\<rparr>) s;
          s = tf_set (trapframe (procs s ! i)) TF_kernel_sp (kernel_stack_top (procs s ! i)) s
      in tf_set (trapframe (procs s ! i)) TF_kernel_trap (sym_addr s Sym_ktrap_from_user_handler) s)"

definition image_block :: "addr \<Rightarrow> addr \<Rightarrow> process \<Rightarrow> process" where
  "image_block root tf p = p\<lparr>pagetable := root, trapframe := tf, proc_context := \<lparr>ra = At_ktrap_to_user, ctx_sp = kernel_stack_top p\<rparr>\<rparr>"

lemma image_ctx_ok:
  fixes s :: "'a kproc_scheme"
  assumes "i < length (procs s)" "page_aligned tf" "\<forall>a. page_base a = tf \<longrightarrow> mem s a = 0"
  defines "ks \<equiv> kernel_stack_top (procs s ! i)"
  shows "procs (image_ctx i tf s) = (procs s)[i := (procs s ! i)\<lparr>trapframe := tf, proc_context := \<lparr>ra = At_ktrap_to_user, ctx_sp = ks\<rparr>\<rparr>]"
    "page_base a \<noteq> tf \<Longrightarrow> mem (image_ctx i tf s) a = mem s a"
    "tf_get tf f (image_ctx i tf s) =
      (if f = TF_kernel_sp then ks else if f = TF_kernel_trap then sym_addr s Sym_ktrap_from_user_handler else 0)"
    "rest_same s (image_ctx i tf s)" "kmem_head (image_ctx i tf s) = kmem_head s"
proof -
  have ctx: "(proc_context p)\<lparr>ra := x, ctx_sp := y\<rparr> = \<lparr>ra = x, ctx_sp = y\<rparr>" for p x y by (cases "proc_context p") simp
  let ?s = "proc_upd i (\<lambda>p. p\<lparr>trapframe := tf, proc_context := \<lparr>ra = At_ktrap_to_user, ctx_sp = ks\<rparr>\<rparr>) s"
  have eq: "image_ctx i tf s = tf_set tf TF_kernel_trap (sym_addr s Sym_ktrap_from_user_handler) (tf_set tf TF_kernel_sp ks ?s)"
    using assms(1) by (simp add: image_ctx_def Let_def ks_def proc_upd_def ctx)
  show "procs (image_ctx i tf s) = (procs s)[i := (procs s ! i)\<lparr>trapframe := tf, proc_context := \<lparr>ra = At_ktrap_to_user, ctx_sp = ks\<rparr>\<rparr>]"
    by (simp add: eq)
  show "mem (image_ctx i tf s) a = mem s a" if "page_base a \<noteq> tf"
    unfolding eq tf_set_other[OF assms(2) that] by simp
  have "tf_get tf f ?s = 0" for f
    unfolding tf_get_def using word_at_page[OF assms(2) tf_index_bound, of "mem s" "\<lambda>_. 0"] assms(3) by (simp add: load32_def)
  then show "tf_get tf f (image_ctx i tf s) =
      (if f = TF_kernel_sp then ks else if f = TF_kernel_trap then sym_addr s Sym_ktrap_from_user_handler else 0)"
    unfolding eq by (simp add: tf_get_set[OF assms(2,2)])
  show "rest_same s (image_ctx i tf s)" unfolding eq by (intro rest_same_trans[OF _ rest_same_intros(4)] rest_same_intros(3))
  show "kmem_head (image_ctx i tf s) = kmem_head s" by (simp add: eq)
qed

text \<open>The first part of \<open>setup_image\<close>, up to the mapping of the kernel: a table \<open>root\<close>, a trap frame \<open>tf\<close> and the free pages \<open>qs\<close>.\<close>

definition base_stage :: "nat \<Rightarrow> addr \<Rightarrow> addr \<Rightarrow> addr list \<Rightarrow> nat \<Rightarrow> 'a kproc_scheme \<Rightarrow> 'a kproc_scheme \<Rightarrow> bool" where
  "base_stage i root tf qs N s t \<longleftrightarrow> procs t = (procs s)[i := image_block root tf (procs s ! i)] \<and> rest_same s t \<and>
     pt_ok t root (drop (tables_for N) qs) \<and> ident_upto (mem t) root N \<and> pt_pages (mem t) root = insert root (set (take (tables_for N) qs)) \<and>
     (\<forall>f. tf_get tf f t = (if f = TF_kernel_sp then kernel_stack_top (procs s ! i)
        else if f = TF_kernel_trap then sym_addr s Sym_ktrap_from_user_handler else 0)) \<and>
     (\<forall>a. \<not> in_pages a (root # tf # qs) \<longrightarrow> mem t a = mem s a)"

lemma image_base_ok:
  fixes s :: "'a kproc_scheme"
  assumes pg: "kmem_pages s (root # tf # qs)" and i: "i < length (procs s)" and room: "tables_for N \<le> length qs"
    and N: "page_aligned (free_ram_end s)" "unat (free_ram_end s) = 4096 * N"
  shows "\<exists>s1 s2 t. kmem_alloc s = Inr (root, s1) \<and> kmem_alloc (proc_upd i (\<lambda>p. p\<lparr>pagetable := root\<rparr>) s1) = Inr (tf, s2) \<and>
    map_kernel i (image_ctx i tf s2) = Inr t \<and> base_stage i root tf qs N s t"
proof -
  let ?u1 = "\<lambda>s. proc_upd i (\<lambda>p. p\<lparr>pagetable := root\<rparr>) s"
  from kmem_alloc_ok[OF pg] obtain s1 where s1: "kmem_alloc s = Inr (root, s1)" "kmem_pages s1 (tf # qs)"
    "\<And>a. mem s1 a = (if page_base a = root then 0 else mem s a)" "kmem_frame s s1" by (auto simp: kmem_frame_def)
  from kmem_alloc_ok[OF s1(2)] obtain s2 where s2: "kmem_alloc s1 = Inr (tf, s2)" "kmem_pages s2 qs"
    "\<And>a. mem s2 a = (if page_base a = tf then 0 else mem s1 a)" "kmem_frame s1 s2" by (auto simp: kmem_frame_def)
  have al: "page_aligned root" "page_aligned tf" "root \<noteq> tf" "root \<notin> set qs" "tf \<notin> set qs" using pg by (auto simp: kmem_pages_def)
  have fr: "kmem_frame s s2" by (rule kmem_frame_trans[OF s1(4) s2(4)])
  have pr: "procs s2 = procs s" by (rule kmem_frame_kproc(1)[OF fr])
  let ?s = "?u1 s2" let ?c = "image_ctx i tf ?s"
  have "i < length (procs ?s)" "\<forall>a. page_base a = tf \<longrightarrow> mem ?s a = 0" using i pr s2(3) by simp_all
  note c = image_ctx_ok[OF this(1) al(2) this(2)]
  have cp: "procs ?c = (procs s)[i := image_block root tf (procs s ! i)]" using i pr by (simp add: c(1) image_block_def)
  have "kmem_pages ?c qs"
  proof (rule kmem_pages_frame[OF s2(2)])
    show "kmem_head ?c = kmem_head s2" by (simp add: c(5))
    fix a assume "in_pages a qs"
    then show "mem ?c a = mem s2 a" using c(2)[of a] al(5) by auto
  qed
  moreover have "\<forall>a. page_base a = root \<longrightarrow> mem ?c a = 0" using c(2) s2(3) s1(3) al(3) by simp
  moreover have sc: "rest_same s ?c" by (rule rest_same_trans[OF rest_same_intros(2)[OF fr] rest_same_trans[OF rest_same_intros(3) c(4)]])
  moreover have "free_ram_end ?c = free_ram_end s" by (rule rest_same_simps(2)[OF sc])
  moreover have "pagetable (procs ?c ! i) = root" using i by (simp add: cp image_block_def)
  ultimately obtain t where t: "map_kernel i ?c = Inr t" "kmem_frame ?c t" "pt_ok t root (drop (tables_for N) qs)" "ident_upto (mem t) root N"
    "pt_pages (mem t) root = insert root (set (take (tables_for N) qs))" "\<forall>a. page_base a \<noteq> root \<and> \<not> in_pages a qs \<longrightarrow> mem t a = mem ?c a"
    using map_kernel_ok[of ?c i root qs N] al(1,4) room N by auto
  have "tf_get tf f t = tf_get tf f ?c" for f by (rule tf_get_page[OF al(2)]) (use t(6) al(3,5) in auto)
  then have "tf_get tf f t = (if f = TF_kernel_sp then kernel_stack_top (procs s ! i)
       else if f = TF_kernel_trap then sym_addr s Sym_ktrap_from_user_handler else 0)" for f
    using c(3) i pr kmem_frame_simps(5)[OF fr] by simp
  moreover have "mem t a = mem s a" if "\<not> in_pages a (root # tf # qs)" for a using t(6) c(2)[of a] s1(3)[of a] s2(3)[of a] that by auto
  moreover have "procs t = (procs s)[i := image_block root tf (procs s ! i)]" using kmem_frame_kproc(1)[OF t(2)] cp by simp
  moreover have "rest_same s t" by (rule rest_same_trans[OF sc rest_same_intros(2)[OF t(2)]])
  ultimately show ?thesis using s1(1) kmem_alloc_upd[OF s2(1), of i] t(1,3-5)
    unfolding base_stage_def by (intro exI[of _ s1] exI[of _ ?s] exI[of _ t] conjI allI impI) (simp_all only:)
qed

lemma elf_cong:
  assumes el: "elf_loadable m eh P" and "\<forall>a. page_base a \<notin> P \<longrightarrow> m' a = m a"
  shows "elf_count m' eh = elf_count m eh" "k < elf_count m eh \<Longrightarrow> header_of m' eh k = header_of m eh k"
    "elf_pages m' eh (elf_count m eh) = elf_pages m eh (elf_count m eh)" "Q \<subseteq> P \<Longrightarrow> elf_loadable m' eh Q"
    "eh_entry (elf_header_at m' eh) = eh_entry (elf_header_at m eh)"
proof -
  have o: "outside eh 52 P" using el by (simp add: elf_loadable_def)
  have same: "page_base a \<notin> P \<Longrightarrow> m' a = m a" for a using assms(2) by blast
  note h = header_outside[OF o same]
  show c: "elf_count m' eh = elf_count m eh" using h(1) by (simp add: elf_count_def)
  show "eh_entry (elf_header_at m' eh) = eh_entry (elf_header_at m eh)" by (rule h(3))
  have H: "header_of m' eh k = header_of m eh k" if "k < elf_count m eh" for k
  proof -
    have "outside (eh + eh_phoff (elf_header_at m eh) + of_nat k * 32) 32 P" using el that by (simp add: elf_loadable_def Let_def)
    from program_header_outside[OF this same] show ?thesis by (simp add: header_of_def h(2))
  qed
  then show "k < elf_count m eh \<Longrightarrow> header_of m' eh k = header_of m eh k" .
  show "elf_pages m' eh (elf_count m eh) = elf_pages m eh (elf_count m eh)" unfolding elf_pages_def by (rule sum.cong) (simp_all add: H)
  show "elf_loadable m' eh Q" if "Q \<subseteq> P"
    using el that unfolding elf_loadable_def Let_def by (auto simp: c h(2) H intro: outside_mono)
qed

lemma va_pages: "page_base VA_TRAPFRAME = VA_TRAPFRAME" "page_base VA_USER_STACK = VA_USER_STACK" "VA_USER_STACK \<noteq> VA_TRAPFRAME"
  by (simp_all add: VA_TRAPFRAME_def VA_USER_STACK_def VA_USER_STACK_INIT_def VA_MAX_def PAGE_SIZE_def page_base_def)

lemma map_page_at:
  fixes s :: "'a kmem_scheme"
  assumes ok: "pt_ok s root ps" and room: "ps \<noteq> []"
  shows "\<exists>t n. kvmem_map_page root va pa flags s = Inr t \<and> n \<le> 1 \<and> kmem_frame s t \<and> pt_ok t root (drop n ps) \<and>
    pt_pages (mem t) root = pt_pages (mem s) root \<union> set (take n ps) \<and>
    (\<forall>a. page_base a \<notin> pt_pages (mem s) root \<union> set (take n ps) \<longrightarrow> mem t a = mem s a) \<and>
    (\<forall>wa. pt_entry (mem t) root (vpn1 wa) (vpn0 wa) =
       (if page_base wa = page_base va then Some (leaf_pte pa flags) else pt_entry (mem s) root (vpn1 wa) (vpn0 wa)))"
proof -
  define new where "new = (if pt_valid (mem s) root (vpn1 va) then [] else take 1 ps)"
  have n: "take (length new) ps = new" "length new \<le> 1" using room by (cases ps; simp add: new_def)+
  from map_page_ok[OF ok, of va pa flags] room obtain t where t:
    "kvmem_map_page root va pa flags s = Inr t" "pt_ok t root (drop (length new) ps)" "pt_step root (set new) s t"
    "\<forall>i < 1024. \<forall>j < 1024. pt_entry (mem t) root i j = (if i = vpn1 va \<and> j = vpn0 va then Some (leaf_pte pa flags) else pt_entry (mem s) root i j)"
    unfolding leaf_pte_def new_def by auto
  have "pt_entry (mem t) root (vpn1 wa) (vpn0 wa) =
      (if page_base wa = page_base va then Some (leaf_pte pa flags) else pt_entry (mem s) root (vpn1 wa) (vpn0 wa))" for wa
    using t(4) vpn_bound[of wa] by (simp add: same_page_iff)
  then show ?thesis using t(1-3) n by (intro exI[of _ t] exI[of _ "length new"]) (auto simp: pt_step_def)
qed

lemma frame_mapped_va:
  "frame_mapped root fr qs va flags new m s t \<Longrightarrow> pt_entry (mem t) root (vpn1 wa) (vpn0 wa) =
     (if page_base wa = page_base va then Some (leaf_pte fr flags) else pt_entry (mem s) root (vpn1 wa) (vpn0 wa))"
  using vpn_bound[of wa] by (simp add: frame_mapped_def same_page_iff)

text \<open>The last part: the trap frame and the stack are mapped, with \<open>n\<close> of the free pages \<open>ps\<close>.\<close>

definition stack_stage :: "nat \<Rightarrow> addr \<Rightarrow> addr \<Rightarrow> addr list \<Rightarrow> addr \<Rightarrow> nat \<Rightarrow> 'a kproc_scheme \<Rightarrow> 'a kproc_scheme \<Rightarrow> bool" where
  "stack_stage i root tf ps stk n s t \<longleftrightarrow> n \<le> 3 \<and> rest_same s t \<and> procs t = (procs s)[i := (procs s ! i)\<lparr>user_stack := stk\<rparr>] \<and>
     pt_ok t root (drop n ps) \<and> stk \<in> set ps \<and> stk \<notin> set (drop n ps) \<and> stk \<notin> pt_pages (mem t) root \<and> page_aligned stk \<and>
     pt_pages (mem s) root \<subseteq> pt_pages (mem t) root \<and> pt_pages (mem t) root \<subseteq> pt_pages (mem s) root \<union> set ps \<and>
     (\<forall>x < 4096. mem t (stk + of_nat x) = 0) \<and> (\<forall>f. tf_get tf f t = (if f = TF_sp then VA_USER_STACK_INIT else tf_get tf f s)) \<and>
     (\<forall>a. page_base a \<notin> insert tf (pt_pages (mem s) root \<union> set ps) \<longrightarrow> mem t a = mem s a) \<and>
     (\<forall>va. pt_entry (mem t) root (vpn1 va) (vpn0 va) = (if page_base va = VA_USER_STACK then Some (leaf_pte stk PTE_URWX)
        else if page_base va = VA_TRAPFRAME then Some (leaf_pte tf (PTE_R OR PTE_W)) else pt_entry (mem s) root (vpn1 va) (vpn0 va)))"

lemma image_stack:
  fixes s :: "'a kproc_scheme"
  assumes ok: "pt_ok s root ps" and room: "3 \<le> length ps" and i: "i < length (procs s)" "pagetable (procs s ! i) = root" "trapframe (procs s ! i) = tf"
    and tf: "page_aligned tf" "tf \<notin> pt_pages (mem s) root" "tf \<notin> set ps"
  shows "\<exists>v1 stk v2 t n. kvmem_map_page root VA_TRAPFRAME tf (PTE_R OR PTE_W) s = Inr v1 \<and> kmem_alloc v1 = Inr (stk, v2) \<and>
    kvmem_map_page root VA_USER_STACK stk PTE_URWX (tf_set tf TF_sp VA_USER_STACK_INIT (proc_upd i (\<lambda>p. p\<lparr>user_stack := stk\<rparr>) v2)) = Inr t \<and>
    procs v1 = procs s \<and> procs v2 = procs s \<and> stack_stage i root tf ps stk n s t"
proof -
  obtain v1 n1 where v1: "kvmem_map_page root VA_TRAPFRAME tf (PTE_R OR PTE_W) s = Inr v1" "n1 \<le> 1" "kmem_frame s v1" "pt_ok v1 root (drop n1 ps)"
    "pt_pages (mem v1) root = pt_pages (mem s) root \<union> set (take n1 ps)"
    "\<And>a. page_base a \<notin> pt_pages (mem s) root \<union> set (take n1 ps) \<Longrightarrow> mem v1 a = mem s a"
    "\<And>wa. pt_entry (mem v1) root (vpn1 wa) (vpn0 wa) =
       (if page_base wa = VA_TRAPFRAME then Some (leaf_pte tf (PTE_R OR PTE_W)) else pt_entry (mem s) root (vpn1 wa) (vpn0 wa))"
    using map_page_at[OF ok, of VA_TRAPFRAME tf "PTE_R OR PTE_W"] room unfolding va_pages by fastforce
  define stk qs where "stk = ps ! n1" and "qs = drop (Suc n1) ps"
  have d: "drop n1 ps = stk # qs" "qs \<noteq> []" using v1(2) room by (simp_all add: stk_def qs_def Cons_nth_drop_Suc)
  have sub: "set (take n1 ps) \<subseteq> set ps" "stk \<in> set ps" "set qs \<subseteq> set ps"
    using set_take_subset[of n1 ps] set_drop_subset[of n1 ps] d(1) by auto
  have sa: "page_aligned stk" "stk \<notin> set qs" "stk \<notin> pt_pages (mem v1) root" "stk \<noteq> tf"
    using v1(4) tf(3) sub(2) by (auto simp: d(1) pt_ok_def kmem_pages_def)
  have tf1: "tf \<notin> pt_pages (mem v1) root \<union> set qs" using tf(2,3) sub v1(5) by auto
  obtain v2 where v2: "kmem_alloc v1 = Inr (stk, v2)" "kmem_frame v1 v2" "\<And>a. mem v2 a = (if page_base a = stk then 0 else mem v1 a)"
    and map: "\<And>m. (\<And>a. page_base a \<in> pt_pages (mem v1) root \<union> set qs \<Longrightarrow> m a = mem v1 a) \<Longrightarrow>
       \<exists>t new. kvmem_map_page root VA_USER_STACK stk PTE_URWX (v2\<lparr>mem := m\<rparr>) = Inr t \<and> frame_mapped root stk qs VA_USER_STACK PTE_URWX new m v1 t"
    using alloc_map_frame[OF v1(4)[unfolded d(1)] d(2), of VA_USER_STACK PTE_URWX] by blast
  let ?f = "\<lambda>p. p\<lparr>user_stack := stk\<rparr>"
  define w where "w = tf_set tf TF_sp VA_USER_STACK_INIT v2"
  have mw: "mem w a = mem v2 a" if "page_base a \<noteq> tf" for a unfolding w_def by (rule tf_set_other[OF tf(1) that])
  have ww: "v2\<lparr>mem := mem w\<rparr> = w" by (simp add: w_def tf_set_def set_word_def)
  have "mem w a = mem v1 a" if "page_base a \<in> pt_pages (mem v1) root \<union> set qs" for a
  proof -
    have "page_base a \<noteq> tf" "page_base a \<noteq> stk" using that tf1 sa(2,3) by auto
    then show ?thesis using mw v2(3) by simp
  qed
  from map[of "mem w", OF this] obtain t new where t: "kvmem_map_page root VA_USER_STACK stk PTE_URWX w = Inr t"
    and fm: "frame_mapped root stk qs VA_USER_STACK PTE_URWX new (mem w) v1 t" unfolding ww by blast
  have fm': "kmem_frame v1 t" "set new \<subseteq> set qs" "pt_ok t root (drop (length new) qs)" "pt_pages (mem t) root = pt_pages (mem v1) root \<union> set new"
    "stk \<notin> pt_pages (mem t) root" "\<And>a. page_base a \<notin> pt_pages (mem v1) root \<union> set new \<Longrightarrow> mem t a = mem w a"
    using fm set_take_subset[of "length new" qs] unfolding frame_mapped_def by auto
  have "length new \<le> 1" using fm by (simp add: frame_mapped_def)
  then have n3: "Suc n1 + length new \<le> 3" using v1(2) by simp
  have tw: "mem t a = mem w a" if "page_base a \<notin> pt_pages (mem t) root" for a using fm'(4,6) that by simp
  have upd: "tf_set tf TF_sp VA_USER_STACK_INIT (proc_upd i ?f v2) = proc_upd i ?f w" by (simp add: w_def tf_set_def set_word_upd)
  have run: "kvmem_map_page root VA_USER_STACK stk PTE_URWX (proc_upd i ?f w) = Inr (proc_upd i ?f t)" by (rule kvmem_map_page_upd[OF t])
  have pr: "procs v1 = procs s" "procs v2 = procs s" "procs t = procs s"
    using kmem_frame_kproc(1) v1(3) v2(2) fm'(1) by metis+
  have tfg: "tf_get tf f t = (if f = TF_sp then VA_USER_STACK_INIT else tf_get tf f s)" for f
  proof -
    have "tf_get tf f t = tf_get tf f w" by (rule tf_get_page[OF tf(1)]) (use tw fm'(2,4) tf1 in auto)
    moreover have "tf_get tf f v2 = tf_get tf f s" by (rule tf_get_page[OF tf(1)]) (use v2(3) v1(6) sa(4) tf sub in auto)
    ultimately show ?thesis by (simp add: w_def tf_get_set[OF tf(1,1)])
  qed
  have zero: "mem t (stk + of_nat x) = 0" if "x < 4096" for x
    using tw[of "stk + of_nat x"] mw[of "stk + of_nat x"] v2(3) page_base_add[OF sa(1) that] sa(4) fm'(5) by simp
  have out: "mem t a = mem s a" if "page_base a \<notin> insert tf (pt_pages (mem s) root \<union> set ps)" for a
  proof -
    have "page_base a \<notin> pt_pages (mem t) root" "page_base a \<noteq> tf" "page_base a \<noteq> stk" "page_base a \<notin> pt_pages (mem s) root \<union> set (take n1 ps)"
      using that sub fm'(2,4) v1(5) by blast+
    then show ?thesis using tw mw v2(3) v1(6) by simp
  qed
  have drp: "drop (length new) qs = drop (Suc n1 + length new) ps" by (simp add: qs_def add.commute)
  have nin: "stk \<notin> set (drop (length new) qs)" using sa(2) in_set_dropD by fastforce
  have rs: "rest_same s (proc_upd i ?f t)"
    by (rule rest_same_trans[OF rest_same_intros(2)[OF kmem_frame_trans[OF v1(3) fm'(1)]] rest_same_intros(3)])
  have ent: "pt_entry (mem t) root (vpn1 va) (vpn0 va) = (if page_base va = VA_USER_STACK then Some (leaf_pte stk PTE_URWX)
       else if page_base va = VA_TRAPFRAME then Some (leaf_pte tf (PTE_R OR PTE_W)) else pt_entry (mem s) root (vpn1 va) (vpn0 va))" for va
    using frame_mapped_va[OF fm, of va] v1(7)[of va] unfolding va_pages by simp
  have sb: "pt_pages (mem s) root \<subseteq> pt_pages (mem t) root" "pt_pages (mem t) root \<subseteq> pt_pages (mem s) root \<union> set ps"
    using fm'(2,4) v1(5) sub by blast+
  have tg: "tf_get tf f (proc_upd i ?f t) = tf_get tf f t" for f by (simp add: tf_get_def)
  show ?thesis unfolding upd[symmetric] stack_stage_def using rs run v1(1) v2(1)
    by (intro exI[of _ v1] exI[of _ stk] exI[of _ v2] exI[of _ "proc_upd i ?f t"] exI[of _ "Suc n1 + length new"] conjI allI impI)
      (simp_all only: n3 upd pr tg tfg zero out drp[symmetric] nin sub(2) sa(1) sb ent proc_upd_simps pt_ok_upd fm'(3,5) not_False_eq_True)
qed

text \<open>
  The address space of a program: the trap frame and the stack at the top, the segments of the file where it wants them, and the
  kernel one to one below, for addresses that no segment takes.
\<close>

definition address_space :: "(addr \<Rightarrow> u8) \<Rightarrow> addr \<Rightarrow> nat \<Rightarrow> addr \<Rightarrow> addr \<Rightarrow> addr \<Rightarrow> addr set \<Rightarrow> (addr \<Rightarrow> u8) \<Rightarrow> bool" where
  "address_space m0 eh N root tf stk F m \<longleftrightarrow>
     pt_entry m root (vpn1 VA_TRAPFRAME) (vpn0 VA_TRAPFRAME) = Some (leaf_pte tf (PTE_R OR PTE_W)) \<and>
     pt_entry m root (vpn1 VA_USER_STACK) (vpn0 VA_USER_STACK) = Some (leaf_pte stk PTE_URWX) \<and>
     (\<forall>k < elf_count m0 eh. seg_at root F m0 eh (header_of m0 eh k) m) \<and>
     (\<forall>va. page_base va \<notin> {VA_TRAPFRAME, VA_USER_STACK} \<and> (\<forall>k < elf_count m0 eh. page_base va \<notin> seg_vas (header_of m0 eh k)) \<longrightarrow>
        pt_entry m root (vpn1 va) (vpn0 va) = (if unat va div 4096 < N then Some (ident_pte (unat va div 4096)) else None))"

definition image_of :: "nat \<Rightarrow> addr \<Rightarrow> addr list \<Rightarrow> 'a kproc_scheme \<Rightarrow> addr \<Rightarrow> addr \<Rightarrow> addr \<Rightarrow> nat \<Rightarrow> 'a kproc_scheme \<Rightarrow> bool" where
  "image_of i eh ps s root tf stk n t \<longleftrightarrow>
     n \<le> tables_for (unat (free_ram_end s) div 4096) + 2 * elf_pages (mem s) eh (elf_count (mem s) eh) + 5 \<and> {root, tf, stk} \<subseteq> set ps \<and> page_aligned tf \<and> page_aligned stk \<and> tf \<noteq> stk \<and> rest_same s t \<and>
     (\<exists>h. procs t = (procs s)[i := (image_block root tf (procs s ! i))\<lparr>free_heap_page := h, user_stack := stk\<rparr>]) \<and>
     pt_ok t root (drop n ps) \<and> {tf, stk} \<inter> (pt_pages (mem t) root \<union> set (drop n ps)) = {} \<and> pt_pages (mem t) root \<subseteq> set ps \<and>
     address_space (mem s) eh (unat (free_ram_end s) div 4096) root tf stk (set ps - pt_pages (mem t) root - set (drop n ps) - {tf, stk}) (mem t) \<and>
     (\<forall>x < 4096. mem t (stk + of_nat x) = 0) \<and>
     (\<forall>f. tf_get tf f t = (if f = TF_kernel_sp then kernel_stack_top (procs s ! i)
        else if f = TF_kernel_trap then sym_addr s Sym_ktrap_from_user_handler
        else if f = TF_epc then eh_entry (elf_header_at (mem s) eh) else if f = TF_sp then VA_USER_STACK_INIT else 0)) \<and>
     (\<forall>a. \<not> in_pages a ps \<longrightarrow> mem t a = mem s a)"

lemma setup_image_eq:
  "setup_image heap i eh s =
     kbind (kmem_alloc s) (\<lambda>(pt, s).
     kbind (kmem_alloc (proc_upd i (\<lambda>p. p\<lparr>pagetable := pt\<rparr>) s)) (\<lambda>(tf, s).
     kbind (map_kernel i (image_ctx i tf s)) (\<lambda>s.
     kbind (elf_dump_header eh s) (\<lambda>s.
     kbind (load_program heap i eh (tf_set (trapframe (procs s ! i)) TF_epc (eh_entry (elf_header_at (mem s) eh)) s)) (\<lambda>s.
     kbind (kvmem_map_page (pagetable (procs s ! i)) VA_TRAPFRAME (trapframe (procs s ! i)) (PTE_R OR PTE_W) s) (\<lambda>s.
     kbind (kmem_alloc s) (\<lambda>(stk, s).
     let s = proc_upd i (\<lambda>p. p\<lparr>user_stack := stk\<rparr>) s in
     kbind (kvmem_map_page (pagetable (procs s ! i)) VA_USER_STACK stk PTE_URWX (tf_set (trapframe (procs s ! i)) TF_sp VA_USER_STACK_INIT s))
       (\<lambda>s. Inr (stk, s)))))))))"
  unfolding setup_image_def image_ctx_def Let_def by (intro kbind_cong refl) (auto simp: tf_set_def set_word_def split_def intro!: kbind_cong)

lemma seg_at_source:
  assumes "seg_at root F m0 file h m" "\<And>x. x < unat (ph_memsz h) \<Longrightarrow> m1 (file + ph_offset h + of_nat x) = m0 (file + ph_offset h + of_nat x)"
  shows "seg_at root F m1 file h m"
  using assms unfolding seg_at_def by (auto split: if_splits)

lemma elf_source:
  assumes "elf_loadable m eh P" "\<forall>a. page_base a \<notin> P \<longrightarrow> m' a = m a" "k < elf_count m eh" "x < unat (ph_memsz (header_of m eh k))"
  shows "m' (eh + ph_offset (header_of m eh k) + of_nat x) = m (eh + ph_offset (header_of m eh k) + of_nat x)"
proof -
  have "outside (eh + ph_offset (header_of m eh k)) (unat (ph_memsz (header_of m eh k))) P"
    using assms(1,3) by (simp add: elf_loadable_def Let_def)
  then show ?thesis using assms(2,4) unfolding outside_def by blast
qed

text \<open>The second part of \<open>setup_image\<close>: the entry point and the segments, with \<open>n\<close> of the free pages \<open>qs\<close>.\<close>

definition prog_stage :: "nat \<Rightarrow> addr \<Rightarrow> addr \<Rightarrow> addr list \<Rightarrow> addr \<Rightarrow> 'a kproc_scheme \<Rightarrow> nat \<Rightarrow> 'a kproc_scheme \<Rightarrow> bool" where
  "prog_stage i root tf qs eh b n t \<longleftrightarrow>
     n \<le> 2 * elf_pages (mem b) eh (elf_count (mem b) eh) \<and> pt_ok t root (drop n qs) \<and> img_frame i b t \<and>
     pt_pages (mem t) root \<subseteq> pt_pages (mem b) root \<union> set qs \<and>
     (\<forall>a. page_base a \<notin> insert tf (pt_pages (mem b) root \<union> set qs) \<longrightarrow> mem t a = mem b a) \<and>
     (\<forall>f. tf_get tf f t = (if f = TF_epc then eh_entry (elf_header_at (mem b) eh) else tf_get tf f b)) \<and>
     (\<forall>k < elf_count (mem b) eh. seg_at root (set qs - pt_pages (mem t) root - set (drop n qs)) (mem b) eh (header_of (mem b) eh k) (mem t)) \<and>
     (\<forall>va. (\<forall>k < elf_count (mem b) eh. page_base va \<notin> seg_vas (header_of (mem b) eh k)) \<longrightarrow>
        pt_entry (mem t) root (vpn1 va) (vpn0 va) = pt_entry (mem b) root (vpn1 va) (vpn0 va))"

lemma image_program:
  fixes b :: "'a kproc_scheme"
  assumes live: "uart_live b" and ok: "pt_ok b root qs" and i: "i < length (procs b)" "pagetable (procs b ! i) = root" "trapframe (procs b ! i) = tf"
    and tf: "page_aligned tf" "tf \<notin> pt_pages (mem b) root" "tf \<notin> set qs"
    and el: "elf_loadable (mem b) eh (insert tf (pt_pages (mem b) root \<union> set qs))"
    and room: "2 * elf_pages (mem b) eh (elf_count (mem b) eh) \<le> length qs"
  defines "entry \<equiv> eh_entry (elf_header_at (mem b) eh)"
  shows "\<exists>d t n. elf_dump_header eh b = Inr d \<and> procs d = procs b \<and> mem d = mem b \<and> load_program heap i eh (tf_set tf TF_epc entry d) = Inr t \<and>
    prog_stage i root tf qs eh b n t"
proof -
  from elf_dumps_ok(2)[OF live, of eh] obtain l w where d: "elf_dump_header eh b = Inr (b\<lparr>lsr_pos := l, uart_writes := w\<rparr>)" by blast
  define p where "p = tf_set tf TF_epc entry (b\<lparr>lsr_pos := l, uart_writes := w\<rparr>)"
  let ?P = "insert tf (pt_pages (mem b) root \<union> set qs)" and ?n = "elf_count (mem b) eh"
  have mp: "mem p a = mem b a" if "page_base a \<noteq> tf" for a using tf_set_other[OF tf(1) that, of TF_epc entry "b\<lparr>lsr_pos := l, uart_writes := w\<rparr>"] by (simp add: p_def)
  have tp: "tf_get tf f p = (if f = TF_epc then entry else tf_get tf f b)" for f
    unfolding p_def tf_get_set[OF tf(1,1)] by (auto simp: tf_get_def)
  have fp: "img_frame i b p" unfolding p_def tf_set_def set_word_def by (rule img_frame_trans[OF img_frame_upds(1,3)])
  note fs = img_frame_simps[OF fp]
  have al: "page_aligned root" using ok by (simp add: pt_ok_def pt_wf_def)
  have same: "\<forall>a. page_base a \<in> pt_pages (mem b) root \<longrightarrow> mem p a = mem b a" using mp tf(2) by metis
  note c = pt_cong[OF al same]
  have "kmem_pages p qs"
  proof (rule kmem_pages_frame)
    show "kmem_pages b qs" using ok by (simp add: pt_ok_def)
    show "kmem_head p = kmem_head b" by (simp add: p_def)
    show "mem p a = mem b a" if "in_pages a qs" for a using mp that tf(3) by metis
  qed
  then have okp: "pt_ok p root qs" using ok c(1,2) by (simp add: pt_ok_def)
  have mP: "\<forall>a. page_base a \<notin> ?P \<longrightarrow> mem p a = mem b a" using mp by simp
  note ec = elf_cong[OF el mP]
  have elp: "elf_loadable (mem p) eh (pt_pages (mem p) root \<union> set qs)" unfolding c(1) by (rule ec(4)) auto
  have "uart_live p" "i < length (procs p)" "pagetable (procs p ! i) = root" using fs live i by auto
  from load_program_ok[OF this(1) okp this(2,3) elp, of heap] room ec(1,3) obtain t n where
    t: "load_program heap i eh p = Inr t" "prog_inv i root qs eh p ?n n t" by auto
  have mt: "mem t a = mem p a" if "page_base a \<notin> pt_pages (mem b) root \<union> set qs" for a using t(2) that c(1) by (simp add: prog_inv_def)
  have "tf_get tf f t = tf_get tf f p" for f by (rule tf_get_page[OF tf(1)]) (use mt tf(2,3) in auto)
  moreover have "seg_at root (set qs - pt_pages (mem t) root - set (drop n qs)) (mem b) eh (header_of (mem b) eh k) (mem t)" if "k < ?n" for k
  proof -
    have "seg_at root (set qs - pt_pages (mem t) root - set (drop n qs)) (mem p) eh (header_of (mem p) eh k) (mem t)"
      using t(2) that unfolding prog_inv_def by blast
    from seg_at_source[OF this] show ?thesis using elf_source[OF el mP that] unfolding ec(2)[OF that] by auto
  qed
  moreover have "pt_entry (mem t) root (vpn1 va) (vpn0 va) = pt_entry (mem b) root (vpn1 va) (vpn0 va)"
    if "\<forall>k < ?n. page_base va \<notin> seg_vas (header_of (mem b) eh k)" for va
    using t(2) that ec(2) c(3)[OF vpn_bound, of va va] by (simp add: prog_inv_def)
  moreover have "mem t a = mem b a" if "page_base a \<notin> ?P" for a using mt[of a] mp[of a] that by simp
  ultimately show ?thesis using d t tp ec(3) c(1) img_frame_trans[OF fp, of t] unfolding p_def[symmetric]
    unfolding prog_stage_def entry_def[symmetric]
    by (intro exI[of _ "b\<lparr>lsr_pos := l, uart_writes := w\<rparr>"] exI[of _ t] exI[of _ n]) (auto simp: prog_inv_def p_def[symmetric])
qed

lemma assemble_space:
  fixes s b q t :: "'a kproc_scheme"
  assumes b: "base_stage i root tf qs N s b" and q: "prog_stage i root tf (drop (tables_for N) qs) eh b n q"
    and t: "stack_stage i root tf (drop n (drop (tables_for N) qs)) stk k q t"
    and ps: "ps = root # tf # qs" "distinct ps" and el: "elf_loadable (mem s) eh (set ps)"
  shows "address_space (mem s) eh N root tf stk (set ps - pt_pages (mem t) root - set (drop k (drop n (drop (tables_for N) qs))) - {tf, stk}) (mem t)"
  unfolding address_space_def
proof (intro conjI allI impI)
  let ?qs = "drop (tables_for N) qs" and ?c = "elf_count (mem s) eh" let ?rs = "drop n ?qs"
  have bm: "\<forall>a. page_base a \<notin> set ps \<longrightarrow> mem b a = mem s a" using b by (auto simp: base_stage_def ps(1))
  note ec = elf_cong[OF el bm]
  have te: "\<And>va. pt_entry (mem t) root (vpn1 va) (vpn0 va) = (if page_base va = VA_USER_STACK then Some (leaf_pte stk PTE_URWX)
      else if page_base va = VA_TRAPFRAME then Some (leaf_pte tf (PTE_R OR PTE_W)) else pt_entry (mem q) root (vpn1 va) (vpn0 va))"
    and tm: "\<And>a. page_base a \<notin> insert tf (pt_pages (mem q) root \<union> set ?rs) \<Longrightarrow> mem t a = mem q a"
    and tp: "pt_pages (mem t) root \<subseteq> pt_pages (mem q) root \<union> set ?rs" "stk \<in> set ?rs" using t by (auto simp: stack_stage_def)
  show "pt_entry (mem t) root (vpn1 VA_TRAPFRAME) (vpn0 VA_TRAPFRAME) = Some (leaf_pte tf (PTE_R OR PTE_W))"
    "pt_entry (mem t) root (vpn1 VA_USER_STACK) (vpn0 VA_USER_STACK) = Some (leaf_pte stk PTE_URWX)" using va_pages by (simp_all add: te)
  have sub: "set ?qs \<subseteq> set qs" "set (drop k ?rs) \<subseteq> set ?rs" by (rule set_drop_subset)+
  have tf: "tf \<notin> set qs" using ps by simp
  fix j assume j: "j < ?c"
  let ?h = "header_of (mem s) eh j" and ?F = "set ?qs - pt_pages (mem q) root - set ?rs"
  have "seg_at root ?F (mem b) eh (header_of (mem b) eh j) (mem q)" using q j ec(1) unfolding prog_stage_def by simp
  from seg_at_source[OF this] have sq: "seg_at root ?F (mem s) eh ?h (mem q)"
    using elf_source[OF el bm j] unfolding ec(2)[OF j] by simp
  show "seg_at root (set ps - pt_pages (mem t) root - set (drop k ?rs) - {tf, stk}) (mem s) eh ?h (mem t)"
  proof (rule seg_at_mono[OF sq])
    show "?F \<subseteq> set ps - pt_pages (mem t) root - set (drop k ?rs) - {tf, stk}" using tp sub tf by (auto simp: ps(1))
    show "mem t a = mem q a" if "page_base a \<in> ?F" for a using tm[of a] that sub(1) tf by auto
    have "VA_TRAPFRAME \<notin> seg_vas ?h" "VA_USER_STACK \<notin> seg_vas ?h" using el j by (simp_all add: elf_loadable_def Let_def)
    then show "pt_entry (mem t) root (vpn1 va) (vpn0 va) = pt_entry (mem q) root (vpn1 va) (vpn0 va)" if "page_base va \<in> seg_vas ?h" for va
      using te[of va] that by metis
  qed
next
  fix va assume va: "page_base va \<notin> {VA_TRAPFRAME, VA_USER_STACK} \<and> (\<forall>k < elf_count (mem s) eh. page_base va \<notin> seg_vas (header_of (mem s) eh k))"
  have "\<forall>a. page_base a \<notin> set ps \<longrightarrow> mem b a = mem s a" using b by (auto simp: base_stage_def ps(1))
  note ec = elf_cong[OF el this]
  have "pt_entry (mem t) root (vpn1 va) (vpn0 va) = pt_entry (mem q) root (vpn1 va) (vpn0 va)" using t va by (simp add: stack_stage_def)
  also have "\<dots> = pt_entry (mem b) root (vpn1 va) (vpn0 va)" using q va ec(1,2) by (simp add: prog_stage_def)
  also have "\<dots> = (if unat va div 4096 < N then Some (ident_pte (unat va div 4096)) else None)"
    using b vpn_bound[of va] unfolding va_split by (simp add: base_stage_def ident_upto_def)
  finally show "pt_entry (mem t) root (vpn1 va) (vpn0 va) = (if unat va div 4096 < N then Some (ident_pte (unat va div 4096)) else None)" .
qed

text \<open>The address space depends on the pages of its table, the frames of its segments and the file.\<close>

lemma address_space_frame:
  assumes sp: "address_space m0 eh N root tf stk F m" and al: "page_aligned root"
    and same: "\<forall>a. page_base a \<in> F \<union> pt_pages m root \<longrightarrow> m' a = m a"
  shows "address_space m0 eh N root tf stk F m'"
proof -
  have "\<forall>a. page_base a \<in> pt_pages m root \<longrightarrow> m' a = m a" using same by simp
  note pc = pt_cong(3)[OF al this vpn_bound]
  have "seg_at root F m0 eh (header_of m0 eh k) m'" if "k < elf_count m0 eh" for k
  proof (rule seg_at_mono)
    show "seg_at root F m0 eh (header_of m0 eh k) m" using sp that by (simp add: address_space_def)
  qed (use same pc in auto)
  then show ?thesis using sp unfolding address_space_def pc by blast
qed

lemma address_space_source:
  assumes sp: "address_space m0 eh N root tf stk F m" and el: "elf_loadable m0 eh P" and src: "\<forall>a. page_base a \<notin> P \<longrightarrow> m1 a = m0 a"
  shows "address_space m1 eh N root tf stk F m"
proof -
  note ec = elf_cong[OF el src]
  have "seg_at root F m1 eh (header_of m1 eh k) m" if "k < elf_count m0 eh" for k
  proof -
    have "seg_at root F m0 eh (header_of m0 eh k) m" using sp that by (simp add: address_space_def)
    then show ?thesis unfolding ec(2)[OF that] by (rule seg_at_source) (rule elf_source[OF el src that])
  qed
  then show ?thesis using sp ec(1,2) unfolding address_space_def by simp
qed

lemma image_assemble:
  fixes s b q t :: "'a kproc_scheme"
  assumes b: "base_stage i root tf qs N s b" and q: "prog_stage i root tf (drop (tables_for N) qs) eh b n q"
    and t: "stack_stage i root tf (drop n (drop (tables_for N) qs)) stk k q t"
    and ps: "ps = root # tf # qs" "distinct ps" "\<forall>p \<in> set ps. page_aligned p" and el: "elf_loadable (mem s) eh (set ps)"
    and N: "N = unat (free_ram_end s) div 4096" and i: "i < length (procs s)"
  shows "image_of i eh ps s root tf stk (2 + tables_for N + n + k) t"
proof -
  let ?qs = "drop (tables_for N) qs" let ?rs = "drop n ?qs"
  have bm: "\<forall>a. page_base a \<notin> set ps \<longrightarrow> mem b a = mem s a" using b by (auto simp: base_stage_def ps(1))
  note ec = elf_cong[OF el bm]
  have sub: "set ?qs \<subseteq> set qs" "set ?rs \<subseteq> set ?qs" "set (drop k ?rs) \<subseteq> set ?rs" "set (take (tables_for N) qs) \<subseteq> set qs"
    by (rule set_drop_subset set_take_subset)+
  have tf: "tf \<notin> set qs" "tf \<noteq> root" "page_aligned tf" using ps by auto
  have bp: "pt_pages (mem b) root \<subseteq> insert root (set qs)" using b sub(4) by (auto simp: base_stage_def)
  have qp: "pt_pages (mem q) root \<subseteq> insert root (set qs)" using q bp sub(1) by (auto simp: prog_stage_def)
  have tt: "stk \<in> set ?rs" "stk \<notin> set (drop k ?rs)" "stk \<notin> pt_pages (mem t) root" "page_aligned stk" "pt_ok t root (drop k ?rs)"
    "pt_pages (mem t) root \<subseteq> pt_pages (mem q) root \<union> set ?rs" "\<forall>x < 4096. mem t (stk + of_nat x) = 0" using t by (simp_all add: stack_stage_def)
  have tp: "pt_pages (mem t) root \<subseteq> insert root (set qs)" using tt(6) qp sub by blast
  have fr: "img_frame i b q" and rs: "rest_same s t"
    using b q t rest_same_trans[OF rest_same_trans[OF _ rest_same_intros(1)]] by (auto simp: base_stage_def prog_stage_def stack_stage_def)
  obtain h where "procs q = (procs b)[i := (procs b ! i)\<lparr>free_heap_page := h\<rparr>]" using fr by (auto simp: img_frame_def)
  then have pr: "\<exists>h. procs t = (procs s)[i := (image_block root tf (procs s ! i))\<lparr>free_heap_page := h, user_stack := stk\<rparr>]"
    using b t i by (auto simp: base_stage_def stack_stage_def)
  have tg: "tf_get tf f t = (if f = TF_kernel_sp then kernel_stack_top (procs s ! i)
      else if f = TF_kernel_trap then sym_addr s Sym_ktrap_from_user_handler
      else if f = TF_epc then eh_entry (elf_header_at (mem s) eh) else if f = TF_sp then VA_USER_STACK_INIT else 0)" for f
    using b q t ec(5) by (simp add: base_stage_def prog_stage_def stack_stage_def)
  have out: "mem t a = mem s a" if "\<not> in_pages a ps" for a
  proof -
    have "page_base a \<notin> insert tf (pt_pages (mem q) root \<union> set ?rs)" "page_base a \<notin> insert tf (pt_pages (mem b) root \<union> set ?qs)"
      using that bp qp sub by (auto simp: ps(1))
    then show ?thesis using t q bm that by (simp add: stack_stage_def prog_stage_def)
  qed
  have dr: "drop (2 + tables_for N + n + k) ps = drop k ?rs" by (simp add: ps(1) ac_simps)
  have "n \<le> 2 * elf_pages (mem s) eh (elf_count (mem s) eh)" "k \<le> 3" using q t ec(1,3) by (simp_all add: prog_stage_def stack_stage_def)
  then have nb: "2 + tables_for N + n + k \<le> tables_for N + 2 * elf_pages (mem s) eh (elf_count (mem s) eh) + 5" by simp
  show ?thesis unfolding image_of_def dr N[symmetric]
    using nb assemble_space[OF b q t ps(1,2) el] tt tf sub tp rs pr tg out
    by (intro conjI allI impI) (auto simp: ps(1))
qed

lemma setup_image_ok:
  fixes s :: "'a kproc_scheme"
  assumes live: "uart_live s" and pg: "kmem_pages s ps" and i: "i < length (procs s)" and N: "page_aligned (free_ram_end s)"
    and el: "elf_loadable (mem s) eh (set ps)"
    and room: "tables_for (unat (free_ram_end s) div 4096) + 2 * elf_pages (mem s) eh (elf_count (mem s) eh) + 5 \<le> length ps"
  shows "\<exists>root tf stk n t. setup_image heap i eh s = Inr (stk, t) \<and> image_of i eh ps s root tf stk n t"
proof -
  define N where "N = unat (free_ram_end s) div 4096"
  have N': "unat (free_ram_end s) = 4096 * N" using N by (simp add: N_def page_aligned_def mod_0_imp_dvd)
  obtain root tf qs where ps: "ps = root # tf # qs" using room by (cases ps; cases "tl ps") auto
  have al: "page_aligned tf" "root \<noteq> tf" "tf \<notin> set qs" "distinct ps" "\<forall>p \<in> set ps. page_aligned p" using pg by (auto simp: kmem_pages_def ps)
  have lq: "tables_for N + 2 * elf_pages (mem s) eh (elf_count (mem s) eh) + 3 \<le> length qs" using room by (simp add: ps N_def)
  then have "tables_for N \<le> length qs" by simp
  from image_base_ok[OF pg[unfolded ps] i this N N'] obtain s1 s2 b where
    b0: "kmem_alloc s = Inr (root, s1)" "kmem_alloc (proc_upd i (\<lambda>p. p\<lparr>pagetable := root\<rparr>) s1) = Inr (tf, s2)" "map_kernel i (image_ctx i tf s2) = Inr b"
    and b: "base_stage i root tf qs N s b" by blast
  let ?qs = "drop (tables_for N) qs"
  have sub: "set (take (tables_for N) qs) \<subseteq> set qs" "set ?qs \<subseteq> set qs" by (rule set_take_subset set_drop_subset)+
  have b1: "pt_ok b root ?qs" "pt_pages (mem b) root = insert root (set (take (tables_for N) qs))" "\<forall>a. page_base a \<notin> set ps \<longrightarrow> mem b a = mem s a"
    and bi: "uart_live b" "i < length (procs b)" "pagetable (procs b ! i) = root" "trapframe (procs b ! i) = tf"
    using b rest_same_simps(4)[of s b] live i by (auto simp: base_stage_def image_block_def ps)
  have tfb: "tf \<notin> pt_pages (mem b) root" "tf \<notin> set ?qs" "insert tf (pt_pages (mem b) root \<union> set ?qs) \<subseteq> set ps"
    using sub al by (auto simp: b1(2) ps)
  note ec = elf_cong[OF el b1(3)]
  have "2 * elf_pages (mem b) eh (elf_count (mem b) eh) \<le> length ?qs" using lq ec(1,3) by simp
  from image_program[OF bi(1) b1(1) bi(2-4) al(1) tfb(1,2) ec(4)[OF tfb(3)] this, of heap] obtain d q n where
    q0: "elf_dump_header eh b = Inr d" "procs d = procs b" "mem d = mem b" "load_program heap i eh (tf_set tf TF_epc (eh_entry (elf_header_at (mem b) eh)) d) = Inr q"
    and q: "prog_stage i root tf ?qs eh b n q" by blast
  have q1: "n \<le> 2 * elf_pages (mem s) eh (elf_count (mem s) eh)" "pt_ok q root (drop n ?qs)" "img_frame i b q"
    "pt_pages (mem q) root \<subseteq> pt_pages (mem b) root \<union> set ?qs" using q ec(1,3) by (simp_all add: prog_stage_def)
  have qi: "i < length (procs q)" "pagetable (procs q ! i) = root" "trapframe (procs q ! i) = tf" using img_frame_simps[OF q1(3)] bi by auto
  have "tf \<notin> pt_pages (mem q) root" "tf \<notin> set (drop n ?qs)" "3 \<le> length (drop n ?qs)" using q1(1,4) tfb set_drop_subset[of n ?qs] lq by auto
  from image_stack[OF q1(2) this(3) qi al(1) this(1,2)] obtain v1 stk v2 t k where
    t0: "kvmem_map_page root VA_TRAPFRAME tf (PTE_R OR PTE_W) q = Inr v1" "kmem_alloc v1 = Inr (stk, v2)"
      "kvmem_map_page root VA_USER_STACK stk PTE_URWX (tf_set tf TF_sp VA_USER_STACK_INIT (proc_upd i (\<lambda>p. p\<lparr>user_stack := stk\<rparr>) v2)) = Inr t"
      "procs v1 = procs q" "procs v2 = procs q" and t: "stack_stage i root tf (drop n ?qs) stk k q t" by blast
  have "setup_image heap i eh s = Inr (stk, t)"
    unfolding setup_image_eq b0 kbind_Inr prod.case q0 bi(4) qi t0 Let_def proc_upd_simps
    using qi(1) by (simp add: t0 qi)
  with image_assemble[OF b q t ps al(4,5) el N_def i] show ?thesis by blast
qed

section \<open>Processes\<close>

lemma kproc_create_image:
  fixes s :: "'a kproc_scheme"
  assumes i: "find_unused s = Some i" "length (procs s) = NUM_PROCESSES" and live: "uart_live s" and pg: "kmem_pages s ps"
    and N: "page_aligned (free_ram_end s)" and el: "elf_loadable (mem s) eh (set ps)"
    and room: "tables_for (unat (free_ram_end s) div 4096) + 2 * elf_pages (mem s) eh (elf_count (mem s) eh) + 5 \<le> length ps"
  shows "\<exists>root tf stk n t. kproc_create eh s = Inr (i, t) \<and>
    image_of i eh ps (proc_upd i (\<lambda>p. p\<lparr>proc_state := RUNNABLE, pid := of_nat i + 1\<rparr>) s) root tf stk n t"
proof -
  define s1 where "s1 = proc_upd i (\<lambda>p. p\<lparr>proc_state := RUNNABLE, pid := of_nat i + 1\<rparr>) s"
  have iN: "i < length (procs s)" using find_unused_Some(1)[OF i(1)] i(2) by simp
  have eq: "proc_upd i (\<lambda>p. p\<lparr>pid := of_nat i + 1\<rparr>) (proc_upd i (\<lambda>p. p\<lparr>proc_state := RUNNABLE\<rparr>) s) = s1"
    using iN by (simp add: s1_def proc_upd_def)
  have rs: "rest_same s s1" unfolding s1_def by (rule rest_same_intros(3))
  have "uart_live s1" "free_ram_end s1 = free_ram_end s" using rest_same_simps[OF rs] live by simp_all
  moreover have "kmem_pages s1 ps" by (rule kmem_pages_frame[OF pg]) (simp_all add: s1_def)
  moreover have "i < length (procs s1)" "mem s1 = mem s" using iN by (simp_all add: s1_def)
  ultimately obtain root tf stk n t where "setup_image False i eh s1 = Inr (stk, t)" "image_of i eh ps s1 root tf stk n t"
    using setup_image_ok[of s1 ps i eh False] N el room by auto
  then show ?thesis using i(1) by (auto simp: kproc_create_def Let_def eq s1_def)
qed

lemma user_args_cong:
  assumes "csr t = csr s" "mem t = mem s"
  shows "user_args t argv as = user_args s argv as"
proof -
  have "uload8 va t = uload8 va s" for va using mmu_translate_cong[OF assms, of Load va] assms(2) by (simp add: uload8_def split: option.split)
  then show ?thesis by (simp add: user_args_def uload32_def path_reader_def fun_eq_iff reads_string_def)
qed

text \<open>The strings at the top of the stack page, the vector of their user addresses below them.\<close>

definition args_base :: "(addr \<times> u8 list) list \<Rightarrow> nat" where
  "args_base as = 4096 - (args_len as (length as) + 4 * length as)"

definition args_on_stack :: "(addr \<times> u8 list) list \<Rightarrow> addr \<Rightarrow> (addr \<Rightarrow> u8) \<Rightarrow> bool" where
  "args_on_stack as stk m \<longleftrightarrow>
     (\<forall>j < length as. word_at m (stk + of_nat (args_base as)) j = VA_USER_STACK + of_nat (4096 - args_len as (Suc j)) \<and>
        (\<forall>x \<le> length (snd (as ! j)). m (stk + of_nat (4096 - args_len as (Suc j) + x)) = (snd (as ! j) @ [0]) ! x))"

text \<open>The new program with its arguments: what \<open>exec_args\<close> writes into the trap frame and the stack leaves the address space alone.\<close>

lemma image_args:
  fixes s t :: "'a kproc_scheme"
  assumes im: "image_of (current s) eh ps s root tf stk n t" and st: "stable_args s (set ps) argv as" and c: "current s < length (procs s)"
    and len: "args_len as (length as) + 4 * length as \<le> 4096"
  shows "\<exists>u. exec_args argv (length as) stk t = Inr u \<and> u = t\<lparr>mem := mem u\<rparr> \<and> pt_ok u root (drop n ps) \<and>
    address_space (mem s) eh (unat (free_ram_end s) div 4096) root tf stk (set ps - pt_pages (mem u) root - set (drop n ps) - {tf, stk}) (mem u) \<and>
    (\<forall>f. tf_get tf f u = (if f = TF_a0 then of_nat (length as) else if f = TF_a1 \<or> f = TF_sp then VA_USER_STACK + of_nat (args_base as)
       else if f = TF_kernel_sp then kernel_stack_top (cur s) else if f = TF_kernel_trap then sym_addr s Sym_ktrap_from_user_handler
       else if f = TF_epc then eh_entry (elf_header_at (mem s) eh) else 0)) \<and>
    args_on_stack as stk (mem u) \<and>
    (\<forall>a. \<not> in_pages a ps \<longrightarrow> mem u a = mem s a)"
proof -
  let ?F = "set ps - pt_pages (mem t) root - set (drop n ps) - {tf, stk}"
  have t: "tf \<in> set ps" "stk \<in> set ps" "page_aligned tf" "page_aligned stk" "tf \<noteq> stk" "rest_same s t" "pt_ok t root (drop n ps)"
    "tf \<notin> pt_pages (mem t) root" "stk \<notin> pt_pages (mem t) root" "tf \<notin> set (drop n ps)" "stk \<notin> set (drop n ps)"
    and sp: "address_space (mem s) eh (unat (free_ram_end s) div 4096) root tf stk ?F (mem t)"
    and tg: "\<And>f. tf_get tf f t = (if f = TF_kernel_sp then kernel_stack_top (cur s) else if f = TF_kernel_trap then sym_addr s Sym_ktrap_from_user_handler
        else if f = TF_epc then eh_entry (elf_header_at (mem s) eh) else if f = TF_sp then VA_USER_STACK_INIT else 0)"
    and out: "\<And>a. \<not> in_pages a ps \<Longrightarrow> mem t a = mem s a" using im by (auto simp: image_of_def cur_def)
  have ct: "trapframe (cur t) = tf" using im c rest_same_simps(1)[OF t(6)] by (auto simp: image_of_def cur_def image_block_def)
  have "stable_args t {tf, stk} argv as" unfolding stable_args_def
  proof (intro allI impI)
    fix m assume m: "\<forall>a. page_base a \<notin> {tf, stk} \<longrightarrow> m a = mem t a"
    have "m a = mem s a" if "\<not> in_pages a ps" for a
    proof -
      have "page_base a \<notin> {tf, stk}" using that t(1,2) by auto
      then show ?thesis using m out[OF that] by simp
    qed
    then have "user_args (s\<lparr>mem := m\<rparr>) argv as" using st by (simp add: stable_args_def)
    moreover have "user_args (t\<lparr>mem := m\<rparr>) argv as = user_args (s\<lparr>mem := m\<rparr>) argv as"
      by (rule user_args_cong) (simp_all add: rest_same_simps(5)[OF t(6)])
    ultimately show "user_args (t\<lparr>mem := m\<rparr>) argv as" by simp
  qed
  from exec_args_ok[OF ct t(3-5) this _ len] tg obtain u where u: "exec_args argv (length as) stk t = Inr u" "u = t\<lparr>mem := mem u\<rparr>"
    "\<forall>a. page_base a \<notin> {tf, stk} \<longrightarrow> mem u a = mem t a"
    "\<forall>f. tf_get tf f u = (if f = TF_a0 then of_nat (length as) else if f = TF_a1 \<or> f = TF_sp then VA_USER_STACK + of_nat (args_base as) else tf_get tf f t)"
    "args_on_stack as stk (mem u)"
    unfolding args_base_def args_on_stack_def by auto
  have al: "page_aligned root" using t(7) by (simp add: pt_ok_def pt_wf_def)
  have "\<forall>a. page_base a \<in> pt_pages (mem t) root \<longrightarrow> mem u a = mem t a" using u(3) t(8,9) by auto
  note pc = pt_cong[OF al this]
  have "kmem_pages u (drop n ps)"
  proof (rule kmem_pages_frame)
    show "kmem_pages t (drop n ps)" using t(7) by (simp add: pt_ok_def)
    show "kmem_head u = kmem_head t" by (subst u(2)) simp
    show "mem u a = mem t a" if "in_pages a (drop n ps)" for a using u(3) that t(10,11) by auto
  qed
  then have "pt_ok u root (drop n ps)" using t(7) pc(1,2) by (simp add: pt_ok_def)
  moreover have "address_space (mem s) eh (unat (free_ram_end s) div 4096) root tf stk (set ps - pt_pages (mem u) root - set (drop n ps) - {tf, stk}) (mem u)"
    unfolding pc(1) by (rule address_space_frame[OF sp al]) (use u(3) t(8,9) in auto)
  moreover have "mem u a = mem s a" if "\<not> in_pages a ps" for a
  proof -
    have "page_base a \<notin> {tf, stk}" using that t(1,2) by auto
    then show ?thesis using u(3) out[OF that] by simp
  qed
  ultimately show ?thesis using u tg by (intro exI[of _ u] conjI) auto
qed

lemma filedata_found:
  assumes "fs_names s ns" "reads_string (path_reader path s) bs" "find (\<lambda>i. ns ! i = bs) [0..<MAX_FS_FILES] = Some j"
  shows "filesystem_get_filedata path s = Inr (Some (fs_data j s))"
  using locate_ok[OF assms(1,2)] assms(3) of_nat_idx[of j] find_upt[OF assms(3)]
  by (simp add: filesystem_get_filedata_def MAX_FS_FILES_def unat_of_nat take_bit_nat_eq_self)

text \<open>
  C8: executing a file of the disk replaces the program of the calling process: \<open>kproc_exec\<close> returns 0 with the process runnable, its new page
  table maps the kernel, every segment of the file with its bytes in fresh frames, the trap frame and the stack, and nothing else; the trap frame starts
  the program at the entry point of the file with the number of arguments in \<open>a0\<close> and the vector of their copies on the stack in \<open>a1\<close>. No other process,
  no open file and no memory outside the free pages changes.
\<close>

theorem kproc_exec_program:
  fixes s :: "'a filesystem_scheme"
  assumes live: "uart_live s" and path: "reads_string (path_reader path s) bs" and args: "stable_args s (set ps) argv as"
    and names: "fs_names s ns" "find (\<lambda>i. ns ! i = bs) [0..<MAX_FS_FILES] = Some j" and eh: "fs_data j s = eh"
    and pg: "kmem_pages s ps" and N: "page_aligned (free_ram_end s)" and el: "elf_loadable (mem s) eh (set ps)"
    and room: "tables_for (unat (free_ram_end s) div 4096) + 2 * elf_pages (mem s) eh (elf_count (mem s) eh) + 5 \<le> length ps"
    and c: "current s < length (procs s)" and len: "args_len as (length as) + 4 * length as \<le> 4096"
  shows "\<exists>root tf stk n h t. kproc_exec path argv s = Inr (0, t) \<and> current t = current s \<and> kproc.more t = kproc.more s \<and>
    procs t = (procs s)[current s := (image_block root tf (cur s))\<lparr>proc_state := RUNNABLE, free_heap_page := h, user_stack := stk\<rparr>] \<and>
    address_space (mem s) eh (unat (free_ram_end s) div 4096) root tf stk (set ps - pt_pages (mem t) root - set (drop n ps) - {tf, stk}) (mem t) \<and>
    pt_ok t root (drop n ps) \<and> {root, tf, stk} \<subseteq> set ps \<and> args_on_stack as stk (mem t) \<and>
    (\<forall>f. tf_get tf f t = (if f = TF_a0 then of_nat (length as) else if f = TF_a1 \<or> f = TF_sp then VA_USER_STACK + of_nat (args_base as)
       else if f = TF_kernel_sp then kernel_stack_top (cur s) else if f = TF_kernel_trap then sym_addr s Sym_ktrap_from_user_handler
       else if f = TF_epc then eh_entry (elf_header_at (mem s) eh) else 0)) \<and>
    (\<forall>a. \<not> in_pages a ps \<longrightarrow> mem t a = mem s a)"
proof -
  have "user_args (s\<lparr>mem := mem s\<rparr>) argv as" using args unfolding stable_args_def by blast
  then have "user_args s argv as" by simp
  from exec_start[OF live path this] obtain l w where st: "\<And>K. kbind (ustring path s) (\<lambda>str. kbind (kprintf (''kproc_exec got filepath %s'' @ [CHR 0x0A]) [VStr str] s)
      (\<lambda>(_, s). kbind (exec_count argv s) K)) = (K (length as, s\<lparr>lsr_pos := l, uart_writes := w\<rparr>) :: (u32 \<times> 'a filesystem_scheme) kres)" by blast
  define b where "b = s\<lparr>lsr_pos := l, uart_writes := w\<rparr>"
  define v where "v = proc_upd (current s) (\<lambda>p. p\<lparr>proc_state := RUNNABLE\<rparr>) b"
  have "name_reader i b = name_reader i s" for i by (rule ext) (simp add: name_reader_def fs_data_def b_def)
  then have fd: "filesystem_get_filedata path b = Inr (Some eh)"
    using filedata_found[of b ns path bs j] names path eh by (simp add: fs_names_def b_def fs_data_def)
  have rs: "rest_same s v" unfolding v_def b_def by (rule rest_same_trans[OF rest_same_intros(5) rest_same_intros(3)])
  have v: "mem v = mem s" "kmem_head v = kmem_head s" "procs v = (procs s)[current s := (cur s)\<lparr>proc_state := RUNNABLE\<rparr>]"
    by (simp_all add: v_def b_def proc_upd_def cur_def)
  note rv = rest_same_simps[OF rs]
  have "kmem_pages v ps" by (rule kmem_pages_frame[OF pg]) (simp_all add: v)
  then obtain root tf stk n t where t: "setup_image True (current s) eh v = Inr (stk, t)" "image_of (current v) eh ps v root tf stk n t"
    using setup_image_ok[of v ps "current s" eh True] live N el room c rv v by auto
  have "user_args (v\<lparr>mem := m\<rparr>) argv as = user_args (s\<lparr>mem := m\<rparr>) argv as" for m by (rule user_args_cong) (simp_all add: rv(5))
  then have "stable_args v (set ps) argv as" using args by (simp add: stable_args_def v(1))
  from image_args[OF t(2) this _ len] c rv(1) v(3) obtain u where u: "exec_args argv (length as) stk t = Inr u" "u = t\<lparr>mem := mem u\<rparr>" "pt_ok u root (drop n ps)"
    "address_space (mem v) eh (unat (free_ram_end v) div 4096) root tf stk (set ps - pt_pages (mem u) root - set (drop n ps) - {tf, stk}) (mem u)"
    "\<forall>f. tf_get tf f u = (if f = TF_a0 then of_nat (length as) else if f = TF_a1 \<or> f = TF_sp then VA_USER_STACK + of_nat (args_base as)
       else if f = TF_kernel_sp then kernel_stack_top (cur v) else if f = TF_kernel_trap then sym_addr v Sym_ktrap_from_user_handler
       else if f = TF_epc then eh_entry (elf_header_at (mem v) eh) else 0)"
    "args_on_stack as stk (mem u)" "\<forall>a. \<not> in_pages a ps \<longrightarrow> mem u a = mem v a" by auto
  have ru: "rest_same t u" by (subst u(2)) (simp add: rest_same_def)
  have it: "rest_same v t" "{root, tf, stk} \<subseteq> set ps" using t(2) by (simp_all add: image_of_def)
  note rr = rest_same_trans[OF rs rest_same_trans[OF it(1) ru]]
  have "procs u = procs t" by (subst u(2)) simp
  moreover have "image_block root tf (p\<lparr>proc_state := x\<rparr>) = (image_block root tf p)\<lparr>proc_state := x\<rparr>" for p x
    by (cases p) (simp add: image_block_def)
  ultimately obtain h where h: "procs u = (procs s)[current s := (image_block root tf (cur s))\<lparr>proc_state := RUNNABLE, free_heap_page := h, user_stack := stk\<rparr>]"
    using t(2) c rv(1) v(3) by (auto simp: image_of_def)
  have "uart_live u" using rest_same_simps(4)[OF rr] live by simp
  moreover obtain r out where "format_text (''EXEC: process next free heap page VA = %x'' @ [CHR 0x0A]) [VInt (free_heap_page (cur u))] = Some (r, out)" by simp
  ultimately obtain p x where "kprintf (''EXEC: process next free heap page VA = %x'' @ [CHR 0x0A]) [VInt (free_heap_page (cur u))] u = Inr (r, u\<lparr>lsr_pos := p, uart_writes := x\<rparr>)"
    using kprintf_str by blast
  then have "kproc_exec path argv s = Inr (0, u\<lparr>lsr_pos := p, uart_writes := x\<rparr>)"
    unfolding kproc_exec_def st b_def[symmetric] using fd t(1) u(1) by (simp add: v_def b_def)
  moreover have cv: "kernel_stack_top (cur v) = kernel_stack_top (cur s)" using c by (simp add: cur_def v(3) rv(1))
  moreover have "pt_ok (u\<lparr>lsr_pos := p, uart_writes := x\<rparr>) root (drop n ps)" using u(3) by (simp add: pt_ok_def kmem_pages_def)
  moreover have "mem (u\<lparr>lsr_pos := p, uart_writes := x\<rparr>) = mem u" "procs (u\<lparr>lsr_pos := p, uart_writes := x\<rparr>) = procs u"
    "current (u\<lparr>lsr_pos := p, uart_writes := x\<rparr>) = current u" "kproc.more (u\<lparr>lsr_pos := p, uart_writes := x\<rparr>) = kproc.more u"
    "\<And>f. tf_get tf f (u\<lparr>lsr_pos := p, uart_writes := x\<rparr>) = tf_get tf f u" by (simp_all add: tf_get_def)
  ultimately show ?thesis using u(4-7)[unfolded v(1) rv(2,3) cv] h it(2) rest_same_simps(1,6)[OF rr]
    by (intro exI[of _ root] exI[of _ tf] exI[of _ stk] exI[of _ n] exI[of _ h] exI[of _ "u\<lparr>lsr_pos := p, uart_writes := x\<rparr>"] conjI)
      (simp_all only: simp_thms)
qed

section \<open>A program of one segment\<close>

text \<open>
  A machine with 128 MB of memory, 600 pages of it free, and one file \<open>h\<close> on the disk: a program of three bytes for address
  \<open>0xC0000000\<close>. The path is at \<open>0x3000\<close>, an argument at \<open>0x2000\<close> and the vector at \<open>0x1000\<close>.
\<close>

definition image_raw :: filesystem where
  "image_raw = fs_static\<lparr>free_ram_end := 0x88000000, kmem_head := 0, fs_base := 0x8005FF98,
     mem := (\<lambda>_. 0)(0x1001 := 0x20, 0x2000 := 104, 0x3000 := 104,
       0x8006001B := 0xC0, 0x8006001C := 52, 0x8006002C := 1,
       0x80060039 := 1, 0x8006003F := 0xC0, 0x80060048 := 3,
       0x80060100 := 7, 0x80060101 := 8, 0x80060102 := 9)\<rparr>"

abbreviation image_free :: "addr list" where
  "image_free \<equiv> ram_pages 0x80100000 600"

definition image_static :: filesystem where
  "image_static = foldr kmem_free image_free image_raw"

lemma kmem_frame_free: "kmem_frame s (foldr kmem_free ps s)"
proof (induction ps)
  case (Cons p ps)
  have "kmem_frame (foldr kmem_free ps s) (kmem_free p (foldr kmem_free ps s))" by (simp add: kmem_frame_def kmem_free_def)
  from kmem_frame_trans[OF Cons this] show ?case by simp
qed simp

lemma image_free_ok: "p \<in> set image_free \<Longrightarrow> page_aligned p \<and> p \<noteq> 0 \<and> 0x80100000 \<le> p" "distinct image_free"
proof -
  have u: "unat (0x80100000 + 4096 * of_nat i :: addr) = 0x80100000 + 4096 * i" if "i < 600" for i
  proof -
    have "(0x80100000 + 4096 * of_nat i :: addr) = of_nat (0x80100000 + 4096 * i)" by simp
    then show ?thesis using unat_of_nat32[of "0x80100000 + 4096 * i"] that by simp
  qed
  show "distinct image_free"
  proof -
    have "inj_on (\<lambda>i. 0x80100000 + 4096 * of_nat i :: addr) {0..<600}"
      by (rule inj_onI) (metis add_left_cancel atLeastLessThan_iff mult_cancel_left u zero_neq_numeral)
    then show ?thesis by (simp add: ram_pages_def distinct_map)
  qed
  assume "p \<in> set image_free"
  then obtain i where i: "i < 600" "p = 0x80100000 + 4096 * of_nat i" by (auto simp: ram_pages_def)
  have "unat p = 4096 * (0x80100 + i)" using u[OF i(1)] i(2) by simp
  then show "page_aligned p \<and> p \<noteq> 0 \<and> 0x80100000 \<le> p" by (auto simp: page_aligned_def word_le_nat_alt)
qed

lemma image_low: "a < 0x80100000 \<Longrightarrow> \<not> in_pages a image_free"
  using image_free_ok(1)[of "page_base a"] page_base_bounds(1)[of a] by (auto simp: word_le_nat_alt word_less_nat_alt)

lemma image_static_simps [simp]:
  "procs image_static = procs kproc_static" "current image_static = 0" "cur image_static = cur kproc_static" "csr image_static = (\<lambda>_. 0)"
  "free_ram_end image_static = 0x88000000" "fs_data 0 image_static = 0x80060000" "uart_live image_static"
  "a < 0x80100000 \<Longrightarrow> mem image_static a = mem image_raw a" "filesystem_files image_static = filesystem_files fs_static"
  "kmem_pages image_static image_free"
proof -
  have fr: "kmem_frame image_raw image_static" unfolding image_static_def by (rule kmem_frame_free)
  then have st: "image_static = image_raw\<lparr>mem := mem image_static, kmem_head := kmem_head image_static\<rparr>" by (simp add: kmem_frame_def)
  show "procs image_static = procs kproc_static" "current image_static = 0" "csr image_static = (\<lambda>_. 0)"
    "free_ram_end image_static = 0x88000000" "filesystem_files image_static = filesystem_files fs_static"
    "fs_data 0 image_static = 0x80060000"
    by (subst st, simp add: image_raw_def fs_data_def)+
  then show "cur image_static = cur kproc_static" by (simp add: cur_def)
  have "uart_live fs_static"
    using kmem_static_ok(3) by (simp add: uart_live_def fs_static_def kproc.defs filesystem.defs kvmem_user_def kmem_free_def)
  then show "uart_live image_static" by (subst st) (simp add: image_raw_def uart_live_def)
  have "kmem_pages image_raw []" by (simp add: kmem_pages_def image_raw_def)
  note f = kmem_free_list[OF this image_free_ok(2), folded image_static_def]
  show "kmem_pages image_static image_free" using f(1) image_free_ok(1) by blast
  show "mem image_static a = mem image_raw a" if "a < 0x80100000" for a using f(2)[OF _ image_low[OF that]] image_free_ok(1) by blast
qed

lemma image_file:
  "eh_entry (elf_header_at (mem image_static) 0x80060000) = 0xC0000000" "elf_count (mem image_static) 0x80060000 = 1"
  "header_of (mem image_static) 0x80060000 0 = \<lparr>ph_type = 0, ph_offset = 0x100, ph_vaddr = 0xC0000000, ph_paddr = 0, ph_filesz = 0,
     ph_memsz = 3, ph_flags = 0, ph_align = 0\<rparr>"
  by (simp_all add: elf_header_at_def elf_count_def header_of_def elf_program_header_at_def load32_def load16_def image_raw_def)

lemma outside_low: "unat p + n \<le> 0x80100000 \<Longrightarrow> outside p n (set image_free)"
  unfolding outside_def
proof (intro allI impI)
  fix k assume n: "unat p + n \<le> 0x80100000" "k < n"
  then have "unat (p + of_nat k) = unat p + k" using unat_of_nat32[of k] by (simp add: unat_word_ariths)
  then show "page_base (p + of_nat k) \<notin> set image_free" using n by (intro image_low) (simp add: word_less_nat_alt)
qed

lemma image_loadable: "elf_loadable (mem image_static) 0x80060000 (set image_free)"
  "elf_pages (mem image_static) 0x80060000 (elf_count (mem image_static) 0x80060000) = 1"
proof -
  have "page_base (0xC0000000 + of_nat x) = 0xC0000000" if "x < 4096" for x
    by (rule page_base_add) (use that in \<open>simp_all add: page_aligned_def\<close>)
  then have "seg_vas (header_of (mem image_static) 0x80060000 0) \<subseteq> {0xC0000000}" by (auto simp: seg_vas_def image_file(3) seg_pages_def)
  moreover have "VA_TRAPFRAME \<noteq> 0xC0000000" "VA_USER_STACK \<noteq> 0xC0000000"
    by (simp_all add: VA_TRAPFRAME_def VA_USER_STACK_def VA_USER_STACK_INIT_def VA_MAX_def PAGE_SIZE_def)
  moreover have "outside 0x80060000 52 (set image_free)" "outside 0x80060034 32 (set image_free)" "outside 0x80060100 3 (set image_free)"
    by (simp_all add: outside_low)
  moreover have "eh_phoff (elf_header_at (mem image_static) 0x80060000) = 52" by (simp add: elf_header_at_def load32_def image_raw_def)
  ultimately show "elf_loadable (mem image_static) 0x80060000 (set image_free)"
    by (auto simp: elf_loadable_def Let_def image_file page_aligned_def)
  show "elf_pages (mem image_static) 0x80060000 (elf_count (mem image_static) 0x80060000) = 1"
    by (simp add: elf_pages_def image_file seg_pages_def)
qed

lemma image_room: "tables_for (unat (free_ram_end image_static) div 4096) + 2 * elf_pages (mem image_static) 0x80060000 (elf_count (mem image_static) 0x80060000) + 5
  \<le> length image_free"
  unfolding image_loadable(2) by (simp add: tables_for_def ram_pages_def)

lemma image_user:
  "reads_string (path_reader 0x3000 image_static) [104]" "fs_names image_static ([104] # replicate 11 [])"
  "stable_args image_static (set image_free) 0x1000 [(0x2000, [104])]"
proof -
  show "reads_string (path_reader 0x3000 image_static) [104]"
    by (auto simp: reads_string_def path_reader_def uload8_def mmu_translate_def image_raw_def)
  show "fs_names image_static ([104] # replicate 11 [])"
    by (auto simp: fs_names_def reads_string_def name_reader_def MAX_FS_FILES_def nth_Cons blank_file_def split: nat.splits)
  have "user_args (image_static\<lparr>mem := m\<rparr>) 0x1000 [(0x2000, [104])]" if m: "\<forall>a. \<not> in_pages a image_free \<longrightarrow> m a = mem image_static a" for m
  proof -
    have "m a = mem image_raw a" if "a < 0x80100000" for a using m image_low[OF that] that by simp
    then show ?thesis by (simp add: user_args_def uload32_def uload8_def mmu_translate_def reads_string_def path_reader_def image_raw_def)
  qed
  then show "stable_args image_static (set image_free) 0x1000 [(0x2000, [104])]" by (simp add: stable_args_def)
qed

theorem kproc_exec_program_witness:
  "\<exists>tf stk t. kproc_exec 0x3000 0x1000 image_static = Inr (0, t) \<and> tf_get tf TF_epc t = 0xC0000000 \<and> tf_get tf TF_a0 t = 1 \<and>
     tf_get tf TF_a1 t = 0xFFFFEFFA \<and> trapframe (cur t) = tf \<and> mem t (stk + 0xFFE) = 104 \<and>
     (\<exists>fr. pt_entry (mem t) (pagetable (cur t)) 768 0 = Some (leaf_pte fr PTE_URWX) \<and> mem t (fr + 2) = 9)"
proof -
  let ?as = "[(0x2000, [104])] :: (addr \<times> u8 list) list" and ?h = "header_of (mem image_static) 0x80060000 0"
  have al: "args_len ?as (Suc 0) = 2" "args_len ?as 1 = 2" by (simp_all add: args_len_def)
  have fd: "find (\<lambda>i. ([104] # replicate 11 []) ! i = ([104] :: u8 list)) [0..<MAX_FS_FILES] = Some 0" by (simp add: MAX_FS_FILES_def upt_rec)
  have len: "args_len ?as (length ?as) + 4 * length ?as \<le> 4096" "current image_static < length (procs image_static)" by (simp_all add: al)
  from kproc_exec_program[OF image_static_simps(7) image_user(1,3,2) fd image_static_simps(6,10) _ image_loadable(1) image_room len(2,1)]
  obtain root tf stk n h t where t: "kproc_exec 0x3000 0x1000 image_static = Inr (0, t)" "current t = current image_static"
    "procs t = (procs image_static)[current image_static := (image_block root tf (cur image_static))\<lparr>proc_state := RUNNABLE, free_heap_page := h, user_stack := stk\<rparr>]"
    "address_space (mem image_static) 0x80060000 (unat (free_ram_end image_static) div 4096) root tf stk (set image_free - pt_pages (mem t) root - set (drop n image_free) - {tf, stk}) (mem t)"
    "args_on_stack ?as stk (mem t)"
    "\<forall>f. tf_get tf f t = (if f = TF_a0 then of_nat (length ?as) else if f = TF_a1 \<or> f = TF_sp then VA_USER_STACK + of_nat (args_base ?as)
       else if f = TF_kernel_sp then kernel_stack_top (cur image_static) else if f = TF_kernel_trap then sym_addr image_static Sym_ktrap_from_user_handler
       else if f = TF_epc then eh_entry (elf_header_at (mem image_static) 0x80060000) else 0)"
    by (auto simp: page_aligned_def)
  have c: "trapframe (cur t) = tf" "pagetable (cur t) = root" using t(2,3) by (simp_all add: cur_def image_block_def)
  have b: "args_base ?as = 4090" by (simp add: args_base_def al)
  have "mem t (stk + 0xFFE) = 104" using t(5) by (auto simp: args_on_stack_def al)
  moreover have "seg_at root (set image_free - pt_pages (mem t) root - set (drop n image_free) - {tf, stk}) (mem image_static) 0x80060000 ?h (mem t)"
    using t(4) by (simp add: address_space_def image_file(2))
  from this[unfolded seg_at_def, rule_format, of 2] obtain fr where "pt_entry (mem t) root 768 0 = Some (leaf_pte fr PTE_URWX)" "mem t (fr + 2) = 9"
    by (auto simp: image_file(3) seg_pages_def vpn_div image_raw_def)
  ultimately show ?thesis using t(1,6) c b image_file(1)
    by (intro exI[of _ tf] exI[of _ stk] exI[of _ t]) (auto simp: VA_USER_STACK_def VA_USER_STACK_INIT_def VA_TRAPFRAME_def VA_MAX_def PAGE_SIZE_def)
qed

text \<open>
  C15: \<open>kproc_create\<close> builds a process from a program in memory: the first unused control block becomes runnable with the next id, and its new page
  table maps the kernel, every segment of the file with its bytes in fresh frames, a zeroed stack page and the trap frame, and nothing else. The trap frame
  starts the program at the entry point of the file on an empty stack, its context enters user mode through \<open>ktrap_to_user\<close>. No other process and no
  memory outside the free pages changes, and the pages not used stay in the free list.
\<close>

theorem kproc_create_program:
  fixes s :: "'a kproc_scheme"
  assumes "find_unused s = Some i" "length (procs s) = NUM_PROCESSES" "uart_live s" "kmem_pages s ps"
    "page_aligned (free_ram_end s)" "elf_loadable (mem s) eh (set ps)"
    "tables_for (unat (free_ram_end s) div 4096) + 2 * elf_pages (mem s) eh (elf_count (mem s) eh) + 5 \<le> length ps"
  shows "\<exists>root tf stk n t. kproc_create eh s = Inr (i, t) \<and>
    image_of i eh ps (proc_upd i (\<lambda>p. p\<lparr>proc_state := RUNNABLE, pid := of_nat i + 1\<rparr>) s) root tf stk n t"
  by (rule kproc_create_image[OF assms])

theorem kproc_create_program_witness:
  "\<exists>root tf stk n t. kproc_create 0x80060000 image_static = Inr (1, t) \<and>
     image_of 1 0x80060000 image_free (proc_upd 1 (\<lambda>p. p\<lparr>proc_state := RUNNABLE, pid := of_nat 1 + 1\<rparr>) image_static) root tf stk n t"
proof -
  have "find_unused image_static = Some 1" by (simp add: find_unused_def NUM_PROCESSES_def upt_rec blank_process_def)
  moreover have "length (procs image_static) = NUM_PROCESSES" by (simp add: NUM_PROCESSES_def)
  moreover have "page_aligned (free_ram_end image_static)" by (simp add: page_aligned_def)
  ultimately show ?thesis using kproc_create_program[OF _ _ image_static_simps(7,10) _ image_loadable(1) image_room] by blast
qed

end
