(* ===== verification/Riscv.thy ===== *)
theory Riscv
  imports Machine
begin

text \<open>
  The part of the RV32 instruction set that the assembly files of the kernel use: a register file, one
  definition of what an instruction does to registers, memory and control registers, and execution of a
  straight-line block. Loads and stores go through the address translation of the hart. The lemmas say
  what a run of stores saves and a run of loads restores.
\<close>

section \<open>Registers and instructions\<close>

datatype reg =
  R_zero | R_ra | R_sp | R_gp | R_tp | R_t0 | R_t1 | R_t2 | R_s0 | R_s1 | R_a0 | R_a1 | R_a2 | R_a3 | R_a4 | R_a5 | R_a6 | R_a7 |
  R_s2 | R_s3 | R_s4 | R_s5 | R_s6 | R_s7 | R_s8 | R_s9 | R_s10 | R_s11 | R_t3 | R_t4 | R_t5 | R_t6

type_synonym regs = "reg \<Rightarrow> u32"

text \<open>
  \<open>Sw q off b\<close> is \<^verbatim>\<open>sw q, off(b)\<close>; the other names follow the assembler. \<open>Li\<close> also stands for \<^verbatim>\<open>la\<close>, with
  the address the linker gives the symbol.
\<close>

datatype instr =
    Lw reg u32 reg
  | Sw reg u32 reg
  | Li reg u32
  | Addi reg reg u32
  | Add reg reg reg
  | Csrw csr_reg reg
  | Csrr reg csr_reg
  | Sfence_vma

definition set_reg :: "reg \<Rightarrow> u32 \<Rightarrow> regs \<Rightarrow> regs" where
  "set_reg q v r = (if q = R_zero then r else r(q := v))"

text \<open>
  A word access translates its address and faults when the page is not accessible; misaligned accesses
  count as faults too.
\<close>

definition word_pa :: "'a machine_scheme \<Rightarrow> access \<Rightarrow> addr \<Rightarrow> addr kres" where
  "word_pa s acc va =
     (if unat va mod 4 \<noteq> 0 then Inl (KernelFault va)
      else case mmu_translate s acc va of None \<Rightarrow> Inl (KernelFault va) | Some pa \<Rightarrow> Inr pa)"

fun exec1 :: "instr \<Rightarrow> regs \<times> 'a machine_scheme \<Rightarrow> (regs \<times> 'a machine_scheme) kres" where
  "exec1 (Lw q off b) (r, s) = kbind (word_pa s Load (r b + off)) (\<lambda>pa. Inr (set_reg q (load32 (mem s) pa) r, s))"
| "exec1 (Sw q off b) (r, s) = kbind (word_pa s Store (r b + off)) (\<lambda>pa. Inr (r, s\<lparr>mem := store32 (mem s) pa (r q)\<rparr>))"
| "exec1 (Li q v) (r, s) = Inr (set_reg q v r, s)"
| "exec1 (Addi q b v) (r, s) = Inr (set_reg q (r b + v) r, s)"
| "exec1 (Add q a b) (r, s) = Inr (set_reg q (r a + r b) r, s)"
| "exec1 (Csrw c q) (r, s) = Inr (r, WRITE_CSR c (r q) s)"
| "exec1 (Csrr q c) (r, s) = Inr (set_reg q (READ_CSR c s) r, s)"
| "exec1 Sfence_vma (r, s) = Inr (r, s)"

definition exec :: "instr list \<Rightarrow> regs \<times> 'a machine_scheme \<Rightarrow> (regs \<times> 'a machine_scheme) kres" where
  "exec is = kfold exec1 is"

lemma exec_simps [simp]: "exec [] c = Inr c" "exec (i # is) c = kbind (exec1 i c) (exec is)"
  by (simp_all add: exec_def)

lemma exec_append: "exec (is @ js) c = kbind (exec is c) (exec js)"
  by (simp add: exec_def kfold_append)

section \<open>Words of a region\<close>

lemma slot_bytes_eq:
  assumes "i < 1073741824" "j < 1073741824" "x < 4" "y < 4"
  shows "slot p i + of_nat x = slot p j + of_nat y \<longleftrightarrow> i = j \<and> x = y"
proof -
  have "slot p i + of_nat x = p + of_nat (4 * i + x)" "slot p j + of_nat y = p + of_nat (4 * j + y)"
    by (simp_all add: slot_def)
  then have "slot p i + of_nat x = slot p j + of_nat y \<longleftrightarrow> 4 * i + x = 4 * j + y"
    using assms of_nat32_inj[of "4 * i + x" "4 * j + y"] by simp
  also have "\<dots> \<longleftrightarrow> i = j \<and> x = y" using assms(3,4) by presburger
  finally show ?thesis .
qed

text \<open>The addresses of \<open>n\<close> words at \<open>p\<close>.\<close>

definition words :: "addr \<Rightarrow> nat \<Rightarrow> addr set" where
  "words p n = {slot p i + of_nat x | i x. i < n \<and> x < 4}"

lemma words_mono: "n \<le> k \<Longrightarrow> words p n \<subseteq> words p k"
  unfolding words_def by force

lemma word_in_words: "i < n \<Longrightarrow> slot p i \<in> words p n" "i < n \<Longrightarrow> slot p i + 1 \<in> words p n"
  "i < n \<Longrightarrow> slot p i + 2 \<in> words p n" "i < n \<Longrightarrow> slot p i + 3 \<in> words p n"
proof -
  have *: "i < n \<Longrightarrow> x < 4 \<Longrightarrow> slot p i + of_nat x \<in> words p n" for x by (auto simp: words_def)
  show "i < n \<Longrightarrow> slot p i \<in> words p n" "i < n \<Longrightarrow> slot p i + 1 \<in> words p n"
    "i < n \<Longrightarrow> slot p i + 2 \<in> words p n" "i < n \<Longrightarrow> slot p i + 3 \<in> words p n"
    using *[of 0] *[of 1] *[of 2] *[of 3] by simp_all
qed

lemma word_at_cong: "i < n \<Longrightarrow> (\<And>a. a \<in> words p n \<Longrightarrow> m a = m' a) \<Longrightarrow> word_at m p i = word_at m' p i"
  by (intro load32_cong) (simp_all add: word_in_words)

lemma store_slot_other: "i < n \<Longrightarrow> a \<notin> words p n \<Longrightarrow> store32 m (slot p i) v a = m a"
  using word_in_words[of i n p] by (auto simp: store32_def)

lemma word_at_store_slot:
  assumes "i < 1073741824" "j < 1073741824"
  shows "word_at (store32 m (slot p i) v) p j = (if i = j then v else word_at m p j)"
proof (cases "i = j")
  case False
  have "slot p j + of_nat y \<noteq> slot p i + of_nat x" if "x < 4" "y < 4" for x y
    using slot_bytes_eq[OF assms(2,1) that(2,1)] False by simp
  from this[of 0] this[of 1] this[of 2] this[of 3]
  have "store32 m (slot p i) v (slot p j + of_nat y) = m (slot p j + of_nat y)" if "y < 4" for y
    using that by (simp add: store32_def)
  from this[of 0] this[of 1] this[of 2] this[of 3] show ?thesis using False by (simp add: load32_def)
qed simp

section \<open>Saving and restoring\<close>

text \<open>
  The words at the virtual address \<open>va\<close> are the words at the physical address \<open>pa\<close>, and stay so whatever
  is stored in \<open>W\<close>.
\<close>

definition window :: "'a machine_scheme \<Rightarrow> addr set \<Rightarrow> addr \<Rightarrow> addr \<Rightarrow> nat \<Rightarrow> bool" where
  "window s W va pa n \<longleftrightarrow> unat va mod 4 = 0 \<and> n < 1073741824 \<and>
     (\<forall>m. (\<forall>a. a \<notin> W \<longrightarrow> m a = mem s a) \<longrightarrow>
        (\<forall>k < n. \<forall>acc. mmu_translate (s\<lparr>mem := m\<rparr>) acc (slot va k) = Some (slot pa k)))"

text \<open>Without paging every aligned region is a window onto itself.\<close>

lemma window_bare: "csr s Satp AND SATP_SV32 = 0 \<Longrightarrow> unat va mod 4 = 0 \<Longrightarrow> n < 1073741824 \<Longrightarrow> window s W va va n"
  by (simp add: window_def mmu_translate_def)

lemma window_translate:
  assumes "window s W va pa n" "\<forall>a. a \<notin> W \<longrightarrow> m a = mem s a" "k < n"
  shows "word_pa (s\<lparr>mem := m\<rparr>) acc (slot va k) = Inr (slot pa k)"
proof -
  have "unat (slot va k) mod 4 = (unat va + unat (of_nat (4 * k) :: u32)) mod 4294967296 mod 4"
    by (simp add: slot_byte0 unat_word_ariths del: of_nat_mult)
  also have "\<dots> = (unat va + unat (of_nat (4 * k) :: u32)) mod 4" by (simp add: mod_mod_cancel)
  also have "unat (of_nat (4 * k) :: u32) mod 4 = 0"
    by (simp add: unat_of_nat take_bit_eq_mod mod_mod_cancel del: of_nat_mult)
  then have "(unat va + unat (of_nat (4 * k) :: u32)) mod 4 = unat va mod 4" by (metis add.right_neutral mod_add_right_eq)
  finally have "unat (slot va k) mod 4 = unat va mod 4" .
  then show ?thesis using assms by (simp add: window_def word_pa_def)
qed

text \<open>Stores of the registers \<open>qs\<close> to the words \<open>ks\<close>, and loads.\<close>

definition saves :: "reg \<Rightarrow> (reg \<times> nat) list \<Rightarrow> instr list" where
  "saves b ps = map (\<lambda>(q, k). Sw q (of_nat (4 * k)) b) ps"

definition restores :: "reg \<Rightarrow> (reg \<times> nat) list \<Rightarrow> instr list" where
  "restores b ps = map (\<lambda>(q, k). Lw q (of_nat (4 * k)) b) ps"

definition saved_mem :: "regs \<Rightarrow> (reg \<times> nat) list \<Rightarrow> addr \<Rightarrow> (addr \<Rightarrow> u8) \<Rightarrow> (addr \<Rightarrow> u8)" where
  "saved_mem r ps pa m = fold (\<lambda>(q, k) m. store32 m (slot pa k) (r q)) ps m"

lemma saved_mem_other: "\<forall>(q, k) \<in> set ps. k < n \<Longrightarrow> a \<notin> words pa n \<Longrightarrow> saved_mem r ps pa m a = m a"
  by (induction ps arbitrary: m) (auto simp: saved_mem_def store_slot_other)

lemma saved_mem_unsaved:
  "\<forall>(q, k) \<in> set ps. k < n \<Longrightarrow> n < 1073741824 \<Longrightarrow> j < n \<Longrightarrow> j \<notin> snd ` set ps \<Longrightarrow>
   word_at (saved_mem r ps pa m) pa j = word_at m pa j"
  by (induction ps arbitrary: m) (auto simp: saved_mem_def word_at_store_slot)

lemma saved_mem_word:
  assumes "\<forall>(q, k) \<in> set ps. k < n" "n < 1073741824" "distinct (map snd ps)" "(q, k) \<in> set ps"
  shows "word_at (saved_mem r ps pa m) pa k = r q"
  using assms
proof (induction ps arbitrary: m)
  case (Cons p ps)
  obtain q' k' where p: "p = (q', k')" by (cases p)
  have *: "saved_mem r (p # ps) pa m = saved_mem r ps pa (store32 m (slot pa k') (r q'))" by (simp add: saved_mem_def p)
  show ?case
  proof (cases "(q, k) \<in> set ps")
    case True
    then show ?thesis using Cons * by simp
  next
    case False
    then have eq: "q = q'" "k = k'" "k \<notin> snd ` set ps" "k < n" using Cons.prems p by auto
    have "word_at (saved_mem r ps pa (store32 m (slot pa k') (r q'))) pa k = word_at (store32 m (slot pa k') (r q')) pa k"
      by (rule saved_mem_unsaved[of _ n]) (use Cons.prems eq in auto)
    then show ?thesis by (simp add: * eq(1,2))
  qed
qed simp

lemma exec_saves:
  assumes "window s W (r b) pa n" "words pa n \<subseteq> W" "\<forall>(q, k) \<in> set ps. k < n"
  shows "exec (saves b ps) (r, s) = Inr (r, s\<lparr>mem := saved_mem r ps pa (mem s)\<rparr>)"
proof -
  have "exec (saves b ps) (r, s\<lparr>mem := m\<rparr>) = Inr (r, s\<lparr>mem := saved_mem r ps pa m\<rparr>)"
    if "\<forall>a. a \<notin> W \<longrightarrow> m a = mem s a" for m
    using assms(3) that
  proof (induction ps arbitrary: m)
    case (Cons p ps)
    obtain q k where p: "p = (q, k)" by (cases p)
    have k: "k < n" using Cons.prems p by simp
    have pa: "word_pa (s\<lparr>mem := m\<rparr>) Store (r b + 4 * of_nat k) = Inr (slot pa k)"
      using window_translate[OF assms(1) Cons.prems(2) k, of Store] by (simp add: slot_def)
    have "\<forall>a. a \<notin> W \<longrightarrow> store32 m (slot pa k) (r q) a = mem s a"
      using Cons.prems(2) store_slot_other[OF k, of _ pa m "r q"] assms(2) by (metis subsetD)
    with Cons.IH Cons.prems have "exec (saves b ps) (r, s\<lparr>mem := store32 m (slot pa k) (r q)\<rparr>) =
      Inr (r, s\<lparr>mem := saved_mem r ps pa (store32 m (slot pa k) (r q))\<rparr>)" by simp
    then show ?case using pa by (simp add: saves_def saved_mem_def p)
  qed (simp add: saves_def saved_mem_def)
  from this[of "mem s"] show ?thesis by simp
qed

definition restored :: "regs \<Rightarrow> (reg \<times> nat) list \<Rightarrow> addr \<Rightarrow> (addr \<Rightarrow> u8) \<Rightarrow> regs" where
  "restored r ps pa m = fold (\<lambda>(q, k) r. set_reg q (word_at m pa k) r) ps r"

lemma exec_restores:
  assumes "window s W (r b) pa n" "\<forall>(q, k) \<in> set ps. k < n" "b \<notin> fst ` set ps"
  shows "exec (restores b ps) (r, s) = Inr (restored r ps pa (mem s), s)"
  using assms
proof (induction ps arbitrary: r)
  case (Cons p ps)
  obtain q k where p: "p = (q, k)" by (cases p)
  have pa: "word_pa s Load (r b + 4 * of_nat k) = Inr (slot pa k)"
    using window_translate[OF Cons.prems(1), of "mem s" k Load] Cons.prems(2) p by (simp add: slot_def)
  have "set_reg q (word_at (mem s) pa k) r b = r b" using Cons.prems(3) p by (auto simp: set_reg_def)
  with Cons.IH[of "set_reg q (word_at (mem s) pa k) r"] Cons.prems show ?case
    using pa by (simp add: restores_def restored_def p)
qed (simp add: restores_def restored_def)

lemma restored_other: "q \<notin> fst ` set ps \<Longrightarrow> restored r ps pa m q = r q"
  by (induction ps arbitrary: r) (auto simp: restored_def set_reg_def)

lemma restored_word:
  assumes "distinct (map fst ps)" "(q, k) \<in> set ps" "q \<noteq> R_zero"
  shows "restored r ps pa m q = word_at m pa k"
  using assms
proof (induction ps arbitrary: r)
  case (Cons p ps)
  obtain q' k' where p: "p = (q', k')" by (cases p)
  have *: "restored r (p # ps) pa m = restored (set_reg q' (word_at m pa k') r) ps pa m" by (simp add: restored_def p)
  show ?case
  proof (cases "(q, k) \<in> set ps")
    case False
    then have eq: "q = q'" "k = k'" using Cons.prems p by auto
    then have "q \<notin> fst ` set ps" using Cons.prems p by auto
    then show ?thesis using Cons.prems(3) eq by (simp add: * restored_other) (simp add: set_reg_def)
  qed (use Cons * in auto)
qed simp

end
