(* ===== verification/Kproc_Inv.thy ===== *)
theory Kproc_Inv
  imports Kexec
begin

text \<open>
  The process table under every operation that changes it, in any order: a small calculus for what
  holds of a result if there is one, the step relation of the table, and its invariant.
\<close>

section \<open>What holds of a result\<close>

text \<open>\<open>post m P\<close>: if the operation returns, its result satisfies \<open>P\<close>.\<close>

definition post :: "'a kres \<Rightarrow> ('a \<Rightarrow> bool) \<Rightarrow> bool" where
  "post m P \<longleftrightarrow> (\<forall>x. m = Inr x \<longrightarrow> P x)"

named_theorems post_rules

lemma post_Inr [simp]: "post (Inr x) P \<longleftrightarrow> P x" by (simp add: post_def)

lemma post_Inl [simp]: "post (Inl e) P" by (simp add: post_def)

lemma postD: "post m P \<Longrightarrow> m = Inr x \<Longrightarrow> P x" by (simp add: post_def)

lemma post_True [simp]: "post m (\<lambda>_. True)" by (simp add: post_def)

lemma post_kpanic [simp]: "post (kpanic f l msg s) P"
  by (auto simp: post_def kpanic_def kres_simps)

lemma post_bind [post_rules]:
  assumes "post m Q" "\<And>x. Q x \<Longrightarrow> post (f x) P"
  shows "post (kbind m f) P"
  using assms by (cases m) auto

lemma post_mono: "post m Q \<Longrightarrow> (\<And>x. Q x \<Longrightarrow> P x) \<Longrightarrow> post m P"
  by (simp add: post_def)

lemma post_kfold:
  assumes "P s" "\<And>i u. P u \<Longrightarrow> post (f i u) P"
  shows "post (kfold f is s) P"
  using assms(1) by (induction "is" arbitrary: s) (auto intro!: post_bind[where Q = P] assms(2))

lemma post_kwhile:
  assumes "P s" "\<And>u. P u \<Longrightarrow> b u \<Longrightarrow> post (c u) P"
  shows "post (kwhile b c s) P"
  using kwhile_keeps[of b c s _ P] assms by (auto simp: post_def)

section \<open>Operations below the table\<close>

text \<open>The process table with what belongs to it.\<close>

definition tab :: "'a kproc_scheme \<Rightarrow> addr \<times> process list \<times> nat" where
  "tab s = (proc_array_base s, procs s, current s)"

lemma tab_simps [simp]:
  "tab (s\<lparr>mem := m\<rparr>) = tab s" "tab (set_word p i v s) = tab s" "tab (tf_set p f v s) = tab s" "tab (kmem_free p s) = tab s"
  by (simp_all add: tab_def set_word_def tf_set_def kmem_free_def)

lemma tab_kmem_frame: "kmem_frame s t \<Longrightarrow> tab t = tab s"
  using kmem_frame_kproc[of s t] by (simp add: tab_def)

lemma tab_uart: "uart_dev.more s = uart_dev.more t \<Longrightarrow> tab s = tab t"
  by (cases s, cases t) (simp add: tab_def)

lemma post_uart_send: "post (UartSendBlocking ch s) (\<lambda>t. uart_dev.more t = uart_dev.more s)"
proof -
  have "post (kwhile b (\<lambda>s. Inr (lsr_read s)) s) (\<lambda>t. uart_dev.more t = uart_dev.more s)" for b
    by (rule post_kwhile) (simp_all add: lsr_read_def)
  then show ?thesis unfolding UartSendBlocking_def wait_lsr_def
    by (intro post_bind[where Q = "\<lambda>t. uart_dev.more t = uart_dev.more s"]) (auto simp: lsr_read_def uart_write_def intro: post_mono)
qed

lemma post_send_all:
  "post (kfold (\<lambda>i. UartSendBlocking (f i)) is s) (\<lambda>t. uart_dev.more t = uart_dev.more s)"
proof (rule post_kfold)
  fix i and u :: "'a uart_dev_scheme" assume "uart_dev.more u = uart_dev.more s"
  then show "post (UartSendBlocking (f i) u) (\<lambda>t. uart_dev.more t = uart_dev.more s)" using post_uart_send[of "f i" u] by simp
qed simp

lemma post_print:
  "post (print_dec v sg s) (\<lambda>t. uart_dev.more t = uart_dev.more s)" "post (print_hex v s) (\<lambda>t. uart_dev.more t = uart_dev.more s)"
proof -
  show "post (print_dec v sg s) (\<lambda>t. uart_dev.more t = uart_dev.more s)" unfolding print_dec_def Let_def split_beta
    by (intro post_bind[OF post_True] post_send_all)
  have "post (UartSendBlocking c t) (\<lambda>u. uart_dev.more u = uart_dev.more s)" if "uart_dev.more t = uart_dev.more s" for c and t :: "'a uart_dev_scheme"
    using post_uart_send[of c t] that by simp
  moreover have "post (kfold (\<lambda>i. UartSendBlocking (f i)) is t) (\<lambda>u. uart_dev.more u = uart_dev.more s)" if "uart_dev.more t = uart_dev.more s" for f "is" and t :: "'a uart_dev_scheme"
    using post_send_all[of f "is" t] that by simp
  ultimately show "post (print_hex v s) (\<lambda>t. uart_dev.more t = uart_dev.more s)" unfolding print_hex_def
    by (intro post_bind[where Q = "\<lambda>t. uart_dev.more t = uart_dev.more s"]) auto
qed

lemma post_kprintf: "post (kprintf fmt args s) (\<lambda>r. uart_dev.more (snd r) = uart_dev.more s)"
proof (induction "length fmt" arbitrary: fmt args s rule: less_induct)
  case less
  have b: "post (kbind m (kprintf fmt' a)) (\<lambda>r. uart_dev.more (snd r) = uart_dev.more s)"
    if "post m (\<lambda>t. uart_dev.more t = uart_dev.more s)" "length fmt' < length fmt" for m fmt' a
    using that(1) by (rule post_bind) (use less[OF that(2)] in \<open>auto simp: post_def\<close>)
  have e: "post (kbind (UartSendBlocking c s) (\<lambda>s. Inr (0, s))) (\<lambda>r. uart_dev.more (snd r) = uart_dev.more s)" for c
    by (rule post_bind[OF post_uart_send]) simp
  consider "fmt = []" | c fmt1 where "fmt = c # fmt1" "c \<noteq> CHR ''%''" | "fmt = [CHR ''%'']" | d fmt2 where "fmt = CHR ''%'' # d # fmt2"
    by (metis list.exhaust)
  then show ?case
  proof cases
    case 2
    then show ?thesis using b[OF post_uart_send] by simp
  next
    case (4 d fmt2)
    note b2 = b[of _ fmt2, OF post_uart_send] b[of _ fmt2, OF post_print(1)] b[of _ fmt2, OF post_print(2)]
      b[of _ fmt2, OF post_send_all[where f = "\<lambda>x. x"]]
    show ?thesis unfolding 4 using b2 4 by (simp split: list.split varg.split)
  qed (use e in simp_all)
qed

lemma post_alloc: "post (kmem_alloc s) (\<lambda>r. kmem_frame s (snd r))"
  by (auto simp: kmem_alloc_def Let_def kmem_frame_def)

lemma kmem_frame_set_word: "kmem_frame s t \<Longrightarrow> kmem_frame s (set_word p i v t)"
  by (cases s, cases t) (simp add: kmem_frame_def set_word_def)

lemma post_map_page: "post (kvmem_map_page table va pa flags s) (kmem_frame s)"
  unfolding kvmem_map_page_def Let_def split_beta
  by (rule post_bind[where Q = "kmem_frame s"])
    (auto intro!: kmem_frame_set_word post_bind[OF post_alloc])

lemma post_copy_leaf: "kmem_frame s t \<Longrightarrow> post (copy_leaf p q j t) (kmem_frame s)"
  unfolding copy_leaf_def Let_def split_beta
  by (auto intro!: kmem_frame_mem kmem_frame_set_word post_bind[OF post_alloc]
      intro: kmem_frame_trans[OF kmem_frame_set_word])

lemma post_copy_root: "kmem_frame s t \<Longrightarrow> post (copy_root p q i t) (kmem_frame s)"
  unfolding copy_root_def Let_def split_beta
  by (auto intro!: post_kfold post_copy_leaf kmem_frame_set_word post_bind[OF post_alloc] intro: kmem_frame_trans)

lemma post_copy_pagetable: "post (kvmem_copy_pagetable p s) (\<lambda>r. kmem_frame s (snd r))"
  unfolding kvmem_copy_pagetable_def split_beta
  by (rule post_bind[OF post_alloc], rule post_bind[where Q = "kmem_frame s"]) (auto intro!: post_kfold post_copy_root)

lemma post_reads:
  "(\<And>x. post (f x) P) \<Longrightarrow> post (kbind (uload32 va s) f) P" "(\<And>x. post (g x) P) \<Longrightarrow> post (kbind (ustring va s) g) P"
  by (rule post_bind[OF post_True], simp)+

section \<open>Properties of the process table\<close>

text \<open>
  What a property of the process table must allow so that loading a program keeps it: it does not look at memory, at the free
  list or at the console; the fields that the loader sets may change, and the next page of the heap where \<open>heap\<close> says so.
\<close>

locale loader_property =
  fixes ok :: "'s kproc_scheme \<Rightarrow> bool" and heap :: bool
  assumes ok_frame: "kmem_frame s t \<Longrightarrow> ok t \<longleftrightarrow> ok s"
    and ok_uart: "uart_dev.more s = uart_dev.more t \<Longrightarrow> ok s \<longleftrightarrow> ok t"
    and ok_image: "ok s \<Longrightarrow> ok (proc_upd i (\<lambda>p. p\<lparr>pagetable := a\<rparr>) s)" "ok s \<Longrightarrow> ok (proc_upd i (\<lambda>p. p\<lparr>trapframe := a\<rparr>) s)"
      "ok s \<Longrightarrow> ok (proc_upd i (\<lambda>p. p\<lparr>user_stack := g p\<rparr>) s)" "ok s \<Longrightarrow> ok (proc_upd i (\<lambda>p. p\<lparr>proc_context := c p\<rparr>) s)"
    and ok_heap: "heap \<Longrightarrow> ok s \<Longrightarrow> ok (proc_upd i (\<lambda>p. p\<lparr>free_heap_page := h p\<rparr>) s)"
begin

declare ok_image [simp] ok_heap [simp]

lemma ok_simps [simp]:
  "ok (s\<lparr>mem := m\<rparr>) = ok s" "ok (set_word p i v s) = ok s" "ok (tf_set p f v s) = ok s" "ok (kmem_free p s) = ok s"
  by (rule ok_frame, simp add: kmem_frame_def set_word_def tf_set_def kmem_free_def)+

lemma keeps_alloc [post_rules]: "ok s \<Longrightarrow> post (kmem_alloc s) (\<lambda>r. ok (snd r))"
  by (rule post_mono[OF post_alloc]) (use ok_frame in blast)

lemma keeps_map [post_rules]: "ok s \<Longrightarrow> post (kvmem_map_page a b c d s) ok"
  by (rule post_mono[OF post_map_page]) (use ok_frame in blast)

lemma keeps_copy [post_rules]: "ok s \<Longrightarrow> post (kvmem_copy_pagetable p s) (\<lambda>r. ok (snd r))"
  by (rule post_mono[OF post_copy_pagetable]) (use ok_frame in blast)

lemma keeps_kprintf [post_rules]: "ok s \<Longrightarrow> post (kprintf fmt args s) (\<lambda>r. ok (snd r))"
  by (rule post_mono[OF post_kprintf]) (use ok_uart in blast)

lemma keeps_print_all: "ok s \<Longrightarrow> post (kprintf_all xs s) ok"
  unfolding kprintf_all_def split_beta by (rule post_kfold) (auto intro!: post_bind[OF keeps_kprintf])

lemma keeps_load_page: "(hp \<Longrightarrow> heap) \<Longrightarrow> ok s \<Longrightarrow> post (load_page hp i eph st idx n s) ok"
  unfolding load_page_def Let_def split_beta
  by (intro post_bind[OF keeps_alloc] post_bind[OF keeps_map]) simp_all

lemma keeps_load_segment: "(hp \<Longrightarrow> heap) \<Longrightarrow> ok s \<Longrightarrow> post (load_segment hp i elf eph s) ok"
  unfolding load_segment_def elf_dump_program_header_def Let_def
  by (intro post_bind[OF keeps_print_all] post_bind[where Q = ok] post_kfold) (simp_all add: keeps_load_page)

lemma keeps_load_program: "(hp \<Longrightarrow> heap) \<Longrightarrow> ok s \<Longrightarrow> post (load_program hp i eh s) ok"
  unfolding load_program_def split_beta
  by (rule post_bind[where Q = "\<lambda>r. ok (snd r)"], rule post_kwhile) (auto intro!: post_bind[OF keeps_load_segment])

lemma keeps_map_kernel: "ok s \<Longrightarrow> post (map_kernel i s) ok"
  unfolding map_kernel_def split_beta
  by (rule post_bind[where Q = "\<lambda>r. ok (snd r)"], rule post_kwhile) (auto intro!: post_bind[OF keeps_map])

lemma keeps_setup_image: "(hp \<Longrightarrow> heap) \<Longrightarrow> ok s \<Longrightarrow> post (setup_image hp i elf s) (\<lambda>r. ok (snd r))"
  unfolding setup_image_def elf_dump_header_def Let_def split_beta
  by (intro post_bind[OF keeps_alloc] post_bind[OF keeps_map_kernel] post_bind[OF keeps_print_all] post_bind[OF keeps_load_program]
      post_bind[OF keeps_map]) simp_all

end

text \<open>
  For every operation of the table: a free slot may also be claimed, a process that can run made runnable, and another process made
  current.
\<close>

locale proc_property = loader_property ok True for ok :: "'s kproc_scheme \<Rightarrow> bool" +
  assumes ok_unused: "ok s \<Longrightarrow> ok (proc_upd i (\<lambda>p. p\<lparr>proc_state := UNUSED\<rparr>) s)"
    and ok_claim: "ok s \<Longrightarrow> i < NUM_PROCESSES \<Longrightarrow>
      ok (proc_upd i (\<lambda>p. p\<lparr>pid := of_nat i + 1\<rparr>) (proc_upd i (\<lambda>p. p\<lparr>proc_state := st\<rparr>) s))"
    and ok_run: "ok s \<Longrightarrow> can_run (cur s) \<Longrightarrow> ok (proc_upd (current s) (\<lambda>p. p\<lparr>proc_state := RUNNABLE\<rparr>) s)"
    and ok_sched: "ok s \<Longrightarrow> i < NUM_PROCESSES \<Longrightarrow> ok (s\<lparr>current := i\<rparr>)"
begin

declare ok_unused [simp]

lemma keeps_fork: "ok s \<Longrightarrow> post (kproc_fork s) (\<lambda>r. ok (snd r))"
proof -
  assume ok: "ok s"
  have tail: "post (fork_tail i t) (\<lambda>r. ok (snd r))" if "ok t" for i and t :: "'s kproc_scheme"
    using that unfolding fork_tail_def Let_def split_beta by (intro post_bind[OF keeps_kprintf]) simp_all
  show ?thesis
  proof (cases "find_unused s")
    case (Some i)
    then have "i < NUM_PROCESSES" by (auto simp: find_unused_def find_Some_iff)
    from ok_claim[OF ok this] show ?thesis unfolding kproc_fork_def Let_def Some option.case split_beta
      by (intro post_bind[OF keeps_copy] post_bind[OF keeps_alloc] post_bind[OF keeps_map] tail) simp_all
  qed (simp add: kproc_fork_def)
qed

lemma keeps_create: "ok s \<Longrightarrow> post (kproc_create elf s) (\<lambda>r. ok (snd r))"
proof (cases "find_unused s")
  case (Some i)
  assume ok: "ok s"
  have "i < NUM_PROCESSES" using Some by (auto simp: find_unused_def find_Some_iff)
  from ok_claim[OF ok this] show ?thesis unfolding kproc_create_def Let_def Some option.case split_beta
    by (intro post_bind[OF keeps_setup_image]) simp_all
qed (simp add: kproc_create_def)

lemma keeps_push_arg: "ok (snd (snd r)) \<Longrightarrow> post (push_arg argv i r) (\<lambda>r. ok (snd (snd r)))"
  unfolding push_arg_def Let_def split_beta
  by (intro post_bind[OF post_True] post_bind[where Q = ok] post_kfold) (auto intro!: post_bind[OF post_True])

lemma ok_words: "ok (fold (\<lambda>k. set_word p k (xs k)) ks s) = ok s"
  by (induction ks arbitrary: s) simp_all

lemma keeps_exec_args: "ok s \<Longrightarrow> post (exec_args argv argc page s) ok"
  unfolding exec_args_def Let_def split_beta
  by (rule post_bind[where Q = "\<lambda>r. ok (snd (snd r))"], rule post_kfold) (simp_all add: keeps_push_arg ok_words)

lemma keeps_kill: "ok s \<Longrightarrow> ok (snd (kproc_kill target s))"
proof -
  assume ok: "ok s"
  have one: "ok (kill_one target i t)" if "ok t" for i and t :: "'s kproc_scheme"
    using that by (simp add: kill_one_def Let_def)
  have "ok (fold (kill_one target) is s)" for "is" using ok by (induction "is" arbitrary: s) (simp_all add: one)
  then show ?thesis using ok by (simp add: kproc_kill_def kproc_free_def kproc_yield_def Let_def)
qed

lemma keeps_free: "ok s \<Longrightarrow> ok (kproc_free s)"
  by (simp add: kproc_free_def kproc_yield_def Let_def)

lemma keeps_yield: "ok s \<Longrightarrow> ok (kproc_yield r s)"
  by (simp add: kproc_yield_def)

lemma keeps_add_page: "ok s \<Longrightarrow> post (kproc_add_page s) (\<lambda>r. ok (snd r))"
  unfolding kproc_add_page_def Let_def split_beta
  by (intro post_bind[OF keeps_alloc] post_bind[OF keeps_map]) simp_all

lemma keeps_scheduler: "ok s \<Longrightarrow> i < NUM_PROCESSES \<Longrightarrow> post (kproc_scheduler i s) (\<lambda>r. ok (snd r))"
  unfolding kproc_scheduler_def
  by (rule post_bind[where Q = "\<lambda>i. i < NUM_PROCESSES"], rule post_kwhile) (auto simp: ok_sched)

end

text \<open>\<open>exec\<close> also reads the file table.\<close>

locale proc_property_fs = proc_property ok for ok :: "'s filesystem_scheme \<Rightarrow> bool"
begin

lemma keeps_exec:
  assumes "ok s" "can_run (cur s)"
  shows "post (kproc_exec path argv s) (\<lambda>r. ok (snd r))"
proof -
  define good where "good t \<longleftrightarrow> ok t \<and> can_run (cur t)" for t :: "'s filesystem_scheme"
  have print: "post (kprintf fmt args t) (\<lambda>r. good (snd r))" if g: "good t" for fmt args and t :: "'s filesystem_scheme"
  proof (rule post_mono[OF post_kprintf])
    fix r :: "int \<times> 's filesystem_scheme"
    assume m: "uart_dev.more (snd r) = uart_dev.more t"
    then show "good (snd r)" using g ok_uart[OF m] tab_uart[OF m] by (simp add: good_def cur_def tab_def)
  qed
  have count: "post (exec_count argv t) (\<lambda>r. good (snd r))" if "good t" for t :: "'s filesystem_scheme"
    unfolding exec_count_def split_beta
    by (rule post_bind[where Q = "\<lambda>r. good (snd (snd r))"], rule post_kwhile)
      (auto simp: that simp del: kprintf.simps append.simps intro!: post_reads post_bind[OF print])
  show ?thesis unfolding kproc_exec_def split_beta
    by (intro post_reads post_bind[OF print] post_bind[OF count] post_bind[where m = "filesystem_get_filedata _ _", OF post_True])
      (auto simp: good_def assms simp del: kprintf.simps append.simps split: option.split
        intro!: post_bind[OF keeps_setup_image] post_bind[OF keeps_exec_args] post_bind[OF keeps_kprintf] ok_run)
qed

end

section \<open>The invariant\<close>

text \<open>
  A control block in its slot: its table of eight descriptors, its own kernel stack, and, when it is in use, the
  process id that belongs to the slot.
\<close>

definition slot_ok :: "addr \<Rightarrow> nat \<Rightarrow> process \<Rightarrow> bool" where
  "slot_ok base i p \<longleftrightarrow> length (opened_files p) = MAX_OPEN_FILES \<and> kernel_stack_top p = base + 8312 * (of_nat i + 1) \<and>
     (proc_state p \<noteq> UNUSED \<longrightarrow> pid p = of_nat i + 1)"

definition proc_table_ok :: "'a kproc_scheme \<Rightarrow> bool" where
  "proc_table_ok s \<longleftrightarrow> length (procs s) = NUM_PROCESSES \<and> current s < NUM_PROCESSES \<and>
     (\<forall>i < NUM_PROCESSES. slot_ok (proc_array_base s) i (procs s ! i))"

lemma proc_table_ok_tab: "tab t = tab s \<Longrightarrow> proc_table_ok t = proc_table_ok s"
  by (simp add: tab_def proc_table_ok_def)

lemma proc_table_ok_simps [simp]:
  "proc_table_ok (s\<lparr>mem := m\<rparr>) = proc_table_ok s" "proc_table_ok (set_word p i v s) = proc_table_ok s"
  "proc_table_ok (tf_set p f v s) = proc_table_ok s" "proc_table_ok (kmem_free p s) = proc_table_ok s"
  by (rule proc_table_ok_tab, simp)+

lemma proc_upd_ok:
  assumes "proc_table_ok s" "\<And>p. slot_ok (proc_array_base s) i p \<Longrightarrow> slot_ok (proc_array_base s) i (f p)"
  shows "proc_table_ok (proc_upd i f s)"
  using assms by (cases "i < length (procs s)") (auto simp: proc_table_ok_def proc_upd_def nth_list_update)

text \<open>Updates of fields that the invariant does not mention.\<close>

lemma proc_upd_fields [simp]:
  assumes "proc_table_ok s"
  shows "proc_table_ok (proc_upd i (\<lambda>p. p\<lparr>pagetable := a\<rparr>) s)" "proc_table_ok (proc_upd i (\<lambda>p. p\<lparr>trapframe := a\<rparr>) s)"
    "proc_table_ok (proc_upd i (\<lambda>p. p\<lparr>user_stack := g p\<rparr>) s)" "proc_table_ok (proc_upd i (\<lambda>p. p\<lparr>proc_context := c p\<rparr>) s)"
    "proc_table_ok (proc_upd i (\<lambda>p. p\<lparr>free_heap_page := h p\<rparr>) s)" "proc_table_ok (proc_upd i (\<lambda>p. p\<lparr>proc_state := UNUSED\<rparr>) s)"
    "proc_table_ok (proc_upd i (\<lambda>p. p\<lparr>opened_files := (opened_files p)[k := x]\<rparr>) s)"
  by (rule proc_upd_ok[OF assms], simp add: slot_ok_def)+

lemma claim_slot_ok:
  assumes "proc_table_ok s" "i < NUM_PROCESSES"
  shows "proc_table_ok (proc_upd i (\<lambda>p. p\<lparr>pid := of_nat i + 1\<rparr>) (proc_upd i (\<lambda>p. p\<lparr>proc_state := st\<rparr>) s))"
  using assms by (auto simp: proc_table_ok_def proc_upd_def nth_list_update slot_ok_def)

text \<open>Being well formed is such a property.\<close>

interpretation pt: proc_property proc_table_ok
proof
  show "kmem_frame s t \<Longrightarrow> proc_table_ok t = proc_table_ok s" for s t :: "'a kproc_scheme"
    by (rule proc_table_ok_tab, rule tab_kmem_frame)
  show "uart_dev.more s = uart_dev.more t \<Longrightarrow> proc_table_ok s = proc_table_ok t" for s t :: "'a kproc_scheme"
    by (rule proc_table_ok_tab, rule tab_uart)
  show "proc_table_ok s \<Longrightarrow> can_run (cur s) \<Longrightarrow> proc_table_ok (proc_upd (current s) (\<lambda>p. p\<lparr>proc_state := RUNNABLE\<rparr>) s)" for s :: "'a kproc_scheme"
    by (auto simp: proc_table_ok_def proc_upd_def nth_list_update slot_ok_def can_run_def cur_def)
  show "proc_table_ok s \<Longrightarrow> i < NUM_PROCESSES \<Longrightarrow> proc_table_ok (s\<lparr>current := i\<rparr>)" for s :: "'a kproc_scheme" and i
    by (simp add: proc_table_ok_def)
qed (simp_all add: claim_slot_ok)

interpretation pt: proc_property_fs proc_table_ok ..

section \<open>Steps of the process table\<close>

text \<open>
  The operations that change the table, in any order and with any arguments. A system call is made by
  a process that can run.
\<close>

inductive proc_step :: "filesystem \<Rightarrow> filesystem \<Rightarrow> bool" where
  fork: "can_run (cur s) \<Longrightarrow> kproc_fork s = Inr (r, t) \<Longrightarrow> proc_step s t"
| exec: "can_run (cur s) \<Longrightarrow> kproc_exec path argv s = Inr (e, t) \<Longrightarrow> proc_step s t"
| exit: "proc_step s (kproc_free s)"
| kill: "proc_step s (snd (kproc_kill target s))"
| sleep: "proc_step s (kproc_yield After_sleep s)"
| sbrk: "kproc_add_page s = Inr (va, t) \<Longrightarrow> proc_step s t"
| file_add: "proc_step s (snd (kproc_file_add f s))"
| file_remove: "kproc_file_remove fd s = Inr (e, t) \<Longrightarrow> proc_step s t"
| create: "kproc_create elf s = Inr (n, t) \<Longrightarrow> proc_step s t"
| schedule: "i < NUM_PROCESSES \<Longrightarrow> kproc_scheduler i s = Inr (j, t) \<Longrightarrow> proc_step s t"

text \<open>From the table that \<open>kproc_init\<close> makes of zeroed memory.\<close>

inductive proc_reach :: "filesystem \<Rightarrow> bool" where
  init: "length (procs s) = NUM_PROCESSES \<Longrightarrow> current s = 0 \<Longrightarrow> \<forall>p \<in> set (procs s). length (opened_files p) = MAX_OPEN_FILES \<Longrightarrow>
    proc_reach (kproc_init s)"
| step: "proc_reach s \<Longrightarrow> proc_step s t \<Longrightarrow> proc_reach t"

lemma kproc_init_ok:
  assumes "length (procs s) = NUM_PROCESSES" "current s = 0" "\<forall>p \<in> set (procs s). length (opened_files p) = MAX_OPEN_FILES"
  shows "proc_table_ok (kproc_init s)"
  using assms by (simp add: kproc_init_eq proc_table_ok_def slot_ok_def init_proc_def NUM_PROCESSES_def)

lemma proc_step_ok: "proc_step s t \<Longrightarrow> proc_table_ok s \<Longrightarrow> proc_table_ok t"
proof (induction rule: proc_step.induct)
  case fork
  then show ?case using postD[OF pt.keeps_fork] by fastforce
next
  case exec
  then show ?case using postD[OF pt.keeps_exec] by fastforce
next
  case exit
  then show ?case by (rule pt.keeps_free)
next
  case kill
  then show ?case by (rule pt.keeps_kill)
next
  case sleep
  then show ?case by (rule pt.keeps_yield)
next
  case sbrk
  then show ?case using postD[OF pt.keeps_add_page] by fastforce
next
  case file_add
  then show ?case by (simp add: kproc_file_add_def split: option.split)
next
  case file_remove
  then show ?case by (auto simp: kproc_file_remove_def split: if_splits)
next
  case create
  then show ?case using postD[OF pt.keeps_create] by fastforce
next
  case schedule
  then show ?case using postD[OF pt.keeps_scheduler] by fastforce
qed

lemma proc_reach_ok: "proc_reach s \<Longrightarrow> proc_table_ok s"
  by (induction rule: proc_reach.induct) (blast intro: kproc_init_ok proc_step_ok)+

section \<open>Property\<close>



end
