(* ===== verification/Swtch.thy ===== *)
theory Swtch
  imports Riscv Ktrap Kproc_Inv
begin

text \<open>
  The assembly around the C code of the kernel, instruction by instruction: the context switch
  \<^verbatim>\<open>src/kernel/swtch.S\<close>, the trap vector of supervisor mode \<^verbatim>\<open>src/kernel/kernelvec.S\<close>, and the first
  instructions of the kernel, \<^verbatim>\<open>src/kernel/entry.S\<close> with the memory layout of \<^verbatim>\<open>src/kernel/kernel.ld\<close>.
\<close>

section \<open>Context switch\<close>

text \<open>The registers of \<^verbatim>\<open>struct context\<close>, in its order.\<close>

definition context_regs :: "reg list" where
  "context_regs = [R_ra, R_sp, R_s0, R_s1, R_s2, R_s3, R_s4, R_s5, R_s6, R_s7, R_s8, R_s9, R_s10, R_s11]"

definition swtch_code :: "instr list" where
  "swtch_code =
     [Sw R_ra 0 R_a0, Sw R_sp 4 R_a0, Sw R_s0 8 R_a0, Sw R_s1 12 R_a0, Sw R_s2 16 R_a0, Sw R_s3 20 R_a0, Sw R_s4 24 R_a0,
      Sw R_s5 28 R_a0, Sw R_s6 32 R_a0, Sw R_s7 36 R_a0, Sw R_s8 40 R_a0, Sw R_s9 44 R_a0, Sw R_s10 48 R_a0, Sw R_s11 52 R_a0,
      Lw R_ra 0 R_a1, Lw R_sp 4 R_a1, Lw R_s0 8 R_a1, Lw R_s1 12 R_a1, Lw R_s2 16 R_a1, Lw R_s3 20 R_a1, Lw R_s4 24 R_a1,
      Lw R_s5 28 R_a1, Lw R_s6 32 R_a1, Lw R_s7 36 R_a1, Lw R_s8 40 R_a1, Lw R_s9 44 R_a1, Lw R_s10 48 R_a1, Lw R_s11 52 R_a1]"

text \<open>The call ends with \<open>ret\<close>: the first component is where execution goes on.\<close>

definition swtch :: "regs \<times> 'a machine_scheme \<Rightarrow> (addr \<times> regs \<times> 'a machine_scheme) kres" where
  "swtch c = kbind (exec swtch_code c) (\<lambda>(r, s). Inr (r R_ra, r, s))"

abbreviation context_slots :: "(reg \<times> nat) list" where
  "context_slots \<equiv> zip context_regs [0..<14]"

lemma swtch_code_blocks: "swtch_code = saves R_a0 context_slots @ restores R_a1 context_slots"
  by (simp add: swtch_code_def saves_def restores_def context_regs_def upt_rec)

lemma context_slots_mem: "(q, k) \<in> set context_slots \<longleftrightarrow> k < 14 \<and> q = context_regs ! k"
  by (auto simp: in_set_zip context_regs_def)

lemma context_slots_ok:
  "\<forall>(q, k) \<in> set context_slots. k < 14" "distinct (map fst context_slots)" "distinct (map snd context_slots)"
  "fst ` set context_slots = set context_regs" "R_zero \<notin> set context_regs" "R_a0 \<notin> set context_regs" "R_a1 \<notin> set context_regs"
  by (auto simp: context_regs_def upt_rec)

text \<open>Where the contexts are: the old one is written, and storing there moves no page of either.\<close>

definition contexts_at :: "'a machine_scheme \<Rightarrow> addr \<Rightarrow> addr \<Rightarrow> bool" where
  "contexts_at s old new \<longleftrightarrow> window s (words old 14) old old 14 \<and> window s (words old 14) new new 14 \<and>
     words old 14 \<inter> words new 14 = {}"

lemma swtch_runs:
  assumes "contexts_at s (r R_a0) (r R_a1)"
  shows "\<exists>r' m'. swtch (r, s) = Inr (word_at (mem s) (r R_a1) 0, r', s\<lparr>mem := m'\<rparr>) \<and>
    (\<forall>k < 14. r' (context_regs ! k) = word_at (mem s) (r R_a1) k \<and> word_at m' (r R_a0) k = r (context_regs ! k)) \<and>
    (\<forall>q. q \<notin> set context_regs \<longrightarrow> r' q = r q) \<and> (\<forall>a. a \<notin> words (r R_a0) 14 \<longrightarrow> m' a = mem s a)"
proof -
  let ?old = "r R_a0" and ?new = "r R_a1"
  define m where "m = saved_mem r context_slots ?old (mem s)"
  define r' where "r' = restored r context_slots ?new m"
  from assms have w: "window s (words ?old 14) ?old ?old 14" "window s (words ?old 14) ?new ?new 14"
    and dj: "words ?old 14 \<inter> words ?new 14 = {}" by (simp_all add: contexts_at_def)
  have oth: "m a = mem s a" if "a \<notin> words ?old 14" for a
    unfolding m_def by (rule saved_mem_other[OF context_slots_ok(1) that])
  have "window (s\<lparr>mem := m\<rparr>) {} ?new ?new 14" using w(2) oth by (simp add: window_def)
  then have "exec (restores R_a1 context_slots) (r, s\<lparr>mem := m\<rparr>) = Inr (r', s\<lparr>mem := m\<rparr>)"
    using exec_restores[of "s\<lparr>mem := m\<rparr>" "{}" r R_a1 ?new 14 context_slots] context_slots_ok by (simp add: r'_def)
  moreover have "exec (saves R_a0 context_slots) (r, s) = Inr (r, s\<lparr>mem := m\<rparr>)"
    using exec_saves[of s "words ?old 14" r R_a0 ?old 14 context_slots] w(1) context_slots_ok(1) by (simp add: m_def)
  ultimately have run: "swtch (r, s) = Inr (r' R_ra, r', s\<lparr>mem := m\<rparr>)" by (simp add: swtch_def swtch_code_blocks exec_append)
  have new: "word_at m ?new k = word_at (mem s) ?new k" if "k < 14" for k
    using dj by (intro word_at_cong[OF that]) (use oth in blast)
  have in_ctx: "(context_regs ! k, k) \<in> set context_slots" if "k < 14" for k using that by (simp add: context_slots_mem)
  have nz: "context_regs ! k \<noteq> R_zero" if "k < 14" for k
    using that context_slots_ok(5) nth_mem[of k context_regs] by (auto simp: context_regs_def)
  have rest: "r' (context_regs ! k) = word_at (mem s) ?new k" if "k < 14" for k
    using restored_word[OF context_slots_ok(2) in_ctx[OF that] nz[OF that], of r ?new m] new[OF that] by (simp add: r'_def)
  have "word_at m ?old k = r (context_regs ! k)" if "k < 14" for k
    unfolding m_def by (rule saved_mem_word[OF context_slots_ok(1) _ context_slots_ok(3) in_ctx[OF that]]) simp
  moreover have "r' q = r q" if "q \<notin> set context_regs" for q
    using that restored_other[of q context_slots r ?new m] context_slots_ok(4) by (simp add: r'_def)
  moreover have "r' R_ra = word_at (mem s) ?new 0" using rest[of 0] by (simp add: context_regs_def)
  ultimately show ?thesis using run rest oth by auto
qed


section \<open>Interrupts in supervisor mode\<close>

definition kernelvec_enter :: "instr list" where
  "kernelvec_enter =
     [Addi R_sp R_sp (- 4 * 35),
      Sw R_ra (5 * 4) R_sp, Sw R_gp (7 * 4) R_sp, Sw R_t0 (9 * 4) R_sp, Sw R_t1 (10 * 4) R_sp, Sw R_t2 (11 * 4) R_sp,
      Sw R_s0 (12 * 4) R_sp, Sw R_s1 (13 * 4) R_sp, Sw R_a0 (14 * 4) R_sp, Sw R_a1 (15 * 4) R_sp, Sw R_a2 (16 * 4) R_sp,
      Sw R_a3 (17 * 4) R_sp, Sw R_a4 (18 * 4) R_sp, Sw R_a5 (19 * 4) R_sp, Sw R_a6 (20 * 4) R_sp, Sw R_a7 (21 * 4) R_sp,
      Sw R_s2 (22 * 4) R_sp, Sw R_s3 (23 * 4) R_sp, Sw R_s4 (24 * 4) R_sp, Sw R_s5 (25 * 4) R_sp, Sw R_s6 (26 * 4) R_sp,
      Sw R_s7 (27 * 4) R_sp, Sw R_s8 (28 * 4) R_sp, Sw R_s9 (29 * 4) R_sp, Sw R_s10 (30 * 4) R_sp, Sw R_s11 (31 * 4) R_sp,
      Sw R_t3 (32 * 4) R_sp, Sw R_t4 (33 * 4) R_sp, Sw R_t5 (34 * 4) R_sp, Sw R_t6 (35 * 4) R_sp]"

definition kernelvec_leave :: "instr list" where
  "kernelvec_leave =
     [Lw R_ra (5 * 4) R_sp, Lw R_gp (7 * 4) R_sp, Lw R_t0 (9 * 4) R_sp, Lw R_t1 (10 * 4) R_sp, Lw R_t2 (11 * 4) R_sp,
      Lw R_s0 (12 * 4) R_sp, Lw R_s1 (13 * 4) R_sp, Lw R_a0 (14 * 4) R_sp, Lw R_a1 (15 * 4) R_sp, Lw R_a2 (16 * 4) R_sp,
      Lw R_a3 (17 * 4) R_sp, Lw R_a4 (18 * 4) R_sp, Lw R_a5 (19 * 4) R_sp, Lw R_a6 (20 * 4) R_sp, Lw R_a7 (21 * 4) R_sp,
      Lw R_s2 (22 * 4) R_sp, Lw R_s3 (23 * 4) R_sp, Lw R_s4 (24 * 4) R_sp, Lw R_s5 (25 * 4) R_sp, Lw R_s6 (26 * 4) R_sp,
      Lw R_s7 (27 * 4) R_sp, Lw R_s8 (28 * 4) R_sp, Lw R_s9 (29 * 4) R_sp, Lw R_s10 (30 * 4) R_sp, Lw R_s11 (31 * 4) R_sp,
      Lw R_t3 (32 * 4) R_sp, Lw R_t4 (33 * 4) R_sp, Lw R_t5 (34 * 4) R_sp, Lw R_t6 (35 * 4) R_sp,
      Addi R_sp R_sp (4 * 35)]"

text \<open>
  The call of the handler in between is a parameter of the vector; a C function runs on the machine state and
  may change the registers as \<open>clobber\<close> says, which depends on the compiler.
\<close>

definition c_call :: "(regs \<Rightarrow> regs) \<Rightarrow> ('a machine_scheme \<Rightarrow> 'a machine_scheme kres) \<Rightarrow>
    regs \<times> 'a machine_scheme \<Rightarrow> (regs \<times> 'a machine_scheme) kres" where
  "c_call clobber f = (\<lambda>(r, s). kbind (f s) (\<lambda>t. Inr (clobber r, t)))"

definition kernelvec :: "(regs \<times> 'a machine_scheme \<Rightarrow> (regs \<times> 'a machine_scheme) kres) \<Rightarrow>
    regs \<times> 'a machine_scheme \<Rightarrow> (regs \<times> 'a machine_scheme) kres" where
  "kernelvec handler c = kbind (exec kernelvec_enter c) (\<lambda>c. kbind (handler c) (exec kernelvec_leave))"

text \<open>The calling convention for the registers that the vector itself does not save.\<close>

definition keeps_stack :: "(regs \<Rightarrow> regs) \<Rightarrow> bool" where
  "keeps_stack clobber \<longleftrightarrow> (\<forall>r. \<forall>q \<in> {R_zero, R_sp, R_tp}. clobber r q = r q)"

definition kernelvec_slots :: "(reg \<times> nat) list" where
  "kernelvec_slots = [(R_ra, 5), (R_gp, 7), (R_t0, 9), (R_t1, 10), (R_t2, 11), (R_s0, 12), (R_s1, 13), (R_a0, 14), (R_a1, 15),
     (R_a2, 16), (R_a3, 17), (R_a4, 18), (R_a5, 19), (R_a6, 20), (R_a7, 21), (R_s2, 22), (R_s3, 23), (R_s4, 24), (R_s5, 25),
     (R_s6, 26), (R_s7, 27), (R_s8, 28), (R_s9, 29), (R_s10, 30), (R_s11, 31), (R_t3, 32), (R_t4, 33), (R_t5, 34), (R_t6, 35)]"

lemma kernelvec_blocks:
  "kernelvec_enter = Addi R_sp R_sp (- 140) # saves R_sp kernelvec_slots"
  "kernelvec_leave = restores R_sp kernelvec_slots @ [Addi R_sp R_sp 140]"
  by (simp_all add: kernelvec_enter_def kernelvec_leave_def saves_def restores_def kernelvec_slots_def)

lemma kernelvec_slots_ok:
  "\<forall>(q, k) \<in> set kernelvec_slots. k < 36" "distinct (map fst kernelvec_slots)" "distinct (map snd kernelvec_slots)"
  "(R_t6, 35) \<in> set kernelvec_slots" "q \<in> fst ` set kernelvec_slots \<longleftrightarrow> q \<notin> {R_zero, R_sp, R_tp}"
  by (simp_all add: kernelvec_slots_def) (cases q; simp)

text \<open>The handler touches neither memory nor control registers.\<close>

definition same_mem :: "'a machine_scheme \<Rightarrow> 'a machine_scheme \<Rightarrow> bool" where
  "same_mem s t \<longleftrightarrow> mem t = mem s \<and> csr t = csr s"

lemma same_mem_uart: "uart_dev.more s = uart_dev.more t \<Longrightarrow> same_mem s (t :: 'a machine_scheme)"
  by (cases s, cases t) (simp add: same_mem_def)

lemma same_mem_send: "same_mem s t \<Longrightarrow> post (UartSendBlocking c t) (same_mem (s :: 'a machine_scheme))"
proof (rule post_mono[OF post_uart_send])
  fix u :: "'a machine_scheme"
  assume "same_mem s t" "uart_dev.more u = uart_dev.more t"
  then show "same_mem s u" using same_mem_uart[of t u] by (simp add: same_mem_def)
qed

lemma same_mem_insert: "post (TtyBufferInsert c s) (\<lambda>r. same_mem s (snd r))"
proof -
  have u: "same_mem s (s\<lparr>tty_insert := x\<rparr>)" "same_mem s (tty_store c s)" "same_mem s s" for c x
    by (simp_all add: same_mem_def tty_store_def Let_def)
  have e: "same_mem s t \<Longrightarrow> same_mem s (t\<lparr>isEmpty := b\<rparr>)" for t b by (simp add: same_mem_def)
  show ?thesis unfolding TtyBufferInsert_def Let_def
    by (auto intro!: post_bind[OF same_mem_send] u e)
qed

lemma same_mem_uart_handle: "post (UartInterruptHandle s) (same_mem s)"
proof -
  have r: "same_mem s t \<Longrightarrow> same_mem s (lsr_read t)" "same_mem s t \<Longrightarrow> same_mem s (snd (rhr_read t))" for t
    by (simp_all add: same_mem_def lsr_read_def rhr_read_def)
  have i: "same_mem s t \<Longrightarrow> post (TtyBufferInsert c t) (\<lambda>x. same_mem s (snd x))" for c t
    by (rule post_mono[OF same_mem_insert]) (simp add: same_mem_def)
  show ?thesis unfolding UartInterruptHandle_def split_beta
    by (rule post_bind[where Q = "same_mem s"], rule post_kwhile) (auto intro!: r post_bind[OF i] simp: same_mem_def[of s s])
qed

lemma same_mem_handler: "post (ktrap_from_supervisor_handler s) (same_mem s)"
proof -
  have c: "same_mem s (snd (PlicClaim s))" "same_mem s t \<Longrightarrow> same_mem s (PlicComplete irq t)" for t irq
    by (simp_all add: same_mem_def PlicClaim_def PlicComplete_def plic_write_def)
  have u: "same_mem s t \<Longrightarrow> post (UartInterruptHandle t) (same_mem s)" for t
    by (rule post_mono[OF same_mem_uart_handle]) (simp add: same_mem_def)
  have h: "post (KtrapInterruptHandle ty um s) (\<lambda>r. same_mem s (snd r))" for ty um
    unfolding KtrapInterruptHandle_def split_beta by (auto intro!: post_bind[OF u] c)
  show ?thesis unfolding ktrap_from_supervisor_handler_def Let_def split_beta
    by (auto intro!: post_bind[OF h] post_bind[OF post_kprintf] c simp del: kprintf.simps append.simps)
qed

lemma same_mem_window:
  assumes "same_mem s t" "window s W va pa n"
  shows "window t W va pa n"
proof -
  have "mmu_translate (t\<lparr>mem := m\<rparr>) acc a = mmu_translate (s\<lparr>mem := m\<rparr>) acc a" for m acc a
    using assms(1) by (simp add: mmu_translate_def same_mem_def Let_def)
  then show ?thesis using assms by (simp add: window_def same_mem_def)
qed

lemma kernelvec_runs:
  assumes w: "window s (words (r R_sp - 140) 36) (r R_sp - 140) (r R_sp - 140) 36" and k: "keeps_stack clobber"
  shows "\<exists>m. kernelvec (c_call clobber ktrap_from_supervisor_handler) (r, s) =
      kbind (ktrap_from_supervisor_handler (s\<lparr>mem := m\<rparr>)) (\<lambda>t. Inr (r, t)) \<and>
    load32 m (r R_sp) = r R_t6 \<and> (\<forall>a. a \<notin> words (r R_sp - 140) 36 \<longrightarrow> m a = mem s a)"
proof -
  let ?b = "r R_sp - 140" let ?r = "r(R_sp := ?b)"
  define m where "m = saved_mem ?r kernelvec_slots ?b (mem s)"
  note ok = kernelvec_slots_ok
  have oth: "m a = mem s a" if "a \<notin> words ?b 36" for a
    unfolding m_def by (rule saved_mem_other[OF ok(1) that])
  have val: "word_at m ?b j = r q" if "(q, j) \<in> set kernelvec_slots" for q j
  proof -
    have "q \<noteq> R_sp" using that by (auto simp: kernelvec_slots_def)
    then show ?thesis using saved_mem_word[OF ok(1) _ ok(3) that, of ?r ?b "mem s"] by (simp add: m_def)
  qed
  have "exec (saves R_sp kernelvec_slots) (?r, s) = Inr (?r, s\<lparr>mem := m\<rparr>)"
    using exec_saves[of s "words ?b 36" ?r R_sp ?b 36 kernelvec_slots] w ok(1) by (simp add: m_def)
  then have enter: "exec kernelvec_enter (r, s) = Inr (?r, s\<lparr>mem := m\<rparr>)"
    by (simp add: kernelvec_blocks(1) set_reg_def)
  have leave: "exec kernelvec_leave (clobber ?r, t) = Inr (r, t)" if "ktrap_from_supervisor_handler (s\<lparr>mem := m\<rparr>) = Inr t" for t
  proof -
    have sm: "same_mem (s\<lparr>mem := m\<rparr>) t" using postD[OF same_mem_handler that] .
    have cl: "clobber ?r q = ?r q" if "q \<in> {R_zero, R_sp, R_tp}" for q using k that by (auto simp: keeps_stack_def)
    have "window (s\<lparr>mem := m\<rparr>) {} ?b ?b 36" using w oth by (simp add: window_def)
    from same_mem_window[OF sm this] have "exec (restores R_sp kernelvec_slots) (clobber ?r, t) =
        Inr (restored (clobber ?r) kernelvec_slots ?b (mem t), t)"
      using exec_restores[of t "{}" "clobber ?r" R_sp ?b 36 kernelvec_slots] ok(1) ok(5)[of R_sp] cl[of R_sp] by simp
    moreover have "set_reg R_sp (restored (clobber ?r) kernelvec_slots ?b (mem t) R_sp + 140)
        (restored (clobber ?r) kernelvec_slots ?b (mem t)) = r"
    proof
      fix q
      show "set_reg R_sp (restored (clobber ?r) kernelvec_slots ?b (mem t) R_sp + 140)
        (restored (clobber ?r) kernelvec_slots ?b (mem t)) q = r q"
      proof (cases "q \<in> fst ` set kernelvec_slots")
        case True
        then obtain j where j: "(q, j) \<in> set kernelvec_slots" by auto
        have "q \<noteq> R_zero" "q \<noteq> R_sp" using ok(5)[of q] True by auto
        then show ?thesis using restored_word[OF ok(2) j] val[OF j] sm by (simp add: set_reg_def same_mem_def)
      next
        case False
        then show ?thesis
          using restored_other[OF False] restored_other[of R_sp kernelvec_slots] cl[of q] cl[of R_sp] ok(5)[of q] ok(5)[of R_sp]
          by (simp add: set_reg_def)
      qed
    qed
    ultimately show ?thesis by (simp add: kernelvec_blocks(2) exec_append)
  qed
  have "kernelvec (c_call clobber ktrap_from_supervisor_handler) (r, s) =
      kbind (ktrap_from_supervisor_handler (s\<lparr>mem := m\<rparr>)) (\<lambda>t. exec kernelvec_leave (clobber ?r, t))"
    by (simp add: kernelvec_def enter c_call_def kbind_assoc)
  also have "\<dots> = kbind (ktrap_from_supervisor_handler (s\<lparr>mem := m\<rparr>)) (\<lambda>t. Inr (r, t))"
    by (rule kbind_cong) (simp_all add: leave)
  finally show ?thesis using val[OF ok(4)] oth by (auto simp: slot_def)
qed


section \<open>The first stack\<close>

definition entry_code :: "addr \<Rightarrow> instr list" where
  "entry_code kernel_stack = [Li R_sp kernel_stack, Li R_t0 4096, Add R_sp R_sp R_t0]"

text \<open>
  The symbols of the linker script for an image whose sections end at \<open>dot\<close>: \<^verbatim>\<open>__kernel_stack\<close>,
  \<^verbatim>\<open>__free_ram_begin\<close> and \<^verbatim>\<open>__free_ram_end\<close>.
\<close>

definition ld_align :: "addr \<Rightarrow> addr" where
  "ld_align dot = (dot + 4095) AND 0xFFFFF000"

definition kernel_ld :: "addr \<Rightarrow> addr \<times> addr \<times> addr" where
  "kernel_ld dot =
     (let dot = ld_align dot; dot = dot + 4 * 1024; kernel_stack = dot;
          dot = ld_align dot; free_ram_begin = dot;
          dot = dot + 64 * 1024 * 1024
      in (kernel_stack, free_ram_begin, dot))"

lemma ld_align_aligned: "page_aligned p \<Longrightarrow> ld_align p = p"
  using page_base_add[of p 4095] by (simp add: ld_align_def page_base_def)

lemma kernel_ld_symbols:
  assumes "kernel_ld dot = (stack, lo, hi)"
  shows "stack = lo" "hi = lo + 0x4000000" "page_aligned lo"
proof -
  have "page_aligned (ld_align dot + 4096)"
  proof -
    have "page_aligned (ld_align dot)" unfolding ld_align_def page_base_def[symmetric] by simp
    then show ?thesis by (simp add: page_aligned_def unat_word_ariths mod_mod_cancel)
  qed
  with ld_align_aligned[OF this] assms show "stack = lo" "hi = lo + 0x4000000" "page_aligned lo"
    by (auto simp: kernel_ld_def Let_def)
qed

section \<open>Properties\<close>

text \<open>
  C14: a context switch and back. A call of \<open>swtch\<close> saves the return address, the stack pointer and the callee-saved
  registers in the old context, touches no other memory, and goes on in the new context with the registers saved there.
  When, after anything that leaves the saved words alone, some later \<open>swtch\<close> is given the first context as its new one,
  execution goes on after the first call with all fourteen registers as they were.
\<close>

theorem swtch_roundtrip:
  fixes s :: "'a machine_scheme"
  assumes "contexts_at s (r R_a0) (r R_a1)"
  shows "\<exists>r1 s1. swtch (r, s) = Inr (word_at (mem s) (r R_a1) 0, r1, s1) \<and>
    (\<forall>k < 14. r1 (context_regs ! k) = word_at (mem s) (r R_a1) k) \<and> (\<forall>q. q \<notin> set context_regs \<longrightarrow> r1 q = r q) \<and>
    (\<forall>a. a \<notin> words (r R_a0) 14 \<longrightarrow> mem s1 a = mem s a) \<and> csr s1 = csr s \<and>
    (\<forall>r2 (s2 :: 'a machine_scheme). contexts_at s2 (r2 R_a0) (r2 R_a1) \<and> r2 R_a1 = r R_a0 \<and>
       (\<forall>a \<in> words (r R_a0) 14. mem s2 a = mem s1 a) \<longrightarrow>
       (\<exists>r3 s3. swtch (r2, s2) = Inr (r R_ra, r3, s3) \<and> (\<forall>q \<in> set context_regs. r3 q = r q)))"
proof -
  let ?old = "r R_a0"
  from swtch_runs[of s r, OF assms] obtain r1 m1 where one: "swtch (r, s) = Inr (word_at (mem s) (r R_a1) 0, r1, s\<lparr>mem := m1\<rparr>)"
    "\<forall>k < 14. r1 (context_regs ! k) = word_at (mem s) (r R_a1) k \<and> word_at m1 ?old k = r (context_regs ! k)"
    "\<forall>q. q \<notin> set context_regs \<longrightarrow> r1 q = r q" "\<forall>a. a \<notin> words ?old 14 \<longrightarrow> m1 a = mem s a" by blast
  have again: "\<exists>r3 s3. swtch (r2, s2) = Inr (r R_ra, r3, s3) \<and> (\<forall>q \<in> set context_regs. r3 q = r q)"
    if c: "contexts_at s2 (r2 R_a0) (r2 R_a1)" and a1: "r2 R_a1 = ?old" and keep: "\<forall>a \<in> words ?old 14. mem s2 a = m1 a"
    for r2 and s2 :: "'a machine_scheme"
  proof -
    from swtch_runs[of s2 r2, OF c] a1 obtain r3 m3 where two: "swtch (r2, s2) = Inr (word_at (mem s2) ?old 0, r3, s2\<lparr>mem := m3\<rparr>)"
      "\<forall>k < 14. r3 (context_regs ! k) = word_at (mem s2) ?old k \<and> word_at m3 (r2 R_a0) k = r2 (context_regs ! k)" by auto
    have w: "word_at (mem s2) ?old k = r (context_regs ! k)" if "k < 14" for k
      using word_at_cong[OF that, of ?old "mem s2" m1] keep one(2) that by simp
    have "length context_regs = 14" by (simp add: context_regs_def)
    then have "\<forall>q \<in> set context_regs. r3 q = r q" using two(2) w by (metis in_set_conv_nth)
    moreover have "context_regs ! 0 = R_ra" by (simp add: context_regs_def)
    ultimately show ?thesis using two(1) w[of 0] by simp
  qed
  show ?thesis using one again by (intro exI[of _ r1] exI[of _ "s\<lparr>mem := m1\<rparr>"]) auto
qed

lemma words_apart:
  assumes "unat q = unat p + d" "d + 4 * n \<le> 4294967296" "4 * k \<le> d"
  shows "words p k \<inter> words q n = {}"
proof -
  have q: "q = p + of_nat d" using assms(1) unat32_bound[of q] by (simp add: word_unat_eq_iff unat_word_ariths)
  have "slot p i + of_nat x \<noteq> slot q j + of_nat y" if "i < k" "x < 4" "j < n" "y < 4" for i x j y
  proof
    assume "slot p i + of_nat x = slot q j + of_nat y"
    then have "(of_nat (4 * i + x) :: u32) = of_nat (d + 4 * j + y)" by (simp add: slot_def q algebra_simps)
    then have "4 * i + x = d + 4 * j + y" using that assms(2,3) of_nat32_inj[of "4 * i + x" "d + 4 * j + y"] by simp
    then show False using that assms(3) by simp
  qed
  then show ?thesis by (auto simp: words_def)
qed

theorem swtch_roundtrip_witness:
  "\<exists>r1 s1 r3 s3. swtch ((\<lambda>_. 7)(R_a0 := 0x1000, R_a1 := 0x2000, R_ra := 0x80000004), tty_static) = Inr (0, r1, s1) \<and> r1 R_s0 = 0 \<and>
     swtch ((\<lambda>_. 9)(R_a0 := 0x2000, R_a1 := 0x1000), s1) = Inr (0x80000004, r3, s3) \<and> r3 R_sp = 7 \<and> r3 R_s11 = 7"
proof -
  define r :: regs where "r = (\<lambda>_. 7)(R_a0 := 0x1000, R_a1 := 0x2000, R_ra := 0x80000004)"
  define r2 :: regs where "r2 = (\<lambda>_. 9)(R_a0 := 0x2000, R_a1 := 0x1000)"
  have dj: "words 0x1000 14 \<inter> words 0x2000 14 = {}"
    using words_apart[of "0x2000" "0x1000" "0x1000" 14 14] by simp
  then have c: "contexts_at tty_static (r R_a0) (r R_a1)"
    by (simp add: contexts_at_def r_def window_bare tty_static_def)
  from swtch_roundtrip[of tty_static r, OF c] obtain r1 s1 where one: "swtch (r, tty_static) = Inr (word_at (mem tty_static) (r R_a1) 0, r1, s1)"
    "\<forall>k < 14. r1 (context_regs ! k) = word_at (mem tty_static) (r R_a1) k" "csr s1 = csr tty_static"
    and again: "\<forall>r2 (s2 :: tty). contexts_at s2 (r2 R_a0) (r2 R_a1) \<and> r2 R_a1 = r R_a0 \<and>
       (\<forall>a \<in> words (r R_a0) 14. mem s2 a = mem s1 a) \<longrightarrow>
       (\<exists>r3 s3. swtch (r2, s2) = Inr (r R_ra, r3, s3) \<and> (\<forall>q \<in> set context_regs. r3 q = r q))" by blast
  have "contexts_at s1 (r2 R_a0) (r2 R_a1)" using dj one(3) by (auto simp: contexts_at_def r2_def window_bare tty_static_def)
  moreover have "r2 R_a1 = r R_a0" by (simp add: r_def r2_def)
  ultimately obtain r3 s3 where two: "swtch (r2, s1) = Inr (r R_ra, r3, s3)" "\<forall>q \<in> set context_regs. r3 q = r q" using again by blast
  have z: "word_at (mem tty_static) p k = 0" for p k by (simp add: tty_static_def load32_def)
  have "r1 R_s0 = 0" using one(2)[rule_format, of 2] z by (simp add: context_regs_def)
  moreover have "r3 R_sp = 7" "r3 R_s11 = 7" using two(2) by (auto simp: context_regs_def r_def)
  ultimately show ?thesis using one(1) two(1) z unfolding r_def[symmetric] r2_def[symmetric] by (auto simp: r_def)
qed

text \<open>
  C39: an interrupt of kernel code. The vector runs the handler and gives every register its value back, whatever the
  compiled handler did to them, and writes nothing outside its frame; but the frame is one word too small: the
  word at the stack pointer of the interrupted function, which belongs to that function, is overwritten with \<open>t6\<close>.
\<close>

theorem kernelvec_overwrites_stack:
  assumes "window s (words (r R_sp - 140) 36) (r R_sp - 140) (r R_sp - 140) 36" "keeps_stack clobber"
  shows "\<exists>m. kernelvec (c_call clobber ktrap_from_supervisor_handler) (r, s) =
      kbind (ktrap_from_supervisor_handler (s\<lparr>mem := m\<rparr>)) (\<lambda>t. Inr (r, t)) \<and>
    load32 m (r R_sp) = r R_t6 \<and> (\<forall>a. a \<notin> words (r R_sp - 140) 36 \<longrightarrow> m a = mem s a)"
  using kernelvec_runs[of s r clobber] assms by blast

text \<open>A character interrupt while the kernel waits, with no character left in the receiver.\<close>

definition kernelvec_static :: plic where
  "kernelvec_static = trap_static\<lparr>csr := (\<lambda>_. 0)(Scause := 0x80000009, Sstatus := SSTATUS_SPP_S)\<rparr>"

lemma kernelvec_static_handled:
  "\<exists>t. ktrap_from_supervisor_handler (kernelvec_static\<lparr>mem := m\<rparr>) = Inr t \<and> mem t = m"
proof -
  let ?s = "kernelvec_static\<lparr>mem := m\<rparr>"
  have c: "csr ?s Scause = 0x80000009" "csr ?s Sstatus = SSTATUS_SPP_S" "mem ?s = m" by (simp_all add: kernelvec_static_def)
  have "plic_claim_at ?s (plic_pos ?s) = UART0_IRQ"
    by (simp add: kernelvec_static_def trap_static_def filesystem.defs plic.defs UART0_IRQ_def)
  moreover have "next_lsr (s\<lparr>plic_pos := n\<rparr>) = next_lsr s" for n and s :: plic by (simp add: next_lsr_def)
  moreover have "next_lsr ?s AND UART_LSR_RX_READY = 0"
    by (simp add: next_lsr_def kernelvec_static_def kmem_static_def tty.defs kmem.defs tty_static_def UART_LSR_RX_READY_def)
  ultimately have "UartInterruptHandle (snd (PlicClaim ?s)) = Inr (lsr_read (snd (PlicClaim ?s)))" "fst (PlicClaim ?s) = UART0_IRQ"
    unfolding UartInterruptHandle_def by (simp_all add: PlicClaim_def)
  then have "KtrapInterruptHandle SCAUSE_SMODE_EXTERNAL_INTR False ?s =
      Inr (UART0_IRQ, PlicComplete UART0_IRQ (lsr_read (snd (PlicClaim ?s))))"
    by (simp add: KtrapInterruptHandle_def split_beta)
  then have "ktrap_from_supervisor_handler ?s = Inr (PlicComplete UART0_IRQ (PlicComplete UART0_IRQ (lsr_read (snd (PlicClaim ?s)))))"
    using c by (simp add: ktrap_from_supervisor_handler_def SSTATUS_SPP_S_def SSTATUS_SPP_MASK_def SCAUSE_INTR_BIT_def
        SCAUSE_SMODE_EXTERNAL_INTR_def del: kprintf.simps append.simps)
  then show ?thesis using c(3) by (simp add: PlicComplete_def plic_write_def PlicClaim_def lsr_read_def)
qed

theorem kernelvec_overwrites_stack_witness:
  "\<exists>t. kernelvec (c_call (\<lambda>r. (\<lambda>_. 0)(R_zero := r R_zero, R_sp := r R_sp, R_tp := r R_tp)) ktrap_from_supervisor_handler)
     ((\<lambda>_. 42)(R_sp := 0x80000F00), kernelvec_static) = Inr ((\<lambda>_. 42)(R_sp := 0x80000F00), t) \<and>
   load32 (mem kernelvec_static) 0x80000F00 = 0 \<and> load32 (mem t) 0x80000F00 = 42"
proof -
  define r :: regs where "r = (\<lambda>_. 42)(R_sp := 0x80000F00)"
  define cl :: "regs \<Rightarrow> regs" where "cl r = (\<lambda>_. 0)(R_zero := r R_zero, R_sp := r R_sp, R_tp := r R_tp)" for r
  have w: "window kernelvec_static (words (r R_sp - 140) 36) (r R_sp - 140) (r R_sp - 140) 36"
    by (rule window_bare) (simp_all add: kernelvec_static_def r_def)
  have "keeps_stack cl" by (simp add: keeps_stack_def cl_def)
  from kernelvec_overwrites_stack[of kernelvec_static r cl, OF w this] obtain m where m:
    "kernelvec (c_call cl ktrap_from_supervisor_handler) (r, kernelvec_static) =
      kbind (ktrap_from_supervisor_handler (kernelvec_static\<lparr>mem := m\<rparr>)) (\<lambda>t. Inr (r, t))"
    "load32 m (r R_sp) = r R_t6" by blast
  from kernelvec_static_handled[of m] obtain t where "ktrap_from_supervisor_handler (kernelvec_static\<lparr>mem := m\<rparr>) = Inr t" "mem t = m"
    by blast
  moreover have "load32 (mem kernelvec_static) 0x80000F00 = 0"
    using trap_mem_words
    by (simp add: kernelvec_static_def trap_mem_def load32_def store32_def slot_def)
  ultimately show ?thesis using m unfolding r_def[symmetric] cl_def[abs_def, symmetric] by (simp add: r_def)
qed

text \<open>
  C40: the boot hart starts on a stack that it does not own. The symbol \<^verbatim>\<open>__kernel_stack\<close> is the end of the page that the
  linker script reserves, and \<^verbatim>\<open>entry.S\<close> adds another 4096 to it: the stack grows down into the first page of the memory
  that \<open>kmem_init\<close> puts into the free list.
\<close>

theorem boot_stack_is_free_memory:
  fixes s :: "'a kmem_scheme"
  assumes "kernel_ld dot = (stack, free_ram_begin s, free_ram_end s)" "kmem_head s = 0" "unat (free_ram_begin s) + 0x4000000 < 2 ^ 32"
    "free_ram_begin s \<noteq> 0"
  shows "\<exists>r t ps. exec (entry_code stack) (r0, s) = Inr (r, s) \<and> kmem_init s = Inr t \<and> kmem_pages t ps \<and> length ps = 16384 \<and>
    (\<forall>i < 4096. page_base (r R_sp - 1 - of_nat i) = last ps)"
proof -
  let ?b = "free_ram_begin s"
  note k = kernel_ld_symbols[OF assms(1)]
  have hi: "unat (free_ram_end s) = unat ?b + 0x4000000" using assms(3) by (simp add: k(2) unat_word_ariths)
  then have "page_aligned (free_ram_end s)" using k(3) mod_add_self2[of "unat ?b" 4096] mod_mult_self2[of "unat ?b" 4096 16384] by (simp add: page_aligned_def)
  then have ok: "free_ram_ok s" using k(3) assms(4) hi by (auto simp: free_ram_ok_def word_gt_0 word_le_nat_alt)
  from kmem_init_pages[OF ok assms(2)] obtain t where t: "kmem_init s = Inr t"
    "kmem_pages t (rev (ram_pages ?b (free_ram_count s)))" by blast
  have n: "free_ram_count s = 16384" using hi by (simp add: free_ram_count_def)
  have l: "last (rev (ram_pages ?b 16384)) = ?b" "length (rev (ram_pages ?b 16384)) = 16384"
    by (simp_all add: ram_pages_def last_rev hd_map)
  define r where "r = r0(R_sp := stack + 4096, R_t0 := 4096)"
  have run: "exec (entry_code stack) (r0, s) = Inr (r, s)" by (simp add: entry_code_def set_reg_def r_def fun_upd_twist)
  have "page_base (r R_sp - 1 - of_nat i) = ?b" if "i < 4096" for i
  proof -
    have "r R_sp - 1 - of_nat i = ?b + of_nat (4095 - i)" using that k(1) by (simp add: r_def of_nat_diff)
    then show ?thesis using page_base_add[OF k(3), of "4095 - i"] by simp
  qed
  then show ?thesis using run t l n by (metis (no_types, lifting))
qed

theorem boot_stack_is_free_memory_witness:
  "\<exists>r t ps. kernel_ld 0x80020345 = (0x80022000, 0x80022000, 0x84022000) \<and>
     exec (entry_code 0x80022000) (\<lambda>_. 0, kmem_static\<lparr>free_ram_begin := 0x80022000, free_ram_end := 0x84022000\<rparr>) =
       Inr (r, kmem_static\<lparr>free_ram_begin := 0x80022000, free_ram_end := 0x84022000\<rparr>) \<and>
     kmem_init (kmem_static\<lparr>free_ram_begin := 0x80022000, free_ram_end := 0x84022000\<rparr>) = Inr t \<and> kmem_pages t ps \<and>
     page_base (r R_sp - 1) \<in> set ps"
proof -
  let ?s = "kmem_static\<lparr>free_ram_begin := 0x80022000, free_ram_end := 0x84022000\<rparr>"
  have k: "kernel_ld 0x80020345 = (0x80022000, 0x80022000, 0x84022000)" by (simp add: kernel_ld_def ld_align_def)
  from boot_stack_is_free_memory[of "0x80020345" "0x80022000" ?s "\<lambda>_. 0"] k obtain r t ps where
    p: "exec (entry_code 0x80022000) (\<lambda>_. 0, ?s) = Inr (r, ?s)" "kmem_init ?s = Inr t" "kmem_pages t ps" "length ps = 16384"
    "\<forall>i < 4096. page_base (r R_sp - 1 - of_nat i) = last ps" by auto
  have "ps \<noteq> []" using p(4) by auto
  then have "page_base (r R_sp - 1) \<in> set ps" using p(5)[rule_format, of 0] by simp
  with k p(1-3) show ?thesis by blast
qed

end
