(* ===== verification/Boot_Run.thy ===== *)
theory Boot_Run
  imports Boot Kexec_Image Swtch
begin

text \<open>
  The whole bring-up, from a machine in which nothing but the memory image and the devices are given, to
  the first process: \<^verbatim>\<open>entry.S\<close>, \<open>start_setup\<close> of \<^verbatim>\<open>src/kernel/start.c\<close> and \<open>kernel_main\<close> of \<^verbatim>\<open>src/kernel/kernel.c\<close>.
  The stages are the calls of \<open>kernel_main\<close> in their order, and each hands the next one what it relies on.
\<close>

section \<open>Power-on\<close>

text \<open>The instructions of \<^verbatim>\<open>entry.S\<close> up to the call of \<open>start_setup\<close>, and \<open>kernel_main\<close> when its \<open>mret\<close> leads there in supervisor mode.\<close>

definition power_on :: "addr \<Rightarrow> regs \<Rightarrow> 'a fsboot_scheme \<Rightarrow> (nat \<times> 'a fsboot_scheme) kres" where
  "power_on kernel_stack r s =
     kbind (exec (entry_code kernel_stack) (r, s)) (\<lambda>(r, s).
     case start_setup s of (target, s) \<Rightarrow>
       if target = (Supervisor_mode, sym_addr s Sym_kernel_main) then kernel_main s else Inl (Undefined ''mret target''))"

section \<open>The free pages\<close>

text \<open>The free list as \<open>kmem_init\<close> leaves it, and the number of second-level tables of an address space.\<close>

definition boot_pages :: "'a machine_scheme \<Rightarrow> addr list" where
  "boot_pages s = rev (ram_pages (free_ram_begin s) (free_ram_count s))"

definition boot_tables :: "'a machine_scheme \<Rightarrow> nat" where
  "boot_tables s = tables_for (unat (free_ram_end s) div 4096)"

lemma boot_pages_length [simp]: "length (boot_pages s) = free_ram_count s"
  by (simp add: boot_pages_def ram_pages_def)

lemma boot_pages_byte: "free_ram_ok s \<Longrightarrow> in_pages a (boot_pages s) \<longleftrightarrow> free_ram_begin s \<le> a \<and> a < free_ram_end s"
  using free_ram_byte[of s a] by (simp add: boot_pages_def)

lemma boot_pages_nth:
  assumes "free_ram_ok s" "k < free_ram_count s"
  shows "boot_pages s ! k = free_ram_end s - 4096 * of_nat (Suc k)"
proof -
  let ?c = "free_ram_count s"
  have e: "free_ram_end s = free_ram_begin s + 4096 * of_nat ?c"
    using unat_ram_page(1,3)[OF assms(1), of ?c] by (simp add: word_unat_eq_iff)
  have "(of_nat ?c :: u32) = of_nat (?c - Suc k + Suc k)" using assms(2) by simp
  then have c: "(of_nat ?c :: u32) = of_nat (?c - Suc k) + of_nat (Suc k)" by (simp only: of_nat_add)
  have "boot_pages s ! k = free_ram_begin s + 4096 * of_nat (?c - Suc k)"
    using assms(2) by (simp add: boot_pages_def ram_pages_def rev_nth)
  then show ?thesis unfolding e c by (simp only: distrib_left add.assoc[symmetric] add_diff_cancel_right')
qed

lemma boot_pages_last:
  assumes "free_ram_ok s" "0 < free_ram_count s"
  shows "last (boot_pages s) = free_ram_begin s"
  using assms(2) by (simp add: boot_pages_def ram_pages_def last_rev hd_map)

lemma boot_pages_drop:
  assumes "free_ram_ok s" "k + 3 \<le> free_ram_count s"
  defines "p \<equiv> free_ram_end s - 4096 * of_nat (k + 2)"
  shows "drop k (boot_pages s) = (p + 4096) # p # (p - 4096) # drop (k + 3) (boot_pages s)"
proof -
  have d: "drop j (boot_pages s) = (free_ram_end s - 4096 * of_nat (Suc j)) # drop (Suc j) (boot_pages s)" if "j < free_ram_count s" for j
    using Cons_nth_drop_Suc[of j "boot_pages s"] boot_pages_nth[OF assms(1) that] that by simp
  have "p + 4096 = free_ram_end s - 4096 * of_nat (Suc k)" "p - 4096 = free_ram_end s - 4096 * of_nat (Suc (Suc (Suc k)))"
    by (simp_all add: p_def algebra_simps)
  then show ?thesis
    using d[of k] d[of "Suc k"] d[of "Suc (Suc k)"] assms(2) by (simp add: p_def eval_nat_numeral)
qed

section \<open>Memory\<close>

lemma boot_memory:
  fixes s :: "'a kvmem_scheme"
  assumes "free_ram_ok s" "kmem_head s = 0" "boot_tables s < free_ram_count s"
  defines "root \<equiv> hd (boot_pages s)" and "T \<equiv> Suc (boot_tables s)" and "N \<equiv> unat (free_ram_end s) div 4096"
  shows "\<exists>t. kbind (kmem_init s) kvmem_init_kernel = Inr t \<and> kmem_frame (s\<lparr>kernel_pagetable := root\<rparr>) t \<and> ident_upto (mem t) root N \<and>
    pt_ok t root (drop T (boot_pages s)) \<and> pt_pages (mem t) root = set (take T (boot_pages s)) \<and>
    (\<forall>a. \<not> in_pages a (boot_pages s) \<longrightarrow> mem t a = mem s a)"
proof -
  from kmem_init_pages[OF assms(1,2)] obtain s1 where s1: "kmem_init s = Inr s1" "kmem_frame s s1" "kmem_pages s1 (boot_pages s)"
    "\<forall>a. \<not> in_pages a (boot_pages s) \<longrightarrow> mem s1 a = mem s a" by (auto simp: boot_pages_def)
  obtain qs where qs: "boot_pages s = root # qs" using assms(3) by (cases "boot_pages s") (auto simp: root_def simp flip: boot_pages_length)
  have al: "page_aligned (free_ram_end s1)" "unat (free_ram_end s1) = 4096 * N" "tables_for N \<le> length qs"
    using assms(1,3) kmem_frame_simps(3)[OF s1(2)] arg_cong[OF qs, of length]
    by (auto simp: free_ram_ok_def N_def page_aligned_def mod_0_imp_dvd boot_tables_def)
  from kvmem_init_kernel_ok[OF s1(3)[unfolded qs] al(1,3,2)] obtain t where t: "kvmem_init_kernel s1 = Inr t" "ident_upto (mem t) root N"
    "pt_ok t root (drop (tables_for N) qs)" "kmem_frame (s1\<lparr>kernel_pagetable := root\<rparr>) t"
    "pt_pages (mem t) root = insert root (set (take (tables_for N) qs))" "\<forall>a. \<not> in_pages a (root # qs) \<longrightarrow> mem t a = mem s1 a" by blast
  have "kmem_frame (s\<lparr>kernel_pagetable := root\<rparr>) t" using s1(2) t(4) by (cases s; cases s1; cases t) (simp add: kmem_frame_def)
  then show ?thesis using s1(1,4) t by (auto simp: qs T_def N_def boot_tables_def)
qed

section \<open>Registers and tables\<close>

text \<open>What the whole of \<open>kernel_main\<close> changes. The devices, the linker symbols and the places of the static arrays stay.\<close>

definition boot_frame :: "'a fsboot_scheme \<Rightarrow> 'a fsboot_scheme \<Rightarrow> bool" where
  "boot_frame s t \<longleftrightarrow> t = s\<lparr>mem := mem t, kmem_head := kmem_head t, csr := csr t, lsr_pos := lsr_pos t, uart_writes := uart_writes t,
     kernel_pagetable := kernel_pagetable t, procs := procs t, plic_writes := plic_writes t,
     vio_log := vio_log t, blk_request_vq := blk_request_vq t, blk_req_paddr := blk_req_paddr t, blk_capacity := blk_capacity t,
     filesystem_files := filesystem_files t\<rparr>"

lemma boot_frame_trans [trans]: "boot_frame s t \<Longrightarrow> boot_frame t u \<Longrightarrow> boot_frame s u"
  by (cases s; cases t; cases u) (simp add: boot_frame_def)

lemma boot_frame_intros:
  "kmem_frame (s\<lparr>kernel_pagetable := r\<rparr>) t \<Longrightarrow> boot_frame s t" "driver_frame s t \<Longrightarrow> boot_frame s t"
  "same_setting s t \<Longrightarrow> boot_frame s t" "rest_same s t \<Longrightarrow> boot_frame s t"
  by (cases s; cases t; simp add: boot_frame_def kmem_frame_def driver_frame_def same_setting_def rest_same_def)+

lemma boot_frame_simps:
  assumes "boot_frame s t"
  shows "uart_live t = uart_live s" "sym_addr t = sym_addr s" "free_ram_begin t = free_ram_begin s" "free_ram_end t = free_ram_end s"
    "fs_base t = fs_base s" "fs_buffer t = fs_buffer s" "vio_dma t = vio_dma s" "vio_config t = vio_config s" "vio_reg t = vio_reg s"
    "current t = current s" "fs_data i t = fs_data i s" "os_files t = os_files s"
  using assms by (cases s; cases t; simp add: boot_frame_def uart_live_def fs_data_def)+

lemma boot_registers:
  fixes s :: "'a fsboot_scheme"
  assumes "length (procs s) = NUM_PROCESSES"
  defines "t \<equiv> kproc_init (PlicInitHart (PlicInit (ktrap_init (kvmem_init_hart s))))"
  shows "boot_frame s t" "mem t = mem s" "kmem_head t = kmem_head s" "kernel_pagetable t = kernel_pagetable s" "plic_writes t = plic_writes (PlicInitHart (PlicInit s))"
    "filesystem_files t = filesystem_files s" "active_table t (kernel_pagetable s)" "csr t Stvec = sym_addr s Sym_kernelvec"
    "procs t = map (\<lambda>i. init_proc (proc_array_base s) i (procs s ! i)) [0..<NUM_PROCESSES]" "\<forall>r. r \<notin> {Satp, Stvec} \<longrightarrow> csr t r = csr s r"
proof -
  let ?u = "PlicInitHart (PlicInit (ktrap_init (kvmem_init_hart s)))"
  have u: "procs ?u = procs s" "proc_array_base ?u = proc_array_base s"
    by (simp_all add: PlicInitHart_def PlicInit_def plic_write_def ktrap_init_def kvmem_init_hart_def WRITE_CSR_def)
  have t: "t = ?u\<lparr>procs := map (\<lambda>i. init_proc (proc_array_base s) i (procs s ! i)) [0..<NUM_PROCESSES]\<rparr>"
    unfolding t_def using kproc_init_eq[of ?u] assms u by simp
  show "boot_frame s t" "mem t = mem s" "kmem_head t = kmem_head s" "kernel_pagetable t = kernel_pagetable s" "plic_writes t = plic_writes (PlicInitHart (PlicInit s))"
    "filesystem_files t = filesystem_files s" "active_table t (kernel_pagetable s)" "csr t Stvec = sym_addr s Sym_kernelvec"
    "procs t = map (\<lambda>i. init_proc (proc_array_base s) i (procs s ! i)) [0..<NUM_PROCESSES]" "\<forall>r. r \<notin> {Satp, Stvec} \<longrightarrow> csr t r = csr s r"
    unfolding t
    by (simp_all add: PlicInitHart_def PlicInit_def plic_write_def ktrap_init_def kvmem_init_hart_def WRITE_CSR_def boot_frame_def active_table_def)
qed

section \<open>The disk and its files\<close>

lemma far_apart_sym: "far_apart a n b k \<longleftrightarrow> far_apart b k a n"
  by (auto simp: far_apart_def)

lemma page_end: "page_aligned p \<Longrightarrow> unat p + 4096 \<le> 4294967296"
  using unat32_bound[of p] by (auto simp: page_aligned_def mod_0_imp_dvd elim!: dvdE)

lemma below_apart:
  assumes "unat x + n \<le> unat (r :: addr)" "unat r + m \<le> 4294967296" "0 < n" "0 < m"
  shows "far_apart r (of_nat m) x (of_nat n)"
proof -
  have u: "unat (of_nat m :: u32) = m" "unat (of_nat n :: u32) = n" using assms unat32_bound[of r] by (simp_all add: unat_of_nat32)
  have "unat (r - x) = unat r - unat x" "unat (x - r) = 4294967296 + unat x - unat r"
    using assms unat_sub_if'[of r x] unat_sub_if'[of x r] by (auto split: if_splits)
  then show ?thesis unfolding far_apart_def word_le_nat_alt u using assms by (simp, arith)
qed

lemma page_apart:
  assumes "page_aligned q" "page_base a \<noteq> q"
  shows "far_apart q 4096 a 1"
proof (cases "unat q \<le> unat a")
  case True
  have "unat q \<noteq> unat (page_base a)" using assms(2) by (simp add: word_unat_eq_iff)
  moreover have "4096 dvd unat q" "4096 dvd unat (page_base a)"
    using assms(1) page_aligned_page_base[of a] by (auto simp: page_aligned_def)
  ultimately have "unat q + 4096 \<le> unat a" using True page_base_bounds[of a] by (auto elim!: dvdE)
  then show ?thesis using below_apart[of q 4096 a 1] unat32_bound[of a] far_apart_sym[of q] by simp
next
  case False
  then show ?thesis using below_apart[of a 1 q 4096] page_end[OF assms(1)] by simp
qed

lemma two_pages_apart:
  assumes "page_aligned p" "page_base a \<noteq> p" "page_base a \<noteq> p + 4096"
  shows "far_apart p 8192 a 1"
proof -
  have "page_aligned (p + 4096)" by (rule page_aligned_add[OF assms(1)]) (simp add: page_aligned_def)
  from page_apart[OF this assms(3)] page_apart[OF assms(1,2)]
  have f: "4096 \<le> a - p" "1 \<le> p - a" "4096 \<le> a - (p + 4096)" by (simp_all add: far_apart_def)
  have "a - (p + 4096) = (a - p) - 4096" by simp
  with f have "4096 \<le> (a - p) - 4096" by simp
  then have "8192 \<le> a - p" using f(1) by uint_arith
  then show ?thesis using f(2) by (simp add: far_apart_def)
qed

text \<open>The static arrays of the file system lie below the free memory, which starts at \<open>b\<close>.\<close>

definition fs_arrays_below :: "'a fsboot_scheme \<Rightarrow> addr \<Rightarrow> bool" where
  "fs_arrays_below s b \<longleftrightarrow> unat (fs_base s) + FS_AREA \<le> unat b \<and> unat (fs_buffer s) + 512 \<le> unat b \<and>
     far_apart (fs_buffer s) 512 (fs_base s) (of_nat FS_AREA)"

lemma fs_arrays_apart:
  assumes "fs_arrays_below s b" "b \<le> r" "unat r + m \<le> 4294967296" "0 < m"
  shows "far_apart r (of_nat m) (fs_base s) (of_nat FS_AREA)" "far_apart r (of_nat m) (fs_buffer s) 512"
proof -
  have "0 < FS_AREA" by (simp add: FS_AREA_def MAX_FS_FILES_def)
  then show "far_apart r (of_nat m) (fs_base s) (of_nat FS_AREA)" "far_apart r (of_nat m) (fs_buffer s) 512"
    using below_apart[of "fs_base s" FS_AREA r m] below_apart[of "fs_buffer s" 512 r m] assms by (simp_all add: fs_arrays_below_def word_le_nat_alt)
qed

lemma two_page_end:
  assumes "page_aligned p" "p + 4096 \<noteq> 0"
  shows "unat p + 8192 \<le> 4294967296"
proof -
  have "unat (p + 4096) \<noteq> 0" using assms(2) by (simp add: unat_eq_0)
  then have "unat p + 4096 \<noteq> 4294967296" by (auto simp: unat_word_ariths)
  then show ?thesis using page_end[OF assms(1)] assms(1) by (auto simp: page_aligned_def mod_0_imp_dvd elim!: dvdE)
qed

lemma boot_files:
  fixes s :: "'a fsboot_scheme"
  assumes pg: "kmem_pages s ((p + 4096) # p # q # ps)" and dev: "disk_identifies s" "uart_live s" "disk_serves s disk"
    and low: "fs_arrays_below s b" "\<forall>r \<in> {p + 4096, p, q} \<union> set ps. b \<le> r"
    and fs: "filesystem_files s = replicate MAX_FS_FILES blank_file"
    and tar: "unat (vio_config s * 512 div 512) \<le> 2 ^ 32" "tar_at disk (unat (vio_config s * 512 div 512)) 0 0 ms"
  shows "\<exists>t. kbind (virtio_blk_init s) filesystem_init = Inr t \<and> boot_frame s t \<and> kmem_pages t ps \<and>
    procs t = procs s \<and> csr t = csr s \<and> plic_writes t = plic_writes s \<and> kernel_pagetable t = kernel_pagetable s \<and> (\<forall>i < length ms. file_loaded t i (ms ! i)) \<and>
    fs_names t (map fst ms @ replicate (MAX_FS_FILES - length ms) []) \<and>
    (\<forall>a. b \<le> a \<and> page_base a \<notin> {p + 4096, p, q} \<longrightarrow> mem t a = mem s a)"
proof -
  have al: "page_aligned p" "page_aligned q" "p + 4096 \<noteq> 0" "{p + 4096, p, q} \<inter> set ps = {}" using pg by (auto simp: kmem_pages_def)
  from blk_init_ready[OF pg dev(1,2)] obtain u where u: "virtio_blk_init s = Inr u" "driver_frame s u" "\<And>a. page_base a \<notin> {p, p + 4096, q} \<Longrightarrow> mem u a = mem s a"
    "blk_request_vq u = p" "blk_req_paddr u = q" "kmem_pages u ps" "blk_capacity u = vio_config s * 512"
    "\<And>buf. far_apart p 8192 buf 512 \<Longrightarrow> far_apart q 4096 buf 512 \<Longrightarrow> request_ready u buf" by blast
  note fr = boot_frame_intros(2)[OF u(2)]
  note fu = boot_frame_simps[OF fr]
  have uf: "filesystem_files u = filesystem_files s" "procs u = procs s" "csr u = csr s" "kernel_pagetable u = kernel_pagetable s" "plic_writes u = plic_writes s"
    using u(2) by (cases s; cases u; simp add: driver_frame_def)+
  have ap: "far_apart p 8192 (fs_base s) (of_nat FS_AREA)" "far_apart p 8192 (fs_buffer s) 512"
    "far_apart q 4096 (fs_base s) (of_nat FS_AREA)" "far_apart q 4096 (fs_buffer s) 512"
    using fs_arrays_apart[OF low(1), of p 8192] fs_arrays_apart[OF low(1), of q 4096] low(2) two_page_end[OF al(1,3)] page_end[OF al(2)] by simp_all
  have rdy: "fs_ready u" using u(8)[OF ap(2,4)] ap low(1) dev(2) by (simp add: fs_ready_def fu u(4,5) uf(1) fs fs_arrays_below_def)
  have serve: "disk_serves u disk" using dev(3) by (simp add: disk_serves_def fu)
  from init_loads[OF rdy _ serve, of ms] tar fs obtain t where t: "filesystem_init u = Inr t" "\<forall>i < length ms. file_loaded t i (ms ! i)"
    "fs_names t (map fst ms @ replicate (MAX_FS_FILES - length ms) [])" "member_frame {0..<length ms} u t" by (auto simp: uf(1) u(7))
  have ss: "same_setting u t" using t(4) by (simp add: member_frame_def)
  have m: "mem t a = mem u a" if a: "b \<le> a" "page_base a \<notin> {p + 4096, p, q}" for a
  proof -
    have "undriven u a" using two_pages_apart[OF al(1), of a] page_apart[OF al(2), of a] a(2) by (simp add: undriven_def u(4,5))
    moreover note fa = fs_arrays_apart[OF low(1) a(1), of 1]
    have "far_apart (fs_buffer u) 512 a 1" using fa(2) unat32_bound[of a] far_apart_sym[of a] by (simp add: fu)
    moreover have "far_apart (fs_data j u) (of_nat MAX_FILESIZE) a 1" if "j < length ms" for j
    proof -
      have "j < MAX_FS_FILES" using tar_at_length[OF tar(2)] that by simp
      from in_area[of a 1 u j 0 MAX_FILESIZE, OF _ _ this] fa(1) unat32_bound[of a] far_apart_sym[of a]
      show ?thesis by (simp add: fu MAX_FILESIZE_def)
    qed
    ultimately show ?thesis using t(4) by (simp add: member_frame_def)
  qed
  have "kmem_pages t ps"
  proof (rule kmem_pages_frame[OF u(6)])
    show "kmem_head t = kmem_head u" by (rule same_setting_eqs(9)[OF ss])
    show "mem t a = mem u a" if "in_pages a ps" for a
    proof (rule m)
      have "b \<le> page_base a" using that low(2) by blast
      then show "b \<le> a" using page_base_bounds(1)[of a] by (simp add: word_le_nat_alt)
      show "page_base a \<notin> {p + 4096, p, q}" using that al(4) by blast
    qed
  qed
  moreover have "mem t a = mem s a" if "b \<le> a" "page_base a \<notin> {p + 4096, p, q}" for a using m[OF that] u(3)[of a] that(2) by simp
  moreover have "plic_writes t = plic_writes u" using ss by (cases t; cases u; simp add: same_setting_def)
  ultimately show ?thesis using u(1) t(1-3) uf(2-5) same_setting_eqs(10,11,14)[OF ss] boot_frame_trans[OF fr boot_frame_intros(3)[OF ss]]
    by (intro exI[of _ t]) simp
qed

section \<open>Up to the first process\<close>

lemma tar_at_sizes: "tar_at disk cnt i cs ms \<Longrightarrow> f \<in> set ms \<Longrightarrow> length (fst f) < 100 \<and> length (snd f) \<le> MAX_FILESIZE"
  by (induction ms arbitrary: i cs) (auto simp: tar_header_at_def)

text \<open>What \<open>kernel_main\<close> has reached before it creates a process, with the free pages \<open>ps\<close> left.\<close>

definition boot_stage :: "'a fsboot_scheme \<Rightarrow> addr \<Rightarrow> addr list \<Rightarrow> (u8 list \<times> u8 list) list \<Rightarrow> 'a fsboot_scheme \<Rightarrow> bool" where
  "boot_stage s root ps ms t \<longleftrightarrow> boot_frame s t \<and> kmem_pages t ps \<and>
     procs t = map (\<lambda>i. init_proc (proc_array_base s) i (procs s ! i)) [0..<NUM_PROCESSES] \<and>
     active_table t root \<and> csr t Stvec = sym_addr s Sym_kernelvec \<and> (\<forall>r. r \<notin> {Sstatus, Satp, Stvec} \<longrightarrow> csr t r = csr s r) \<and>
     plic_writes t = plic_writes (PlicInitHart (PlicInit s)) \<and>
     pt_wf (mem t) root \<and> ident_upto (mem t) root (unat (free_ram_end s) div 4096) \<and> pt_pages (mem t) root \<inter> set ps = {} \<and>
     (\<forall>i < length ms. file_loaded t i (ms ! i)) \<and> fs_names t (map fst ms @ replicate (MAX_FS_FILES - length ms) [])"

lemma kernel_main_eq:
  "kernel_main s =
     kbind (kbind (kmem_init (uart_init (WRITE_CSR Sstatus (READ_CSR Sstatus s OR SSTATUS_SUM) s))) kvmem_init_kernel) (\<lambda>s.
     kbind (kbind (virtio_blk_init (kproc_init (PlicInitHart (PlicInit (ktrap_init (kvmem_init_hart s)))))) filesystem_init) (\<lambda>s.
     kbind (kproc_create (fs_data 2 s) s) (\<lambda>(_, s). kproc_scheduler 0 s)))"
  by (simp add: kernel_main_def Let_def kbind_def split: sum.splits)

lemma boot_files_stage:
  fixes s :: "'a fsboot_scheme"
  assumes ram: "free_ram_ok s" "kmem_head s = 0" and tab: "length (procs s) = NUM_PROCESSES" and dev: "uart_live s" "disk_identifies s"
    and room: "boot_tables s + 4 \<le> free_ram_count s"
    and disk: "disk_serves s disk"
    and fs: "fs_arrays_below s (free_ram_begin s)" "filesystem_files s = replicate MAX_FS_FILES blank_file"
    and tar: "unat (vio_config s * 512 div 512) \<le> 2 ^ 32" "tar_at disk (unat (vio_config s * 512 div 512)) 0 0 ms"
  shows "\<exists>t. kernel_main s = kbind (kproc_create (fs_data 2 t) t) (\<lambda>(_, s). kproc_scheduler 0 s) \<and>
    boot_stage s (hd (boot_pages s)) (drop (boot_tables s + 4) (boot_pages s)) ms t"
proof -
  define s0 where "s0 = uart_init (WRITE_CSR Sstatus (READ_CSR Sstatus s OR SSTATUS_SUM) s)"
  have s0: "boot_frame s s0" "mem s0 = mem s" "kmem_head s0 = kmem_head s" "procs s0 = procs s" "plic_writes s0 = plic_writes s"
    "filesystem_files s0 = filesystem_files s" "proc_array_base s0 = proc_array_base s"
    "\<forall>r. r \<noteq> Sstatus \<longrightarrow> csr s0 r = csr s r"
    by (simp_all add: s0_def uart_init_def uart_write_def WRITE_CSR_def boot_frame_def)
  note f0 = boot_frame_simps[OF s0(1)]
  have eq: "boot_pages s0 = boot_pages s" "boot_tables s0 = boot_tables s" "free_ram_ok s0" "free_ram_count s0 = free_ram_count s"
    using ram(1) by (simp_all add: boot_pages_def boot_tables_def free_ram_ok_def free_ram_count_def f0)
  define root T ps where "root = hd (boot_pages s)" and "T = Suc (boot_tables s)" and "ps = drop (boot_tables s + 4) (boot_pages s)"
  from boot_memory[OF eq(3)] ram room obtain s1 where s1: "kbind (kmem_init s0) kvmem_init_kernel = Inr s1" "kmem_frame (s0\<lparr>kernel_pagetable := root\<rparr>) s1"
    "ident_upto (mem s1) root (unat (free_ram_end s) div 4096)" "pt_ok s1 root (drop T (boot_pages s))" "pt_pages (mem s1) root = set (take T (boot_pages s))"
    unfolding eq f0(4) root_def T_def s0 by auto
  note f1 = boot_frame_trans[OF s0(1) boot_frame_intros(1)[OF s1(2)]]
  have p1: "procs s1 = procs s" "kernel_pagetable s1 = root" "plic_writes s1 = plic_writes s" "filesystem_files s1 = filesystem_files s"
    "proc_array_base s1 = proc_array_base s" "csr s1 = csr s0"
    using s1(2) s0 by (cases s0; cases s1; simp add: kmem_frame_def)+
  define s2 where "s2 = kproc_init (PlicInitHart (PlicInit (ktrap_init (kvmem_init_hart s1))))"
  note r2 = boot_registers[of s1, folded s2_def, unfolded p1, OF tab]
  note f2 = boot_frame_trans[OF f1 r2(1)]
  note e2 = boot_frame_simps[OF f2]
  define p where "p = free_ram_end s - 4096 * of_nat (boot_tables s + 3)"
  have dr: "drop T (boot_pages s) = (p + 4096) # p # (p - 4096) # ps"
    using boot_pages_drop[OF ram(1), of T] room by (simp add: T_def ps_def p_def eval_nat_numeral)
  have "kmem_pages s2 (drop T (boot_pages s))"
    by (rule kmem_pages_frame[of s1]) (use s1(4) r2 in \<open>simp_all add: pt_ok_def\<close>)
  then have pg: "kmem_pages s2 ((p + 4096) # p # (p - 4096) # ps)" unfolding dr .
  have d2: "disk_identifies s2" "disk_serves s2 disk" "uart_live s2" "fs_arrays_below s2 (free_ram_begin s)"
    using dev disk fs(1) by (simp_all add: disk_identifies_def disk_serves_def e2 fs_arrays_below_def)
  have sub: "{p + 4096, p, p - 4096} \<union> set ps = set (drop T (boot_pages s))" unfolding dr by auto
  have in_ram: "free_ram_begin s \<le> r" if "r \<in> set (boot_pages s)" for r
    using ram_pages_iff[OF ram(1), of r] that by (simp add: boot_pages_def)
  then have lo: "\<forall>r \<in> {p + 4096, p, p - 4096} \<union> set ps. free_ram_begin s \<le> r" unfolding sub using set_drop_subset[of T "boot_pages s"] by blast
  have t2: "filesystem_files s2 = replicate MAX_FS_FILES blank_file" "unat (vio_config s2 * 512 div 512) \<le> 2 ^ 32"
    "tar_at disk (unat (vio_config s2 * 512 div 512)) 0 0 ms" unfolding e2 r2(6) by (rule fs(2) tar)+
  from boot_files[OF pg d2(1,3,2,4) lo t2] obtain t where t: "kbind (virtio_blk_init s2) filesystem_init = Inr t" "boot_frame s2 t" "kmem_pages t ps"
    "procs t = procs s2" "csr t = csr s2" "plic_writes t = plic_writes s2" "kernel_pagetable t = kernel_pagetable s2" "\<forall>i < length ms. file_loaded t i (ms ! i)"
    "fs_names t (map fst ms @ replicate (MAX_FS_FILES - length ms) [])"
    "\<And>a. free_ram_begin s \<le> a \<Longrightarrow> page_base a \<notin> {p + 4096, p, p - 4096} \<Longrightarrow> mem t a = mem s2 a" by blast
  have disj: "pt_pages (mem s1) root \<inter> set (drop T (boot_pages s)) = {}" using s1(4) by (simp add: pt_ok_def)
  have same: "mem t a = mem s1 a" if "page_base a \<in> pt_pages (mem s1) root" for a
  proof -
    have "page_base a \<in> set (boot_pages s)" using that s1(5) set_take_subset[of T "boot_pages s"] by blast
    then have "free_ram_begin s \<le> a" using boot_pages_byte[OF ram(1)] by blast
    moreover have "page_base a \<notin> {p + 4096, p, p - 4096}" using that disj sub by blast
    ultimately show ?thesis using t(10) r2(2) by simp
  qed
  have al: "page_aligned root" "root \<in> pt_pages (mem s1) root" using s1(4) by (simp_all add: pt_ok_def pt_wf_def pt_pages_def)
  have "\<forall>a. page_base a \<in> pt_pages (mem s1) root \<longrightarrow> mem t a = mem s1 a" "\<forall>a. page_base a = root \<longrightarrow> mem t a = mem s1 a" using same al(2) by simp_all
  note c = pt_cong[OF al(1) this(1)] pt_root_cong[OF al(1) this(2)]
  have plic: "plic_writes t = plic_writes (PlicInitHart (PlicInit s))" using t(6) r2(5) p1(3) by (simp add: PlicInitHart_def PlicInit_def plic_write_def)
  have "\<forall>r. r \<notin> {Sstatus, Satp, Stvec} \<longrightarrow> csr t r = csr s r" using t(5) r2(10) p1(6) s0(8) by simp
  then have "boot_stage s root ps ms t" unfolding boot_stage_def
    using boot_frame_trans[OF f2 t(2)] t(3-9) r2 c s1(3,4) disj sub boot_frame_simps(2)[OF f1] plic
    by (auto simp: active_table_def ident_upto_def pt_ok_def)
  moreover have "kernel_main s = kbind (kproc_create (fs_data 2 t) t) (\<lambda>(_, s). kproc_scheduler 0 s)"
    unfolding kernel_main_eq s0_def[symmetric] s1(1) kbind_Inr s2_def[symmetric] t(1) ..
  ultimately show ?thesis unfolding root_def ps_def by blast
qed

section \<open>The first process\<close>

lemma file_loaded_cong:
  assumes "file_loaded s i f" "filesystem_files t = filesystem_files s" "fs_base t = fs_base s" "length (fst f) < 100"
    "\<And>k. k < length (snd f) \<Longrightarrow> mem t (fs_data i s + of_nat k) = mem s (fs_data i s + of_nat k)"
  shows "file_loaded t i f"
proof -
  have d: "fs_data i t = fs_data i s" using assms(3) by (simp add: fs_data_def)
  have "name_reader i t k = name_reader i s k" if "k < 100" for k using that assms(2) by (simp add: name_reader_def)
  then have "reads_string (name_reader i t) (fst f) = reads_string (name_reader i s) (fst f)" using assms(4) by (simp add: reads_string_def)
  moreover have "file_bytes i t = file_bytes i s" using assms(1,2,5) d by (simp add: file_bytes_def file_loaded_def)
  ultimately show ?thesis using assms(1,2) by (simp add: file_loaded_def)
qed

text \<open>Whatever the memory around it, the bytes \<open>bs\<close> at \<open>eh\<close> are a program that can be loaded into free pages \<open>P\<close>, with at most \<open>n\<close> pages.\<close>

definition program_file :: "addr \<Rightarrow> u8 list \<Rightarrow> addr set \<Rightarrow> nat \<Rightarrow> bool" where
  "program_file eh bs P n \<longleftrightarrow> (\<forall>m. (\<forall>k < length bs. m (eh + of_nat k) = bs ! k) \<longrightarrow>
     elf_loadable m eh P \<and> elf_pages m eh (elf_count m eh) \<le> n)"

lemma elf_loadable_mono: "elf_loadable m eh P \<Longrightarrow> Q \<subseteq> P \<Longrightarrow> elf_loadable m eh Q"
  using elf_cong(4)[of m eh P m Q] by simp

lemma first_process:
  fixes s t :: "'a fsboot_scheme"
  assumes st: "boot_stage s kroot ps ms t" and live: "uart_live s" and N: "page_aligned (free_ram_end s)" and sub: "set ps \<subseteq> P"
    and ms: "2 < length ms" "program_file (fs_data 2 s) (snd (ms ! 2)) P n"
    and room: "boot_tables s + 2 * n + 5 \<le> length ps"
  shows "\<exists>root tf stk k u. kbind (kproc_create (fs_data 2 t) t) (\<lambda>(_, s). kproc_scheduler 0 s) = Inr (0, u\<lparr>current := 0\<rparr>) \<and>
    elf_loadable (mem t) (fs_data 2 s) (set ps) \<and> k \<le> boot_tables s + 2 * n + 5 \<and>
    image_of 0 (fs_data 2 s) ps (proc_upd 0 (\<lambda>p. p\<lparr>proc_state := RUNNABLE, pid := 1\<rparr>) t) root tf stk k u"
proof -
  have fr: "boot_frame s t" and pg: "kmem_pages t ps" and ld: "file_loaded t 2 (ms ! 2)"
    and pr: "procs t = map (\<lambda>i. init_proc (proc_array_base s) i (procs s ! i)) [0..<NUM_PROCESSES]"
    using st ms(1) by (simp_all add: boot_stage_def)
  note e = boot_frame_simps[OF fr]
  let ?eh = "fs_data 2 s"
  have "mem t (?eh + of_nat k) = snd (ms ! 2) ! k" if "k < length (snd (ms ! 2))" for k
  proof -
    have b: "file_bytes 2 t = snd (ms ! 2)" "unat (fs_size (filesystem_files t ! 2)) = length (snd (ms ! 2))" using ld by (simp_all add: file_loaded_def)
    have "file_bytes 2 t ! k = mem t (?eh + of_nat k)" using that b(2) by (simp add: file_bytes_def e)
    then show ?thesis by (simp only: b(1))
  qed
  then have el: "elf_loadable (mem t) ?eh P" "elf_pages (mem t) ?eh (elf_count (mem t) ?eh) \<le> n" using ms(2) unfolding program_file_def by blast+
  note el' = elf_loadable_mono[OF el(1) sub]
  have "find_unused t = Some 0" by (simp add: find_unused_def pr NUM_PROCESSES_def upt_rec init_proc_def)
  moreover have "length (procs t) = NUM_PROCESSES" by (simp add: pr)
  moreover have "tables_for (unat (free_ram_end t) div 4096) + 2 * elf_pages (mem t) ?eh (elf_count (mem t) ?eh) + 5 \<le> length ps"
    using room el(2) by (simp add: boot_tables_def e)
  ultimately obtain root tf stk k u where u: "kproc_create ?eh t = Inr (0, u)"
    "image_of 0 ?eh ps (proc_upd 0 (\<lambda>p. p\<lparr>proc_state := RUNNABLE, pid := of_nat 0 + 1\<rparr>) t) root tf stk k u"
    using kproc_create_image[of t 0 ps ?eh] live N pg el' e by auto
  obtain h where "procs u = (procs t)[0 := (image_block root tf ((procs t ! 0)\<lparr>proc_state := RUNNABLE, pid := 1\<rparr>))\<lparr>free_heap_page := h, user_stack := stk\<rparr>]"
    using u(2) by (auto simp: image_of_def pr NUM_PROCESSES_def)
  then have "can_run (procs u ! 0)" by (simp add: pr NUM_PROCESSES_def can_run_def image_block_def)
  then have "kproc_scheduler 0 u = Inr (0, u\<lparr>current := 0\<rparr>)" using scheduler_runs[of 0 u 0] by (simp add: NUM_PROCESSES_def)
  moreover have "k \<le> boot_tables s + 2 * n + 5" using u(2) el(2) by (simp add: image_of_def boot_tables_def e)
  ultimately show ?thesis using u el' by (intro exI[of _ root] exI[of _ tf] exI[of _ stk] exI[of _ k] exI[of _ u]) (simp add: e)
qed

lemma file_byte_below:
  assumes "fs_arrays_below s b" "i < MAX_FS_FILES" "j < MAX_FILESIZE"
  shows "unat (fs_data i s + of_nat j) < unat b"
proof -
  have j: "fs_offset i + j < FS_AREA" using fs_offset_bounds(1)[OF assms(2)] assms(3) by simp
  have "unat (of_nat (fs_offset i + j) :: u32) = fs_offset i + j" using j by (intro unat_of_nat32) (simp add: FS_AREA_def MAX_FS_FILES_def MAX_FILESIZE_def)
  then have "unat (fs_data i s + of_nat j) = unat (fs_base s) + (fs_offset i + j)"
    using j assms(1) unat32_bound[of b] unfolding fs_data_offset by (simp add: fs_arrays_below_def unat_word_ariths)
  then show ?thesis using j assms(1) by (simp add: fs_arrays_below_def)
qed

lemma ktrap_to_user_csr: "ktrap_to_user s = Inr (e, v) \<Longrightarrow> r \<notin> {Sstatus, Satp, Stvec, Sepc} \<Longrightarrow> csr v r = csr s r"
  by (auto simp: ktrap_to_user_def enter_user_process_def Let_def tf_set_def set_word_def split: option.splits if_splits)

lemma plic_delivers_cong: "plic_writes t = plic_writes s \<Longrightarrow> plic_delivers irq t = plic_delivers irq s"
  by (simp add: plic_delivers_def plic_reg_def)

lemma boot_to_user:
  fixes s t :: "'a fsboot_scheme"
  assumes st: "boot_stage s kroot ps ms t" and el: "elf_loadable (mem t) eh (set ps)" and low: "\<forall>p \<in> set ps. b \<le> p" "fs_arrays_below s b"
    and tar: "tar_at disk cnt 0 0 ms" and im: "image_of 0 eh ps (proc_upd 0 (\<lambda>p. p\<lparr>proc_state := RUNNABLE, pid := 1\<rparr>) t) root tf stk k u"
  shows "\<exists>e v F. ktrap_resume (u\<lparr>current := 0\<rparr>) = Inr (e, v) \<and> ue_pc e = eh_entry (elf_header_at (mem v) eh) \<and> ue_regs e TF_sp = VA_USER_STACK_INIT \<and>
    active_table v root \<and> address_space (mem v) eh (unat (free_ram_end s) div 4096) root tf stk F (mem v) \<and> F \<subseteq> set ps - pt_pages (mem v) root - {tf, stk} \<and>
    csr v Stvec = sym_addr s Sym_uservec \<and> current v = 0 \<and> fs_base v = fs_base s \<and> (\<forall>i < length ms. file_loaded v i (ms ! i)) \<and>
    (\<forall>r. r \<notin> {Sstatus, Satp, Stvec, Sepc} \<longrightarrow> csr v r = csr t r) \<and> plic_writes v = plic_writes t \<and>
    (\<exists>h. procs v = (procs t)[0 := (image_block root tf ((procs t ! 0)\<lparr>proc_state := RUNNABLE, pid := 1\<rparr>))\<lparr>free_heap_page := h, user_stack := stk\<rparr>])"
proof -
  let ?s = "proc_upd 0 (\<lambda>p. p\<lparr>proc_state := RUNNABLE, pid := 1\<rparr>) t" and ?u = "u\<lparr>current := 0\<rparr>" and ?F = "set ps - pt_pages (mem u) root - set (drop k ps) - {tf, stk}"
  have fr: "boot_frame s t" and pr: "length (procs t) = 8" and ld: "\<And>i. i < length ms \<Longrightarrow> file_loaded t i (ms ! i)"
    using st by (simp_all add: boot_stage_def NUM_PROCESSES_def)
  note e = boot_frame_simps[OF fr]
  have iu: "rest_same ?s u" "pt_ok u root (drop k ps)" "{tf, stk} \<inter> pt_pages (mem u) root = {}" "{root, tf, stk} \<subseteq> set ps" "page_aligned tf"
    "pt_pages (mem u) root \<subseteq> set ps" "address_space (mem t) eh (unat (free_ram_end s) div 4096) root tf stk ?F (mem u)"
    "\<And>a. \<not> in_pages a ps \<Longrightarrow> mem u a = mem t a" "tf_get tf TF_sp u = VA_USER_STACK_INIT" "tf_get tf TF_epc u = eh_entry (elf_header_at (mem t) eh)"
    using im by (auto simp: image_of_def e)
  obtain h where h: "procs u = (procs t)[0 := (image_block root tf ((procs t ! 0)\<lparr>proc_state := RUNNABLE, pid := 1\<rparr>))\<lparr>free_heap_page := h, user_stack := stk\<rparr>]"
    using im pr by (auto simp: image_of_def)
  then have c: "trapframe (cur ?u) = tf" "pagetable (cur ?u) = root" "ra (proc_context (cur ?u)) = At_ktrap_to_user"
    using pr by (simp_all add: cur_def image_block_def)
  have wf: "pt_wf (mem u) root" "page_aligned root" using iu(2) by (simp_all add: pt_ok_def pt_wf_def)
  have "tf_mapped (mem ?u) (cur ?u)" using wf iu(3,5,7) by (simp add: tf_mapped_def c address_space_def)
  from ktrap_to_user_ok[OF this] obtain e' v where v: "ktrap_to_user ?u = Inr (e', v)" "ue_pc e' = tf_get tf TF_epc u" "ue_regs e' TF_sp = tf_get tf TF_sp u"
    "procs v = procs u" "current v = 0" "kproc.more v = kproc.more u" "user_ready v" "csr v Stvec = sym_addr u Sym_uservec"
    "\<And>a. page_base a \<noteq> tf \<Longrightarrow> mem v a = mem u a" by (auto simp: c tf_get_def)
  have out: "mem v a = mem t a" if "\<not> in_pages a ps" for a using v(9)[of a] iu(4,8) that by auto
  have same: "\<forall>a. page_base a \<in> ?F \<union> pt_pages (mem u) root \<longrightarrow> mem v a = mem u a"
    by (intro allI impI v(9)) (use iu(3) in auto)
  have src: "\<forall>a. page_base a \<notin> set ps \<longrightarrow> mem v a = mem t a" using out by simp
  have pp: "pt_pages (mem v) root = pt_pages (mem u) root" by (rule pt_cong(1)[OF wf(2)]) (use same in simp)
  have more: "filesystem_files v = filesystem_files t" "fs_base v = fs_base t" "plic_writes v = plic_writes t"
    using v(6) rest_same_simps(6)[OF iu(1)] by (cases t; cases u; cases v; simp add: proc_upd_def)+
  have "file_loaded v i (ms ! i)" if i: "i < length ms" for i
  proof (rule file_loaded_cong[OF ld[OF i] more(1,2)])
    have sz: "length (fst (ms ! i)) < 100" "length (snd (ms ! i)) \<le> MAX_FILESIZE" using tar_at_sizes[OF tar nth_mem[OF i]] by simp_all
    then show "length (fst (ms ! i)) < 100" by simp
    fix j assume "j < length (snd (ms ! i))"
    then have "unat (fs_data i t + of_nat j) < unat b" using file_byte_below[of t b i j] low(2) tar_at_length[OF tar] i sz(2) by (simp add: fs_arrays_below_def e)
    then have "\<not> in_pages (fs_data i t + of_nat j) ps" using low(1) page_base_bounds(1)[of "fs_data i t + of_nat j"] by (fastforce simp: word_le_nat_alt)
    then show "mem v (fs_data i t + of_nat j) = mem t (fs_data i t + of_nat j)" by (rule out)
  qed
  moreover have "ktrap_resume ?u = Inr (e', v)" using v(1) c(3) by (simp add: ktrap_resume_def)
  moreover have "active_table v root" using v(4,5,7) c(2) by (simp add: user_ready_def cur_def)
  moreover have "csr v r = csr t r" if "r \<notin> {Sstatus, Satp, Stvec, Sepc}" for r
    using ktrap_to_user_csr[OF v(1) that] rest_same_simps(5)[OF iu(1)] by simp
  moreover have "sym_addr u = sym_addr s" using rest_same_simps(3)[OF iu(1)] e(2) by simp
  moreover have "eh_entry (elf_header_at (mem v) eh) = eh_entry (elf_header_at (mem t) eh)" by (rule elf_cong(5)[OF el src])
  ultimately show ?thesis using v(2,3,5,8) v(4)[unfolded h] iu(9,10) address_space_source[OF address_space_frame[OF iu(7) wf(2) same] el src]
    by (intro exI[of _ e'] exI[of _ v] exI[of _ ?F]) (auto simp: pp more(2,3) e)
qed

lemma kernel_map_kept:
  fixes s t u :: "'a fsboot_scheme"
  assumes st: "boot_stage s kroot ps ms t" and N: "page_aligned (free_ram_end s)" and csr: "csr u = csr t"
    and out: "\<And>a. \<not> in_pages a ps \<Longrightarrow> mem u a = mem t a"
  shows "mmu_translate u acc va = (if va < free_ram_end s then Some va else None)"
proof -
  define n where "n = unat (free_ram_end s) div 4096"
  have k: "active_table u kroot" "pt_wf (mem t) kroot" "ident_upto (mem t) kroot n" "pt_pages (mem t) kroot \<inter> set ps = {}"
    using st by (simp_all add: boot_stage_def n_def active_table_def csr)
  have al: "page_aligned kroot" "kroot \<in> pt_pages (mem t) kroot" using k(2) by (simp_all add: pt_wf_def pt_pages_def)
  have "\<forall>a. page_base a \<in> pt_pages (mem t) kroot \<longrightarrow> mem u a = mem t a" "\<forall>a. page_base a = kroot \<longrightarrow> mem u a = mem t a"
    using k(4) al(2) by (blast intro: out)+
  note c = pt_cong[OF al(1) this(1)] pt_root_cong[OF al(1) this(2)]
  have "mmu_translate u acc va = (if unat va div 4096 < n then Some va else None)"
    by (rule ident_upto_translate[OF k(1)]) (use k(2,3) c in \<open>simp_all add: ident_upto_def\<close>)
  moreover have "unat (free_ram_end s) = 4096 * n" using N by (simp add: n_def page_aligned_def mod_0_imp_dvd)
  then have "unat va div 4096 < n \<longleftrightarrow> va < free_ram_end s" by (simp add: word_less_nat_alt div_less_iff_less_mult mult.commute)
  ultimately show ?thesis by simp
qed

section \<open>The whole of \<open>kernel_main\<close>\<close>

text \<open>What is there when the first process is about to run: the free pages that are left, with the one at the start of free memory, on which the boot
  stack lies, and the kernel's identity map.\<close>

lemma kernel_main_boots:
  fixes s :: "'a fsboot_scheme"
  assumes ram: "free_ram_ok s" "kmem_head s = 0" and tab: "length (procs s) = NUM_PROCESSES" and dev: "uart_live s" "disk_identifies s"
    and room: "2 * boot_tables s + 2 * n + 10 \<le> free_ram_count s" and disk: "disk_serves s disk"
    and fs: "fs_arrays_below s (free_ram_begin s)" "filesystem_files s = replicate MAX_FS_FILES blank_file"
    and tar: "unat (vio_config s * 512 div 512) \<le> 2 ^ 32" "tar_at disk (unat (vio_config s * 512 div 512)) 0 0 ms"
    and prog: "2 < length ms" "program_file (fs_data 2 s) (snd (ms ! 2)) (set (boot_pages s)) n"
  shows "\<exists>root tf stk F qs t e v. kernel_main s = Inr (0, t) \<and> ktrap_resume t = Inr (e, v) \<and>
    ue_pc e = eh_entry (elf_header_at (mem v) (fs_data 2 s)) \<and> ue_regs e TF_sp = VA_USER_STACK_INIT \<and> active_table v root \<and>
    address_space (mem v) (fs_data 2 s) (unat (free_ram_end s) div 4096) root tf stk F (mem v) \<and>
    F \<subseteq> set (boot_pages s) - pt_pages (mem v) root - {tf, stk} \<and> csr v Stvec = sym_addr s Sym_uservec \<and>
    (\<forall>r. r \<notin> {Sstatus, Satp, Stvec, Sepc} \<longrightarrow> csr v r = csr s r) \<and> plic_writes v = plic_writes (PlicInitHart (PlicInit s)) \<and>
    fs_base v = fs_base s \<and> (\<forall>i < length ms. file_loaded v i (ms ! i)) \<and> current v = 0 \<and> pid (cur v) = 1 \<and> proc_state (cur v) = RUNNABLE \<and>
    (\<forall>i < NUM_PROCESSES. i \<noteq> 0 \<longrightarrow> proc_state (procs v ! i) = UNUSED) \<and> kmem_pages t qs \<and> free_ram_begin s \<in> set qs \<and>
    (\<forall>acc va. mmu_translate t acc va = (if va < free_ram_end s then Some va else None))"
proof -
  define ps where "ps = drop (boot_tables s + 4) (boot_pages s)"
  from boot_files_stage[OF ram tab dev _ disk fs tar] room obtain t where t:
    "kernel_main s = kbind (kproc_create (fs_data 2 t) t) (\<lambda>(_, s). kproc_scheduler 0 s)" "boot_stage s (hd (boot_pages s)) ps ms t"
    unfolding ps_def by auto
  have al: "page_aligned (free_ram_end s)" using ram(1) by (simp add: free_ram_ok_def)
  have sub: "set ps \<subseteq> set (boot_pages s)" "boot_tables s + 2 * n + 5 < length ps" using room by (simp_all add: ps_def set_drop_subset)
  have low: "\<forall>p \<in> set ps. free_ram_begin s \<le> p" using sub(1) ram_pages_iff[OF ram(1)] by (auto simp: boot_pages_def)
  from first_process[OF t(2) dev(1) al sub(1) prog less_imp_le[OF sub(2)]] obtain root tf stk k u where
    u: "kernel_main s = Inr (0, u\<lparr>current := 0\<rparr>)" "elf_loadable (mem t) (fs_data 2 s) (set ps)" "k \<le> boot_tables s + 2 * n + 5"
    "image_of 0 (fs_data 2 s) ps (proc_upd 0 (\<lambda>p. p\<lparr>proc_state := RUNNABLE, pid := 1\<rparr>) t) root tf stk k u"
    unfolding t(1) by blast
  from boot_to_user[OF t(2) u(2) low fs(1) tar(2) u(4)] obtain e v F h where v: "ktrap_resume (u\<lparr>current := 0\<rparr>) = Inr (e, v)"
    "ue_pc e = eh_entry (elf_header_at (mem v) (fs_data 2 s))" "ue_regs e TF_sp = VA_USER_STACK_INIT" "active_table v root"
    "address_space (mem v) (fs_data 2 s) (unat (free_ram_end s) div 4096) root tf stk F (mem v)" "F \<subseteq> set ps - pt_pages (mem v) root - {tf, stk}"
    "csr v Stvec = sym_addr s Sym_uservec" "current v = 0" "fs_base v = fs_base s" "\<forall>i < length ms. file_loaded v i (ms ! i)"
    "\<forall>r. r \<notin> {Sstatus, Satp, Stvec, Sepc} \<longrightarrow> csr v r = csr t r" "plic_writes v = plic_writes t"
    "procs v = (procs t)[0 := (image_block root tf ((procs t ! 0)\<lparr>proc_state := RUNNABLE, pid := 1\<rparr>))\<lparr>free_heap_page := h, user_stack := stk\<rparr>]" by blast
  have pt: "procs t = map (\<lambda>i. init_proc (proc_array_base s) i (procs s ! i)) [0..<NUM_PROCESSES]" "plic_writes t = plic_writes (PlicInitHart (PlicInit s))"
    "\<forall>r. r \<notin> {Sstatus, Satp, Stvec} \<longrightarrow> csr t r = csr s r" using t(2) by (simp_all add: boot_stage_def)
  have "pid (cur v) = 1" "proc_state (cur v) = RUNNABLE" "\<forall>i < NUM_PROCESSES. i \<noteq> 0 \<longrightarrow> proc_state (procs v ! i) = UNUSED"
    by (simp_all add: cur_def v(8,13) pt(1) NUM_PROCESSES_def image_block_def init_proc_def)
  moreover have "csr u = csr t" "\<And>a. \<not> in_pages a ps \<Longrightarrow> mem u a = mem t a"
    using u(4) rest_same_simps(5)[of _ u] by (auto simp: image_of_def)
  then have "\<forall>acc va. mmu_translate (u\<lparr>current := 0\<rparr>) acc va = (if va < free_ram_end s then Some va else None)"
    by (intro allI kernel_map_kept[OF t(2) al]) simp_all
  moreover have "kmem_pages (u\<lparr>current := 0\<rparr>) (drop k ps)" using u(4) by (simp add: image_of_def pt_ok_def kmem_pages_def)
  moreover have "free_ram_begin s \<in> set (drop k ps)" 
    using last_in_set[of "drop k ps"] boot_pages_last[OF ram(1)] u(3) sub(2) room by (simp add: ps_def)
  moreover have "\<forall>r. r \<notin> {Sstatus, Satp, Stvec, Sepc} \<longrightarrow> csr v r = csr s r" "plic_writes v = plic_writes (PlicInitHart (PlicInit s))"
    using v(11,12) pt(2,3) by simp_all
  moreover have "F \<subseteq> set (boot_pages s) - pt_pages (mem v) root - {tf, stk}" using v(6) sub(1) by blast
  ultimately show ?thesis using u(1) v(1-5,7-10)
    by - (rule exI[of _ root], rule exI[of _ tf], rule exI[of _ stk], rule exI[of _ F], rule exI[of _ "drop k ps"], rule exI[of _ "u\<lparr>current := 0\<rparr>"],
      rule exI[of _ e], rule exI[of _ v], intro conjI; assumption)
qed

section \<open>Property\<close>

text \<open>
  C1: From power-on to user mode. On a machine with the memory layout of the linker script, enough memory, a console, a disk that serves the notifications it gets,
  and a disk that holds a tar archive whose third member is a program, the first instructions, \<open>start_setup\<close> and \<open>kernel_main\<close> in supervisor mode bring up every
  component and give the processor to the first process, and that process enters user mode at the entry point
  of the program: its page table is active and maps every segment of the file with its bytes, the stack, the trap frame and the kernel, and traps lead to
  \<open>uservec\<close>. All traps are delegated to supervisor mode, its interrupts are enabled, and the interrupt controller delivers exactly the interrupt of the console.
  Every file of the archive is in the file table; the process has id 1 and every other slot is unused; while the kernel ran, every address
  below the end of memory was mapped to itself, and the page on which the first instructions put the stack has not been handed out.
\<close>

theorem kernel_boots_program:
  fixes s :: "'a fsboot_scheme"
  assumes ld: "kernel_ld dot = (stack, free_ram_begin s, free_ram_end s)" and ram: "free_ram_ok s" "kmem_head s = 0"
    and tab: "length (procs s) = NUM_PROCESSES" and dev: "uart_live s" "disk_identifies s" "disk_serves s disk" "plic_writes s = []"
    and room: "2 * boot_tables s + 2 * n + 10 \<le> free_ram_count s"
    and fs: "fs_arrays_below s (free_ram_begin s)" "filesystem_files s = replicate MAX_FS_FILES blank_file"
    and tar: "unat (vio_config s * 512 div 512) \<le> 2 ^ 32" "tar_at disk (unat (vio_config s * 512 div 512)) 0 0 ms"
    and prog: "2 < length ms" "program_file (fs_data 2 s) (snd (ms ! 2)) (set (boot_pages s)) n"
  shows "\<exists>root tf stk F qs r t e v. power_on stack r0 s = Inr (0, t) \<and> ktrap_resume t = Inr (e, v) \<and>
    ue_pc e = eh_entry (elf_header_at (mem v) (fs_data 2 s)) \<and> ue_regs e TF_sp = VA_USER_STACK_INIT \<and> active_table v root \<and>
    address_space (mem v) (fs_data 2 s) (unat (free_ram_end s) div 4096) root tf stk F (mem v) \<and>
    F \<subseteq> set (boot_pages s) - pt_pages (mem v) root - {tf, stk} \<and> csr v Stvec = sym_addr s Sym_uservec \<and>
    csr v Medeleg = -1 \<and> csr v Mideleg = -1 \<and> csr v Sie AND 0x222 = 0x222 \<and> (\<forall>irq < 32. plic_delivers irq v \<longleftrightarrow> irq = 10) \<and>
    fs_base v = fs_base s \<and> (\<forall>i < length ms. file_loaded v i (ms ! i)) \<and> current v = 0 \<and> pid (cur v) = 1 \<and> proc_state (cur v) = RUNNABLE \<and>
    (\<forall>i < NUM_PROCESSES. i \<noteq> 0 \<longrightarrow> proc_state (procs v ! i) = UNUSED) \<and>
    (\<forall>acc va. mmu_translate t acc va = (if va < free_ram_end s then Some va else None)) \<and>
    exec (entry_code stack) (r0, s) = Inr (r, s) \<and> kmem_pages t qs \<and> page_base (r R_sp - 1) \<in> set qs"
proof -
  define r where "r = r0(R_sp := stack + 4096, R_t0 := 4096)"
  have run: "exec (entry_code stack) (r0, s) = Inr (r, s)" by (simp add: entry_code_def set_reg_def r_def fun_upd_twist)
  note k = kernel_ld_symbols[OF ld]
  have "r R_sp - 1 = free_ram_begin s + of_nat 4095" by (simp add: r_def k(1))
  then have top: "page_base (r R_sp - 1) = free_ram_begin s" using page_base_add[OF k(3), of 4095] by (simp add: add.commute)
  from start_setup_enters_supervisor[of s] obtain s1 where s1: "start_setup s = ((Supervisor_mode, sym_addr s Sym_kernel_main), s1)"
    "s1 = s\<lparr>csr := csr s1\<rparr>" "csr s1 Medeleg = -1" "csr s1 Mideleg = -1" "csr s1 Sie AND 0x222 = 0x222" by blast
  define c where "c = csr s1"
  have e: "s1 = s\<lparr>csr := c\<rparr>" using s1(2) by (simp add: c_def)
  have eq: "free_ram_ok s1 = free_ram_ok s" "kmem_head s1 = kmem_head s" "procs s1 = procs s" "uart_live s1 = uart_live s" "disk_identifies s1 = disk_identifies s"
    "disk_serves s1 disk = disk_serves s disk" "boot_tables s1 = boot_tables s" "free_ram_count s1 = free_ram_count s" "free_ram_begin s1 = free_ram_begin s"
    "fs_arrays_below s1 b = fs_arrays_below s b" "filesystem_files s1 = filesystem_files s" "vio_config s1 = vio_config s" "fs_data i s1 = fs_data i s"
    "boot_pages s1 = boot_pages s" "free_ram_end s1 = free_ram_end s" "sym_addr s1 = sym_addr s" "fs_base s1 = fs_base s" "plic_writes s1 = []" for b i
    using dev(4) by (simp_all add: e free_ram_ok_def uart_live_def disk_identifies_def disk_serves_def boot_tables_def free_ram_count_def fs_arrays_below_def fs_data_def boot_pages_def)
  have po: "power_on stack r0 s = kernel_main s1" using run s1(1) by (simp add: power_on_def eq)
  have irq: "plic_delivers irq v \<longleftrightarrow> irq = 10" if "irq < 32" "plic_writes v = plic_writes (PlicInitHart (PlicInit s1))" for irq and v :: "'a fsboot_scheme"
    using plic_delivers_cong[OF that(2)] plic_init_delivers[OF that(1) eq(18)] by simp
  from kernel_main_boots[of s1 n disk ms, unfolded eq] assms obtain root tf stk F qs t e v where t: "kernel_main s1 = Inr (0, t)" "ktrap_resume t = Inr (e, v)"
    "ue_pc e = eh_entry (elf_header_at (mem v) (fs_data 2 s))" "ue_regs e TF_sp = VA_USER_STACK_INIT" "active_table v root"
    "address_space (mem v) (fs_data 2 s) (unat (free_ram_end s) div 4096) root tf stk F (mem v)"
    "F \<subseteq> set (boot_pages s) - pt_pages (mem v) root - {tf, stk}" "csr v Stvec = sym_addr s Sym_uservec"
    "\<forall>r. r \<notin> {Sstatus, Satp, Stvec, Sepc} \<longrightarrow> csr v r = csr s1 r" "plic_writes v = plic_writes (PlicInitHart (PlicInit s1))"
    "fs_base v = fs_base s" "\<forall>i < length ms. file_loaded v i (ms ! i)" "current v = 0" "pid (cur v) = 1" "proc_state (cur v) = RUNNABLE"
    "\<forall>i < NUM_PROCESSES. i \<noteq> 0 \<longrightarrow> proc_state (procs v ! i) = UNUSED" "kmem_pages t qs" "free_ram_begin s \<in> set qs"
    "\<forall>acc va. mmu_translate t acc va = (if va < free_ram_end s then Some va else None)" by blast
  have "csr v Medeleg = -1" "csr v Mideleg = -1" "csr v Sie AND 0x222 = 0x222" using t(9) s1(3-5) by simp_all
  moreover have "\<forall>irq < 32. plic_delivers irq v \<longleftrightarrow> irq = 10" using irq t(10) by blast
  moreover have "page_base (r R_sp - 1) \<in> set qs" unfolding top by (rule t(18))
  ultimately show ?thesis using t(1-8,11-17,19) run unfolding po
    by - (rule exI[of _ root], rule exI[of _ tf], rule exI[of _ stk], rule exI[of _ F], rule exI[of _ qs], rule exI[of _ r], rule exI[of _ t],
      rule exI[of _ e], rule exI[of _ v], intro conjI; assumption)
qed

text \<open>A machine whose kernel image ends at \<^verbatim>\<open>0x831FF000\<close> and a disk of four sectors: two empty files and a program of three bytes for address \<open>0xC0000000\<close>.\<close>

definition prog_byte :: "nat \<Rightarrow> u8" where
  "prog_byte k = (if k = 27 \<or> k = 63 then 0xC0 else if k = 28 then 52 else if k = 44 then 1 else if k = 56 then 84 else if k = 72 then 3
     else if k = 84 then 7 else if k = 85 then 8 else if k = 86 then 9 else 0)"

definition boot_disk :: "u64 \<Rightarrow> u32 \<Rightarrow> u8" where
  "boot_disk sec k = (if sec = 3 then prog_byte (unat k) else if k = 0 then 97 + ucast sec
     else if 124 \<le> k \<and> k < 135 then octal (if sec = 2 then 87 else 0) ! unat (k - 124) else 0)"

definition boot_static :: fsboot where
  "boot_static = fsboot_static\<lparr>free_ram_begin := 0x83200000, free_ram_end := 0x87200000, kmem_head := 0, fs_base := 0x80100000,
     fs_buffer := 0x80080000, vio_config := 4, vio_log := [], vio_dma := slow_disk boot_disk,
     vio_reg := \<lambda>h r. if r = VIRTIO_MMIO_MAGIC_VALUE then 0x74726976 else if r = VIRTIO_MMIO_VERSION then 1
       else if r = VIRTIO_MMIO_DEVICE_ID then 2 else rg_status (vio_regs_of h)\<rparr>"

abbreviation boot_archive :: "(u8 list \<times> u8 list) list" where
  "boot_archive \<equiv> [([97], []), ([98], []), ([99], map prog_byte [0..<87])]"

lemma boot_header: "c < 3 \<Longrightarrow> tar_header_at boot_disk c [97 + of_nat c] (if c = 2 then 87 else 0)"
proof -
  assume "c < 3"
  then have c: "c = 0 \<or> c = 1 \<or> c = 2" by auto
  have "(124 + of_nat k :: u32) \<noteq> 0" if "k < 11" for k using that of_nat32_inj[of "124 + k" 0] by simp
  then show ?thesis using c
    by (elim disjE) (simp_all add: tar_header_at_def boot_disk_def word_less_nat_alt word_le_nat_alt unat_word_ariths)
qed

lemma boot_disk_tar: "tar_at boot_disk 4 0 0 boot_archive"
proof -
  have "tar_data_at boot_disk 3 (map prog_byte [0..<87])"
    by (auto simp: tar_data_at_def boot_disk_def)
  then show ?thesis using boot_header[of 0] boot_header[of 1] boot_header[of 2]
    by (simp add: MAX_FS_FILES_def MAX_FILESIZE_def sectors_def tar_data_at_def[of _ _ "[]"] flip: numeral_2_eq_2 numeral_3_eq_3)
qed

lemma boot_static_ok:
  "free_ram_ok boot_static" "kmem_head boot_static = 0" "length (procs boot_static) = NUM_PROCESSES" "uart_live boot_static" "disk_identifies boot_static"
  "fs_arrays_below boot_static (free_ram_begin boot_static)" "filesystem_files boot_static = replicate MAX_FS_FILES blank_file"
  "free_ram_count boot_static = 16384" "boot_tables boot_static = 541" "fs_data 2 boot_static = 0x80900140" "vio_config boot_static = 4"
  "disk_serves boot_static boot_disk" "kernel_ld 0x831FEEEE = (0x83200000, free_ram_begin boot_static, free_ram_end boot_static)" "plic_writes boot_static = []"
proof -
  show "kernel_ld 0x831FEEEE = (0x83200000, free_ram_begin boot_static, free_ram_end boot_static)" by (simp add: boot_static_def kernel_ld_def ld_align_def)
  show "plic_writes boot_static = []" by (simp add: boot_static_def fsboot_static_def virtio_static_def trap_static_def plic.defs virtio.defs fsboot.defs filesystem.defs)
  show "free_ram_ok boot_static" "kmem_head boot_static = 0" "filesystem_files boot_static = replicate MAX_FS_FILES blank_file"
    "free_ram_count boot_static = 16384" "boot_tables boot_static = 541" "vio_config boot_static = 4"
    by (simp_all add: boot_static_def free_ram_ok_def page_aligned_def free_ram_count_def boot_tables_def tables_for_def)
  show "fs_data 2 boot_static = 0x80900140" by (simp add: boot_static_def fs_data_def MAX_FILESIZE_def)
  show "disk_serves boot_static boot_disk" by (rule slow_disk_serves) (simp add: boot_static_def)
  show "uart_live boot_static" using fsboot_static_ready(1) by (simp add: boot_static_def fs_ready_def uart_live_def)
  show "disk_identifies boot_static"
    by (simp add: boot_static_def disk_identifies_def VIRTIO_MMIO_MAGIC_VALUE_def VIRTIO_MMIO_VERSION_def
        VIRTIO_MMIO_DEVICE_ID_def VIRTIO_MMIO_STATUS_def VIRTIO_STATUS_FEATURES_OK_def)
  show "fs_arrays_below boot_static (free_ram_begin boot_static)"
    by (simp add: fs_arrays_below_def boot_static_def FS_AREA_def MAX_FS_FILES_def MAX_FILESIZE_def)
  show "length (procs boot_static) = NUM_PROCESSES"
    by (simp add: boot_static_def fsboot_static_def virtio_static_def plic.defs virtio.defs fsboot.defs NUM_PROCESSES_def)
qed

lemma boot_ram_page: "page_base a \<in> set (boot_pages boot_static) \<Longrightarrow> 0x83200000 \<le> a"
  using boot_pages_byte[OF boot_static_ok(1), of a] by (simp add: boot_static_def)

lemma boot_program:
  assumes "\<forall>k < 87. m (0x80900140 + of_nat k) = prog_byte k"
  shows "elf_count m 0x80900140 = 1" "eh_phoff (elf_header_at m 0x80900140) = 52" "eh_entry (elf_header_at m 0x80900140) = 0xC0000000"
    "header_of m 0x80900140 0 = \<lparr>ph_type = 0, ph_offset = 84, ph_vaddr = 0xC0000000, ph_paddr = 0, ph_filesz = 0, ph_memsz = 3, ph_flags = 0, ph_align = 0\<rparr>"
proof -
  have mk: "k < 87 \<Longrightarrow> m (0x80900140 + of_nat k) = prog_byte k" for k using assms by simp
  note v = mk[of 24] mk[of 25] mk[of 26] mk[of 27] mk[of 28] mk[of 29] mk[of 30] mk[of 31] mk[of 44] mk[of 45] mk[of 52] mk[of 53] mk[of 54] mk[of 55]
      mk[of 56] mk[of 57] mk[of 58] mk[of 59] mk[of 60] mk[of 61] mk[of 62] mk[of 63] mk[of 64] mk[of 65] mk[of 66] mk[of 67] mk[of 68] mk[of 69]
      mk[of 70] mk[of 71] mk[of 72] mk[of 73] mk[of 74] mk[of 75] mk[of 76] mk[of 77] mk[of 78] mk[of 79] mk[of 80] mk[of 81] mk[of 82] mk[of 83]
  show o: "eh_phoff (elf_header_at m 0x80900140) = 52" and "elf_count m 0x80900140 = 1" "eh_entry (elf_header_at m 0x80900140) = 0xC0000000"
    using v by (simp_all add: elf_count_def elf_header_at_def load32_def load16_def prog_byte_def)
  show "header_of m 0x80900140 0 = \<lparr>ph_type = 0, ph_offset = 84, ph_vaddr = 0xC0000000, ph_paddr = 0, ph_filesz = 0, ph_memsz = 3, ph_flags = 0, ph_align = 0\<rparr>"
    unfolding header_of_def o using v by (simp add: elf_program_header_at_def load32_def prog_byte_def)
qed

lemma boot_outside: "unat p + n \<le> 0x83200000 \<Longrightarrow> outside p n (set (boot_pages boot_static))"
  unfolding outside_def
proof (intro allI impI notI)
  fix k assume n: "unat p + n \<le> 0x83200000" "k < n" "page_base (p + of_nat k) \<in> set (boot_pages boot_static)"
  then have "unat (p + of_nat k) = unat p + k" using unat_of_nat32[of k] by (simp add: unat_word_ariths)
  then show False using n boot_ram_page[OF n(3)] by (simp add: word_le_nat_alt)
qed

lemma boot_program_file: "program_file (fs_data 2 boot_static) (snd (boot_archive ! 2)) (set (boot_pages boot_static)) 1"
  unfolding program_file_def boot_static_ok(10)
proof (intro allI impI)
  fix m :: "addr \<Rightarrow> u8"
  assume "\<forall>k < length (snd (boot_archive ! 2)). m (0x80900140 + of_nat k) = snd (boot_archive ! 2) ! k"
  then have "\<forall>k < 87. m (0x80900140 + of_nat k) = prog_byte k" by (simp add: numeral_2_eq_2)
  note h = boot_program[OF this]
  have "page_base (0xC0000000 + of_nat x) = 0xC0000000" if "x < 4096" for x
    by (rule page_base_add) (use that in \<open>simp_all add: page_aligned_def\<close>)
  then have "seg_vas (header_of m 0x80900140 0) \<subseteq> {0xC0000000}" by (auto simp: seg_vas_def h(4) seg_pages_def)
  moreover have "VA_TRAPFRAME \<noteq> 0xC0000000" "VA_USER_STACK \<noteq> 0xC0000000"
    by (simp_all add: VA_TRAPFRAME_def VA_USER_STACK_def VA_USER_STACK_INIT_def VA_MAX_def PAGE_SIZE_def)
  ultimately have "elf_loadable m 0x80900140 (set (boot_pages boot_static))"
    by (auto simp: elf_loadable_def Let_def h page_aligned_def boot_outside)
  then show "elf_loadable m 0x80900140 (set (boot_pages boot_static)) \<and> elf_pages m 0x80900140 (elf_count m 0x80900140) \<le> 1"
    by (simp add: elf_pages_def h seg_pages_def)
qed

theorem kernel_boots_program_witness:
  "\<exists>root t e v fr. power_on 0x83200000 (\<lambda>_. 0) boot_static = Inr (0, t) \<and> ktrap_resume t = Inr (e, v) \<and> ue_pc e = 0xC0000000 \<and> active_table v root \<and>
     pt_entry (mem v) root 768 0 = Some (leaf_pte fr PTE_URWX) \<and> mem v (fr + 2) = 9"
proof -
  have n: "unat (vio_config boot_static * 512 div 512) = 4" by (simp add: boot_static_ok(11))
  have "2 * boot_tables boot_static + 2 * 1 + 10 \<le> free_ram_count boot_static" "unat (vio_config boot_static * 512 div 512) \<le> 2 ^ 32"
    "tar_at boot_disk (unat (vio_config boot_static * 512 div 512)) 0 0 boot_archive" "2 < length boot_archive"
    unfolding n by (simp_all add: boot_static_ok(8,9) boot_disk_tar del: tar_at.simps)
  from kernel_boots_program[OF boot_static_ok(13,1-5,12,14) this(1) boot_static_ok(6,7) this(2-4) boot_program_file, of "\<lambda>_. 0"]
  obtain root tf stk F t e v where t: "power_on 0x83200000 (\<lambda>_. 0) boot_static = Inr (0, t)" "ktrap_resume t = Inr (e, v)"
    "ue_pc e = eh_entry (elf_header_at (mem v) (fs_data 2 boot_static))" "active_table v root"
    "address_space (mem v) (fs_data 2 boot_static) (unat (free_ram_end boot_static) div 4096) root tf stk F (mem v)"
    "fs_base v = fs_base boot_static" "\<forall>i < length boot_archive. file_loaded v i (boot_archive ! i)" by blast
  have d: "fs_data 2 v = 0x80900140" using boot_static_ok(10) t(6) by (simp add: fs_data_def)
  have "file_loaded v 2 ([99], map prog_byte [0..<87])" using t(7)[rule_format, of 2] by simp
  then have "file_bytes 2 v = map prog_byte [0..<87]" "unat (fs_size (filesystem_files v ! 2)) = 87" by (simp_all add: file_loaded_def)
  then have "map (\<lambda>k. mem v (0x80900140 + of_nat k)) [0..<87] = map prog_byte [0..<87]" by (simp only: file_bytes_def d)
  then have m: "\<forall>k < 87. mem v (0x80900140 + of_nat k) = prog_byte k" by simp
  note h = boot_program[OF m]
  have "seg_at root F (mem v) 0x80900140 (header_of (mem v) 0x80900140 0) (mem v)"
    using t(5) h(1) unfolding boot_static_ok(10) address_space_def by simp
  from this[unfolded seg_at_def, rule_format, of 2] obtain fr where "pt_entry (mem v) root 768 0 = Some (leaf_pte fr PTE_URWX)" "mem v (fr + 2) = mem v (0x80900140 + of_nat 86)"
    by (auto simp: h(4) seg_pages_def vpn_div)
  moreover have "mem v (0x80900140 + of_nat 86) = 9" using m by (simp only: prog_byte_def) simp
  ultimately show ?thesis using t(1-4) h(3) unfolding boot_static_ok(10)
    by (intro exI[of _ root] exI[of _ t] exI[of _ e] exI[of _ v] exI[of _ fr]) simp
qed

end
