(* ===== verification/Kheap.thy ===== *)
theory Kheap
  imports Kexec_Image Kproc_Inv
begin

text \<open>
  The heap of a process: \<open>kproc_add_page\<close> of \<^verbatim>\<open>src/kernel/kproc.c\<close>, the system call \<open>sbrk\<close>, and what it does to a process that
  \<open>kproc_create\<close> has just made.
\<close>

section \<open>One more page\<close>

abbreviation PTE_URW :: u32 where
  "PTE_URW \<equiv> PTE_R OR PTE_W OR PTE_U"

text \<open>Page \<open>fr\<close> is mapped at \<open>va\<close>, blank, and everything else is as before.\<close>

definition heap_page_added :: "addr \<Rightarrow> u32 \<Rightarrow> addr \<Rightarrow> addr list \<Rightarrow> 'a kproc_scheme \<Rightarrow> 'a kproc_scheme \<Rightarrow> bool" where
  "heap_page_added root va fr qs s t \<longleftrightarrow> (\<exists>n \<le> 1. pt_ok t root (drop n qs)) \<and> fr \<notin> pt_pages (mem t) root \<and>
     (\<forall>x < 4096. mem t (fr + of_nat x) = 0) \<and>
     (\<forall>wa. pt_entry (mem t) root (vpn1 wa) (vpn0 wa) =
        (if page_base wa = page_base va then Some (leaf_pte fr PTE_URW) else pt_entry (mem s) root (vpn1 wa) (vpn0 wa))) \<and>
     (\<forall>a. page_base a \<notin> pt_pages (mem s) root \<union> set (fr # qs) \<longrightarrow> mem t a = mem s a) \<and>
     current t = current s \<and> kproc.more t = kproc.more s \<and>
     procs t = (procs s)[current s := (cur s)\<lparr>free_heap_page := free_heap_page (cur s) + 4096\<rparr>]"

lemma add_page_ok:
  fixes s :: "'a kproc_scheme"
  assumes root: "pagetable (cur s) = root" and ok: "pt_ok s root (fr # qs)" and room: "qs \<noteq> []"
  shows "\<exists>t. kproc_add_page s = Inr (free_heap_page (cur s), t) \<and> heap_page_added root (free_heap_page (cur s)) fr qs s t"
proof -
  let ?va = "free_heap_page (cur s)"
  obtain s1 where s1: "kmem_alloc s = Inr (fr, s1)" "kmem_frame s s1" "\<And>a. mem s1 a = (if page_base a = fr then 0 else mem s a)"
    and mp: "\<And>m. (\<And>a. page_base a \<noteq> fr \<Longrightarrow> m a = mem s a) \<Longrightarrow>
       \<exists>t new. kvmem_map_page root ?va fr PTE_URW (s1\<lparr>mem := m\<rparr>) = Inr t \<and> frame_mapped root fr qs ?va PTE_URW new m s t"
    using alloc_map_page[OF ok room, of ?va PTE_URW] by blast
  from mp[of "mem s1"] s1(3) obtain u new where u: "kvmem_map_page root ?va fr PTE_URW s1 = Inr u" and fm: "frame_mapped root fr qs ?va PTE_URW new (mem s1) s u" by auto
  note k1 = kmem_frame_kproc[OF s1(2)]
  have fu: "kmem_frame s u" and new: "length new \<le> 1" "set new \<subseteq> set qs" using fm set_take_subset[of "length new" qs] by (auto simp: frame_mapped_def)
  have un: "fr \<notin> pt_pages (mem u) root" "pt_ok u root (drop (length new) qs)" "\<And>a. page_base a \<notin> pt_pages (mem s) root \<union> set new \<Longrightarrow> mem u a = mem s1 a"
    "pt_pages (mem u) root = pt_pages (mem s) root \<union> set new" using fm unfolding frame_mapped_def by blast+
  note ku = kmem_frame_kproc[OF fu]
  let ?t = "proc_upd (current u) (\<lambda>p. p\<lparr>free_heap_page := free_heap_page p + PAGE_SIZE\<rparr>) u"
  have run: "kproc_add_page s = Inr (?va, ?t)" using s1(1) u k1(6) root by (simp add: kproc_add_page_def)
  have al: "page_aligned fr" using ok by (simp add: pt_ok_def kmem_pages_def)
  have "heap_page_added root ?va fr qs s ?t" unfolding heap_page_added_def
  proof (intro conjI allI impI)
    show "\<exists>n \<le> 1. pt_ok ?t root (drop n qs)" using un(2) new(1) by (intro exI[of _ "length new"]) (simp add: pt_ok_def kmem_pages_def)
  next
    show "fr \<notin> pt_pages (mem ?t) root" using un(1) by simp
  next
    fix x :: nat assume "x < 4096"
    then show "mem ?t (fr + of_nat x) = 0" using un(1,3,4) s1(3) page_base_add[OF al, of x] by simp
  next
    fix wa show "pt_entry (mem ?t) root (vpn1 wa) (vpn0 wa) =
        (if page_base wa = page_base ?va then Some (leaf_pte fr PTE_URW) else pt_entry (mem s) root (vpn1 wa) (vpn0 wa))"
      using frame_mapped_va[OF fm, of wa] by simp
  next
    fix a assume "page_base a \<notin> pt_pages (mem s) root \<union> set (fr # qs)"
    then show "mem ?t a = mem s a" using un(3)[of a] s1(3)[of a] new(2) by auto
  qed (use ku in \<open>simp_all add: cur_def PAGE_SIZE_def\<close>)
  with run show ?thesis by blast
qed

section \<open>The heap of a new process\<close>

text \<open>\<open>kproc_create\<close> does not move the next page of the heap.\<close>

lemma heap_page_upd: "(\<And>p. free_heap_page (f p) = free_heap_page p) \<Longrightarrow> free_heap_page (procs (proc_upd k f s) ! i) = free_heap_page (procs s ! i)"
  by (cases "k < length (procs s)"; cases "k = i") (simp_all add: list_update_beyond)

interpretation heap_start: loader_property "\<lambda>s. free_heap_page (procs s ! i) = h" False for i h
proof
  show "kmem_frame s t \<Longrightarrow> (free_heap_page (procs t ! i) = h) = (free_heap_page (procs s ! i) = h)" for s t :: "'a kproc_scheme"
    using kmem_frame_kproc(1)[of s t] by simp
  show "uart_dev.more s = uart_dev.more t \<Longrightarrow> (free_heap_page (procs s ! i) = h) = (free_heap_page (procs t ! i) = h)" for s t :: "'a kproc_scheme"
    using tab_uart[of s t] by (simp add: tab_def)
qed (simp_all add: heap_page_upd del: proc_upd_simps)

lemma create_heap_page:
  fixes s t :: "'a kproc_scheme"
  assumes "kproc_create eh s = Inr (i, t)"
  shows "free_heap_page (procs t ! i) = free_heap_page (procs s ! i)"
proof -
  obtain k where k: "find_unused s = Some k" using assms kpanic_Inl[of "''kernel/kproc.c''" 49 "''No free PCB for new process''" s]
    by (cases "find_unused s") (auto simp: kproc_create_def)
  define s1 where "s1 = proc_upd k (\<lambda>p. p\<lparr>pid := of_nat k + 1\<rparr>) (proc_upd k (\<lambda>p. p\<lparr>proc_state := RUNNABLE\<rparr>) s)"
  have "free_heap_page (procs s1 ! k) = free_heap_page (procs s ! k)" by (simp add: s1_def heap_page_upd del: proc_upd_simps)
  from heap_start.keeps_setup_image[of False s1 k, OF _ this] have p: "post (setup_image False k eh s1) (\<lambda>r. free_heap_page (procs (snd r) ! k) = free_heap_page (procs s ! k))" by blast
  have "kproc_create eh s = kbind (setup_image False k eh s1) (\<lambda>(_, s). Inr (k, s))" unfolding kproc_create_def k Let_def s1_def by simp
  with assms have "kbind (setup_image False k eh s1) (\<lambda>(_, s). Inr (k, s)) = Inr (i, t)" by metis
  then obtain u where "setup_image False k eh s1 = Inr u" "(case u of (_, s) \<Rightarrow> Inr (k, s)) = (Inr (i, t) :: (nat \<times> 'a kproc_scheme) kres)"
    unfolding kbind_eq_Inr by blast
  with postD[OF p this(1)] show ?thesis by (cases u) simp
qed

section \<open>Properties\<close>

text \<open>
  C16: \<open>sbrk\<close>: \<open>kproc_add_page\<close> returns the address of the next page of the heap and maps there a fresh page of zeros, readable and writable for the
  program. Every other page of the address space stays where it was, no memory outside the page table and the allocator changes, and the heap ends
  a page later.
\<close>

theorem kproc_add_page_correct:
  fixes s :: "'a kproc_scheme"
  assumes "pagetable (cur s) = root" "pt_ok s root (fr # qs)" "qs \<noteq> []"
  shows "\<exists>t. kproc_add_page s = Inr (free_heap_page (cur s), t) \<and> heap_page_added root (free_heap_page (cur s)) fr qs s t"
  by (rule add_page_ok[OF assms])

theorem kproc_add_page_correct_witness:
  "\<exists>t. kproc_add_page kproc_static = Inr (VA_USER_BASE, t) \<and> pt_entry (mem t) 0x80105000 (vpn1 VA_USER_BASE) (vpn0 VA_USER_BASE) = Some (leaf_pte 0x80100000 PTE_URW)"
proof -
  have "pt_ok kproc_static 0x80105000 [0x80100000, 0x80101000, 0x80102000, 0x80103000, 0x80104000]"
    using kvmem_user_ok(1) by (simp add: pt_ok_def kmem_pages_def)
  from kproc_add_page_correct[OF _ this] show ?thesis by (fastforce simp: cur_def blank_process_def heap_page_added_def)
qed

text \<open>
  C35: \<open>kproc_create\<close> maps the program but leaves the heap at the start of user memory, where the program is linked: the first \<open>sbrk\<close> of the process
  replaces the first page of the program, with its entry point, by a blank page that is not executable.
\<close>

theorem sbrk_replaces_program:
  fixes s :: "'a kproc_scheme"
  assumes "find_unused s = Some i" "length (procs s) = NUM_PROCESSES" "uart_live s" "kmem_pages s ps"
    "page_aligned (free_ram_end s)" "elf_loadable (mem s) eh (set ps)"
    "tables_for (unat (free_ram_end s) div 4096) + 2 * elf_pages (mem s) eh (elf_count (mem s) eh) + 7 \<le> length ps"
    "free_heap_page (procs s ! i) = VA_USER_BASE" "k < elf_count (mem s) eh" "ph_vaddr (header_of (mem s) eh k) = VA_USER_BASE" "0 < ph_memsz (header_of (mem s) eh k)"
  shows "\<exists>root fr0 fr t u. kproc_create eh s = Inr (i, t) \<and> kproc_add_page (t\<lparr>current := i\<rparr>) = Inr (VA_USER_BASE, u) \<and>
    pagetable (procs t ! i) = root \<and> pagetable (procs u ! i) = root \<and>
    pt_entry (mem t) root (vpn1 VA_USER_BASE) (vpn0 VA_USER_BASE) = Some (leaf_pte fr0 PTE_URWX) \<and>
    mem t fr0 = mem s (eh + ph_offset (header_of (mem s) eh k)) \<and>
    pt_entry (mem u) root (vpn1 VA_USER_BASE) (vpn0 VA_USER_BASE) = Some (leaf_pte fr PTE_URW) \<and> (\<forall>x < 4096. mem u (fr + of_nat x) = 0)"
proof -
  let ?s = "proc_upd i (\<lambda>p. p\<lparr>proc_state := RUNNABLE, pid := of_nat i + 1\<rparr>) s"
  have "tables_for (unat (free_ram_end s) div 4096) + 2 * elf_pages (mem s) eh (elf_count (mem s) eh) + 5 \<le> length ps" using assms(7) by simp
  from kproc_create_image[OF assms(1-6) this] obtain root tf stk n t where t: "kproc_create eh s = Inr (i, t)" "image_of i eh ps ?s root tf stk n t" by blast
  have i: "i < length (procs s)" using find_unused_Some(1)[OF assms(1)] assms(2) by simp
  have im: "n + 2 \<le> length ps" "pt_ok t root (drop n ps)" "length (procs t) = length (procs s)" "pagetable (procs t ! i) = root"
    "\<exists>F. address_space (mem s) eh (unat (free_ram_end s) div 4096) root tf stk F (mem t)" using t(2) i assms(7) by (auto simp: image_of_def image_block_def)
  obtain fr qs where q: "drop n ps = fr # qs" "qs \<noteq> []" using im(1) by (cases "drop n ps"; cases "tl (drop n ps)") (auto dest: arg_cong[of _ _ length])
  let ?t = "t\<lparr>current := i\<rparr>"
  have c: "cur ?t = procs t ! i" "free_heap_page (cur ?t) = VA_USER_BASE" using create_heap_page[OF t(1)] assms(8) by (simp_all add: cur_def)
  have "pt_ok ?t root (fr # qs)" using im(2) q(1) by (simp add: pt_ok_def kmem_pages_def)
  from add_page_ok[OF _ this q(2)] im(4) c obtain u where u: "kproc_add_page ?t = Inr (VA_USER_BASE, u)" "heap_page_added root VA_USER_BASE fr qs ?t u" by auto
  have "pt_entry (mem u) root (vpn1 VA_USER_BASE) (vpn0 VA_USER_BASE) = Some (leaf_pte fr PTE_URW)" "\<forall>x < 4096. mem u (fr + of_nat x) = 0"
    using u(2) by (simp_all add: heap_page_added_def)
  moreover have "pagetable (procs u ! i) = root" using u(2) im(3,4) i by (simp add: heap_page_added_def cur_def)
  moreover obtain F where "seg_at root F (mem s) eh (header_of (mem s) eh k) (mem t)" using im(5) assms(9) by (auto simp: address_space_def)
  then obtain fr0 where "pt_entry (mem t) root (vpn1 VA_USER_BASE) (vpn0 VA_USER_BASE) = Some (leaf_pte fr0 PTE_URWX)"
    "mem t fr0 = mem s (eh + ph_offset (header_of (mem s) eh k))"
    using assms(10,11) unfolding seg_at_def by (auto simp: seg_pages_eq word_less_nat_alt dest!: spec[of _ 0])
  ultimately show ?thesis using t(1) u(1) im(4) by blast
qed

theorem sbrk_replaces_program_witness:
  "\<exists>root fr0 fr t u. kproc_create 0x80060000 image_static = Inr (1, t) \<and> kproc_add_page (t\<lparr>current := 1\<rparr>) = Inr (VA_USER_BASE, u) \<and>
     pt_entry (mem t) root (vpn1 VA_USER_BASE) (vpn0 VA_USER_BASE) = Some (leaf_pte fr0 PTE_URWX) \<and> mem t fr0 = 7 \<and>
     pt_entry (mem u) root (vpn1 VA_USER_BASE) (vpn0 VA_USER_BASE) = Some (leaf_pte fr PTE_URW) \<and> mem u (fr + of_nat 0) = 0"
proof -
  have "find_unused image_static = Some 1" by (simp add: find_unused_def NUM_PROCESSES_def upt_rec blank_process_def)
  moreover have "length (procs image_static) = NUM_PROCESSES" "page_aligned (free_ram_end image_static)" by (simp_all add: NUM_PROCESSES_def page_aligned_def)
  moreover have "tables_for (unat (free_ram_end image_static) div 4096) + 2 * elf_pages (mem image_static) 0x80060000 (elf_count (mem image_static) 0x80060000) + 7
      \<le> length image_free" unfolding image_loadable(2) by (simp add: tables_for_def ram_pages_def)
  moreover have "free_heap_page (procs image_static ! 1) = VA_USER_BASE" "0 < elf_count (mem image_static) 0x80060000"
    "ph_vaddr (header_of (mem image_static) 0x80060000 0) = VA_USER_BASE" "0 < ph_memsz (header_of (mem image_static) 0x80060000 0)"
    by (simp_all add: blank_process_def image_file VA_USER_BASE_def)
  moreover have "mem image_static (0x80060000 + ph_offset (header_of (mem image_static) 0x80060000 0)) = 7" by (simp add: image_file image_raw_def)
  ultimately show ?thesis using sbrk_replaces_program[OF _ _ image_static_simps(7,10) _ image_loadable(1), of 1 0] by fastforce
qed

end
