(* ===== verification/Kterminal.thy ===== *)
theory Kterminal
  imports Kproc_Inv
begin

text \<open>
  Blocking line input, \<^verbatim>\<open>src/kernel/kterminal.c\<close>, for a buffer in kernel memory. What it stores stays
  inside the buffer, and it reports at most the size of the buffer.
\<close>

definition readline_body ::
  "addr \<Rightarrow> bool \<times> u32 \<times> 'a machine_scheme \<Rightarrow> (bool \<times> u32 \<times> 'a machine_scheme) kres" where
  "readline_body buf = (\<lambda>(fin, bytes, s).
     kbind (uart_getc_block s) (\<lambda>(next_char, s).
     if next_char = of_char (CHR 0x0D) then
       kbind (UartSendBlocking (of_char (CHR 0x0A)) s) (\<lambda>s. Inr (True, bytes, s\<lparr>mem := (mem s)(buf + bytes := 0)\<rparr>))
     else if next_char = of_char (CHR 0x08) then
       if 0 < bytes then
         kbind (UartSendBlocking (of_char (CHR 0x08)) s) (\<lambda>s.
         kbind (UartSendBlocking (of_char (CHR '' '')) s) (\<lambda>s.
         kbind (UartSendBlocking (of_char (CHR 0x08)) s) (\<lambda>s. Inr (False, bytes - 1, s))))
       else Inr (False, bytes, s)
     else
       (let s = s\<lparr>mem := (mem s)(buf + bytes := next_char)\<rparr> in
        kbind (UartSendBlocking next_char s) (\<lambda>s. Inr (False, bytes + 1, s)))))"

definition kterminal_readline_block :: "addr \<Rightarrow> u32 \<Rightarrow> 'a machine_scheme \<Rightarrow> (u32 \<times> 'a machine_scheme) kres" where
  "kterminal_readline_block buf sz s =
     kbind (kwhile (\<lambda>(fin, bytes, s). \<not> fin \<and> bytes < sz) (readline_body buf) (False, 0, s)) (\<lambda>(_, bytes, s). Inr (bytes, s))"

section \<open>Bounds\<close>

text \<open>The bytes stored so far, and nothing but the buffer changed.\<close>

definition line_inv :: "addr \<Rightarrow> u32 \<Rightarrow> 'a machine_scheme \<Rightarrow> bool \<times> u32 \<times> 'a machine_scheme \<Rightarrow> bool" where
  "line_inv buf sz s r \<longleftrightarrow> fst (snd r) \<le> sz \<and> (\<forall>a. sz \<le> a - buf \<longrightarrow> mem (snd (snd r)) a = mem s a)"

lemma uart_more_mem: "uart_dev.more s = uart_dev.more t \<Longrightarrow> mem s = mem t"
  by (cases s, cases t) simp

lemma post_send_mem: "post (UartSendBlocking ch s) (\<lambda>t. mem t = mem s)"
  by (rule post_mono[OF post_uart_send]) (rule uart_more_mem)

lemma post_getc_mem: "post (uart_getc_block s) (\<lambda>r. mem (snd r) = mem s)"
proof -
  have "post (kwhile b (\<lambda>s. Inr (lsr_read s)) s) (\<lambda>t. mem t = mem s)" for b
    by (rule post_kwhile) (simp_all add: lsr_read_def)
  then show ?thesis unfolding uart_getc_block_def wait_lsr_def
    by (intro post_bind[where Q = "\<lambda>t. mem t = mem s"]) (auto simp: lsr_read_def rhr_read_def intro: post_mono)
qed

lemma readline_body_inv:
  assumes "line_inv buf sz s r" "fst (snd r) < sz"
  shows "post (readline_body buf r) (line_inv buf sz s)"
proof -
  obtain fin bytes t where r: "r = (fin, bytes, t)" by (cases r)
  have lt: "bytes < sz" using assms(2) by (simp add: r)
  have le: "bytes + 1 \<le> sz" "0 < bytes \<Longrightarrow> bytes - 1 \<le> sz" using lt by uint_arith+
  have f: "mem t a = mem s a" if "sz \<le> a - buf" for a using assms(1) that by (simp add: line_inv_def r)
  have out: "a \<noteq> buf + bytes" if "sz \<le> a - buf" for a using that lt by auto
  have send: "post (UartSendBlocking c u) (\<lambda>v. mem v = m)" if "mem u = m" for c m and u :: "'a machine_scheme"
    using post_send_mem[of c u] that by simp
  note ok = line_inv_def f out le lt less_imp_le
  show ?thesis unfolding r readline_body_def case_prod_conv
  proof (rule post_bind[OF post_getc_mem], clarify)
    fix c :: u8 and u :: "'a machine_scheme" assume "mem (snd (c, u)) = mem t"
    then have u: "mem u = mem t" by simp
    show "post (if c = of_char (CHR 0x0D) then
       kbind (UartSendBlocking (of_char (CHR 0x0A)) u) (\<lambda>s. Inr (True, bytes, s\<lparr>mem := (mem s)(buf + bytes := 0)\<rparr>))
     else if c = of_char (CHR 0x08) then
       if 0 < bytes then
         kbind (UartSendBlocking (of_char (CHR 0x08)) u) (\<lambda>s.
         kbind (UartSendBlocking (of_char (CHR '' '')) s) (\<lambda>s.
         kbind (UartSendBlocking (of_char (CHR 0x08)) s) (\<lambda>s. Inr (False, bytes - 1, s))))
       else Inr (False, bytes, u)
     else
       (let s = u\<lparr>mem := (mem u)(buf + bytes := c)\<rparr> in
        kbind (UartSendBlocking c s) (\<lambda>s. Inr (False, bytes + 1, s)))) (line_inv buf sz s)"
    proof (intro if_split[where P = "\<lambda>x. post x _", THEN iffD2] conjI impI, goal_cases)
      case 1
      show ?case by (rule post_bind[OF send[OF u]]) (auto simp: ok)
    next
      case 2
      then show ?case by (intro post_bind[OF send[where m = "mem t"]]) (auto simp: ok u)
    next
      case 3
      then show ?case by (auto simp: ok u)
    next
      case 4
      show ?case unfolding Let_def by (rule post_bind[OF send[OF refl]]) (auto simp: ok u)
    qed
  qed
qed

lemma readline_bounds:
  "post (kterminal_readline_block buf sz s) (\<lambda>r. fst r \<le> sz \<and> (\<forall>a. sz \<le> a - buf \<longrightarrow> mem (snd r) a = mem s a))"
proof -
  have "post (kwhile (\<lambda>(fin, bytes, s). \<not> fin \<and> bytes < sz) (readline_body buf) (False, 0, s)) (line_inv buf sz s)"
    by (rule post_kwhile) (auto simp: line_inv_def intro!: readline_body_inv)
  then show ?thesis unfolding kterminal_readline_block_def by (rule post_bind) (auto simp: line_inv_def)
qed

end
