(* ===== verification/Kspinlock.thy ===== *)
theory Kspinlock
  imports Machine
begin

text \<open>
  The spin lock, \<^verbatim>\<open>src/kernel/kspinlock.c\<close>: the four operations, and several harts that use a lock as
  critical sections do. The harts interleave at the atomic test-and-set and at the release; the
  memory barriers of the source order the accesses inside the section, which are not modelled.
\<close>

section \<open>Definitions\<close>

record kspinlock =
  isLocked :: u8
  lock_name :: string

definition kspinlock_init :: "string \<Rightarrow> kspinlock \<Rightarrow> kspinlock" where
  "kspinlock_init name lock = lock\<lparr>isLocked := 0, lock_name := name\<rparr>"

text \<open>The builtin \<open>__sync_lock_test_and_set\<close>: stores 1 and returns the old value in one step.\<close>

definition test_and_set :: "kspinlock \<Rightarrow> u8 \<times> kspinlock" where
  "test_and_set lock = (isLocked lock, lock\<lparr>isLocked := 1\<rparr>)"

text \<open>The condition of the loop of \<open>kspinlock_acquire\<close>, with its effect on the lock: whether the loop goes on.\<close>

definition acquire_cond :: "kspinlock \<Rightarrow> bool \<times> kspinlock" where
  "acquire_cond lock = (case test_and_set lock of (old, lock) \<Rightarrow> (old \<noteq> 0, lock))"

definition kspinlock_acquire :: "kspinlock \<Rightarrow> kspinlock kres" where
  "kspinlock_acquire lock =
     kbind (kwhile (\<lambda>(again, lock). again) (\<lambda>(again, lock). Inr (acquire_cond lock)) (acquire_cond lock))
       (\<lambda>(again, lock). Inr lock)"

definition kspinlock_release :: "kspinlock \<Rightarrow> kspinlock" where
  "kspinlock_release lock = lock\<lparr>isLocked := 0\<rparr>"

definition kspinlock_holding :: "kspinlock \<Rightarrow> u8" where
  "kspinlock_holding lock = isLocked lock"

section \<open>One hart\<close>

text \<open>A free lock is taken at once; a hart that finds the lock taken and runs alone spins forever.\<close>

lemma acquire_free: "isLocked lock = 0 \<Longrightarrow> kspinlock_acquire lock = Inr (lock\<lparr>isLocked := 1\<rparr>)"
  by (simp add: kspinlock_acquire_def acquire_cond_def test_and_set_def)

lemma acquire_taken: "isLocked lock \<noteq> 0 \<Longrightarrow> kspinlock_acquire lock = Inl Hang"
  unfolding kspinlock_acquire_def
  by (subst kwhile_diverges[where P = "\<lambda>(again, lock). again \<and> isLocked lock \<noteq> 0"])
    (auto simp: acquire_cond_def test_and_set_def)

section \<open>Several harts\<close>

datatype hart_pc = Outside | Spinning | Inside

record spin_config =
  the_lock :: kspinlock
  hart_pcs :: "nat \<Rightarrow> hart_pc"

text \<open>
  A hart enters \<open>kspinlock_acquire\<close>; evaluates the condition of its loop, which says whether it goes on;
  leaves its critical section through \<open>kspinlock_release\<close>.
\<close>

inductive spin_step :: "spin_config \<Rightarrow> nat \<Rightarrow> spin_config \<Rightarrow> bool" where
  call: "hart_pcs c i = Outside \<Longrightarrow> spin_step c i (c\<lparr>hart_pcs := (hart_pcs c)(i := Spinning)\<rparr>)"
| turn: "hart_pcs c i = Spinning \<Longrightarrow> acquire_cond (the_lock c) = (again, lock) \<Longrightarrow>
    spin_step c i (c\<lparr>the_lock := lock, hart_pcs := (hart_pcs c)(i := if again then Spinning else Inside)\<rparr>)"
| leave: "hart_pcs c i = Inside \<Longrightarrow>
    spin_step c i (c\<lparr>the_lock := kspinlock_release (the_lock c), hart_pcs := (hart_pcs c)(i := Outside)\<rparr>)"

inductive spin_reach :: "spin_config \<Rightarrow> bool" where
  start: "spin_reach \<lparr>the_lock = kspinlock_init name lock, hart_pcs = (\<lambda>_. Outside)\<rparr>"
| step: "spin_reach c \<Longrightarrow> spin_step c i c' \<Longrightarrow> spin_reach c'"

inductive_cases spin_stepE: "spin_step c i c'"

text \<open>Hart \<open>i\<close> runs its call of \<open>kspinlock_acquire\<close> alone: turns of its loop, until it is inside.\<close>

inductive solo_run :: "nat \<Rightarrow> spin_config \<Rightarrow> spin_config \<Rightarrow> bool" for i where
  last: "hart_pcs c i = Spinning \<Longrightarrow> spin_step c i c' \<Longrightarrow> hart_pcs c' i = Inside \<Longrightarrow> solo_run i c c'"
| more: "hart_pcs c i = Spinning \<Longrightarrow> spin_step c i c' \<Longrightarrow> hart_pcs c' i = Spinning \<Longrightarrow> solo_run i c' c'' \<Longrightarrow> solo_run i c c''"

lemma solo_turn:
  assumes "hart_pcs c i = Spinning" "spin_step c i c'"
  shows "the_lock c' = (the_lock c)\<lparr>isLocked := 1\<rparr> \<and> (hart_pcs c' i = Inside \<longleftrightarrow> isLocked (the_lock c) = 0)"
  using assms(2,1) by cases (auto simp: acquire_cond_def test_and_set_def)

text \<open>The interleaved steps are those of the loop: what they reach alone is what \<open>kspinlock_acquire\<close> returns, and nothing when it hangs.\<close>

lemma solo_run_acquire:
  assumes "hart_pcs c i = Spinning"
  shows "(\<exists>c'. solo_run i c c' \<and> the_lock c' = l) \<longleftrightarrow> kspinlock_acquire (the_lock c) = Inr l"
proof (cases "isLocked (the_lock c) = 0")
  case True
  let ?c = "c\<lparr>the_lock := (the_lock c)\<lparr>isLocked := 1\<rparr>, hart_pcs := (hart_pcs c)(i := Inside)\<rparr>"
  have st: "spin_step c i ?c"
    using turn[OF assms, of False "(the_lock c)\<lparr>isLocked := 1\<rparr>"] True by (simp add: acquire_cond_def test_and_set_def)
  have "solo_run i c ?c" by (rule solo_run.last[OF assms st]) simp
  moreover have "the_lock c' = (the_lock c)\<lparr>isLocked := 1\<rparr>" if "solo_run i c c'" for c'
    using that by cases (use solo_turn[OF assms] True in auto)
  ultimately show ?thesis using acquire_free[OF True] by fastforce
next
  case False
  have "\<not> solo_run i d d'" if "isLocked (the_lock d) \<noteq> 0" for d d'
  proof
    assume "solo_run i d d'"
    then show False using that by (induction rule: solo_run.induct) (auto dest: solo_turn)
  qed
  then show ?thesis using False acquire_taken[OF False] by simp
qed

text \<open>The lock is taken exactly while one hart is inside.\<close>

definition lock_inv :: "spin_config \<Rightarrow> bool" where
  "lock_inv c \<longleftrightarrow> (isLocked (the_lock c) = 0 \<longrightarrow> (\<forall>i. hart_pcs c i \<noteq> Inside)) \<and>
     (isLocked (the_lock c) \<noteq> 0 \<longrightarrow> (\<exists>i. hart_pcs c i = Inside \<and> (\<forall>j. hart_pcs c j = Inside \<longrightarrow> j = i)))"

lemma lock_inv_step:
  assumes "lock_inv c" "spin_step c i c'"
  shows "lock_inv c'"
  using assms(2)
proof (cases rule: spin_step.cases)
  case call
  then have "hart_pcs c' j = Inside \<longleftrightarrow> hart_pcs c j = Inside" for j by simp
  moreover have "the_lock c' = the_lock c" using call by simp
  ultimately show ?thesis using assms(1) by (simp add: lock_inv_def)
next
  case (turn again lock)
  then show ?thesis
  proof (cases "isLocked (the_lock c) = 0")
    case True
    then have "\<forall>j. hart_pcs c' j = Inside \<longleftrightarrow> j = i" "isLocked (the_lock c') = 1"
      using turn assms(1) by (auto simp: lock_inv_def acquire_cond_def test_and_set_def)
    then show ?thesis by (simp add: lock_inv_def)
  next
    case False
    then have "c' = c\<lparr>the_lock := (the_lock c)\<lparr>isLocked := 1\<rparr>\<rparr>"
      using turn by (auto simp: acquire_cond_def test_and_set_def fun_upd_idem)
    then show ?thesis using False assms(1) by (simp add: lock_inv_def)
  qed
next
  case leave
  then have one: "\<forall>j. hart_pcs c j = Inside \<longrightarrow> j = i" using assms(1) unfolding lock_inv_def by metis
  have "hart_pcs c' = (hart_pcs c)(i := Outside)" using leave by simp
  then have "hart_pcs c' j \<noteq> Inside" for j using one by (metis fun_upd_apply hart_pc.distinct(3))
  moreover have "isLocked (the_lock c') = 0" using leave by (simp add: kspinlock_release_def)
  ultimately show ?thesis by (simp add: lock_inv_def)
qed

lemma spin_reach_inv: "spin_reach c \<Longrightarrow> lock_inv c"
proof (induction rule: spin_reach.induct)
  case start
  then show ?case by (simp add: lock_inv_def kspinlock_init_def)
next
  case step
  then show ?case by (blast intro: lock_inv_step)
qed

section \<open>Property\<close>

text \<open>
  C27: Mutual exclusion. In every configuration that harts can reach from a fresh lock, whatever the
  order of their steps, at most one is inside its critical section; the lock reads as held exactly
  when one is inside; when none is, the next turn of any spinning hart takes the lock; and the turns of a hart that
  is not disturbed are a run of \<open>kspinlock_acquire\<close>: they end inside with the lock that the function returns, and never when it hangs.
\<close>

theorem kspinlock_mutual_exclusion:
  assumes "spin_reach c"
  shows "(\<forall>i j. hart_pcs c i = Inside \<and> hart_pcs c j = Inside \<longrightarrow> i = j) \<and>
    (kspinlock_holding (the_lock c) \<noteq> 0 \<longleftrightarrow> (\<exists>i. hart_pcs c i = Inside)) \<and>
    (\<forall>i c'. kspinlock_holding (the_lock c) = 0 \<and> hart_pcs c i = Spinning \<and> spin_step c i c' \<longrightarrow> hart_pcs c' i = Inside) \<and>
    (\<forall>i l. hart_pcs c i = Spinning \<longrightarrow> ((\<exists>c'. solo_run i c c' \<and> the_lock c' = l) \<longleftrightarrow> kspinlock_acquire (the_lock c) = Inr l))"
proof (intro conjI)
  have inv: "lock_inv c" by (rule spin_reach_inv[OF assms])
  then show "\<forall>i j. hart_pcs c i = Inside \<and> hart_pcs c j = Inside \<longrightarrow> i = j" by (auto simp: lock_inv_def)
  show "kspinlock_holding (the_lock c) \<noteq> 0 \<longleftrightarrow> (\<exists>i. hart_pcs c i = Inside)"
    using inv by (auto simp: lock_inv_def kspinlock_holding_def)
  show "\<forall>i c'. kspinlock_holding (the_lock c) = 0 \<and> hart_pcs c i = Spinning \<and> spin_step c i c' \<longrightarrow> hart_pcs c' i = Inside"
    by (auto simp: kspinlock_holding_def dest: solo_turn)
  show "\<forall>i l. hart_pcs c i = Spinning \<longrightarrow> ((\<exists>c'. solo_run i c c' \<and> the_lock c' = l) \<longleftrightarrow> kspinlock_acquire (the_lock c) = Inr l)"
    using solo_run_acquire by blast
qed

theorem kspinlock_mutual_exclusion_witness:
  "\<exists>c. spin_reach c \<and> hart_pcs c 0 = Inside \<and> hart_pcs c 1 = Spinning \<and> kspinlock_holding (the_lock c) \<noteq> 0"
proof -
  define l where "l = kspinlock_init ''kmem'' \<lparr>isLocked = 0, lock_name = []\<rparr>"
  define c0 where "c0 = \<lparr>the_lock = l, hart_pcs = (\<lambda>_ :: nat. Outside)\<rparr>"
  define c1 where "c1 = c0\<lparr>hart_pcs := (hart_pcs c0)(0 := Spinning)\<rparr>"
  define c2 where "c2 = c1\<lparr>hart_pcs := (hart_pcs c1)(1 := Spinning)\<rparr>"
  define c3 where "c3 = c2\<lparr>the_lock := snd (test_and_set (the_lock c2)), hart_pcs := (hart_pcs c2)(0 := Inside)\<rparr>"
  have "spin_reach c0" unfolding c0_def l_def by (rule start)
  moreover have "spin_step c0 0 c1" unfolding c1_def by (rule call) (simp add: c0_def)
  moreover have "spin_step c1 1 c2" unfolding c2_def by (rule call) (simp add: c0_def c1_def)
  moreover have "spin_step c2 0 c3"
    using turn[of c2 0 False "snd (test_and_set (the_lock c2))"]
    by (simp add: c0_def c1_def c2_def c3_def l_def acquire_cond_def test_and_set_def kspinlock_init_def)
  ultimately have r: "spin_reach c3" by (meson step)
  have "hart_pcs c3 0 = Inside" "hart_pcs c3 1 = Spinning" by (simp_all add: c3_def c2_def c1_def)
  then show ?thesis using r kspinlock_mutual_exclusion[OF r] by blast
qed

end
