(* ===== verification/Fd_Inv.thy ===== *)
theory Fd_Inv
  imports Ktrap Kproc_Inv
begin

text \<open>
  The descriptors of all processes and the table of open files under every trap that does not overwrite them through a stray
  pointer: a typing of the two tables that every system call, interrupt and scheduling decision keeps, and what it excludes.
\<close>

section \<open>Frames\<close>

text \<open>Everything above the terminal: the operations of the terminal and the console keep it.\<close>

definition above_tty :: "'a tty_scheme \<Rightarrow> 'a tty_scheme \<Rightarrow> bool" where
  "above_tty s t \<longleftrightarrow> tty.more t = tty.more s"

lemma above_tty_simps [simp]:
  "above_tty s s" "above_tty s (t\<lparr>mem := m\<rparr>) = above_tty s t" "above_tty s (t\<lparr>csr := c\<rparr>) = above_tty s t"
  "above_tty s (t\<lparr>isEmpty := b\<rparr>) = above_tty s t" "above_tty s (t\<lparr>isFull := b\<rparr>) = above_tty s t"
  "above_tty s (t\<lparr>tty_r := n\<rparr>) = above_tty s t" "above_tty s (t\<lparr>tty_insert := n\<rparr>) = above_tty s t"
  "above_tty s (WRITE_CSR r v t) = above_tty s t" "above_tty s (tf_set tf f v t) = above_tty s t"
  "above_tty s (lsr_read t) = above_tty s t" "above_tty s (snd (rhr_read t)) = above_tty s t" "above_tty s (tty_store ch t) = above_tty s t"
  by (simp_all add: above_tty_def WRITE_CSR_def tf_set_def set_word_def lsr_read_def rhr_read_def tty_store_def Let_def)

lemma above_tty_trans: "above_tty s t \<Longrightarrow> above_tty t u \<Longrightarrow> above_tty s u"
  by (simp add: above_tty_def)

lemma above_uart: "uart_dev.more t = uart_dev.more s \<Longrightarrow> above_tty s t"
  by (cases s, cases t) (simp add: above_tty_def)

lemma above_send [post_rules]: "above_tty s t \<Longrightarrow> post (UartSendBlocking c t) (above_tty s)"
  by (rule post_mono[OF post_uart_send]) (blast intro: above_tty_trans above_uart)

lemma above_store [post_rules]: "above_tty s t \<Longrightarrow> post (ustore8 va v t) (above_tty s)"
  by (auto simp: ustore8_def split: option.split)

lemma above_load: "(\<And>x. post (f x) P) \<Longrightarrow> post (kbind (uload8 va s) f) P"
  by (rule post_bind[OF post_True], simp)

lemma above_insert: "post (TtyBufferInsert c s) (\<lambda>r. above_tty s (snd r))"
  unfolding TtyBufferInsert_def Let_def by (auto intro!: post_bind[OF above_send])

lemma above_uart_handle: "post (UartInterruptHandle s) (above_tty s)"
proof -
  have i: "above_tty s t \<Longrightarrow> post (TtyBufferInsert c t) (\<lambda>x. above_tty s (snd x))" for c t
    by (rule post_mono[OF above_insert]) (blast intro: above_tty_trans)
  show ?thesis unfolding UartInterruptHandle_def split_beta
    by (rule post_bind[where Q = "above_tty s"], rule post_kwhile) (auto intro!: post_bind[OF i])
qed

lemma above_TtyWrite: "post (TtyWrite src n s) (\<lambda>r. above_tty s (snd r))"
  unfolding TtyWrite_def
  by (rule post_bind[where Q = "above_tty s"], rule post_kfold) (auto intro!: above_load above_send)

lemma above_TtyRead: "post (TtyRead dest n s) (\<lambda>r. above_tty s (snd r))"
proof -
  have "post (kwhile (tty_read_guard n) (tty_read_body dest) (0, False, s)) (\<lambda>r. above_tty s (snd (snd r)))"
    by (rule post_kwhile) (auto simp: tty_read_body_def Let_def split_beta intro!: post_bind[OF above_store] above_load)
  then show ?thesis unfolding TtyRead_def split_beta by (auto intro!: post_bind)
qed

lemma above_read_loop: "post (file_read_loop idx buf sz n (a, b, s)) (\<lambda>r. above_tty s (snd (snd r)))"
  unfolding file_read_loop_def split_beta
  by (rule post_kwhile) (auto intro!: post_bind[OF above_store])

lemma above_enter: "post (enter_user_process satp s) (\<lambda>r. above_tty (s :: 'a tty_scheme) (snd r))"
  by (auto simp: enter_user_process_def Let_def split: option.split)

lemma above_to_user: "post (ktrap_to_user s) (\<lambda>r. above_tty s (snd r))"
  unfolding ktrap_to_user_def Let_def
  by (rule post_mono[OF above_enter]) (auto intro: above_tty_trans[rotated] simp: above_tty_def WRITE_CSR_def tf_set_def set_word_def)

lemma above_uservec: "post (uservec r (hart_trap cause u s)) (above_tty (s :: 'a tty_scheme))"
proof -
  have "above_tty s t \<Longrightarrow> above_tty s (fold (\<lambda>f. tf_set tf f (r f)) fs t)" for tf fs t
    by (induction fs arbitrary: t) simp_all
  then show ?thesis by (auto simp: uservec_def hart_trap_def Let_def split: option.split)
qed

section \<open>The typing\<close>

text \<open>
  A descriptor in use is not one of the three standard ones; it refers to an entry of the table of open files that is in use
  and that names a file; and no other descriptor of any process refers to the same entry.
\<close>

definition file_tables :: "'a filesystem_scheme \<Rightarrow> nat option list list \<times> os_file list" where
  "file_tables s = (map opened_files (procs s), os_files s)"

definition typed_entries :: "(nat \<Rightarrow> nat \<Rightarrow> nat option) \<Rightarrow> (nat \<Rightarrow> os_file) \<Rightarrow> bool" where
  "typed_entries t f \<longleftrightarrow> (\<forall>i < NUM_PROCESSES. \<forall>fd < MAX_OPEN_FILES. \<forall>h. t i fd = Some h \<longrightarrow>
     3 \<le> fd \<and> h < MAX_OS_FILES \<and> in_use (f h) \<and> unat (filesystem_file_idx (f h)) < MAX_FS_FILES \<and>
     (\<forall>j < NUM_PROCESSES. \<forall>gd < MAX_OPEN_FILES. t j gd = Some h \<longrightarrow> j = i \<and> gd = fd))"

definition typed_tables :: "nat option list list \<Rightarrow> os_file list \<Rightarrow> bool" where
  "typed_tables ts fs \<longleftrightarrow> length ts = NUM_PROCESSES \<and> length fs = MAX_OS_FILES \<and> (\<forall>t \<in> set ts. length t = MAX_OPEN_FILES) \<and>
     typed_entries (\<lambda>i fd. ts ! i ! fd) (\<lambda>h. fs ! h)"

definition files_typed :: "'a filesystem_scheme \<Rightarrow> bool" where
  "files_typed s \<longleftrightarrow> typed_tables (map opened_files (procs s)) (os_files s)"

lemma files_typed_cong: "file_tables t = file_tables s \<Longrightarrow> files_typed t = files_typed s"
  by (simp add: file_tables_def files_typed_def)

lemma file_tables_above: "above_tty s t \<Longrightarrow> file_tables t = file_tables (s :: 'a filesystem_scheme)"
  by (cases s, cases t) (simp add: file_tables_def above_tty_def)

lemma tab_above: "above_tty s t \<Longrightarrow> tab t = tab (s :: 'a kproc_scheme)"
  by (cases s, cases t) (simp add: tab_def above_tty_def)

lemma file_tables_frame: "kmem_frame s t \<Longrightarrow> file_tables t = file_tables (s :: 'a filesystem_scheme)"
  by (cases s, cases t) (simp add: file_tables_def kmem_frame_def)

lemma file_tables_upd: "(\<And>p. opened_files (f p) = opened_files p) \<Longrightarrow> file_tables (proc_upd i f s) = file_tables s"
  by (cases "i < length (procs s)") (simp_all add: file_tables_def proc_upd_def map_update list_update_same_conv list_update_beyond)

text \<open>No operation of the process table but those on descriptors changes the two tables.\<close>

interpretation ft: proc_property_fs "\<lambda>s. file_tables s = F" for F
proof unfold_locales
  show "kmem_frame s t \<Longrightarrow> (file_tables t = F) = (file_tables s = F)" for s t :: "'a filesystem_scheme"
    by (simp add: file_tables_frame)
  show "uart_dev.more s = uart_dev.more t \<Longrightarrow> (file_tables s = F) = (file_tables t = F)" for s t :: "'a filesystem_scheme"
    using file_tables_above[OF above_uart, of s t] by auto
qed (simp_all add: file_tables_upd, simp_all add: file_tables_def)

section \<open>Operations on descriptors\<close>

lemma kproc_file_get_cur: "unat fd < MAX_OPEN_FILES \<Longrightarrow> kproc_file_get fd s = Inr (opened_files (cur s) ! unat fd)"
  by (simp add: kproc_file_get_def)

lemma typed_entriesD:
  assumes "typed_entries t f" "i < NUM_PROCESSES" "fd < MAX_OPEN_FILES" "t i fd = Some h"
  shows "3 \<le> fd" "h < MAX_OS_FILES" "in_use (f h)" "unat (filesystem_file_idx (f h)) < MAX_FS_FILES"
    "\<And>j gd. j < NUM_PROCESSES \<Longrightarrow> gd < MAX_OPEN_FILES \<Longrightarrow> t j gd = Some h \<Longrightarrow> j = i \<and> gd = fd"
  using assms unfolding typed_entries_def by blast+

lemma typed_entriesI:
  assumes "\<And>i fd h. i < NUM_PROCESSES \<Longrightarrow> fd < MAX_OPEN_FILES \<Longrightarrow> t i fd = Some h \<Longrightarrow>
      3 \<le> fd \<and> h < MAX_OS_FILES \<and> in_use (f h) \<and> unat (filesystem_file_idx (f h)) < MAX_FS_FILES"
    and "\<And>i fd j gd h. i < NUM_PROCESSES \<Longrightarrow> fd < MAX_OPEN_FILES \<Longrightarrow> j < NUM_PROCESSES \<Longrightarrow> gd < MAX_OPEN_FILES \<Longrightarrow>
      t i fd = Some h \<Longrightarrow> t j gd = Some h \<Longrightarrow> j = i \<and> gd = fd"
  shows "typed_entries t f"
  using assms unfolding typed_entries_def by blast

lemma typed_entries_cong:
  assumes e: "typed_entries t f" and at: "\<forall>i < NUM_PROCESSES. \<forall>fd < MAX_OPEN_FILES. t' i fd = t i fd" and fa: "\<forall>h. f' h = f h"
  shows "typed_entries t' f'"
proof (rule typed_entriesI)
  fix i fd h assume i: "i < NUM_PROCESSES" "fd < MAX_OPEN_FILES" and "t' i fd = Some h"
  then have "t i fd = Some h" using at by simp
  from typed_entriesD(1-4)[OF e i this] fa
  show "3 \<le> fd \<and> h < MAX_OS_FILES \<and> in_use (f' h) \<and> unat (filesystem_file_idx (f' h)) < MAX_FS_FILES" by simp
next
  fix i fd j gd h
  assume i: "i < NUM_PROCESSES" "fd < MAX_OPEN_FILES" "j < NUM_PROCESSES" "gd < MAX_OPEN_FILES" and "t' i fd = Some h" "t' j gd = Some h"
  then have "t i fd = Some h" "t j gd = Some h" using at by simp_all
  then show "j = i \<and> gd = fd" using typed_entriesD(5)[OF e i(1,2)] i(3,4) by blast
qed

text \<open>The tables with one descriptor and one entry replaced.\<close>

lemma typed_tables_update:
  assumes "typed_tables ts fs" "i < NUM_PROCESSES" "fd < MAX_OPEN_FILES" "h < MAX_OS_FILES"
    "typed_entries (\<lambda>j gd. if j = i \<and> gd = fd then x else ts ! j ! gd) (\<lambda>k. if k = h then f else fs ! k)"
  shows "typed_tables (ts[i := (ts ! i)[fd := x]]) (fs[h := f])"
proof -
  have len: "length ts = NUM_PROCESSES" "length fs = MAX_OS_FILES" "\<forall>t \<in> set ts. length t = MAX_OPEN_FILES"
    using assms(1) by (simp_all add: typed_tables_def)
  have li: "length (ts ! j) = MAX_OPEN_FILES" if "j < NUM_PROCESSES" for j using len that by simp
  have at: "ts[i := (ts ! i)[fd := x]] ! j ! gd = (if j = i \<and> gd = fd then x else ts ! j ! gd)"
    if "j < NUM_PROCESSES" "gd < MAX_OPEN_FILES" for j gd
    using that assms(2,3) len li by (auto simp: nth_list_update)
  have fa: "fs[h := f] ! k = (if k = h then f else fs ! k)" for k using assms(4) len by (auto simp: nth_list_update)
  have "length t = MAX_OPEN_FILES" if "t \<in> set (ts[i := (ts ! i)[fd := x]])" for t
    using that len li[OF assms(2)] set_update_subset_insert[of ts i] by fastforce
  moreover have "typed_entries (\<lambda>j gd. ts[i := (ts ! i)[fd := x]] ! j ! gd) (\<lambda>k. fs[h := f] ! k)"
    by (rule typed_entries_cong[OF assms(5)]) (simp_all add: at fa)
  ultimately show ?thesis using len by (simp add: typed_tables_def)
qed

lemma typed_add:
  assumes "typed_tables ts fs" "i < NUM_PROCESSES" "3 \<le> fd" "fd < MAX_OPEN_FILES" "h < MAX_OS_FILES" "\<not> in_use (fs ! h)"
    "in_use f" "unat (filesystem_file_idx f) < MAX_FS_FILES"
  shows "typed_tables (ts[i := (ts ! i)[fd := Some h]]) (fs[h := f])"
proof -
  have e: "typed_entries (\<lambda>i fd. ts ! i ! fd) (\<lambda>h. fs ! h)" using assms(1) by (simp add: typed_tables_def)
  note d = typed_entriesD[OF e]
  have "ts ! j ! gd \<noteq> Some h" if "j < NUM_PROCESSES" "gd < MAX_OPEN_FILES" for j gd
    using assms(6) d(3) that by blast
  note free = this
  have "typed_entries (\<lambda>j gd. if j = i \<and> gd = fd then Some h else ts ! j ! gd) (\<lambda>k. if k = h then f else fs ! k)" (is "typed_entries ?t ?f")
  proof (rule typed_entriesI)
    fix j gd k assume j: "j < NUM_PROCESSES" "gd < MAX_OPEN_FILES" and k: "?t j gd = Some k"
    show "3 \<le> gd \<and> k < MAX_OS_FILES \<and> in_use (?f k) \<and> unat (filesystem_file_idx (?f k)) < MAX_FS_FILES"
    proof (cases "j = i \<and> gd = fd")
      case True
      then show ?thesis using k assms(3,5,7,8) by auto
    next
      case False
      then have "ts ! j ! gd = Some k" using k by (simp split: if_splits)
      then show ?thesis using d(1-4)[OF j] free[OF j] by auto
    qed
  next
    fix j gd j' gd' k
    assume j: "j < NUM_PROCESSES" "gd < MAX_OPEN_FILES" "j' < NUM_PROCESSES" "gd' < MAX_OPEN_FILES" and k: "?t j gd = Some k" "?t j' gd' = Some k"
    show "j' = j \<and> gd' = gd"
    proof (cases "k = h")
      case True
      then show ?thesis using k free[OF j(1,2)] free[OF j(3,4)] by (auto split: if_splits)
    next
      case False
      then have "ts ! j ! gd = Some k" "ts ! j' ! gd' = Some k" using k by (auto split: if_splits)
      then show ?thesis using d(5)[OF j(1,2)] j(3,4) by blast
    qed
  qed
  then show ?thesis by (rule typed_tables_update[OF assms(1,2,4,5)])
qed

lemma typed_remove:
  assumes "typed_tables ts fs" "i < NUM_PROCESSES" "fd < MAX_OPEN_FILES" "ts ! i ! fd = Some h"
  shows "typed_tables (ts[i := (ts ! i)[fd := None]]) (fs[h := f])"
proof -
  have e: "typed_entries (\<lambda>i fd. ts ! i ! fd) (\<lambda>h. fs ! h)" using assms(1) by (simp add: typed_tables_def)
  note d = typed_entriesD[OF e]
  have h: "h < MAX_OS_FILES" using d(2)[OF assms(2-4)] .
  have "typed_entries (\<lambda>j gd. if j = i \<and> gd = fd then None else ts ! j ! gd) (\<lambda>k. if k = h then f else fs ! k)" (is "typed_entries ?t ?f")
  proof (rule typed_entriesI)
    fix j gd k assume j: "j < NUM_PROCESSES" "gd < MAX_OPEN_FILES" and "?t j gd = Some k"
    then have k: "\<not> (j = i \<and> gd = fd)" "ts ! j ! gd = Some k" by (auto split: if_splits)
    then have "k \<noteq> h" using d(5)[OF assms(2-4) j] by auto
    then show "3 \<le> gd \<and> k < MAX_OS_FILES \<and> in_use (?f k) \<and> unat (filesystem_file_idx (?f k)) < MAX_FS_FILES"
      using d(1-4)[OF j k(2)] by simp
  next
    fix j gd j' gd' k
    assume j: "j < NUM_PROCESSES" "gd < MAX_OPEN_FILES" "j' < NUM_PROCESSES" "gd' < MAX_OPEN_FILES" and "?t j gd = Some k" "?t j' gd' = Some k"
    then have "ts ! j ! gd = Some k" "ts ! j' ! gd' = Some k" by (auto split: if_splits)
    then show "j' = j \<and> gd' = gd" using d(5)[OF j(1,2)] j(3,4) by blast
  qed
  then show ?thesis by (rule typed_tables_update[OF assms(1-3) h])
qed

text \<open>An entry may change as long as the descriptor that refers to it, if any, still finds a file in use.\<close>

lemma typed_entry:
  assumes "typed_tables ts fs" "h < MAX_OS_FILES"
    "in_use (fs ! h) \<Longrightarrow> unat (filesystem_file_idx (fs ! h)) < MAX_FS_FILES \<Longrightarrow> in_use f \<and> unat (filesystem_file_idx f) < MAX_FS_FILES"
  shows "typed_tables ts (fs[h := f])"
proof -
  have e: "typed_entries (\<lambda>i fd. ts ! i ! fd) (\<lambda>h. fs ! h)" and len: "length fs = MAX_OS_FILES"
    using assms(1) by (simp_all add: typed_tables_def)
  have "typed_entries (\<lambda>i fd. ts ! i ! fd) (\<lambda>k. fs[h := f] ! k)"
  proof (rule typed_entriesI)
    fix j gd k assume j: "j < NUM_PROCESSES" "gd < MAX_OPEN_FILES" "ts ! j ! gd = Some k"
    show "3 \<le> gd \<and> k < MAX_OS_FILES \<and> in_use (fs[h := f] ! k) \<and> unat (filesystem_file_idx (fs[h := f] ! k)) < MAX_FS_FILES"
      using typed_entriesD(1-4)[OF e j] assms(2,3) len by (cases "k = h") auto
  qed (use typed_entriesD(5)[OF e] in blast)
  then show ?thesis using assms(1) len by (simp add: typed_tables_def)
qed

text \<open>Both tables, well formed.\<close>

definition tables_ok :: "'a filesystem_scheme \<Rightarrow> bool" where
  "tables_ok s \<longleftrightarrow> proc_table_ok s \<and> files_typed s"

lemma tables_ok_above: "above_tty s t \<Longrightarrow> tables_ok t = tables_ok s"
  using files_typed_cong[OF file_tables_above[of s t]] proc_table_ok_tab[OF tab_above[of s t]] by (simp add: tables_ok_def)

lemma tables_ok_post: "tables_ok s \<Longrightarrow> post m (\<lambda>r. above_tty s (f r)) \<Longrightarrow> post m (\<lambda>r. tables_ok (f r))"
  using tables_ok_above by (fastforce simp: post_def)

text \<open>An operation of the process table that keeps the file tables keeps both.\<close>

lemma tables_ok_proc:
  assumes "tables_ok s" "post m (\<lambda>r. proc_table_ok (f r))" "post m (\<lambda>r. file_tables (f r) = file_tables s)"
  shows "post m (\<lambda>r. tables_ok (f r))"
  using assms files_typed_cong by (fastforce simp: post_def tables_ok_def)

lemma opened_upd:
  assumes "i < length (procs s)"
  shows "map opened_files (procs (proc_upd i (\<lambda>p. p\<lparr>opened_files := (opened_files p)[fd := x]\<rparr>) s)) =
    (map opened_files (procs s))[i := (map opened_files (procs s) ! i)[fd := x]]"
  using assms by (simp add: map_update)

lemma tab_os_files [simp]: "tab (s\<lparr>os_files := fs\<rparr>) = tab s" "proc_table_ok (s\<lparr>os_files := fs\<rparr>) = proc_table_ok s"
  by (simp_all add: tab_def proc_table_ok_def)

lemma locate_range: "post (filesystem_locate_file path s) (\<lambda>i. i = -1 \<or> unat i < MAX_FS_FILES)"
proof -
  have "post (locate_loop r s xs) (\<lambda>i. i = -1 \<or> unat i < MAX_FS_FILES)" if "\<forall>x \<in> set xs. x < MAX_FS_FILES" for r xs
    using that by (induction xs) (auto intro!: post_bind[OF post_True] simp: MAX_FS_FILES_def)
  then show ?thesis by (simp add: filesystem_locate_file_def)
qed

lemma ok_open:
  assumes "tables_ok s"
  shows "post (filesystem_file_open path mode s) (\<lambda>r. tables_ok (snd r))"
  unfolding filesystem_file_open_def
proof (rule post_bind[OF locate_range], goal_cases)
  case (1 idx)
  show ?case
  proof (cases "idx = 0xFFFFFFFF \<or> find (\<lambda>i. \<not> in_use (os_files s ! i)) [0..<MAX_OS_FILES] = None")
    case True
    then show ?thesis using assms by auto
  next
    case False
    then obtain h where "find (\<lambda>i. \<not> in_use (os_files s ! i)) [0..<MAX_OS_FILES] = Some h" by blast
    then have h: "find (\<lambda>i. \<not> in_use (os_files s ! i)) [0..<MAX_OS_FILES] = Some h" "h < MAX_OS_FILES" "\<not> in_use (os_files s ! h)"
      by (auto simp: find_Some_iff)
    let ?f = "\<lparr>in_use = True, rwpos = 0, filesystem_file_idx = idx\<rparr>" and ?c = "current s" and ?ts = "map opened_files (procs s)"
    let ?s = "s\<lparr>os_files := (os_files s)[h := ?f]\<rparr>"
    have idx: "unat idx < MAX_FS_FILES" using 1 False by auto
    have ok: "proc_table_ok s" "typed_tables ?ts (os_files s)" "?c < NUM_PROCESSES" "length (procs s) = NUM_PROCESSES"
      using assms by (auto simp: tables_ok_def files_typed_def proc_table_ok_def)
    have "tables_ok (snd (kproc_file_add h ?s))"
    proof (cases "find (\<lambda>fd. opened_files (cur ?s) ! fd = None) [3..<MAX_OPEN_FILES]")
      case None
      then have "snd (kproc_file_add h ?s) = ?s" by (simp add: kproc_file_add_def)
      moreover have "typed_tables ?ts ((os_files s)[h := ?f])" by (rule typed_entry[OF ok(2) h(2)]) (use h(3) in simp)
      ultimately show ?thesis using ok(1) by (simp add: tables_ok_def files_typed_def)
    next
      case (Some fd)
      then have fd: "3 \<le> fd" "fd < MAX_OPEN_FILES" by (auto simp: find_Some_iff)
      have "snd (kproc_file_add h ?s) = proc_upd ?c (\<lambda>p. p\<lparr>opened_files := (opened_files p)[fd := Some h]\<rparr>) ?s"
        using Some by (simp add: kproc_file_add_def)
      moreover have "typed_tables (?ts[?c := (?ts ! ?c)[fd := Some h]]) ((os_files s)[h := ?f])"
        by (rule typed_add[OF ok(2,3) fd h(2,3)]) (use idx in simp_all)
      ultimately show ?thesis using ok opened_upd[of ?c ?s fd "Some h"]
        by (simp add: tables_ok_def files_typed_def) (simp add: proc_upd_def)
    qed
    then show ?thesis using False h(1) by simp
  qed
qed

lemma ok_close:
  assumes "tables_ok s"
  shows "post (filesystem_file_close fd s) (\<lambda>r. tables_ok (snd r))"
proof (cases "unat fd < MAX_OPEN_FILES \<and> \<not> fd < 3 \<and> opened_files (cur s) ! unat fd \<noteq> None")
  case True
  then obtain h where h: "opened_files (cur s) ! unat fd = Some h" by auto
  let ?f = "\<lparr>in_use = False, rwpos = 0, filesystem_file_idx = 0xFFFFFFFF\<rparr>" and ?c = "current s" and ?ts = "map opened_files (procs s)"
  let ?u = "proc_upd ?c (\<lambda>p. p\<lparr>opened_files := (opened_files p)[unat fd := None]\<rparr>) s"
  have ok: "proc_table_ok s" "typed_tables ?ts (os_files s)" "?c < NUM_PROCESSES" "length (procs s) = NUM_PROCESSES"
    using assms by (auto simp: tables_ok_def files_typed_def proc_table_ok_def)
  have "filesystem_file_close fd s = Inr (0, ?u\<lparr>os_files := (os_files ?u)[h := ?f]\<rparr>)"
    using True h by (simp add: filesystem_file_close_def kproc_file_get_def kproc_file_remove_def)
  moreover have "typed_tables (?ts[?c := (?ts ! ?c)[unat fd := None]]) ((os_files s)[h := ?f])"
    using True h ok(3,4) by (intro typed_remove[OF ok(2)]) (simp_all add: cur_def)
  moreover have "os_files ?u = os_files s" by (simp add: proc_upd_def)
  ultimately show ?thesis using ok opened_upd[of ?c s "unat fd" None] by (simp add: tables_ok_def files_typed_def del: proc_upd_simps)
next
  case False
  then show ?thesis using assms
    by (auto simp: filesystem_file_close_def kproc_file_get_def kproc_file_remove_def)
qed

section \<open>System calls\<close>

lemma ok_read:
  assumes "tables_ok s"
  shows "post (filesystem_file_read h buf sz s) (\<lambda>r. tables_ok (snd r))"
proof (cases h)
  case (Some k)
  have cursor: "tables_ok (t\<lparr>os_files := (os_files t)[k := (os_files t ! k)\<lparr>rwpos := c\<rparr>]\<rparr>)" if a: "above_tty s t"
    for t :: "'a filesystem_scheme" and c
  proof -
    have t: "tables_ok t" using tables_ok_above[OF a] assms by simp
    then have ty: "typed_tables (map opened_files (procs t)) (os_files t)" by (simp add: tables_ok_def files_typed_def)
    have "typed_tables (map opened_files (procs t)) ((os_files t)[k := (os_files t ! k)\<lparr>rwpos := c\<rparr>])"
    proof (cases "k < MAX_OS_FILES")
      case True
      then show ?thesis by (rule typed_entry[OF ty]) simp
    next
      case False
      then show ?thesis using ty by (simp add: typed_tables_def list_update_beyond)
    qed
    then show ?thesis using t by (simp add: tables_ok_def files_typed_def)
  qed
  show ?thesis unfolding filesystem_file_read_def Some option.case Let_def split_beta
    by (auto intro!: post_bind[OF above_read_loop] cursor)
qed (simp add: filesystem_file_read_def)

lemma ok_ksys_read: "tables_ok s \<Longrightarrow> post (ksys_read fd buf sz s) (\<lambda>r. tables_ok (snd r))"
  unfolding ksys_read_def by (auto intro!: tables_ok_post[OF _ above_TtyRead] post_bind[OF post_True] ok_read)

lemma ok_ksys_write: "tables_ok s \<Longrightarrow> post (ksys_write fd buf sz s) (\<lambda>r. tables_ok (snd r))"
  unfolding ksys_write_def by (auto intro!: post_bind[OF tables_ok_post[OF _ above_TtyWrite]])

lemma ok_fork: "tables_ok s \<Longrightarrow> post (kproc_fork s) (\<lambda>r. tables_ok (snd r))"
  by (rule tables_ok_proc) (auto simp: tables_ok_def intro: pt.keeps_fork ft.keeps_fork)

lemma ok_exec: "tables_ok s \<Longrightarrow> can_run (cur s) \<Longrightarrow> post (kproc_exec path argv s) (\<lambda>r. tables_ok (snd r))"
  by (rule tables_ok_proc) (auto simp: tables_ok_def intro: pt.keeps_exec ft.keeps_exec)

lemma ok_add_page: "tables_ok s \<Longrightarrow> post (kproc_add_page s) (\<lambda>r. tables_ok (snd r))"
  by (rule tables_ok_proc) (auto simp: tables_ok_def intro: pt.keeps_add_page ft.keeps_add_page)

lemma ok_scheduler: "tables_ok s \<Longrightarrow> i < NUM_PROCESSES \<Longrightarrow> post (kproc_scheduler i s) (\<lambda>r. tables_ok (snd r))"
  by (rule tables_ok_proc) (auto simp: tables_ok_def intro: pt.keeps_scheduler ft.keeps_scheduler)

lemma ok_plain:
  assumes "tables_ok s"
  shows "tables_ok (kproc_free s)" "tables_ok (snd (kproc_kill target s))" "tables_ok (kproc_yield r s)"
  using assms ft.keeps_free[of s] ft.keeps_kill[of s] ft.keeps_yield[of s] files_typed_cong[of "kproc_free s" s]
    files_typed_cong[of "snd (kproc_kill target s)" s] files_typed_cong[of "kproc_yield r s" s]
  by (simp_all add: tables_ok_def pt.keeps_free pt.keeps_kill pt.keeps_yield)

lemma tables_ok_tty [simp]:
  "tables_ok (tf_set tf f v s) = tables_ok s" "tables_ok (WRITE_CSR r w s) = tables_ok s" "tables_ok (set_a0 v s) = tables_ok s"
  by (rule tables_ok_above, simp add: set_a0_def)+

lemma ok_syscall:
  fixes s :: "'a plic_scheme"
  assumes "tables_ok s" "can_run (cur s)"
  shows "post (ktrap_syscall s) (\<lambda>r. tables_ok (snd r))"
proof -
  have kill: "post (case ksys_kill t s of (None, s) \<Rightarrow> Inr (False, s) | (Some v, s) \<Rightarrow> Inr (True, set_a0 v s)) (\<lambda>r. tables_ok (snd r))" for t
    using ok_plain(2)[OF assms(1), of t] by (auto simp: ksys_kill_def split: prod.splits option.splits)
  have b: "post (kbind m (\<lambda>(v, s). Inr (True, set_a0 v s))) (\<lambda>r. tables_ok (snd r))"
    "post (kbind m (\<lambda>(v, s). Inr (True, s))) (\<lambda>r. tables_ok (snd r))"
    if "post m (\<lambda>r. tables_ok (snd r))" for m :: "(u32 \<times> 'a plic_scheme) kres"
    using that by (auto intro!: post_bind[OF that])
  have i: "post a P \<Longrightarrow> post c P \<Longrightarrow> post (if e then a else c) P" for e a c and P :: "bool \<times> 'a plic_scheme \<Rightarrow> bool" by simp
  show ?thesis unfolding ktrap_syscall_def Let_def ksys_fork_def ksys_open_def ksys_close_def ksys_exec_def ksys_sbrk_def ksys_exit_def
      ksys_sleep_def prod.case
    by (intro i b kill ok_fork ok_ksys_read ok_ksys_write ok_open ok_close ok_exec ok_add_page assms)
      (simp_all add: assms ok_plain[OF assms(1)])
qed

lemma ok_interrupt: "tables_ok s \<Longrightarrow> post (KtrapInterruptHandle ty um s) (\<lambda>r. tables_ok (snd r))"
proof -
  assume ok: "tables_ok s"
  have c: "tables_ok (snd (PlicClaim s))" using ok
    by (simp add: PlicClaim_def tables_ok_def files_typed_def proc_table_ok_def)
  have d: "tables_ok (PlicComplete irq t) = tables_ok t" for irq and t :: "'a plic_scheme"
    by (simp add: PlicComplete_def plic_write_def tables_ok_def files_typed_def proc_table_ok_def)
  have u: "post (UartInterruptHandle (snd (PlicClaim s))) tables_ok"
    by (rule post_mono[OF above_uart_handle]) (simp add: tables_ok_above c)
  show ?thesis unfolding KtrapInterruptHandle_def split_beta by (auto intro!: post_bind[OF u] simp: d)
qed

lemma ok_to_user: "tables_ok s \<Longrightarrow> post (ktrap_to_user s) (\<lambda>r. tables_ok (snd r))"
  by (rule tables_ok_post[OF _ above_to_user])

lemma ok_supervisor: "tables_ok s \<Longrightarrow> post (ktrap_from_supervisor_handler s) tables_ok"
proof -
  assume ok: "tables_ok s"
  have d: "tables_ok (PlicComplete irq t) = tables_ok t" for irq and t :: "'a plic_scheme"
    by (simp add: PlicComplete_def plic_write_def tables_ok_def files_typed_def proc_table_ok_def)
  show ?thesis unfolding ktrap_from_supervisor_handler_def Let_def split_beta
    by (auto intro!: post_bind[OF ok_interrupt[OF ok]] post_bind[OF post_kprintf] simp: d simp del: kprintf.simps append.simps)
qed

lemma ok_handler:
  fixes s :: "'a plic_scheme"
  assumes "tables_ok s" "can_run (cur s)"
  shows "post (ktrap_from_user_handler s) (\<lambda>r. tables_ok (snd r))"
proof -
  have c: "cur (tf_set p f v t) = cur t" "cur (WRITE_CSR r v t) = cur t" for p f v r and t :: "'a plic_scheme" by simp_all
  have b: "post (kbind m (\<lambda>(g, s). if g then kbind (ktrap_to_user s) (\<lambda>(u, s). Inr (Some u, s)) else Inr (None, s))) (\<lambda>r. tables_ok (snd r))"
    if "post m (\<lambda>r. tables_ok (snd r))" for m :: "(bool \<times> 'a plic_scheme) kres"
    using that by (auto intro!: post_bind[OF that] post_bind[OF ok_to_user])
  have i: "post a P \<Longrightarrow> post c P \<Longrightarrow> post (if e then a else c) P" for e a c and P :: "bool \<times> 'a plic_scheme \<Rightarrow> bool" by simp
  have t: "post (kbind (KtrapInterruptHandle ty um t) (\<lambda>(_, s). Inr (True, s))) (\<lambda>r. tables_ok (snd r))" if "tables_ok t" for ty um t
    using that by (auto intro!: post_bind[OF ok_interrupt])
  show ?thesis unfolding ktrap_from_user_handler_def Let_def
    using assms by (auto intro!: b i t ok_syscall simp: c simp del: mem_tf_set)
qed

lemma ok_user_trap:
  fixes s :: "'a plic_scheme"
  assumes "tables_ok s" "can_run (cur s)"
  shows "post (user_trap cause u s) (\<lambda>r. tables_ok (snd r))"
  unfolding user_trap_def
proof (rule post_bind[OF above_uservec])
  fix t assume a: "above_tty s t"
  then show "post (ktrap_from_user_handler t) (\<lambda>r. tables_ok (snd r))"
    using assms tab_above[OF a] tables_ok_above[OF a] by (intro ok_handler) (simp_all add: cur_def tab_def)
qed

section \<open>Every reachable state\<close>

text \<open>
  The static objects of the kernel, among them the process table and the table of open files, lie below the free memory. They are fields of the
  state and not bytes of its memory, so a store through a stray pointer would not be seen in them. The kernel does not check the pointers of
  user programs. What follows is therefore about runs in which no store reaches these bytes: whatever they held, the run would leave them as
  they are. The contents of the files are bytes of memory, and are not meant.
\<close>

definition static_byte :: "'a filesystem_scheme \<Rightarrow> addr \<Rightarrow> bool" where
  "static_byte s a \<longleftrightarrow> a < free_ram_begin s \<and> (\<forall>i < MAX_FS_FILES. of_nat MAX_FILESIZE \<le> a - fs_data i s)"

definition spares_statics :: "('a filesystem_scheme \<Rightarrow> ('r \<times> 'a filesystem_scheme) kres) \<Rightarrow> 'a filesystem_scheme \<Rightarrow> bool" where
  "spares_statics run s \<longleftrightarrow> (\<forall>m. (\<forall>a. \<not> static_byte s a \<longrightarrow> m a = mem s a) \<longrightarrow>
     post (run (s\<lparr>mem := m\<rparr>)) (\<lambda>(_, t). \<forall>a. static_byte s a \<longrightarrow> mem t a = m a))"

text \<open>
  What happens in the running system: a trap of the current process, which may be any system call with any arguments, an
  interrupt of the kernel, the scheduler switching to a process, and that process going on.
\<close>

inductive sys_step :: "plic \<Rightarrow> plic \<Rightarrow> bool" where
  trap: "can_run (cur s) \<Longrightarrow> spares_statics (user_trap cause u) s \<Longrightarrow> user_trap cause u s = Inr (r, t) \<Longrightarrow> sys_step s t"
| interrupt: "ktrap_from_supervisor_handler s = Inr t \<Longrightarrow> sys_step s t"
| schedule: "i < NUM_PROCESSES \<Longrightarrow> kproc_scheduler i s = Inr (j, t) \<Longrightarrow> sys_step s t"
| resume: "spares_statics ktrap_resume s \<Longrightarrow> ktrap_resume s = Inr (u, t) \<Longrightarrow> sys_step s t"
| create: "spares_statics (kproc_create elf) s \<Longrightarrow> kproc_create elf s = Inr (n, t) \<Longrightarrow> sys_step s t"

text \<open>From a well-formed process table, such as \<open>kproc_init\<close> makes it of zeroed memory, with no file open.\<close>

inductive sys_reach :: "plic \<Rightarrow> bool" where
  boot: "proc_table_ok s \<Longrightarrow> \<forall>p \<in> set (procs s). opened_files p = replicate MAX_OPEN_FILES None \<Longrightarrow>
    length (os_files s) = MAX_OS_FILES \<Longrightarrow> sys_reach s"
| step: "sys_reach s \<Longrightarrow> sys_step s t \<Longrightarrow> sys_reach t"

lemma sys_step_ok: "sys_step s t \<Longrightarrow> tables_ok s \<Longrightarrow> tables_ok t"
proof (induction rule: sys_step.induct)
  case trap
  then show ?case using postD[OF ok_user_trap] by fastforce
next
  case interrupt
  then show ?case using postD[OF ok_supervisor] by fastforce
next
  case schedule
  then show ?case using postD[OF ok_scheduler] by fastforce
next
  case (resume s u t)
  have "post (ktrap_resume s) (\<lambda>r. tables_ok (snd r))" unfolding ktrap_resume_def
    using resume.prems by (auto intro!: ok_to_user split: resume.split)
  then show ?case using postD resume.hyps by fastforce
next
  case (create elf s n t)
  have "post (kproc_create elf s) (\<lambda>r. tables_ok (snd r))"
    by (rule tables_ok_proc[OF create.prems]) (use create.prems in \<open>auto simp: tables_ok_def intro: pt.keeps_create ft.keeps_create\<close>)
  then show ?case using postD create.hyps by fastforce
qed

lemma sys_boot_ok:
  assumes "proc_table_ok s" "\<forall>p \<in> set (procs s). opened_files p = replicate MAX_OPEN_FILES None" "length (os_files s) = MAX_OS_FILES"
  shows "tables_ok s"
  using assms by (auto simp: tables_ok_def files_typed_def typed_tables_def typed_entries_def proc_table_ok_def)

lemma sys_reach_ok: "sys_reach s \<Longrightarrow> tables_ok s"
  by (induction rule: sys_reach.induct) (blast intro: sys_boot_ok sys_step_ok)+

section \<open>What the typing excludes\<close>

lemma read_loop_stops: "file_read_loop idx buf sz n r = Inl e \<Longrightarrow> e = Hang \<or> (\<exists>a. e = KernelFault a)"
  unfolding file_read_loop_def
  by (drule kwhile_stops[where P = "\<lambda>_. True"]) (auto simp: kres_simps ustore8_def split: option.splits)

lemma typed_use:
  assumes "tables_ok s" "unat fd < MAX_OPEN_FILES" "opened_files (cur s) ! unat fd = Some h"
  shows "ksys_read fd buf sz s \<noteq> Inl (Undefined x)" "\<exists>t. ksys_close fd s = Inr (0, t)"
proof -
  have ty: "typed_entries (\<lambda>i fd. map opened_files (procs s) ! i ! fd) (\<lambda>h. os_files s ! h)" "current s < NUM_PROCESSES" "length (procs s) = NUM_PROCESSES"
    using assms(1) by (auto simp: tables_ok_def files_typed_def typed_tables_def proc_table_ok_def)
  have "map opened_files (procs s) ! current s ! unat fd = Some h" using ty(2,3) assms(3) by (simp add: cur_def)
  note d = typed_entriesD[OF ty(1,2) assms(2) this]
  have fd: "\<not> fd < 3" "fd \<noteq> 0" "fd \<noteq> 1" "fd \<noteq> 2" using d(1) by (auto simp: word_less_nat_alt)
  have "ksys_read fd buf sz s = filesystem_file_read (Some h) buf sz s" using fd assms(2,3) by (simp add: ksys_read_def kproc_file_get_def)
  then show "ksys_read fd buf sz s \<noteq> Inl (Undefined x)"
    using d(4) by (auto simp: filesystem_file_read_def Let_def kres_simps dest!: read_loop_stops)
  show "\<exists>t. ksys_close fd s = Inr (0, t)"
    using fd(1) assms(2,3) by (simp add: ksys_close_def filesystem_file_close_def kproc_file_get_def kproc_file_remove_def)
qed

section \<open>Property\<close>

text \<open>
  C10: descriptors stay well typed. In every state that is reached from boot by traps of user programs with arbitrary registers,
  interrupts and scheduling, none of which stores into the static objects of the kernel through a pointer, a descriptor in use of any process is not a standard one, refers to an entry
  of the table of open files that is in use and names one of the twelve files, and shares that entry with no other
  descriptor of any process. Reading and closing a descriptor in use therefore never leaves the bounds of the tables nor follows a null pointer.
\<close>

theorem descriptors_typed:
  assumes "sys_reach s"
  shows "(\<forall>i < NUM_PROCESSES. \<forall>fd < MAX_OPEN_FILES. \<forall>h. opened_files (procs s ! i) ! fd = Some h \<longrightarrow>
      3 \<le> fd \<and> h < MAX_OS_FILES \<and> in_use (os_files s ! h) \<and> unat (filesystem_file_idx (os_files s ! h)) < MAX_FS_FILES \<and>
      (\<forall>j < NUM_PROCESSES. \<forall>gd < MAX_OPEN_FILES. opened_files (procs s ! j) ! gd = Some h \<longrightarrow> j = i \<and> gd = fd)) \<and>
    (\<forall>fd h. unat fd < MAX_OPEN_FILES \<and> opened_files (cur s) ! unat fd = Some h \<longrightarrow>
      (\<forall>buf sz x. ksys_read fd buf sz s \<noteq> Inl (Undefined x)) \<and> (\<exists>t. ksys_close fd s = Inr (0, t)))"
proof -
  have ok: "tables_ok s" by (rule sys_reach_ok[OF assms])
  then have ty: "typed_entries (\<lambda>i fd. map opened_files (procs s) ! i ! fd) (\<lambda>h. os_files s ! h)" "length (procs s) = NUM_PROCESSES"
    by (auto simp: tables_ok_def files_typed_def typed_tables_def)
  have "typed_entries (\<lambda>i fd. opened_files (procs s ! i) ! fd) (\<lambda>h. os_files s ! h)"
    by (rule typed_entries_cong[OF ty(1)]) (simp_all add: ty(2))
  then show ?thesis using typed_use[OF ok] unfolding typed_entries_def by blast
qed

lemma file_tables_init: "file_tables (kproc_init s) = file_tables s"
proof -
  have "file_tables (fold (\<lambda>i. proc_upd i (g i)) is t) = file_tables t" if "\<And>i p. opened_files (g i p) = opened_files p"
    for g "is" and t :: "'a filesystem_scheme"
    using that by (induction "is" arbitrary: t) (simp_all add: file_tables_upd)
  then show ?thesis unfolding kproc_init_def by simp
qed

text \<open>
  The system call \<open>open\<close> from the \<open>ecall\<close> instruction back to user mode, when the kernel finds the file and binds a descriptor: no byte of
  memory changes outside the trap frame.
\<close>

lemma syscall_open:
  fixes s :: "'a plic_scheme"
  assumes "user_ready s" "ue_regs u TF_a7 = SYS_open"
    and run: "\<And>t. entered (trapframe (cur s)) s t \<Longrightarrow> ksys_open (ue_regs u TF_a0) (ue_regs u TF_a1) t =
      Inr (fd, proc_upd (current t) (\<lambda>p. p\<lparr>opened_files := (opened_files p)[k := Some h]\<rparr>) (fresh_handle h idx t))"
  shows "\<exists>u' v. user_trap SCAUSE_UMODE_ECALL u s = Inr (Some u', v) \<and>
    procs v = (procs s)[current s := (cur s)\<lparr>opened_files := (opened_files (cur s))[k := Some h]\<rparr>] \<and> current v = current s \<and>
    (\<forall>a. page_base a \<noteq> trapframe (cur s) \<longrightarrow> mem v a = mem s a)"
proof -
  let ?G = "\<lambda>t. proc_upd (current t) (\<lambda>p. p\<lparr>opened_files := (opened_files p)[k := Some h]\<rparr>) (fresh_handle h idx t)"
  have G: "mem (?G t) = mem t" "current (?G t) = current t" "trapframe (cur (?G t)) = trapframe (cur t)" "pagetable (cur (?G t)) = pagetable (cur t)"
    "procs (?G t) = (procs t)[current t := (cur t)\<lparr>opened_files := (opened_files (cur t))[k := Some h]\<rparr>]" for t :: "'a plic_scheme"
  proof -
    show "mem (?G t) = mem t" and i: "current (?G t) = current t" by (simp_all add: fresh_handle_def)
    show p: "procs (?G t) = (procs t)[current t := (cur t)\<lparr>opened_files := (opened_files (cur t))[k := Some h]\<rparr>]"
      by (simp add: cur_def fresh_handle_def)
    have "cur (?G t) = (if current t < length (procs t) then (cur t)\<lparr>opened_files := (opened_files (cur t))[k := Some h]\<rparr> else cur t)"
      unfolding cur_def[of "?G t"] p i by (simp add: list_update_beyond cur_def)
    then show "trapframe (cur (?G t)) = trapframe (cur t)" "pagetable (cur (?G t)) = pagetable (cur t)" by simp_all
  qed
  let ?Q = "\<lambda>t t'. t' = set_a0 fd (?G t)"
  have "\<exists>t'. ktrap_syscall t = Inr (True, t') \<and> tf_mapped (mem t') (cur t') \<and> ?Q t t'"
    if e: "entered (trapframe (cur s)) s t" and a: "\<forall>f. arg f t = (if f \<in> user_regs then ue_regs u f
        else if f = TF_epc then ue_pc u + 4 else arg f s)" for t
  proof -
    have "arg TF_a7 t = SYS_open" using a assms(2) by simp
    then have "ktrap_syscall t = Inr (True, set_a0 fd (?G t))" using a run[OF e] by (simp add: ktrap_syscall_def sys_defs)
    moreover have "tf_mapped (mem t) (cur t)" using entered_ready[OF e assms(1)] ready_tf(2) by blast
    then have "tf_mapped (mem (?G t)) (cur (?G t))" unfolding tf_mapped_def G .
    from set_a0_mapped[OF this, of fd] have "tf_mapped (mem (set_a0 fd (?G t))) (cur (set_a0 fd (?G t)))" by (simp only: set_a0_simps)
    ultimately show ?thesis by (intro exI[of _ "set_a0 fd (?G t)"] conjI refl)
  qed
  from syscall_returns[OF assms(1), of u ?Q, OF this] obtain t t' u' v where v: "entered (trapframe (cur s)) s t"
    "user_trap SCAUSE_UMODE_ECALL u s = Inr (Some u', v)" "procs v = procs t'" "current v = current t'"
    "\<forall>a. page_base a \<noteq> trapframe (cur t') \<longrightarrow> mem v a = mem t' a" and t': "t' = set_a0 fd (?G t)" by blast
  note es = entered_simps[OF v(1)]
  have al: "page_aligned (trapframe (cur s))" using ready_tf(1)[OF assms(1)] .
  have "mem t' a = mem s a" if "page_base a \<noteq> trapframe (cur s)" for a
    using v(1) that al es(3) by (simp add: t' set_a0_def tf_set_other G entered_def del: mem_tf_set)
  moreover have "procs v = (procs s)[current s := (cur s)\<lparr>opened_files := (opened_files (cur s))[k := Some h]\<rparr>]"
    "current v = current s" "trapframe (cur t') = trapframe (cur s)"
    unfolding v(3,4) t' set_a0_simps G[of t] by (simp_all only: es(1-3))
  ultimately show ?thesis using v(2,5) by auto
qed

text \<open>The first process of a freshly initialised table opens the file \<^verbatim>\<open>h\<close>, whose name is on a page of its own.\<close>

definition first_running :: plic where
  "first_running = (let s = kproc_init trap_static in
     (proc_upd 0 (\<lambda>p. p\<lparr>pid := of_nat 0 + 1\<rparr>) (proc_upd 0 (\<lambda>p. p\<lparr>proc_state := RUNNING\<rparr>) s))
       \<lparr>mem := (page_mem 0x80107000)(0x80107000 := 104, 0x80107001 := 0)\<rparr>)"

lemma first_running_simps:
  "current first_running = 0" "mem first_running = (page_mem 0x80107000)(0x80107000 := 104, 0x80107001 := 0)" "csr first_running = csr trap_static"
  "os_files first_running = os_files trap_static" "filesystem_files first_running = filesystem_files trap_static"
  "free_ram_begin first_running = 0x80100000"
  "cur first_running = (cur trap_static)\<lparr>free_heap_page := VA_USER_BASE, kernel_stack_top := proc_array_base trap_static + 8312\<rparr>"
  by (simp_all add: first_running_def kproc_init_def NUM_PROCESSES_def upt_rec cur_def blank_process_def)
    (simp_all add: proc_upd_def trap_static_def filesystem.defs plic.defs fs_static_def kproc.defs kproc_static_def kmem.defs kvmem.defs kvmem_user_def kmem_free_def)

lemma first_running_reach: "sys_reach first_running"
proof (rule boot)
  let ?s = "kproc_init trap_static"
  have ini: "proc_table_ok ?s" by (rule kproc_init_ok) (simp_all add: NUM_PROCESSES_def MAX_OPEN_FILES_def blank_process_def)
  then have "proc_table_ok (proc_upd 0 (\<lambda>p. p\<lparr>pid := of_nat 0 + 1\<rparr>) (proc_upd 0 (\<lambda>p. p\<lparr>proc_state := RUNNING\<rparr>) ?s))"
    by (rule claim_slot_ok) (simp add: NUM_PROCESSES_def)
  moreover have "proc_table_ok (s\<lparr>mem := m\<rparr>) = proc_table_ok s" for s :: plic and m by (simp add: proc_table_ok_def)
  ultimately show "proc_table_ok first_running" unfolding first_running_def Let_def by blast
  have "file_tables first_running = file_tables (proc_upd 0 (\<lambda>p. p\<lparr>pid := of_nat 0 + 1\<rparr>) (proc_upd 0 (\<lambda>p. p\<lparr>proc_state := RUNNING\<rparr>) ?s))"
    by (rule file_tables_above) (simp add: first_running_def Let_def)
  then have "file_tables first_running = file_tables trap_static" by (simp add: file_tables_upd file_tables_init)
  then have "opened_files ` set (procs first_running) = opened_files ` set (procs trap_static)"
    unfolding file_tables_def by (metis fst_conv set_map)
  then show "\<forall>p \<in> set (procs first_running). opened_files p = replicate MAX_OPEN_FILES None" by (auto simp: blank_process_def)
  show "length (os_files first_running) = MAX_OS_FILES"
    by (simp add: first_running_simps trap_static_def filesystem.defs plic.defs MAX_OS_FILES_def)
qed

lemma files_more: "kproc.more t = kproc.more s \<Longrightarrow> filesystem_files t = filesystem_files s \<and> os_files t = os_files s"
  for s t :: "'a filesystem_scheme"
  by (cases s; cases t) simp

text \<open>Whatever the static bytes hold, the trap opens the file as descriptor 3 and keeps them.\<close>

lemma first_running_open:
  assumes m: "\<And>a. \<not> static_byte first_running a \<Longrightarrow> m a = mem first_running a"
  defines "u \<equiv> \<lparr>ue_pc = 0, ue_regs = (\<lambda>f. if f = TF_a7 then SYS_open else 0xFFC05000)\<rparr>"
  shows "\<exists>u' v. user_trap SCAUSE_UMODE_ECALL u (first_running\<lparr>mem := m\<rparr>) = Inr (Some u', v) \<and>
    opened_files (procs v ! 0) ! 3 = Some 0 \<and> (\<forall>a. page_base a \<noteq> 0x80106000 \<longrightarrow> mem v a = m a)"
proof -
  let ?s = "first_running\<lparr>mem := m\<rparr>"
  have "cur ?s = cur first_running" by simp
  then have c: "trapframe (cur ?s) = 0x80106000" "pagetable (cur ?s) = 0x80105000" "opened_files (cur ?s) = replicate 8 None"
    unfolding first_running_simps(7) by (simp_all add: cur_def[of trap_static] blank_process_def MAX_OPEN_FILES_def)
  have hi: "m a = mem first_running a" if "0x80100000 \<le> a" for a
  proof -
    have "\<not> static_byte first_running a" using that by (auto simp: static_byte_def first_running_simps(6))
    then show ?thesis by (rule m)
  qed
  have pg: "0x80100000 \<le> a" if "page_base a \<in> {0x80105000, 0x80108000}" for a
    using that page_base_bounds(1)[of a] by (auto simp: word_le_nat_alt)
  have words: "m a = page_mem 0x80107000 a" if "page_base a \<in> {0x80105000, 0x80108000}" for a
    using that hi[OF pg[OF that]] by (auto simp: first_running_simps page_base_def)
  have act: "active_table ?s 0x80105000" by (simp add: active_table_def first_running_simps)
  have ready: "user_ready ?s" using page_mem_ready(1)[of ?s, OF _ act] words c by simp
  have run: "ksys_open 0xFFC05000 0xFFC05000 t =
      Inr (3, proc_upd (current t) (\<lambda>p. p\<lparr>opened_files := (opened_files p)[3 := Some 0]\<rparr>) (fresh_handle 0 0 t))"
    if e: "entered 0x80106000 ?s t" for t
  proof -
    have mt: "mem t a = m a" if "page_base a \<noteq> 0x80106000" for a using e that by (simp add: entered_def)
    have at: "active_table t 0x80105000" using e act by (simp add: entered_def active_table_def)
    have wt: "mem t a = page_mem 0x80107000 a" if "page_base a \<in> {0x80105000, 0x80108000}" for a using that mt[of a] words[OF that] by auto
    have "mmu_translate t Load 0xFFC05000 = Some 0x80107000" "mmu_translate t Load 0xFFC05001 = Some 0x80107001"
      using page_mem_ready(2)[OF wt at, of "0xFFC05000"] page_mem_ready(2)[OF wt at, of "0xFFC05001"] by (simp_all add: vpn_div page_base_def)
    moreover have "mem t 0x80107000 = 104" "mem t 0x80107001 = 0"
      using mt[of "0x80107000"] mt[of "0x80107001"] hi[of "0x80107000"] hi[of "0x80107001"] by (simp_all add: page_base_def first_running_simps)
    ultimately have path: "reads_string (path_reader 0xFFC05000 t) [104]"
      by (simp add: reads_string_def path_reader_def uload8_def)
    have k: "kproc.more t = kproc.more first_running" using entered_simps(4)[OF e] by simp
    have "filesystem_files t = filesystem_files first_running" "os_files t = os_files first_running"
      using files_more[OF k] by simp_all
    then have fs: "filesystem_files t = filesystem_files fs_static" "os_files t = os_files fs_static"
      unfolding first_running_simps(4,5) by (simp_all add: trap_static_def filesystem.defs plic.defs)
    have "name_reader i t j = name_reader i fs_static j" if "j < 100" for i j using that fs(1) by (simp add: name_reader_def)
    then have names: "fs_names t ([104] # replicate 11 [])"
      using fs_static_ok(3) by (auto simp: fs_names_def reads_string_def MAX_FS_FILES_def nth_Cons split: nat.splits)
    have cur: "opened_files (cur t) = replicate 8 None" using c(3) entered_simps(3)[OF e] by simp
    have "kproc_file_add 0 (fresh_handle 0 0 t) = (3, proc_upd (current t) (\<lambda>p. p\<lparr>opened_files := (opened_files p)[3 := Some 0]\<rparr>) (fresh_handle 0 0 t))"
      using cur by (simp add: kproc_file_add_def MAX_OPEN_FILES_def upt_rec) (simp add: fresh_handle_def)
    then show ?thesis
      using file_open_found[OF names path fs_static_find(1) fs_static_find(2)[folded fs(2)]] by (simp add: ksys_open_def)
  qed
  have "\<exists>u' v. user_trap SCAUSE_UMODE_ECALL u ?s = Inr (Some u', v) \<and>
    procs v = (procs ?s)[current ?s := (cur ?s)\<lparr>opened_files := (opened_files (cur ?s))[3 := Some 0]\<rparr>] \<and> current v = current ?s \<and>
    (\<forall>a. page_base a \<noteq> trapframe (cur ?s) \<longrightarrow> mem v a = mem ?s a)"
    by (rule syscall_open[OF ready]) (use run c(1) in \<open>simp_all add: u_def sys_defs\<close>)
  then obtain u' v where v: "user_trap SCAUSE_UMODE_ECALL u ?s = Inr (Some u', v)"
    "procs v = (procs ?s)[current ?s := (cur ?s)\<lparr>opened_files := (opened_files (cur ?s))[3 := Some 0]\<rparr>]"
    "\<forall>a. page_base a \<noteq> trapframe (cur ?s) \<longrightarrow> mem v a = mem ?s a" by blast
  have "length (procs ?s) = 8" using first_running_reach sys_reach_ok
    by (auto simp: tables_ok_def proc_table_ok_def NUM_PROCESSES_def)
  then have "opened_files (procs v ! 0) ! 3 = Some 0" using v(2) c(3) by (simp add: first_running_simps)
  then show ?thesis using v(1,3) c(1) by auto
qed

theorem descriptors_typed_witness:
  "\<exists>v. sys_reach v \<and> opened_files (procs v ! 0) ! 3 = Some 0 \<and> in_use (os_files v ! 0) \<and> unat (filesystem_file_idx (os_files v ! 0)) < MAX_FS_FILES"
proof -
  let ?u = "\<lparr>ue_pc = 0, ue_regs = (\<lambda>f. if f = TF_a7 then SYS_open else 0xFFC05000)\<rparr>"
  have ms: "first_running\<lparr>mem := mem first_running\<rparr> = first_running" by simp
  obtain u' v where v: "user_trap SCAUSE_UMODE_ECALL ?u first_running = Inr (Some u', v)" "opened_files (procs v ! 0) ! 3 = Some 0"
    using first_running_open[of "mem first_running"] ms by auto
  have "page_base a \<noteq> 0x80106000" if "static_byte first_running a" for a
    using that page_base_bounds(1)[of a] by (auto simp: static_byte_def first_running_simps word_less_nat_alt)
  then have "post (user_trap SCAUSE_UMODE_ECALL ?u (first_running\<lparr>mem := m\<rparr>)) (\<lambda>(_, t). \<forall>a. static_byte first_running a \<longrightarrow> mem t a = m a)"
    if "\<forall>a. \<not> static_byte first_running a \<longrightarrow> m a = mem first_running a" for m
    using first_running_open[of m] that by (elim exE conjE meta_impE) auto
  then have "spares_statics (user_trap SCAUSE_UMODE_ECALL ?u) first_running" unfolding spares_statics_def by blast
  moreover have "can_run (cur first_running)" unfolding first_running_simps(7) by (simp add: can_run_def cur_def)
  ultimately have r: "sys_reach v" using step[OF first_running_reach] trap v(1) by blast
  have "(0 :: nat) < NUM_PROCESSES" "3 < MAX_OPEN_FILES" by (simp_all add: NUM_PROCESSES_def MAX_OPEN_FILES_def)
  with descriptors_typed[OF r] v(2) r show ?thesis by blast
qed

end
