(* ===== verification/Vectors.thy ===== *)
theory Vectors
  imports Swtch
begin

text \<open>
  The border between user programs and the kernel, instruction by instruction: the vector and the exit code of
  \<^verbatim>\<open>src/kernel/uservec.S\<close>, which refine the register transfers that \<^verbatim>\<open>Ktrap\<close> states for them, and the system call stubs of
  \<^verbatim>\<open>src/user/usyscall.S\<close>, with system calls followed from the stub through the kernel and back.
\<close>

section \<open>Entry and exit\<close>

definition uservec_code :: "instr list" where
  "uservec_code =
     [Csrw Sscratch R_a0, Li R_a0 (0xFFFFFFFF - 4096 + 1),
      Sw R_ra (5 * 4) R_a0, Sw R_sp (6 * 4) R_a0, Sw R_gp (7 * 4) R_a0, Sw R_tp (8 * 4) R_a0, Sw R_t0 (9 * 4) R_a0,
      Sw R_t1 (10 * 4) R_a0, Sw R_t2 (11 * 4) R_a0, Sw R_s0 (12 * 4) R_a0, Sw R_s1 (13 * 4) R_a0, Sw R_a1 (15 * 4) R_a0,
      Sw R_a2 (16 * 4) R_a0, Sw R_a3 (17 * 4) R_a0, Sw R_a4 (18 * 4) R_a0, Sw R_a5 (19 * 4) R_a0, Sw R_a6 (20 * 4) R_a0,
      Sw R_a7 (21 * 4) R_a0, Sw R_s2 (22 * 4) R_a0, Sw R_s3 (23 * 4) R_a0, Sw R_s4 (24 * 4) R_a0, Sw R_s5 (25 * 4) R_a0,
      Sw R_s6 (26 * 4) R_a0, Sw R_s7 (27 * 4) R_a0, Sw R_s8 (28 * 4) R_a0, Sw R_s9 (29 * 4) R_a0, Sw R_s10 (30 * 4) R_a0,
      Sw R_s11 (31 * 4) R_a0, Sw R_t3 (32 * 4) R_a0, Sw R_t4 (33 * 4) R_a0, Sw R_t5 (34 * 4) R_a0, Sw R_t6 (35 * 4) R_a0,
      Csrr R_t0 Sscratch, Sw R_t0 (14 * 4) R_a0, Lw R_sp (1 * 4) R_a0, Lw R_t0 (2 * 4) R_a0]"

definition enter_user_code :: "instr list" where
  "enter_user_code =
     [Sfence_vma, Csrw Satp R_a0, Sfence_vma, Li R_a0 (0xFFFFFFFF - 4096 + 1),
      Lw R_ra (5 * 4) R_a0, Lw R_sp (6 * 4) R_a0, Lw R_gp (7 * 4) R_a0, Lw R_tp (8 * 4) R_a0, Lw R_t0 (9 * 4) R_a0,
      Lw R_t1 (10 * 4) R_a0, Lw R_t2 (11 * 4) R_a0, Lw R_s0 (12 * 4) R_a0, Lw R_s1 (13 * 4) R_a0, Lw R_a1 (15 * 4) R_a0,
      Lw R_a2 (16 * 4) R_a0, Lw R_a3 (17 * 4) R_a0, Lw R_a4 (18 * 4) R_a0, Lw R_a5 (19 * 4) R_a0, Lw R_a6 (20 * 4) R_a0,
      Lw R_a7 (21 * 4) R_a0, Lw R_s2 (22 * 4) R_a0, Lw R_s3 (23 * 4) R_a0, Lw R_s4 (24 * 4) R_a0, Lw R_s5 (25 * 4) R_a0,
      Lw R_s6 (26 * 4) R_a0, Lw R_s7 (27 * 4) R_a0, Lw R_s8 (28 * 4) R_a0, Lw R_s9 (29 * 4) R_a0, Lw R_s10 (30 * 4) R_a0,
      Lw R_s11 (31 * 4) R_a0, Lw R_t3 (32 * 4) R_a0, Lw R_t4 (33 * 4) R_a0, Lw R_t5 (34 * 4) R_a0, Lw R_t6 (35 * 4) R_a0,
      Lw R_a0 (14 * 4) R_a0]"

text \<open>The register that a word of the trap frame holds; the first words belong to the kernel.\<close>

fun reg_of :: "tf_field \<Rightarrow> reg" where
  "reg_of TF_ra = R_ra" | "reg_of TF_sp = R_sp" | "reg_of TF_gp = R_gp" | "reg_of TF_tp = R_tp" | "reg_of TF_t0 = R_t0"
| "reg_of TF_t1 = R_t1" | "reg_of TF_t2 = R_t2" | "reg_of TF_s0 = R_s0" | "reg_of TF_s1 = R_s1" | "reg_of TF_a0 = R_a0"
| "reg_of TF_a1 = R_a1" | "reg_of TF_a2 = R_a2" | "reg_of TF_a3 = R_a3" | "reg_of TF_a4 = R_a4" | "reg_of TF_a5 = R_a5"
| "reg_of TF_a6 = R_a6" | "reg_of TF_a7 = R_a7" | "reg_of TF_s2 = R_s2" | "reg_of TF_s3 = R_s3" | "reg_of TF_s4 = R_s4"
| "reg_of TF_s5 = R_s5" | "reg_of TF_s6 = R_s6" | "reg_of TF_s7 = R_s7" | "reg_of TF_s8 = R_s8" | "reg_of TF_s9 = R_s9"
| "reg_of TF_s10 = R_s10" | "reg_of TF_s11 = R_s11" | "reg_of TF_t3 = R_t3" | "reg_of TF_t4 = R_t4" | "reg_of TF_t5 = R_t5"
| "reg_of TF_t6 = R_t6" | "reg_of f = R_zero"

abbreviation tf_regs :: "regs \<Rightarrow> uregs" where
  "tf_regs r \<equiv> \<lambda>f. r (reg_of f)"

definition tf_slots :: "(reg \<times> nat) list" where
  "tf_slots = map (\<lambda>f. (reg_of f, tf_index f)) saved_regs"

lemma uservec_blocks:
  "uservec_code = [Csrw Sscratch R_a0, Li R_a0 VA_TRAPFRAME] @ saves R_a0 tf_slots @
     [Csrr R_t0 Sscratch, Sw R_t0 56 R_a0, Lw R_sp 4 R_a0, Lw R_t0 8 R_a0]"
  "enter_user_code = [Sfence_vma, Csrw Satp R_a0, Sfence_vma, Li R_a0 VA_TRAPFRAME] @ restores R_a0 tf_slots @ [Lw R_a0 56 R_a0]"
  by (simp_all add: uservec_code_def enter_user_code_def saves_def restores_def tf_slots_def saved_regs_def VA_TRAPFRAME_def
      VA_MAX_def PAGE_SIZE_def)

lemma tf_slots_ok:
  "\<forall>(q, k) \<in> set tf_slots. k < 36" "distinct (map fst tf_slots)" "distinct (map snd tf_slots)" "14 \<notin> snd ` set tf_slots"
  "1 \<notin> snd ` set tf_slots" "2 \<notin> snd ` set tf_slots" "R_a0 \<notin> fst ` set tf_slots" "R_zero \<notin> fst ` set tf_slots"
  by (simp_all add: tf_slots_def saved_regs_def)

lemma tf_slots_mem: "f \<in> set saved_regs \<Longrightarrow> (reg_of f, tf_index f) \<in> set tf_slots"
  by (simp add: tf_slots_def)

section \<open>The trap frame as a window\<close>

lemma page_offset_or:
  assumes "page_aligned p" "page_aligned q" "n < 4096"
  shows "p OR ((q + of_nat n) AND 0xFFF) = p + of_nat n"
proof -
  have m: "unat (w AND 0xFFF) = unat w mod 4096" for w :: u32
  proof -
    have "w AND 0xFFF = take_bit 12 w" by (simp add: take_bit_eq_mask mask_eq_exp_minus_1)
    moreover have "unat (take_bit 12 w) = unat w mod 4096" by (simp add: take_bit_eq_mod unat_mod_distrib)
    ultimately show ?thesis by (simp only:)
  qed
  have "unat ((q' + of_nat n) AND 0xFFF) = n" if "page_aligned q'" for q'
  proof -
    have "unat ((q' + of_nat n) AND 0xFFF) = (unat q' + n) mod 4096" unfolding m unat_page_add[OF that assms(3)] ..
    also have "\<dots> = n" using that assms(3) mod_add_left_eq[of "unat q'" 4096 n] by (simp add: page_aligned_def)
    finally show ?thesis .
  qed
  then have "(q + of_nat n) AND 0xFFF = (p + of_nat n) AND 0xFFF" using assms(1,2) by (metis word_unat_eq_iff)
  then show ?thesis using page_base_offset[of "p + of_nat n"] page_base_add[OF assms(1,3)] by simp
qed

lemma tf_translate:
  assumes "active_table s (pagetable p)" "tf_mapped (mem s) p" "k < 1024"
  shows "mmu_translate s acc (slot VA_TRAPFRAME k) = Some (slot (trapframe p) k)"
proof -
  have f: "(PTE_R OR PTE_W) AND 0xFFFFFC00 = 0" by (simp add: pte_flag_defs)
  have al: "page_aligned (trapframe p)" "page_aligned VA_TRAPFRAME"
    using assms(2) by (simp_all add: tf_mapped_def) (simp add: page_aligned_def VA_TRAPFRAME_def VA_MAX_def PAGE_SIZE_def)
  have "page_base (slot VA_TRAPFRAME k) = page_base VA_TRAPFRAME"
    using page_base_add[OF al(2), of "4 * k"] assms(3) page_base_aligned[OF al(2)] by (simp add: slot_def)
  then have v: "vpn1 (slot VA_TRAPFRAME k) = vpn1 VA_TRAPFRAME" "vpn0 (slot VA_TRAPFRAME k) = vpn0 VA_TRAPFRAME"
    by (simp_all add: same_page_iff)
  have "sv32_permits acc st (PTE_R OR PTE_W)" "sv32_leaf (PTE_R OR PTE_W)" for st
    by (simp_all add: sv32_permits_def sv32_leaf_def pte_flag_defs split: access.split)
  moreover have "trapframe p OR (slot VA_TRAPFRAME k AND 0xFFF) = slot (trapframe p) k"
    using page_offset_or[OF al, of "4 * k"] assms(3) by (simp add: slot_def)
  ultimately show ?thesis
    using assms mmu_translate_entry[OF assms(1), of acc "slot VA_TRAPFRAME k"] leaf_pte_simps[OF f] page_base_aligned[OF al(1)] v
    by (simp add: tf_mapped_def)
qed

lemma words_in_page: "page_aligned p \<Longrightarrow> a \<in> words p 36 \<Longrightarrow> page_base a = p"
proof -
  assume p: "page_aligned p" and "a \<in> words p 36"
  then obtain i x where i: "a = slot p i + of_nat x" "i < 36" "x < 4" by (auto simp: words_def)
  then have "a = p + of_nat (4 * i + x)" by (simp add: slot_def)
  then show "page_base a = p" using page_base_add[OF p, of "4 * i + x"] i(2,3) by simp
qed

lemma tf_window:
  assumes "active_table s (pagetable p)" "tf_mapped (mem s) p"
  shows "window s (words (trapframe p) 36) VA_TRAPFRAME (trapframe p) 36"
proof -
  have "mmu_translate (s\<lparr>mem := m\<rparr>) acc (slot VA_TRAPFRAME k) = Some (slot (trapframe p) k)"
    if "\<forall>a. a \<notin> words (trapframe p) 36 \<longrightarrow> m a = mem s a" "k < 36" for m acc k
  proof -
    have al: "page_aligned (trapframe p)" using assms(2) by (simp add: tf_mapped_def)
    have "tf_mapped m p" by (rule tf_mapped_frame[OF assms(2)]) (use that(1) words_in_page[OF al] in blast)
    then show ?thesis using tf_translate[of "s\<lparr>mem := m\<rparr>" p k acc] assms(1) that(2) by (simp add: active_table_def)
  qed
  then show ?thesis by (simp add: window_def VA_TRAPFRAME_def VA_MAX_def PAGE_SIZE_def)
qed

lemma fold_tf_set_saved:
  "fold (\<lambda>f. tf_set tf f (tf_regs r f)) fs s = s\<lparr>mem := saved_mem r (map (\<lambda>f. (reg_of f, tf_index f)) fs) tf (mem s)\<rparr>"
  by (induction fs arbitrary: s) (simp_all add: saved_mem_def tf_set_def set_word_def)

lemma saved_mem_cong: "\<forall>(q, k) \<in> set ps. r q = r' q \<Longrightarrow> saved_mem r ps pa m = saved_mem r' ps pa m"
  by (induction ps arbitrary: m) (auto simp: saved_mem_def)

lemma window_store:
  "window s W va pa n \<Longrightarrow> \<forall>a. a \<notin> W \<longrightarrow> m a = mem s a \<Longrightarrow> window (s\<lparr>mem := m\<rparr>) W va pa n"
  by (simp add: window_def)

section \<open>Refinement\<close>

lemma uservec_code_runs:
  fixes s :: "'a kproc_scheme"
  assumes "user_ready s"
  defines "tf \<equiv> trapframe (cur s)"
  shows "\<exists>t r'. uservec (tf_regs r) s = Inr t \<and> exec uservec_code (r, s) = Inr (r', t) \<and>
    r' R_sp = tf_get tf TF_kernel_sp s \<and> r' R_t0 = tf_get tf TF_kernel_trap s \<and> r' R_a0 = VA_TRAPFRAME"
proof -
  let ?W = "words tf 36"
  define s1 where "s1 = WRITE_CSR Sscratch (r R_a0) s"
  define r1 where "r1 = r(R_a0 := VA_TRAPFRAME)"
  define m where "m = saved_mem r tf_slots tf (mem s)"
  define m' where "m' = store32 m (slot tf 14) (r R_a0)"
  have s1: "cur s1 = cur s" "mem s1 = mem s" "csr s1 Sscratch = r R_a0" by (simp_all add: s1_def)
  have at: "active_table s1 (pagetable (cur s))" "tf_mapped (mem s1) (cur s)" using assms(1) by (simp_all add: user_ready_def active_table_def s1_def)
  note w = tf_window[OF at, folded tf_def]
  have m_oth: "\<forall>a. a \<notin> ?W \<longrightarrow> m a = mem s1 a" unfolding m_def s1(2) using saved_mem_other[OF tf_slots_ok(1)] by blast
  have m'_oth: "\<forall>a. a \<notin> ?W \<longrightarrow> m' a = mem s1 a" unfolding m'_def using m_oth store_slot_other[of 14 36] by simp
  have sv: "saved_mem r1 tf_slots tf (mem s) = m" unfolding m_def
    by (rule saved_mem_cong) (use tf_slots_ok(7) in \<open>force simp: r1_def\<close>)
  have saves: "exec (saves R_a0 tf_slots) (r1, s1) = Inr (r1, s1\<lparr>mem := m\<rparr>)"
    using exec_saves[of s1 ?W r1 R_a0 tf 36 tf_slots] w tf_slots_ok(1) sv s1(2) by (simp add: r1_def)
  have pa: "word_pa (s1\<lparr>mem := x\<rparr>) acc (VA_TRAPFRAME + 4 * of_nat k) = Inr (slot tf k)"
    if "\<forall>a. a \<notin> ?W \<longrightarrow> x a = mem s1 a" "k < 36" for x acc k
    using window_translate[OF w that] by (simp add: slot_def)
  have ld: "word_at m' tf j = word_at (mem s) tf j" if "j = 1 \<or> j = 2" for j
    using that saved_mem_unsaved[OF tf_slots_ok(1), of j r tf "mem s"] tf_slots_ok(5,6) by (auto simp: m'_def m_def word_at_store_slot)
  have "exec uservec_code (r, s) = Inr (r1(R_sp := word_at (mem s) tf 1, R_t0 := word_at (mem s) tf 2), s1\<lparr>mem := m'\<rparr>)"
    using saves pa[OF m_oth, of 14 Store] pa[OF m'_oth, of 1 Load] pa[OF m'_oth, of 2 Load] ld
    by (simp add: uservec_blocks exec_append set_reg_def s1_def[symmetric] r1_def[symmetric])
       (simp add: set_reg_def r1_def s1(3) m'_def fun_eq_iff)
  moreover have "mmu_translate s1 Store VA_TRAPFRAME = Some tf" using tf_translate[OF at, of 0 Store] by (simp add: slot_def tf_def)
  then have "uservec (tf_regs r) s = Inr (s1\<lparr>mem := m'\<rparr>)"
    using s1(2,3) fold_tf_set_saved[of tf r saved_regs s1]
    by (simp add: uservec_def s1_def[symmetric] tf_set_def set_word_def m'_def m_def tf_slots_def)
  ultimately show ?thesis by (simp add: tf_get_def r1_def)
qed

text \<open>The exit code, up to the \<open>sret\<close> that ends it.\<close>

lemma enter_user_code_runs:
  fixes s :: "'a kproc_scheme"
  assumes "tf_mapped (mem s) (cur s)" "r R_a0 = SATP_SV32 OR drop_bit 12 (pagetable (cur s))" "csr s Sstatus AND SSTATUS_SPP_MASK = 0"
  shows "\<exists>u t r'. enter_user_process (r R_a0) s = Inr (u, t) \<and> exec enter_user_code (r, s) = Inr (r', WRITE_CSR Satp (r R_a0) s) \<and>
    ue_pc u = csr s Sepc \<and> (\<forall>f \<in> user_regs. r' (reg_of f) = ue_regs u f)"
proof -
  define tf where "tf = trapframe (cur s)"
  define s1 where "s1 = WRITE_CSR Satp (r R_a0) s"
  define r1 where "r1 = r(R_a0 := VA_TRAPFRAME)"
  have at: "active_table s1 (pagetable (cur s))" "tf_mapped (mem s1) (cur s)" "mem s1 = mem s"
    using assms(1,2) by (simp_all add: active_table_def s1_def)
  note w = tf_window[OF at(1,2), folded tf_def]
  define r2 where "r2 = restored r1 tf_slots tf (mem s)"
  define r3 where "r3 = r2(R_a0 := word_at (mem s) tf 14)"
  have "exec (restores R_a0 tf_slots) (r1, s1) = Inr (r2, s1)"
    using exec_restores[of s1 _ r1 R_a0 tf 36 tf_slots] w tf_slots_ok(1,7) by (simp add: r1_def r2_def at(3))
  moreover have a0: "r2 R_a0 = VA_TRAPFRAME" using restored_other[OF tf_slots_ok(7)] by (simp add: r2_def r1_def)
  have "word_pa s1 Load (VA_TRAPFRAME + 56) = Inr (slot tf 14)"
    using window_translate[OF w, of "mem s1" 14 Load] by (simp add: slot_def)
  ultimately have run: "exec enter_user_code (r, s) = Inr (r3, s1)"
    unfolding r3_def using a0 by (simp add: uservec_blocks exec_append set_reg_def s1_def[symmetric] r1_def[symmetric] at(3))
  have tr: "mmu_translate s1 Load VA_TRAPFRAME = Some tf" using tf_translate[OF at(1,2), of 0 Load] by (simp add: slot_def tf_def)
  have "reg_of f \<noteq> R_a0 \<and> r2 (reg_of f) = tf_get tf f s" if "f \<in> set saved_regs" for f
  proof -
    have f: "(reg_of f, tf_index f) \<in> set tf_slots" using that by (rule tf_slots_mem)
    then have "reg_of f \<noteq> R_zero" "reg_of f \<noteq> R_a0" using tf_slots_ok(7,8) by force+
    then show ?thesis using restored_word[OF tf_slots_ok(2) f] by (simp add: r2_def tf_get_def)
  qed
  then have "\<forall>f \<in> user_regs. r3 (reg_of f) = tf_get tf f s1"
    by (auto simp: r3_def tf_get_def at(3))
  moreover have "csr s1 Sstatus AND SSTATUS_SPP_MASK = 0" "csr s1 Sepc = csr s Sepc" using assms(3) by (simp_all add: s1_def)
  ultimately show ?thesis using run tr by (simp add: enter_user_process_def s1_def[symmetric])
qed

section \<open>System call stubs\<close>

text \<open>Each stub loads the number of its call into \<open>a7\<close>, executes \<open>ecall\<close>, and returns with \<open>ret\<close>.\<close>

definition stub_fork :: "instr list" where "stub_fork = [Li R_a7 1]"
definition stub_exit :: "instr list" where "stub_exit = [Li R_a7 2]"
definition stub_read :: "instr list" where "stub_read = [Li R_a7 5]"
definition stub_kill :: "instr list" where "stub_kill = [Li R_a7 6]"
definition stub_exec :: "instr list" where "stub_exec = [Li R_a7 7]"
definition stub_getpid :: "instr list" where "stub_getpid = [Li R_a7 11]"
definition stub_sbrk :: "instr list" where "stub_sbrk = [Li R_a7 12]"
definition stub_sleep :: "instr list" where "stub_sleep = [Li R_a7 13]"
definition stub_open :: "instr list" where "stub_open = [Li R_a7 15]"
definition stub_write :: "instr list" where "stub_write = [Li R_a7 16]"
definition stub_close :: "instr list" where "stub_close = [Li R_a7 21]"

text \<open>
  A call of a stub at \<open>pc\<close> in user mode. When the program goes on, it does so at the return address, with the
  registers the kernel left; \<open>None\<close> says that the processor went to the scheduler.
\<close>

fun tf_of :: "reg \<Rightarrow> tf_field" where
  "tf_of R_ra = TF_ra" | "tf_of R_sp = TF_sp" | "tf_of R_gp = TF_gp" | "tf_of R_tp = TF_tp" | "tf_of R_t0 = TF_t0"
| "tf_of R_t1 = TF_t1" | "tf_of R_t2 = TF_t2" | "tf_of R_s0 = TF_s0" | "tf_of R_s1 = TF_s1" | "tf_of R_a0 = TF_a0"
| "tf_of R_a1 = TF_a1" | "tf_of R_a2 = TF_a2" | "tf_of R_a3 = TF_a3" | "tf_of R_a4 = TF_a4" | "tf_of R_a5 = TF_a5"
| "tf_of R_a6 = TF_a6" | "tf_of R_a7 = TF_a7" | "tf_of R_s2 = TF_s2" | "tf_of R_s3 = TF_s3" | "tf_of R_s4 = TF_s4"
| "tf_of R_s5 = TF_s5" | "tf_of R_s6 = TF_s6" | "tf_of R_s7 = TF_s7" | "tf_of R_s8 = TF_s8" | "tf_of R_s9 = TF_s9"
| "tf_of R_s10 = TF_s10" | "tf_of R_s11 = TF_s11" | "tf_of R_t3 = TF_t3" | "tf_of R_t4 = TF_t4" | "tf_of R_t5 = TF_t5"
| "tf_of R_t6 = TF_t6" | "tf_of R_zero = TF_kernel_satp"

definition uregs_of :: "user_entry \<Rightarrow> regs" where
  "uregs_of u q = (if q = R_zero then 0 else ue_regs u (tf_of q))"

definition usys_call :: "instr list \<Rightarrow> addr \<Rightarrow> regs \<times> 'a plic_scheme \<Rightarrow> ((addr \<times> regs) option \<times> 'a plic_scheme) kres" where
  "usys_call stub pc c =
     kbind (exec stub c) (\<lambda>(r, s).
     let ecall_pc = pc + 4 * of_nat (length stub) in
     kbind (user_trap SCAUSE_UMODE_ECALL \<lparr>ue_pc = ecall_pc, ue_regs = tf_regs r\<rparr> s) (\<lambda>(u, s).
       Inr (map_option (\<lambda>u. (if ue_pc u = ecall_pc + 4 then ue_regs u TF_ra else ue_pc u, uregs_of u)) u, s)))"

lemma tf_of_reg: "q \<noteq> R_zero \<Longrightarrow> tf_of q \<in> user_regs \<and> reg_of (tf_of q) = q"
  by (cases q) (simp_all add: saved_regs_def)

lemma uregs_of_eq:
  assumes "\<forall>f \<in> user_regs. ue_regs u f = r (reg_of f)" "r R_zero = 0"
  shows "uregs_of u = r"
proof
  fix q show "uregs_of u q = r q" using assms tf_of_reg[of q] by (cases "q = R_zero") (auto simp: uregs_of_def)
qed

text \<open>A stub that the kernel returns from: the caller goes on at the return address.\<close>

lemma usys_call_returns:
  assumes "stub = [Li R_a7 n]" "user_trap SCAUSE_UMODE_ECALL \<lparr>ue_pc = pc + 4, ue_regs = tf_regs (r(R_a7 := n))\<rparr> s = Inr (Some u, v)"
    "ue_pc u = pc + 8" "\<forall>f \<in> user_regs. ue_regs u f = r' (reg_of f)" "r' R_zero = 0" "r' R_ra = r R_ra"
  shows "usys_call stub pc (r, s) = Inr (Some (r R_ra, r'), v)"
proof -
  have "ue_regs u TF_ra = r R_ra" using assms(4,6) by (simp add: saved_regs_def)
  then show ?thesis
    using assms(2,3) uregs_of_eq[OF assms(4,5)] by (simp add: usys_call_def assms(1) set_reg_def add.assoc)
qed

text \<open>The user program may print any bytes that the kernel can read.\<close>

lemma TtyWrite_sends:
  assumes "uart_live s" "\<forall>i < unat n. mmu_translate s Load (src + of_nat i) = Some (pa i)"
  shows "\<exists>t. TtyWrite src n s = Inr (n, t) \<and> sends (map (\<lambda>i. mem s (pa i)) [0..<unat n]) s t"
proof -
  let ?P = "\<lambda>k t. sends (map (\<lambda>i. mem s (pa i)) [0..<k]) s t"
  have "\<exists>t. kfold (\<lambda>i s. kbind (uload8 (src + of_nat i) s) (\<lambda>c. UartSendBlocking c s)) [0..<unat n] s = Inr t \<and>
      ?P (length [0..<unat n]) t"
  proof (rule kfold_invariant[where P = ?P])
    show "?P 0 s" unfolding sends_def by (rule exI[of _ "lsr_pos s"]) simp
  next
    fix k t assume k: "k < length [0..<unat n]" and p: "?P k t"
    have m: "mem t = mem s" "csr t = csr s" using p by (auto simp: sends_def)
    have "mmu_translate t Load va = mmu_translate s Load va" for va by (simp add: mmu_translate_def m Let_def)
    then have "mmu_translate t Load (src + of_nat k) = Some (pa k)" using assms(2) k by simp
    then have "uload8 (src + of_nat k) t = Inr (mem s (pa k))" by (simp add: uload8_def m)
    moreover have "uart_live t" using p assms(1) by simp
    from UartSendBlocking_sends[OF this, of "mem s (pa k)"] obtain t' where
      "UartSendBlocking (mem s (pa k)) t = Inr t'" "sends [mem s (pa k)] t t'" by blast
    moreover from this(2) p have "?P (Suc k) t'" by (auto simp: sends_def)
    ultimately show "\<exists>t'. kbind (uload8 (src + of_nat ([0..<unat n] ! k)) t) (\<lambda>c. UartSendBlocking c t) = Inr t' \<and> ?P (Suc k) t'"
      using k by auto
  qed
  then show ?thesis by (auto simp: TtyWrite_def)
qed

text \<open>What the kernel reads through a user pointer after the trap is what the pointer meant before.\<close>

lemma entered_translate:
  fixes s :: "'a kproc_scheme"
  assumes "user_ready s" "entered (trapframe (cur s)) s t"
  shows "mmu_translate t acc va = mmu_translate s acc va"
proof -
  let ?root = "pagetable (cur s)"
  have c: "cur t = cur s" by (rule entered_simps(3)[OF assms(2)])
  have s: "active_table s ?root" "pt_wf (mem s) ?root" "trapframe (cur s) \<notin> pt_pages (mem s) ?root" "page_aligned ?root"
    using assms(1) by (simp_all add: user_ready_def tf_mapped_def pt_wf_def)
  have t: "active_table t ?root" "pt_wf (mem t) ?root"
    using entered_ready[OF assms(2,1)] by (simp_all add: user_ready_def tf_mapped_def c)
  have "\<forall>a. page_base a \<in> pt_pages (mem s) ?root \<longrightarrow> mem t a = mem s a"
    using assms(2) s(3) unfolding entered_def by metis
  note e = pt_cong(3)[OF s(4) this vpn_bound[of va]]
  have "sv32_permits acc (csr t Sstatus) p = sv32_permits acc (csr s Sstatus) p" for p
    using assms(2) by (simp add: sv32_permits_def entered_def)
  then show ?thesis unfolding mmu_translate_entry[OF s(1,2)] mmu_translate_entry[OF t] e by (simp split: option.split)
qed

lemma syscall_write:
  fixes s :: "'a plic_scheme"
  assumes "user_ready s" "uart_live s" "ue_regs u TF_a7 = SYS_write" "ue_regs u TF_a0 = 1"
    and buf: "\<forall>i < unat (ue_regs u TF_a2). mmu_translate s Load (ue_regs u TF_a1 + of_nat i) = Some (pa i) \<and> page_base (pa i) \<noteq> trapframe (cur s)"
  shows "\<exists>u' v. user_trap SCAUSE_UMODE_ECALL u s = Inr (Some u', v) \<and> ue_pc u' = ue_pc u + 4 \<and>
    (\<forall>f \<in> user_regs. ue_regs u' f = ue_regs u f) \<and>
    uart_writes v = uart_writes s @ map (Pair UART_THR) (map (\<lambda>i. mem s (pa i)) [0..<unat (ue_regs u TF_a2)]) \<and>
    procs v = procs s \<and> current v = current s \<and> kproc.more v = kproc.more s \<and> user_ready v \<and>
    (\<forall>a. page_base a \<noteq> trapframe (cur s) \<longrightarrow> mem v a = mem s a)"
proof -
  define bs where "bs = map (\<lambda>i. mem s (pa i)) [0..<unat (ue_regs u TF_a2)]"
  let ?Q = "sends bs"
  have "\<exists>t'. ktrap_syscall t = Inr (True, t') \<and> tf_mapped (mem t') (cur t') \<and> ?Q t t'"
    if e: "entered (trapframe (cur s)) s t" and a: "\<forall>f. arg f t = (if f \<in> user_regs then ue_regs u f
        else if f = TF_epc then ue_pc u + 4 else arg f s)" for t
  proof -
    have args: "arg TF_a7 t = SYS_write" "arg TF_a0 t = 1" "arg TF_a1 t = ue_regs u TF_a1" "arg TF_a2 t = ue_regs u TF_a2"
      using a assms(3,4) by simp_all
    have "\<forall>i < unat (ue_regs u TF_a2). mmu_translate t Load (ue_regs u TF_a1 + of_nat i) = Some (pa i)"
      using buf entered_translate[OF assms(1) e] by simp
    moreover have "uart_live t" using entered_simps(6)[OF e] assms(2) by simp
    ultimately obtain t' where t': "TtyWrite (ue_regs u TF_a1) (ue_regs u TF_a2) t = Inr (ue_regs u TF_a2, t')"
      "sends (map (\<lambda>i. mem t (pa i)) [0..<unat (ue_regs u TF_a2)]) t t'" using TtyWrite_sends by blast
    have "map (\<lambda>i. mem t (pa i)) [0..<unat (ue_regs u TF_a2)] = bs" using e buf by (simp add: bs_def entered_def)
    moreover have "mem t' = mem t" "cur t' = cur t" using t'(2) by (auto simp: sends_def cur_def)
    moreover have "tf_mapped (mem t) (cur t)" using entered_ready[OF e assms(1)] ready_tf(2) by blast
    moreover have "ktrap_syscall t = Inr (True, t')"
      using args t'(1) by (simp add: ktrap_syscall_def sys_defs ksys_write_def)
    ultimately show ?thesis using t'(2) by simp
  qed
  from syscall_returns[OF assms(1), of u ?Q, OF this] obtain t t' u' v where v: "entered (trapframe (cur s)) s t"
    "\<forall>f. arg f t = (if f \<in> user_regs then ue_regs u f else if f = TF_epc then ue_pc u + 4 else arg f s)" "sends bs t t'"
    "user_trap SCAUSE_UMODE_ECALL u s = Inr (Some u', v)" "ue_pc u' = arg TF_epc t'"
    "\<forall>f \<in> user_regs. ue_regs u' f = arg f t'" "procs v = procs t'" "current v = current t'"
    "kproc.more v = kproc.more t'" "user_ready v" "\<forall>a. page_base a \<noteq> trapframe (cur t') \<longrightarrow> mem v a = mem t' a"
    "uart_writes v = uart_writes t'" by blast
  note es = entered_simps[OF v(1)]
  have t': "procs t' = procs t" "current t' = current t" "cur t' = cur t" "kproc.more t' = kproc.more t" "mem t' = mem t"
    "uart_writes t' = uart_writes t @ map (Pair UART_THR) bs" "tf_get p f t' = tf_get p f t" for p f
    using v(3) by (auto simp: sends_def cur_def tf_get_def)
  have "\<forall>a. page_base a \<noteq> trapframe (cur s) \<longrightarrow> mem v a = mem s a"
    using v(1,11) es(3) by (simp add: t' entered_def)
  then show ?thesis using v(2,4-10,12) es by (simp add: t' bs_def)
qed

section \<open>Properties\<close>

text \<open>
  C12: the assembly at the border of user mode does what the handlers in C rely on. On a trap the instructions of
  \<open>uservec\<close> put every register of the user program into the trap frame of the current process, through the page table
  of the process, and leave the stack pointer at the kernel stack and \<open>t0\<close> at the handler that the frame names; the
  instructions of \<open>enter_user_process\<close> load the page table and every register from the frame. Both have exactly the
  effect on memory and control registers that the model of the handlers has.
\<close>

theorem uservec_refines:
  fixes s :: "'a kproc_scheme"
  assumes "user_ready s"
  shows "(\<exists>t r'. uservec (tf_regs r) s = Inr t \<and> exec uservec_code (r, s) = Inr (r', t) \<and>
      r' R_sp = tf_get (trapframe (cur s)) TF_kernel_sp s \<and> r' R_t0 = tf_get (trapframe (cur s)) TF_kernel_trap s) \<and>
    (csr s Sstatus AND SSTATUS_SPP_MASK = 0 \<and> r R_a0 = csr s Satp \<longrightarrow>
      (\<exists>u t r'. enter_user_process (r R_a0) s = Inr (u, t) \<and> exec enter_user_code (r, s) = Inr (r', WRITE_CSR Satp (r R_a0) s) \<and>
        ue_pc u = csr s Sepc \<and> (\<forall>f \<in> user_regs. r' (reg_of f) = ue_regs u f \<and> ue_regs u f = tf_get (trapframe (cur s)) f s)))"
proof (intro conjI impI)
  show "\<exists>t r'. uservec (tf_regs r) s = Inr t \<and> exec uservec_code (r, s) = Inr (r', t) \<and>
      r' R_sp = tf_get (trapframe (cur s)) TF_kernel_sp s \<and> r' R_t0 = tf_get (trapframe (cur s)) TF_kernel_trap s"
    using uservec_code_runs[OF assms] by blast
  assume h: "csr s Sstatus AND SSTATUS_SPP_MASK = 0 \<and> r R_a0 = csr s Satp"
  have m: "tf_mapped (mem s) (cur s)" using assms ready_tf(2) by blast
  have a: "r R_a0 = SATP_SV32 OR drop_bit 12 (pagetable (cur s))" using h assms by (simp add: user_ready_def active_table_def)
  from enter_user_code_runs[of s r, OF m a] h obtain u t r' where r': "enter_user_process (r R_a0) s = Inr (u, t)"
    "exec enter_user_code (r, s) = Inr (r', WRITE_CSR Satp (r R_a0) s)" "ue_pc u = csr s Sepc"
    "\<forall>f \<in> user_regs. r' (reg_of f) = ue_regs u f" by blast
  have at: "active_table (WRITE_CSR Satp (r R_a0) s) (pagetable (cur s))" by (simp add: active_table_def a)
  have "mmu_translate (WRITE_CSR Satp (r R_a0) s) Load VA_TRAPFRAME = Some (trapframe (cur s))"
    using tf_mapped_translate[OF at] m by simp
  then have "ue_regs u f = tf_get (trapframe (cur s)) f s" for f
    using r'(1) h by (auto simp: enter_user_process_def Let_def)
  with r' show "\<exists>u t r'. enter_user_process (r R_a0) s = Inr (u, t) \<and> exec enter_user_code (r, s) = Inr (r', WRITE_CSR Satp (r R_a0) s) \<and>
        ue_pc u = csr s Sepc \<and> (\<forall>f \<in> user_regs. r' (reg_of f) = ue_regs u f \<and> ue_regs u f = tf_get (trapframe (cur s)) f s)" by blast
qed

theorem uservec_refines_witness:
  "\<exists>t r' u t' r''. uservec (\<lambda>f. csr trap_static Satp) trap_static = Inr t \<and> exec uservec_code (\<lambda>_. csr trap_static Satp, trap_static) = Inr (r', t) \<and>
     enter_user_process (csr trap_static Satp) trap_static = Inr (u, t') \<and>
     exec enter_user_code (\<lambda>_. csr trap_static Satp, trap_static) = Inr (r'', WRITE_CSR Satp (csr trap_static Satp) trap_static) \<and>
     r'' R_s3 = ue_regs u TF_s3"
proof -
  let ?r = "\<lambda>_ :: reg. csr trap_static Satp"
  have c: "csr trap_static Sstatus AND SSTATUS_SPP_MASK = 0" by simp
  have f: "TF_s3 \<in> user_regs" by (simp add: saved_regs_def)
  from uservec_refines[OF trap_static_ready(1), of ?r] c obtain t r' u t' r'' where
    "uservec (tf_regs ?r) trap_static = Inr t" "exec uservec_code (?r, trap_static) = Inr (r', t)"
    "enter_user_process (csr trap_static Satp) trap_static = Inr (u, t')"
    "exec enter_user_code (?r, trap_static) = Inr (r'', WRITE_CSR Satp (csr trap_static Satp) trap_static)"
    "\<forall>f \<in> user_regs. r'' (reg_of f) = ue_regs u f" by blast
  moreover from bspec[OF this(5) f] have "r'' R_s3 = ue_regs u TF_s3" by simp
  ultimately show ?thesis by blast
qed

text \<open>
  C13: the library call \<open>usys_getpid\<close>, from the first instruction of the stub through the kernel and back to the caller:
  it returns with the process identifier in \<open>a0\<close> and the call number in \<open>a7\<close>, and every other register, every control block and all
  memory outside the trap frame are as before.
\<close>

theorem usys_getpid_returns:
  fixes s :: "'a plic_scheme"
  assumes "user_ready s" "r R_zero = 0"
  shows "\<exists>v. usys_call stub_getpid pc (r, s) = Inr (Some (r R_ra, r(R_a7 := 11, R_a0 := pid (cur s))), v) \<and>
    procs v = procs s \<and> current v = current s \<and> kproc.more v = kproc.more s \<and> user_ready v \<and>
    (\<forall>a. page_base a \<noteq> trapframe (cur s) \<longrightarrow> mem v a = mem s a)"
proof -
  let ?u = "\<lparr>ue_pc = pc + 4, ue_regs = tf_regs (r(R_a7 := 11))\<rparr>"
  have "ue_regs ?u TF_a7 = SYS_getpid" by (simp add: SYS_getpid_def)
  from syscall_getpid[OF assms(1) this] obtain u' v where v: "user_trap SCAUSE_UMODE_ECALL ?u s = Inr (Some u', v)"
    "ue_pc u' = pc + 4 + 4" "\<forall>f \<in> user_regs. ue_regs u' f = (if f = TF_a0 then pid (cur s) else tf_regs (r(R_a7 := 11)) f)"
    "procs v = procs s" "current v = current s" "kproc.more v = kproc.more s" "user_ready v"
    "\<forall>a. page_base a \<noteq> trapframe (cur s) \<longrightarrow> mem v a = mem s a" by auto
  have "\<forall>f \<in> user_regs. ue_regs u' f = (r(R_a7 := 11, R_a0 := pid (cur s))) (reg_of f)"
    using v(3) by (simp add: saved_regs_def)
  then have "usys_call stub_getpid pc (r, s) = Inr (Some (r R_ra, r(R_a7 := 11, R_a0 := pid (cur s))), v)"
    by (intro usys_call_returns[OF stub_getpid_def v(1)]) (use v(2) assms(2) in simp_all)
  then show ?thesis using v(4-8) by simp
qed

theorem usys_getpid_returns_witness:
  "\<exists>v. usys_call stub_getpid 0xC0000100 ((\<lambda>_. 7)(R_zero := 0, R_ra := 0xC0000020), trap_static) =
     Inr (Some (0xC0000020, (\<lambda>_. 7)(R_zero := 0, R_ra := 0xC0000020, R_a7 := 11, R_a0 := 1)), v)"
  using usys_getpid_returns[OF trap_static_ready(1), of "(\<lambda>_. 7)(R_zero := 0, R_ra := 0xC0000020)" "0xC0000100"]
  by (auto simp: cur_def blank_process_def)

text \<open>
  C25: the library call \<open>usys_write\<close> to descriptor 1 sends the bytes of the buffer, in order, to the UART and returns with no register but
  \<open>a7\<close> changed (so its result is the descriptor, not the value of the kernel routine). The kernel uses the pointer as it is: the bytes are those at the translated addresses, also
  when these are pages that the program itself may not read.
\<close>

theorem usys_write_reaches_console:
  fixes s :: "'a plic_scheme"
  assumes "user_ready s" "uart_live s" "r R_zero = 0" "r R_a0 = 1"
    and "\<forall>i < unat (r R_a2). mmu_translate s Load (r R_a1 + of_nat i) = Some (pa i) \<and> page_base (pa i) \<noteq> trapframe (cur s)"
  shows "\<exists>v. usys_call stub_write pc (r, s) = Inr (Some (r R_ra, r(R_a7 := 16)), v) \<and>
    uart_writes v = uart_writes s @ map (\<lambda>i. (UART_THR, mem s (pa i))) [0..<unat (r R_a2)] \<and>
    procs v = procs s \<and> current v = current s \<and> kproc.more v = kproc.more s \<and> user_ready v \<and>
    (\<forall>a. page_base a \<noteq> trapframe (cur s) \<longrightarrow> mem v a = mem s a)"
proof -
  let ?u = "\<lparr>ue_pc = pc + 4, ue_regs = tf_regs (r(R_a7 := 16))\<rparr>"
  have u: "ue_regs ?u TF_a7 = SYS_write" "ue_regs ?u TF_a0 = 1" "ue_regs ?u TF_a1 = r R_a1" "ue_regs ?u TF_a2 = r R_a2"
    using assms(4) by (simp_all add: SYS_write_def)
  from syscall_write[OF assms(1,2) u(1,2), of pa] assms(5) obtain u' v where v: "user_trap SCAUSE_UMODE_ECALL ?u s = Inr (Some u', v)"
    "ue_pc u' = pc + 4 + 4" "\<forall>f \<in> user_regs. ue_regs u' f = tf_regs (r(R_a7 := 16)) f"
    "uart_writes v = uart_writes s @ map (Pair UART_THR) (map (\<lambda>i. mem s (pa i)) [0..<unat (r R_a2)])"
    "procs v = procs s" "current v = current s" "kproc.more v = kproc.more s" "user_ready v"
    "\<forall>a. page_base a \<noteq> trapframe (cur s) \<longrightarrow> mem v a = mem s a" by (auto simp: u(3,4))
  have "usys_call stub_write pc (r, s) = Inr (Some (r R_ra, r(R_a7 := 16)), v)"
    by (rule usys_call_returns[OF stub_write_def v(1)]) (use v(2,3) assms(3) in simp_all)
  then show ?thesis using v(4-9) by (simp add: comp_def)
qed

text \<open>A page of the kernel, without the user bit, in the address space of the process.\<close>

definition leak_mem :: "addr \<Rightarrow> u8" where
  "leak_mem = (page_mem 0x80000000)(0x80000010 := 72)"

lemma leak_ready:
  "user_ready (trap_static\<lparr>mem := leak_mem\<rparr>)"
  "mmu_translate (trap_static\<lparr>mem := leak_mem\<rparr>) Load 0xFFC05010 = Some 0x80000010"
proof -
  let ?s = "trap_static\<lparr>mem := leak_mem\<rparr>"
  have m: "mem ?s a = page_mem 0x80000000 a" if "page_base a \<in> {0x80105000, 0x80108000}" for a
    using that by (auto simp: leak_mem_def page_base_def)
  have act: "active_table ?s 0x80105000" by (simp add: active_table_def)
  show "user_ready ?s" using page_mem_ready(1)[OF m act] by (simp add: cur_def)
  show "mmu_translate ?s Load 0xFFC05010 = Some 0x80000010"
    using page_mem_ready(2)[OF m act, of "0xFFC05010"] by (simp add: vpn_div page_base_def)
qed

theorem usys_write_reaches_console_witness:
  "\<exists>v. usys_call stub_write 0xC0000100 ((\<lambda>_. 0)(R_ra := 0xC0000020, R_a0 := 1, R_a1 := 0xFFC05010, R_a2 := 1), trap_static\<lparr>mem := leak_mem\<rparr>) =
      Inr (Some (0xC0000020, (\<lambda>_. 0)(R_ra := 0xC0000020, R_a0 := 1, R_a1 := 0xFFC05010, R_a2 := 1, R_a7 := 16)), v) \<and>
    uart_writes v = uart_writes trap_static @ [(UART_THR, 72)]"
proof -
  let ?s = "trap_static\<lparr>mem := leak_mem\<rparr>"
  have "uart_live ?s" using trap_static_ready(2) by (simp add: uart_live_def)
  from usys_write_reaches_console[of ?s "(\<lambda>_. 0)(R_ra := 0xC0000020, R_a0 := 1, R_a1 := 0xFFC05010, R_a2 := 1)" "\<lambda>_. 0x80000010" "0xC0000100",
      OF leak_ready(1) this] leak_ready(2)
  show ?thesis by (auto simp: cur_def blank_process_def page_base_def leak_mem_def)
qed

end
