(* ===== verification/Ulibc.thy ===== *)
theory Ulibc
  imports Klibc Vectors
begin

text \<open>
  The C library of user programs, \<^verbatim>\<open>src/user/ulibc.c\<close>: its memory functions, loop by loop with counters of their width, over the
  memory the program sees, and the end of a program, \<open>start\<close> and \<open>exit\<close>, followed into the kernel.
\<close>

section \<open>Memory functions\<close>

definition u_memcpy :: "addr \<Rightarrow> addr \<Rightarrow> u32 \<Rightarrow> (addr \<Rightarrow> u8) \<Rightarrow> (addr \<times> (addr \<Rightarrow> u8)) kres" where
  "u_memcpy dest src sz m =
     kbind (kwhile (\<lambda>(i, m). i < sz) (\<lambda>(i, m). Inr (i + 1, m(dest + i := m (src + i)))) (0, m)) (\<lambda>(i, m). Inr (dest, m))"

definition u_memmove :: "addr \<Rightarrow> addr \<Rightarrow> u32 \<Rightarrow> (addr \<Rightarrow> u8) \<Rightarrow> (addr \<times> (addr \<Rightarrow> u8)) kres" where
  "u_memmove dest src n m =
     (if dest = src then Inr (dest, m)
      else if dest < src then
        kbind (kwhile (\<lambda>(i, m). i < n) (\<lambda>(i, m). Inr (i + 1, m(dest + i := m (src + i)))) (0, m)) (\<lambda>(i, m). Inr (dest, m))
      else
        kbind (kwhile (\<lambda>(i, m). n \<ge> 0) (\<lambda>(i, m). Inr (i - 1, m(dest + i := m (src + i)))) (n - 1, m)) (\<lambda>(i, m). Inr (dest, m)))"

text \<open>The counter is a signed \<open>int\<close>, compared as unsigned: it must not be increased beyond its largest value.\<close>

definition u_memset :: "addr \<Rightarrow> u32 \<Rightarrow> u32 \<Rightarrow> (addr \<Rightarrow> u8) \<Rightarrow> (addr \<times> (addr \<Rightarrow> u8)) kres" where
  "u_memset dest c n m =
     kbind (kwhile (\<lambda>(i, m). i < n)
       (\<lambda>(i, m). let m = m(dest + i := ucast c) in if i = 0x7FFFFFFF then Inl (Undefined ''int overflow'') else Inr (i + 1, m)) (0, m))
       (\<lambda>(i, m). Inr (dest, m))"

text \<open>The condition of the loop moves both pointers; the flag says that it was false.\<close>

definition u_memcmp :: "addr \<Rightarrow> addr \<Rightarrow> u32 \<Rightarrow> (addr \<Rightarrow> u8) \<Rightarrow> int kres" where
  "u_memcmp s1 s2 n m =
     kbind (kwhile (\<lambda>(ended, us1, us2, n). \<not> ended)
       (\<lambda>(_, us1, us2, n). Inr (if n > 0 then if m us1 = m us2 then (False, us1 + 1, us2 + 1, n - 1) else (True, us1 + 1, us2 + 1, n)
         else (True, us1, us2, n))) (False, s1, s2, n))
       (\<lambda>(_, us1, us2, n). Inr (if n = 0 then 0 else uint (m us1) - uint (m us2)))"

section \<open>The end of a program\<close>

text \<open>\<open>exit\<close> calls the kernel; if the call came back, it would print for ever.\<close>

definition u_exit :: "addr \<Rightarrow> regs \<times> 'a plic_scheme \<Rightarrow> 'a plic_scheme kres" where
  "u_exit pc c = kbind (usys_call stub_exit pc c) (\<lambda>(r, s). case r of None \<Rightarrow> Inr s | Some _ \<Rightarrow> Inl Hang)"

definition u_start :: "(regs \<times> 'a plic_scheme \<Rightarrow> (regs \<times> 'a plic_scheme) kres) \<Rightarrow> addr \<Rightarrow> regs \<times> 'a plic_scheme \<Rightarrow> 'a plic_scheme kres" where
  "u_start main exit_pc c = kbind (main c) (u_exit exit_pc)"

section \<open>The same results as in the kernel\<close>

lemma copy_forward:
  "kwhile (\<lambda>(i, m). i < n) (\<lambda>(i, m). Inr (i + 1, m(dest + i := m (src + i)))) (0, m) = Inr (n, copy_loop (unat n) dest src m)"
proof -
  let ?b = "\<lambda>(i, m :: addr \<Rightarrow> u8). i < n" and ?c = "\<lambda>(i, m :: addr \<Rightarrow> u8). Inr (i + 1, m(dest + i := m (src + i)))"
  let ?P = "\<lambda>(i, x). i \<le> n \<and> x = copy_loop (unat i) dest src m"
  have "\<exists>t. kwhile ?b ?c (0, m) = Inr t \<and> ?P t \<and> \<not> ?b t"
  proof (rule kwhile_total[where m = "\<lambda>(i, x). unat n - unat i"])
    fix t :: "u32 \<times> (addr \<Rightarrow> u8)" assume p: "?P t" and b: "?b t"
    obtain i x where t: "t = (i, x)" by (cases t)
    have i: "i < n" "unat (i + 1) = Suc (unat i)" "x = copy_loop (unat i) dest src m" using p b unat_step[of i n] by (simp_all add: t)
    then have "i + 1 \<le> n" by (simp add: word_le_nat_alt word_less_nat_alt)
    then show "\<exists>t'. ?c t = Inr t' \<and> ?P t' \<and> (case t' of (i, x) \<Rightarrow> unat n - unat i) < (case t of (i, x) \<Rightarrow> unat n - unat i)"
      using i by (simp add: t Let_def word_less_nat_alt)
  qed simp
  then show ?thesis by auto
qed

lemma compare_loop:
  "kwhile (\<lambda>(ended, us1, us2, n). \<not> ended)
     (\<lambda>(_, us1, us2, n). Inr (if n > 0 then if m us1 = m us2 then (False, us1 + 1, us2 + 1, n - 1) else (True, us1 + 1, us2 + 1, n)
       else (True, us1, us2, n))) (False, p, q, n) =
   (case memcmp_loop (unat n) p q m of (us1, us2, k) \<Rightarrow> Inr (True, us1, us2, of_nat k))"
proof (induction "unat n" arbitrary: p q n)
  case 0
  then show ?case by (subst kwhile_unfold) (simp add: unat_eq_0)
next
  case (Suc k)
  have n: "n > 0" "unat (n - 1) = k" using Suc.hyps(2) by (simp_all add: word_less_nat_alt unat_sub word_le_nat_alt)
  have "of_nat (Suc k) = n" unfolding Suc.hyps(2) by simp
  then show ?case using n Suc.hyps(1)[of "n - 1" "p + 1" "q + 1"] unfolding Suc.hyps(2)[symmetric]
    by (subst kwhile_unfold) simp
qed

lemma memcmp_loop_bound: "snd (snd (memcmp_loop n p q m)) \<le> n"
proof (induction n arbitrary: p q)
  case (Suc n)
  then show ?case using le_Suc_eq by simp
qed simp

section \<open>Properties\<close>

text \<open>
  C38: the memory functions of the user library compute what those of the kernel compute: \<open>memcpy\<close> and \<open>memcmp\<close> always return, with the
  same bytes and the same value; \<open>memmove\<close> returns or hangs together with the one of the kernel; \<open>memset\<close> stores the byte in
  exactly the given region when it has at most 2147483647 bytes, and in both libraries its signed counter overflows on a larger one.
\<close>

theorem ulibc_equals_klibc:
  "u_memcpy d s n m = Inr (d, memcpy d s n m) \<and>
   u_memmove d s n m = kbind (memmove d s n m) (\<lambda>m. Inr (d, m)) \<and>
   u_memset d c n m = kbind (memset d c n m) (\<lambda>m. Inr (d, m)) \<and>
   memset d c n m = (if n \<le> 0x7FFFFFFF then Inr (\<lambda>a. if a - d < n then ucast c else m a) else Inl (Undefined ''int overflow'')) \<and>
   u_memcmp d s n m = Inr (memcmp d s n m)"
proof (intro conjI)
  show "u_memcpy d s n m = Inr (d, memcpy d s n m)" by (simp add: u_memcpy_def copy_forward memcpy_def)
  show "u_memmove d s n m = kbind (memmove d s n m) (\<lambda>m. Inr (d, m))"
    by (auto simp: u_memmove_def memmove_def copy_forward kbind_assoc intro!: kbind_cong)
  show "u_memset d c n m = kbind (memset d c n m) (\<lambda>m. Inr (d, m))"
    by (auto simp: u_memset_def memset_def kbind_assoc intro!: kbind_cong)
  show "memset d c n m = (if n \<le> 0x7FFFFFFF then Inr (\<lambda>a. if a - d < n then ucast c else m a) else Inl (Undefined ''int overflow''))"
    by (simp add: memset_eq fill_loop_word fun_eq_iff)
  obtain us1 us2 k where l: "memcmp_loop (unat n) d s m = (us1, us2, k)" by (metis prod_cases3)
  have "k < 4294967296" using memcmp_loop_bound[of "unat n" d s m] unat32_bound[of n] by (simp add: l)
  then have "(of_nat k :: u32) = 0 \<longleftrightarrow> k = 0" using of_nat32_inj[of k 0] by simp
  then show "u_memcmp d s n m = Inr (memcmp d s n m)" by (simp add: u_memcmp_def compare_loop memcmp_def l)
qed

text \<open>Pages of the process: what \<open>exit\<close> gives back.\<close>

definition exit_pages :: "process \<Rightarrow> addr list" where
  "exit_pages p = [user_stack p, pagetable p, trapframe p]"

lemma kproc_free_ok:
  assumes "kmem_pages s ps" "distinct (exit_pages (cur s) @ ps)" "\<forall>p \<in> set (exit_pages (cur s)). page_aligned p \<and> p \<noteq> 0"
    "current s < length (procs s)"
  shows "kmem_pages (kproc_free s) (exit_pages (cur s) @ ps)" "current (kproc_free s) = current s"
    "proc_state (procs (kproc_free s) ! current s) = UNUSED" "\<forall>i. i \<noteq> current s \<longrightarrow> procs (kproc_free s) ! i = procs s ! i"
    "kproc.more (kproc_free s) = kproc.more s"
proof -
  let ?u = "proc_upd (current s) (\<lambda>p. p\<lparr>proc_state := UNUSED\<rparr>) s"
  have c: "trapframe (cur ?u) = trapframe (cur s)" "pagetable (cur ?u) = pagetable (cur s)" "user_stack (cur ?u) = user_stack (cur s)"
    using assms(4) by (simp_all add: cur_def)
  let ?t = "kmem_free (user_stack (cur s)) (kmem_free (pagetable (cur s)) (kmem_free (trapframe (cur s)) ?u))"
  have eq: "kproc_free s = kproc_yield After_free ?t" by (simp add: kproc_free_def Let_def c)
  have "kmem_pages ?u ps" by (rule kmem_pages_frame[OF assms(1)]) simp_all
  note f1 = kmem_free_ok[OF this, of "trapframe (cur s)"]
  have f1: "kmem_pages (kmem_free (trapframe (cur s)) ?u) (trapframe (cur s) # ps)"
    by (rule f1) (use assms(2,3) in \<open>simp_all add: exit_pages_def\<close>)
  have f2: "kmem_pages (kmem_free (pagetable (cur s)) (kmem_free (trapframe (cur s)) ?u)) (pagetable (cur s) # trapframe (cur s) # ps)"
    by (rule kmem_free_ok[OF f1]) (use assms(2,3) in \<open>simp_all add: exit_pages_def\<close>)
  have "kmem_pages ?t (exit_pages (cur s) @ ps)" unfolding exit_pages_def append.simps
    by (rule kmem_free_ok[OF f2]) (use assms(2,3) in \<open>simp_all add: exit_pages_def\<close>)
  then show "kmem_pages (kproc_free s) (exit_pages (cur s) @ ps)" unfolding eq kproc_yield_def
    by (rule kmem_pages_frame) simp_all
  show "current (kproc_free s) = current s" "proc_state (procs (kproc_free s) ! current s) = UNUSED"
    "\<forall>i. i \<noteq> current s \<longrightarrow> procs (kproc_free s) ! i = procs s ! i"
    unfolding eq kproc_yield_def using assms(4) by simp_all
  show "kproc.more (kproc_free s) = kproc.more s" unfolding eq kproc_yield_def by (simp add: kmem_free_def)
qed

lemma exit_releases:
  fixes s :: "'a plic_scheme"
  assumes "user_ready s" "kmem_pages s ps" "distinct (exit_pages (cur s) @ ps)" "\<forall>p \<in> set (exit_pages (cur s)). page_aligned p \<and> p \<noteq> 0"
    "current s < length (procs s)"
  shows "\<exists>v. u_exit pc (r, s) = Inr v \<and> kmem_pages v (exit_pages (cur s) @ ps) \<and> current v = current s \<and>
    proc_state (procs v ! current s) = UNUSED \<and> (\<forall>i. i \<noteq> current s \<longrightarrow> procs v ! i = procs s ! i) \<and> kproc.more v = kproc.more s"
proof -
  let ?u = "\<lparr>ue_pc = pc + 4, ue_regs = tf_regs (r(R_a7 := 2))\<rparr>"
  have e: "SCAUSE_UMODE_ECALL AND SCAUSE_INTR_BIT = 0" "SCAUSE_UMODE_ECALL AND SCAUSE_CODE_MASK = SCAUSE_UMODE_ECALL"
    by (simp_all add: SCAUSE_UMODE_ECALL_def SCAUSE_INTR_BIT_def SCAUSE_CODE_MASK_def)
  from handler_dispatch[OF assms(1) e(1), of ?u] e(2) obtain t where t: "entered (trapframe (cur s)) s t"
    "\<forall>f. tf_get (trapframe (cur s)) f t = (if f \<in> user_regs then ue_regs ?u f else if f = TF_epc then ue_pc ?u + 4 else arg f s)"
    "user_trap SCAUSE_UMODE_ECALL ?u s = kbind (ktrap_syscall t)
      (\<lambda>(goes_on, s). if goes_on then kbind (ktrap_to_user s) (\<lambda>(u, s). Inr (Some u, s)) else Inr (None, s))" by auto
  note es = entered_simps[OF t(1)]
  have "arg TF_a7 t = SYS_exit" using t(2) es(3) by (simp add: SYS_exit_def)
  then have "ktrap_syscall t = Inr (False, kproc_free t)" by (simp add: ktrap_syscall_def sys_defs ksys_exit_def)
  then have run: "u_exit pc (r, s) = Inr (kproc_free t)"
    using t(3) by (simp add: u_exit_def usys_call_def stub_exit_def set_reg_def)
  have "kmem_pages t ps"
  proof (rule kmem_pages_frame[OF assms(2) es(8)])
    fix a assume "in_pages a ps"
    then have "page_base a \<noteq> trapframe (cur s)" using assms(3) by (auto simp: exit_pages_def)
    then show "mem t a = mem s a" using t(1) unfolding entered_def by blast
  qed
  from kproc_free_ok[OF this] assms(3-5) es run show ?thesis by simp
qed

text \<open>
  C26: the end of a program. When \<open>main\<close> returns to \<open>start\<close>, or calls \<open>exit\<close>, the program never runs again: the system call does not come
  back, its control block is free, its trap frame, page table and stack page are the next pages the allocator hands out, and no other
  process and no file table has changed.
\<close>

theorem exit_releases_process:
  fixes s :: "'a plic_scheme"
  assumes "main c = Inr (r, s)" "user_ready s" "kmem_pages s ps" "distinct (exit_pages (cur s) @ ps)"
    "\<forall>p \<in> set (exit_pages (cur s)). page_aligned p \<and> p \<noteq> 0" "current s < length (procs s)"
  shows "\<exists>v. u_start main pc c = Inr v \<and> u_exit pc (r, s) = Inr v \<and> kmem_pages v (exit_pages (cur s) @ ps) \<and> current v = current s \<and>
    proc_state (procs v ! current s) = UNUSED \<and> (\<forall>i. i \<noteq> current s \<longrightarrow> procs v ! i = procs s ! i) \<and> kproc.more v = kproc.more s"
  using exit_releases[OF assms(2-6), of pc r] assms(1) by (auto simp: u_start_def)

theorem exit_releases_process_witness:
  "\<exists>v. u_start (\<lambda>(r, s). Inr (r(R_a0 := 7), s)) 0xC0000040 (\<lambda>_. 0, trap_static\<lparr>kmem_head := 0\<rparr>) = Inr v \<and>
     kmem_pages v [0x80107000, 0x80105000, 0x80106000] \<and> proc_state (procs v ! 0) = UNUSED"
proof -
  let ?s = "trap_static\<lparr>kmem_head := 0\<rparr>"
  have c: "current ?s = 0" "procs ?s = procs trap_static" "kmem_head ?s = 0"
    by (simp_all add: trap_static_def filesystem.defs plic.defs fs_static_def kproc.defs)
  have cu: "cur ?s = cur trap_static" by (simp add: cur_def c)
  have pg: "exit_pages (cur ?s) = [0x80107000, 0x80105000, 0x80106000]" by (simp add: cu exit_pages_def cur_def blank_process_def)
  have "user_ready ?s" using trap_static_ready(1) by (simp add: user_ready_def cu active_table_def)
  moreover have "kmem_pages ?s []" by (simp add: kmem_pages_def c)
  ultimately obtain v where "u_start (\<lambda>(r, s). Inr (r(R_a0 := 7), s)) 0xC0000040 (\<lambda>_. 0, ?s) = Inr v" "kmem_pages v (exit_pages (cur ?s) @ [])"
      "proc_state (procs v ! current ?s) = UNUSED"
    using exit_releases_process[of "\<lambda>(r, s). Inr (r(R_a0 := 7), s)" "(\<lambda>_. 0, ?s)" "(\<lambda>_. 0)(R_a0 := 7)" ?s "[]" "0xC0000040"]
    by (auto simp: pg c page_aligned_def)
  then show ?thesis by (auto simp: pg c)
qed

end
