(* ===== verification/Uprintf.thy ===== *)
theory Uprintf
  imports Kprintf
begin

text \<open>
  The user library's output, \<^verbatim>\<open>src/user/uprintf.c\<close>. A user program prints by the system call \<open>usys_write\<close>
  of \<^verbatim>\<open>src/user/usyscall.S\<close>; its state here is the sequence of bytes it passed to the kernel for
  descriptor 1, which the kernel sends to the console. The digit loop is the same text as in the
  kernel's \<^verbatim>\<open>kprintf.c\<close>.
\<close>

section \<open>Definitions\<close>

record user_io =
  uout :: "u8 list"

text \<open>\<open>usys_write\<close>: the kernel accepts descriptor 1 only.\<close>

definition usys_write :: "int \<Rightarrow> u8 list \<Rightarrow> 'a user_io_scheme \<Rightarrow> 'a user_io_scheme" where
  "usys_write fd data s = (if fd = 1 then s\<lparr>uout := uout s @ data\<rparr> else s)"

definition u_print_dec :: "u32 \<Rightarrow> bool \<Rightarrow> 'a user_io_scheme \<Rightarrow> 'a user_io_scheme kres" where
  "u_print_dec val isSigned s =
     (let sign = sint val < 0;
          uval = (if isSigned \<and> sign then - val else val)
      in kbind (print_dec_loop (replicate 16 0) 0 uval) (\<lambda>(str, i).
         kbind (if isSigned \<and> sign
                then if i \<ge> 16 then Inl (Undefined ''print_dec: str[16]'')
                     else Inr (str[i := of_char (CHR ''-'')], i + 1)
                else Inr (str, i)) (\<lambda>(str, i).
           Inr (fold (\<lambda>j. usys_write 1 [str ! j]) (rev [0..<i]) s))))"

definition u_print_hex :: "u32 \<Rightarrow> 'a user_io_scheme \<Rightarrow> 'a user_io_scheme" where
  "u_print_hex val s =
     fold (\<lambda>i. usys_write 1 [hex_lookup ! unat (drop_bit (i * 4) val AND 0x0F)]) (rev [0..<8])
       (usys_write 1 [of_char (CHR ''x'')] (usys_write 1 [of_char (CHR ''0'')] s))"

fun uprintf :: "string \<Rightarrow> varg list \<Rightarrow> 'a user_io_scheme \<Rightarrow> (int \<times> 'a user_io_scheme) kres" where
  "uprintf [] args s = Inr (0, s)"
| "uprintf (c # format) args s =
     (if c = CHR ''%'' then
        (case format of
           [] \<Rightarrow> Inr (0, usys_write 1 [of_char (CHR ''%'')] s)
         | d # format \<Rightarrow>
             if d = CHR ''%'' then uprintf format args (usys_write 1 [of_char (CHR ''%'')] s)
             else if d = CHR ''c'' then
               (case args of VInt val # args \<Rightarrow> uprintf format args (usys_write 1 [ucast val] s)
                | _ \<Rightarrow> Inl (Undefined ''va_arg''))
             else if d = CHR ''d'' then
               (case args of VInt val # args \<Rightarrow> kbind (u_print_dec val True s) (uprintf format args)
                | _ \<Rightarrow> Inl (Undefined ''va_arg''))
             else if d = CHR ''u'' then
               (case args of VInt val # args \<Rightarrow> kbind (u_print_dec val False s) (uprintf format args)
                | _ \<Rightarrow> Inl (Undefined ''va_arg''))
             else if d = CHR ''x'' \<or> d = CHR ''p'' then
               (case args of VInt val # args \<Rightarrow> uprintf format args (u_print_hex val s)
                | _ \<Rightarrow> Inl (Undefined ''va_arg''))
             else if d = CHR ''s'' then
               (case args of VStr str # args \<Rightarrow> uprintf format args (fold (\<lambda>ch. usys_write 1 [ch]) str s)
                | _ \<Rightarrow> Inl (Undefined ''va_arg''))
             else Inr (-1, s))
      else uprintf format args (usys_write 1 [of_char c] s))"

section \<open>What is written\<close>

abbreviation says :: "'a user_io_scheme \<Rightarrow> u8 list \<Rightarrow> 'a user_io_scheme" where
  "says s bs \<equiv> s\<lparr>uout := uout s @ bs\<rparr>"

lemma usys_write_says [simp]: "usys_write 1 bs s = says s bs" by (simp add: usys_write_def)

lemma fold_says: "fold (\<lambda>j. usys_write 1 [f j]) js s = says s (map f js)"
  by (induction js arbitrary: s) auto

lemma u_print_hex_says: "u_print_hex val s = says s (hex_text val)"
  unfolding u_print_hex_def fold_says by (simp add: hex_text_def nibble hex_lookup_nth)

lemma u_print_dec_says:
  "u_print_dec val sg s = Inr (says s (if sg then signed_text (sint val) else dec_text (unat val)))"
proof -
  define uval where "uval = (if sg \<and> sint val < 0 then - val else val)"
  define d where "d = dec_text (unat uval)"
  have len: "length d \<le> 10" unfolding d_def by (rule dec_text_length32)
  obtain str where str: "print_dec_loop (replicate 16 0) 0 uval = Inr (str, length d)" "length str = 16" "take (length d) str = rev d"
    using print_dec_loop_spec[of "replicate 16 0" 0 uval] len by (auto simp: d_def)
  have nths: "map ((!) xs) (rev [0..<n]) = rev (take n xs)" if "n \<le> length xs" for n and xs :: "u8 list"
    using that by (simp add: rev_map[symmetric] list_eq_iff_nth_eq rev_nth)
  have out: "(if sg \<and> sint val < 0 then of_char (CHR ''-'') # d else d) = (if sg then signed_text (sint val) else dec_text (unat val))"
    by (auto simp: d_def uval_def signed_text_def nat_sint)
  have "u_print_dec val sg s = Inr (says s (if sg \<and> sint val < 0 then of_char (CHR ''-'') # d else d))"
  proof (cases "sg \<and> sint val < 0")
    case True
    have "take (Suc (length d)) (str[length d := of_char (CHR ''-'')]) = rev d @ [of_char (CHR ''-'')]"
      using str len by (simp add: take_Suc_conv_app_nth)
    then show ?thesis using True str len nths[of "Suc (length d)" "str[length d := of_char (CHR ''-'')]"]
      unfolding u_print_dec_def Let_def uval_def[symmetric] fold_says by simp
  next
    case False
    then show ?thesis using str len nths[of "length d" str]
      unfolding u_print_dec_def Let_def uval_def[symmetric] fold_says by auto
  qed
  then show ?thesis unfolding out .
qed

lemma uprintf_int_directive:
  assumes "d \<in> set ''cduxp''"
  shows "uprintf (CHR ''%'' # d # fmt) (VInt v # args) s = uprintf fmt args (says s (int_text d v))"
  using assms by (auto simp: int_text_def u_print_dec_says u_print_hex_says)

lemma uprintf_directive:
  assumes "format_text (CHR ''%'' # d # fmt) args = Some (r, out)"
    and IH: "\<And>a (t :: 'a user_io_scheme) cs. format_text fmt a = Some (r, cs) \<Longrightarrow> uprintf fmt a t = Inr (r, says t cs)"
  shows "uprintf (CHR ''%'' # d # fmt) args s = Inr (r, says (s :: 'a user_io_scheme) out)"
proof -
  consider (pct) "d = CHR ''%''" | (str) "d = CHR ''s''" | (int) "d \<in> set ''cduxp''" | (other) "d \<notin> set ''%scduxp''" by fastforce
  then show ?thesis
  proof cases
    case pct
    then show ?thesis using assms by auto
  next
    case str
    from assms(1) obtain bs a cs where "args = VStr bs # a" "format_text fmt a = Some (r, cs)" "out = bs @ cs"
      unfolding str by (auto split: list.splits varg.splits)
    then show ?thesis using str IH fold_says[of "\<lambda>c. c" bs s] by simp
  next
    case int
    then have "d \<noteq> CHR ''%''" by auto
    with int assms(1) obtain v a cs where a: "args = VInt v # a" "format_text fmt a = Some (r, cs)" "out = int_text d v @ cs"
      by (simp split: list.splits varg.splits) blast
    show ?thesis unfolding a(1) uprintf_int_directive[OF int] using IH[OF a(2)] a(3) by simp
  next
    case other
    then show ?thesis using assms by auto
  qed
qed

lemma uprintf_says:
  "format_text fmt args = Some (r, out) \<Longrightarrow> uprintf fmt args s = Inr (r, says s out)"
proof (induction "length fmt" arbitrary: fmt args s out rule: less_induct)
  case less
  consider "fmt = []" | c fmt1 where "fmt = c # fmt1" "c \<noteq> CHR ''%''" | "fmt = [CHR ''%'']" | d fmt2 where "fmt = CHR ''%'' # d # fmt2"
    by (metis list.exhaust)
  then show ?case
  proof cases
    case 1
    then show ?thesis using less.prems by simp
  next
    case 2
    then show ?thesis using less.prems less.hyps[of fmt1] by auto
  next
    case 3
    then show ?thesis using less.prems by simp
  next
    case (4 d fmt2)
    then have "length fmt2 < length fmt" by simp
    from uprintf_directive[OF less.prems[unfolded 4] less.hyps[OF this]] show ?thesis unfolding 4 .
  qed
qed

section \<open>Formatted output as an interface\<close>

text \<open>
  What the callers of a formatted print rely on, in the kernel and in user programs: it returns, and
  the bytes of the reference formatter go out.
\<close>

locale formatted_sink = byte_sink put sent ready
  for put :: "u8 \<Rightarrow> 's \<Rightarrow> 's kres" and sent and ready +
  fixes print_format :: "string \<Rightarrow> varg list \<Rightarrow> 's \<Rightarrow> (int \<times> 's) kres"
  assumes print_sent: "ready s \<Longrightarrow> format_text fmt args = Some (r, out) \<Longrightarrow> \<exists>t. print_format fmt args s = Inr (r, t) \<and> sent out s t"
begin

text \<open>A sequence of messages: the texts in order.\<close>

lemma print_all:
  assumes "ready s" "\<forall>(fmt, args) \<in> set ms. format_text fmt args \<noteq> None"
  shows "\<exists>t. kfold (\<lambda>(fmt, args) s. kbind (print_format fmt args s) (\<lambda>(_, s). Inr s)) ms s = Inr t \<and>
    sent (concat (map (\<lambda>(fmt, args). snd (the (format_text fmt args))) ms)) s t"
  using assms
proof (induction ms arbitrary: s)
  case Nil
  then show ?case using sent_nil by simp
next
  case (Cons m ms)
  obtain fmt args where m: "m = (fmt, args)" by (cases m)
  from Cons.prems(2) obtain r out where f: "format_text fmt args = Some (r, out)" by (auto simp: m)
  from print_sent[OF Cons.prems(1) f] obtain t where t: "print_format fmt args s = Inr (r, t)" "sent out s t" by blast
  from Cons.IH[OF sent_ready[OF t(2) Cons.prems(1)]] Cons.prems(2) obtain u where
    u: "kfold (\<lambda>(fmt, args) s. kbind (print_format fmt args s) (\<lambda>(_, s). Inr s)) ms t = Inr u"
      "sent (concat (map (\<lambda>(fmt, args). snd (the (format_text fmt args))) ms)) t u" by auto
  show ?case using t(1) u(1) sent_append[OF t(2) u(2)] by (simp add: m f)
qed

end

interpretation kconsole: formatted_sink UartSendBlocking sends uart_live kprintf
  by unfold_locales (rule kprintf_sends)

interpretation uconsole: formatted_sink "\<lambda>b s. Inr (usys_write 1 [b] s)" "\<lambda>bs s t. t = says s bs" "\<lambda>_. True" uprintf
  by unfold_locales (auto simp: uprintf_says simp del: uprintf.simps)

section \<open>Property\<close>

text \<open>
  C36: User and kernel print alike. For every format with matching arguments, \<open>uprintf\<close> returns the
  same value as \<open>kprintf\<close> and passes to the console exactly the bytes that \<open>kprintf\<close> sends to the UART,
  and these are the bytes of the reference formatter.
\<close>

theorem uprintf_equals_kprintf:
  assumes "uart_live k" "format_text fmt args = Some (r, out)"
  shows "uprintf fmt args s = Inr (r, s\<lparr>uout := uout s @ out\<rparr>) \<and>
    (\<exists>k'. kprintf fmt args k = Inr (r, k') \<and> uart_writes k' = uart_writes k @ map (Pair UART_THR) out)"
  using uconsole.print_sent[OF _ assms(2), of s] kconsole.print_sent[OF assms] by (auto simp: frame_simps simp del: uprintf.simps)

theorem uprintf_equals_kprintf_witness:
  "uprintf ''%d:%x'' [VInt (-1), VInt 255] \<lparr>uout = []\<rparr> = Inr (0, \<lparr>uout = map of_char ''-1:0x000000FF''\<rparr>)"
proof -
  have f: "format_text ''%d:%x'' [VInt (-1), VInt 255] = Some (0, map of_char ''-1:0x000000FF'')"
    by (simp add: int_text_def signed_text_def dec_text.simps hex_text_def nibble_text_def upt_rec)
  show ?thesis using uprintf_equals_kprintf[OF idle_uart_live f, of "\<lparr>uout = []\<rparr>"] by simp
qed

end
