(* ===== verification/Shell.thy ===== *)
theory Shell
  imports Uprintf
begin

text \<open>
  The shell, \<^verbatim>\<open>src/user/shell.c\<close>: reading a line from descriptor 0 and splitting it into the argument
  vector it passes to \<open>exec\<close>. What \<open>usys_read\<close> delivers is a parameter of the state: the outcome of the
  \<open>n\<close>-th call, \<open>None\<close> when it returns 0. A pointer into \<open>commands\<close> is the index of the row.
\<close>

section \<open>State\<close>

definition MAX_CMD_ARGS :: nat where "MAX_CMD_ARGS = 10"
definition MAX_CMD_LEN :: nat where "MAX_CMD_LEN = 101"
definition BUF_SIZE :: nat where "BUF_SIZE = 101"

record shell = user_io +
  uin :: "nat \<Rightarrow> u8 option"
  uin_pos :: nat
  shell_buf :: "u8 list"
  cmd_argc :: nat
  cmd_argv :: "nat option list"
  cmd_commands :: "u8 list list"

section \<open>Operations\<close>

text \<open>Accesses to the arrays, by the sizes they are declared with: an index out of range is undefined.\<close>

definition set_buf :: "nat \<Rightarrow> u8 \<Rightarrow> 'a shell_scheme \<Rightarrow> 'a shell_scheme kres" where
  "set_buf i c s = (if i < BUF_SIZE then Inr (s\<lparr>shell_buf := (shell_buf s)[i := c]\<rparr>) else Inl (Undefined ''buf index''))"

definition get_buf :: "nat \<Rightarrow> 'a shell_scheme \<Rightarrow> u8 kres" where
  "get_buf i s = (if i < BUF_SIZE then Inr (shell_buf s ! i) else Inl (Undefined ''buf index''))"

definition set_argv :: "nat \<Rightarrow> nat option \<Rightarrow> 'a shell_scheme \<Rightarrow> 'a shell_scheme kres" where
  "set_argv i p s = (if i < MAX_CMD_ARGS + 1 then Inr (s\<lparr>cmd_argv := (cmd_argv s)[i := p]\<rparr>) else Inl (Undefined ''argv index''))"

definition set_command :: "nat \<Rightarrow> nat \<Rightarrow> u8 \<Rightarrow> 'a shell_scheme \<Rightarrow> 'a shell_scheme kres" where
  "set_command argc argv_pos c s =
     (if argc < MAX_CMD_ARGS \<and> argv_pos < MAX_CMD_LEN
      then Inr (s\<lparr>cmd_commands := (cmd_commands s)[argc := (cmd_commands s ! argc)[argv_pos := c]]\<rparr>)
      else Inl (Undefined ''commands index''))"

text \<open>The loop of \<open>main\<close> that reads a line, one byte per call.\<close>

definition shell_read_body :: "bool \<times> nat \<times> 'a shell_scheme \<Rightarrow> (bool \<times> nat \<times> 'a shell_scheme) kres" where
  "shell_read_body = (\<lambda>(brk, i, s).
     let r = uin s (uin_pos s); s = s\<lparr>uin_pos := Suc (uin_pos s)\<rparr> in
     case r of
       None \<Rightarrow> Inr (False, i, s)
     | Some c \<Rightarrow>
         kbind (set_buf i c s) (\<lambda>s.
           if c = 10 then kbind (set_buf i 0 s) (\<lambda>s. Inr (True, i, s)) else Inr (False, i + 1, s)))"

definition shell_read_line :: "'a shell_scheme \<Rightarrow> 'a shell_scheme kres" where
  "shell_read_line s =
     kbind (kwhile (\<lambda>(brk, i, s). \<not> brk \<and> i < BUF_SIZE) shell_read_body (False, 0, s)) (\<lambda>(_, _, s). Inr s)"

text \<open>The loop of \<open>parse_buf\<close> over the rest of the indices of the buffer; the flag is the return with an error.\<close>

primrec parse_loop :: "nat list \<Rightarrow> nat \<Rightarrow> nat \<Rightarrow> 'a shell_scheme \<Rightarrow> (bool \<times> 'a shell_scheme) kres" where
  "parse_loop [] argc argv_pos s = Inr (False, s)"
| "parse_loop (i # is) argc argv_pos s =
     kbind (get_buf i s) (\<lambda>c.
      if c = 32 then
        (if argv_pos = 0 then parse_loop is argc argv_pos s
         else kbind (set_command argc argv_pos 0 s) (\<lambda>s.
           parse_loop is (argc + 1) 0 (s\<lparr>cmd_argc := cmd_argc s + 1\<rparr>)))
      else if argc \<ge> MAX_CMD_ARGS then
        kbind (uprintf (''Shell Command Parse Error: Too many arguments.'' @ [CHR 0x0A]) [] s) (\<lambda>(_, s). Inr (True, s))
      else kbind (set_command argc argv_pos c s) (\<lambda>s.
        if c = 0 then Inr (False, if argv_pos + 1 = 1 then s else s\<lparr>cmd_argc := cmd_argc s + 1\<rparr>)
        else parse_loop is argc (argv_pos + 1) s))"

definition parse_buf :: "'a shell_scheme \<Rightarrow> (nat \<times> 'a shell_scheme) kres" where
  "parse_buf s =
     (let s = s\<lparr>cmd_argc := 0\<rparr> in
      kbind (get_buf 0 s) (\<lambda>c.
      if c = 0 then Inr (0, s)
      else kbind (parse_loop [0..<BUF_SIZE] 0 0 s) (\<lambda>(err, s).
        if err then Inr (0, s)
        else
          kbind (kfold (\<lambda>i s. set_argv i (Some i) s) [0..<cmd_argc s] s) (\<lambda>s.
          kbind (set_argv (cmd_argc s) None s) (\<lambda>s. Inr (cmd_argc s, s))))))"

section \<open>The loops on lists\<close>

text \<open>The same loop over the characters themselves, and the vector after the loop that fills it.\<close>

primrec parse_chars :: "u8 list \<Rightarrow> nat \<Rightarrow> nat \<Rightarrow> 'a shell_scheme \<Rightarrow> (bool \<times> 'a shell_scheme) kres" where
  "parse_chars [] argc argv_pos s = Inr (False, s)"
| "parse_chars (c # cs) argc argv_pos s =
     (if c = 32 then
        (if argv_pos = 0 then parse_chars cs argc argv_pos s
         else kbind (set_command argc argv_pos 0 s) (\<lambda>s.
           parse_chars cs (argc + 1) 0 (s\<lparr>cmd_argc := cmd_argc s + 1\<rparr>)))
      else if argc \<ge> MAX_CMD_ARGS then
        kbind (uprintf (''Shell Command Parse Error: Too many arguments.'' @ [CHR 0x0A]) [] s) (\<lambda>(_, s). Inr (True, s))
      else kbind (set_command argc argv_pos c s) (\<lambda>s.
        if c = 0 then Inr (False, if argv_pos + 1 = 1 then s else s\<lparr>cmd_argc := cmd_argc s + 1\<rparr>)
        else parse_chars cs argc (argv_pos + 1) s))"

lemma parse_loop_chars:
  "\<forall>i \<in> set is. i < BUF_SIZE \<Longrightarrow> parse_loop is argc pos s = parse_chars (map (\<lambda>i. shell_buf s ! i) is) argc pos s"
proof (induction "is" arbitrary: argc pos s)
  case (Cons i "is")
  then show ?case by (auto simp: get_buf_def set_command_def intro!: kbind_cong)
qed simp

lemma parse_loop_buf: "length (shell_buf s) = BUF_SIZE \<Longrightarrow> parse_loop [0..<BUF_SIZE] argc pos s = parse_chars (shell_buf s) argc pos s"
  using parse_loop_chars[of "[0..<BUF_SIZE]" argc pos s] map_nth[of "shell_buf s"] by simp

lemma set_argv_all:
  "n \<le> MAX_CMD_ARGS \<Longrightarrow> kfold (\<lambda>i s. set_argv i (Some i) s) [0..<n] s = Inr (s\<lparr>cmd_argv := fold (\<lambda>i argv. argv[i := Some i]) [0..<n] (cmd_argv s)\<rparr>)"
  by (induction n) (simp_all add: set_argv_def kfold_append)

lemma parse_buf_run:
  assumes "length (shell_buf s) = BUF_SIZE" "shell_buf s ! 0 \<noteq> 0" "parse_chars (shell_buf s) 0 0 (s\<lparr>cmd_argc := 0\<rparr>) = Inr (e, t)"
    "cmd_argc t \<le> MAX_CMD_ARGS"
  shows "parse_buf s = Inr (if e then (0, t) else
    (cmd_argc t, t\<lparr>cmd_argv := (fold (\<lambda>i argv. argv[i := Some i]) [0..<cmd_argc t] (cmd_argv t))[cmd_argc t := None]\<rparr>))"
proof -
  have "0 < BUF_SIZE" by (simp add: BUF_SIZE_def)
  then show ?thesis using assms parse_loop_buf[of "s\<lparr>cmd_argc := 0\<rparr>"]
    by (simp add: parse_buf_def get_buf_def set_argv_all) (simp add: set_argv_def)
qed

lemma parse_buf_empty: "shell_buf s ! 0 = 0 \<Longrightarrow> parse_buf s = Inr (0, s\<lparr>cmd_argc := 0\<rparr>)"
  by (simp add: parse_buf_def get_buf_def BUF_SIZE_def)

section \<open>No access out of bounds\<close>

text \<open>The arrays have the sizes of the source.\<close>

definition shell_ok :: "'a shell_scheme \<Rightarrow> bool" where
  "shell_ok s \<longleftrightarrow> length (shell_buf s) = BUF_SIZE \<and> length (cmd_argv s) = MAX_CMD_ARGS + 1 \<and>
     length (cmd_commands s) = MAX_CMD_ARGS \<and> (\<forall>i < MAX_CMD_ARGS. length (cmd_commands s ! i) = MAX_CMD_LEN)"

lemma set_command_ok:
  assumes "shell_ok s" "argc < MAX_CMD_ARGS" "pos < MAX_CMD_LEN"
  defines "t c \<equiv> s\<lparr>cmd_commands := (cmd_commands s)[argc := (cmd_commands s ! argc)[pos := c]]\<rparr>"
  shows "set_command argc pos c s = Inr (t c)" "shell_ok (t c)" "cmd_argc (t c) = cmd_argc s"
  using assms(1-3) by (auto simp: set_command_def shell_ok_def t_def nth_list_update)

lemma parse_chars_safe:
  assumes "shell_ok s" "argc \<le> MAX_CMD_ARGS" "cmd_argc s = argc" "pos + length cs \<le> MAX_CMD_LEN" "argc = MAX_CMD_ARGS \<longrightarrow> pos = 0"
  shows "\<exists>e t. parse_chars cs argc pos s = Inr (e, t) \<and> shell_ok t \<and> cmd_argc t \<le> MAX_CMD_ARGS"
  using assms
proof (induction cs arbitrary: argc pos s)
  case (Cons c cs)
  show ?case
  proof (cases "argc < MAX_CMD_ARGS")
    case False
    then have "argc = MAX_CMD_ARGS" "pos = 0" using Cons.prems by auto
    moreover have "\<exists>out. format_text (''Shell Command Parse Error: Too many arguments.'' @ [CHR 0x0A]) [] = Some (0, out)" by simp
    then obtain t where "uprintf (''Shell Command Parse Error: Too many arguments.'' @ [CHR 0x0A]) [] s = Inr (0, t)" "shell_ok t" "cmd_argc t = cmd_argc s"
      using uprintf_says Cons.prems(1) by (fastforce simp: shell_ok_def simp del: uprintf.simps append.simps)
    ultimately show ?thesis using Cons.IH[of s argc 0] Cons.prems by auto
  next
    case True
    have p: "pos < MAX_CMD_LEN" using Cons.prems(4) by simp
    note t = set_command_ok[OF Cons.prems(1) True p]
    have up: "shell_ok (u\<lparr>cmd_argc := n\<rparr>) = shell_ok u" for u :: "'a shell_scheme" and n by (simp add: shell_ok_def)
    consider "c = 32" "pos = 0" | "c = 32" "pos \<noteq> 0" | "c = 0" | "c \<noteq> 32" "c \<noteq> 0" by blast
    then show ?thesis
    proof cases
      case 1
      then show ?thesis using Cons.IH[of s argc 0] Cons.prems by auto
    next
      case 2
      define u where "u = s\<lparr>cmd_commands := (cmd_commands s)[argc := (cmd_commands s ! argc)[pos := 0]], cmd_argc := cmd_argc s + 1\<rparr>"
      have "shell_ok u" "cmd_argc u = argc + 1" using t(2)[of 0] Cons.prems(3) by (simp_all add: u_def shell_ok_def)
      from Cons.IH[OF this(1) _ this(2), of 0] True Cons.prems(4) show ?thesis using 2 t(1)[of 0] by (simp add: u_def)
    next
      case 3
      then show ?thesis using t[of 0] True Cons.prems(3) by (auto simp: up)
    next
      case 4
      from Cons.IH[OF t(2)[of c] _ _ , of argc "pos + 1"] show ?thesis using 4 t(1)[of c] True Cons.prems(3,4) by auto
    qed
  qed
qed auto

section \<open>Splitting into words\<close>

text \<open>The words of a line, given the word that is being read.\<close>

fun line_words :: "u8 list \<Rightarrow> u8 list \<Rightarrow> u8 list list" where
  "line_words [] w = (if w = [] then [] else [w])"
| "line_words (c # cs) w = (if c = 32 then (if w = [] then line_words cs [] else w # line_words cs []) else line_words cs (w @ [c]))"

text \<open>Row \<open>i\<close> of \<open>commands\<close> holds a string.\<close>

definition row_string :: "'a shell_scheme \<Rightarrow> nat \<Rightarrow> u8 list \<Rightarrow> bool" where
  "row_string s i w \<longleftrightarrow> length w < MAX_CMD_LEN \<and> take (length w) (cmd_commands s ! i) = w \<and> cmd_commands s ! i ! length w = 0"

lemma parse_chars_words:
  assumes "shell_ok s" "cmd_argc s = argc" "0 \<notin> set line" "length w + length line < MAX_CMD_LEN"
    "argc + length (line_words line w) < MAX_CMD_ARGS" "take (length w) (cmd_commands s ! argc) = w"
  shows "\<exists>t. parse_chars (line @ 0 # rest) argc (length w) s = Inr (False, t) \<and> shell_ok t \<and>
    cmd_argc t = argc + length (line_words line w) \<and> (\<forall>j < argc. cmd_commands t ! j = cmd_commands s ! j) \<and>
    (\<forall>j < length (line_words line w). row_string t (argc + j) (line_words line w ! j))"
  using assms
proof (induction line arbitrary: argc w s)
  case Nil
  then have a: "argc < MAX_CMD_ARGS" "length w < MAX_CMD_LEN" by (auto split: if_splits)
  note t = set_command_ok[OF Nil.prems(1) a, of 0]
  then show ?case using Nil.prems a by (auto simp: shell_ok_def row_string_def)
next
  case (Cons c line)
  have a: "argc < MAX_CMD_ARGS" "length w < MAX_CMD_LEN" using Cons.prems(4,5) by auto
  note t = set_command_ok[OF Cons.prems(1) a]
  have len: "length (cmd_commands s) = MAX_CMD_ARGS" "length (cmd_commands s ! argc) = MAX_CMD_LEN" using Cons.prems(1) a by (auto simp: shell_ok_def)
  have nz: "c \<noteq> 0" using Cons.prems(3) by auto
  consider "c = 32" "w = []" | "c = 32" "w \<noteq> []" | "c \<noteq> 32" by blast
  then show ?case
  proof cases
    case 1
    then show ?thesis using Cons.IH[of s argc "[]"] Cons.prems by auto
  next
    case 2
    define u where "u = s\<lparr>cmd_commands := (cmd_commands s)[argc := (cmd_commands s ! argc)[length w := 0]], cmd_argc := cmd_argc s + 1\<rparr>"
    have u: "shell_ok u" "cmd_argc u = argc + 1" using t(2)[of 0] Cons.prems(2) by (simp_all add: u_def shell_ok_def)
    obtain v where v: "parse_chars (line @ 0 # rest) (argc + 1) 0 u = Inr (False, v)" "shell_ok v"
      "cmd_argc v = argc + 1 + length (line_words line [])" "\<forall>j < argc + 1. cmd_commands v ! j = cmd_commands u ! j"
      "\<forall>j < length (line_words line []). row_string v (argc + 1 + j) (line_words line [] ! j)"
      using Cons.IH[OF u, of "[]"] Cons.prems(3-5) 2 by auto
    have "row_string v argc w"
      using v(4) a len Cons.prems(6) by (simp add: row_string_def u_def)
    moreover have "cmd_commands v ! j = cmd_commands s ! j" if "j < argc" for j using v(4) that by (simp add: u_def)
    ultimately show ?thesis using 2 t(1)[of 0] v by (auto simp: u_def nth_Cons split: nat.splits)
  next
    case 3
    define u where "u = s\<lparr>cmd_commands := (cmd_commands s)[argc := (cmd_commands s ! argc)[length w := c]]\<rparr>"
    have u: "shell_ok u" "cmd_argc u = argc" using t(2)[of c] Cons.prems(2) by (simp_all add: u_def)
    have "take (length (w @ [c])) (cmd_commands u ! argc) = w @ [c]"
      using Cons.prems(6) a len by (simp add: u_def take_Suc_conv_app_nth)
    then obtain v where v: "parse_chars (line @ 0 # rest) argc (length (w @ [c])) u = Inr (False, v)" "shell_ok v"
      "cmd_argc v = argc + length (line_words line (w @ [c]))" "\<forall>j < argc. cmd_commands v ! j = cmd_commands u ! j"
      "\<forall>j < length (line_words line (w @ [c])). row_string v (argc + j) (line_words line (w @ [c]) ! j)"
      using Cons.IH[OF u, of "w @ [c]"] Cons.prems(3-5) 3 by auto
    then show ?thesis using 3 nz t(1)[of c] a by (auto simp: u_def)
  qed
qed

lemma argv_fold: "n \<le> length argv \<Longrightarrow> fold (\<lambda>i argv. argv[i := Some i]) [0..<n] argv = map Some [0..<n] @ drop n argv"
proof (induction n)
  case (Suc n)
  then show ?case by (simp add: list_update_append Cons_nth_drop_Suc[symmetric])
qed simp

lemma parse_buf_safe:
  assumes "shell_ok s"
  shows "\<exists>n t. parse_buf s = Inr (n, t) \<and> n \<le> MAX_CMD_ARGS \<and> shell_ok t"
proof -
  define s0 where "s0 = s\<lparr>cmd_argc := 0\<rparr>"
  have "shell_ok s0" "cmd_argc s0 = 0" using assms by (simp_all add: s0_def shell_ok_def)
  moreover have "length (shell_buf s) \<le> MAX_CMD_LEN" using assms by (simp add: shell_ok_def BUF_SIZE_def MAX_CMD_LEN_def)
  ultimately obtain e t where t: "parse_chars (shell_buf s) 0 0 s0 = Inr (e, t)" "shell_ok t" "cmd_argc t \<le> MAX_CMD_ARGS"
    using parse_chars_safe[of s0 0 0 "shell_buf s"] by auto
  have f: "length (fold (\<lambda>i argv. argv[i := Some i]) [0..<n] argv) = length argv" for n and argv :: "nat option list"
    by (induction n) auto
  show ?thesis
  proof (cases "shell_buf s ! 0 = 0")
    case True
    then show ?thesis using \<open>shell_ok s0\<close> by (simp add: parse_buf_empty s0_def)
  next
    case False
    then show ?thesis using t assms f parse_buf_run[of s e t] by (simp add: s0_def shell_ok_def)
  qed
qed

lemma parse_buf_words:
  assumes "shell_ok s" "shell_buf s = line @ 0 # rest" "0 \<notin> set line" "length (line_words line []) < MAX_CMD_ARGS"
  shows "\<exists>t. parse_buf s = Inr (length (line_words line []), t) \<and> (line \<noteq> [] \<longrightarrow>
    (\<forall>i < length (line_words line []). cmd_argv t ! i = Some i \<and> row_string t i (line_words line [] ! i)) \<and>
    cmd_argv t ! length (line_words line []) = None)"
proof (cases line)
  case Nil
  then show ?thesis using assms by (simp add: parse_buf_empty)
next
  case (Cons c cs)
  define s0 where "s0 = s\<lparr>cmd_argc := 0\<rparr>"
  have s0: "shell_ok s0" "cmd_argc s0 = 0" using assms(1) by (simp_all add: s0_def shell_ok_def)
  have "length line < MAX_CMD_LEN" using assms(1,2) by (simp add: shell_ok_def BUF_SIZE_def MAX_CMD_LEN_def)
  with parse_chars_words[OF s0 assms(3), of "[]" rest] assms(2,4) obtain t where
    t: "parse_chars (shell_buf s) 0 0 s0 = Inr (False, t)" "shell_ok t" "cmd_argc t = length (line_words line [])"
      "\<forall>j < length (line_words line []). row_string t j (line_words line [] ! j)" by auto
  have "c \<noteq> 0" using Cons assms(3) by auto
  then have "shell_buf s ! 0 \<noteq> 0" using Cons assms(2) by simp
  then have "parse_buf s = Inr (cmd_argc t, t\<lparr>cmd_argv := (map Some [0..<cmd_argc t] @ drop (cmd_argc t) (cmd_argv t))[cmd_argc t := None]\<rparr>)"
    using t(1-3) assms(1,4) argv_fold[of "cmd_argc t" "cmd_argv t"] parse_buf_run[of s False t]
    by (simp add: s0_def shell_ok_def)
  then show ?thesis using t assms(4) by (auto simp: row_string_def nth_append shell_ok_def)
qed

section \<open>Reading a line\<close>

text \<open>The calls of \<open>usys_read\<close> from the \<open>n\<close>-th on deliver these bytes, with calls that return nothing in between.\<close>

primrec delivers :: "(nat \<Rightarrow> u8 option) \<Rightarrow> nat \<Rightarrow> u8 list \<Rightarrow> bool" where
  "delivers f n [] \<longleftrightarrow> True"
| "delivers f n (c # cs) \<longleftrightarrow> (\<exists>k. (\<forall>j < k. f (n + j) = None) \<and> f (n + k) = Some c \<and> delivers f (Suc (n + k)) cs)"

lemma read_idle:
  assumes "\<forall>j < k. uin s (uin_pos s + j) = None" "i < BUF_SIZE"
  defines "b \<equiv> \<lambda>(brk :: bool, i, s :: 'a shell_scheme). \<not> brk \<and> i < BUF_SIZE"
  shows "kwhile b shell_read_body (False, i, s) = kwhile b shell_read_body (False, i, s\<lparr>uin_pos := uin_pos s + k\<rparr>)"
  using assms(1)
proof (induction k)
  case (Suc k)
  let ?t = "s\<lparr>uin_pos := uin_pos s + k\<rparr>"
  have "b (False, i, ?t)" using assms(2) by (simp add: b_def)
  moreover have "shell_read_body (False, i, ?t) = Inr (False, i, s\<lparr>uin_pos := uin_pos s + Suc k\<rparr>)"
    using Suc.prems by (simp add: shell_read_body_def)
  ultimately have "kwhile b shell_read_body (False, i, ?t) = kwhile b shell_read_body (False, i, s\<lparr>uin_pos := uin_pos s + Suc k\<rparr>)"
    by (simp add: kwhile_step)
  then show ?case using Suc by simp
qed simp

lemma read_loop:
  assumes "delivers (uin s) (uin_pos s) (line @ [10])" "10 \<notin> set line" "i + length line < BUF_SIZE" "length (shell_buf s) = BUF_SIZE"
  shows "\<exists>p k. kwhile (\<lambda>(brk, i, s). \<not> brk \<and> i < BUF_SIZE) shell_read_body (False, i, s) =
    Inr (True, k, s\<lparr>uin_pos := p, shell_buf := take i (shell_buf s) @ line @ 0 # drop (i + length line + 1) (shell_buf s)\<rparr>)"
  using assms
proof (induction line arbitrary: i s)
  case Nil
  then obtain k where k: "\<forall>j < k. uin s (uin_pos s + j) = None" "uin s (uin_pos s + k) = Some 10" by auto
  have "i < BUF_SIZE" using Nil.prems(3) by simp
  then show ?case using read_idle[OF k(1)] k(2) Nil.prems(4)
    by (simp add: kwhile_step shell_read_body_def set_buf_def upd_conv_take_nth_drop) blast
next
  case (Cons c line)
  then obtain k where k: "\<forall>j < k. uin s (uin_pos s + j) = None" "uin s (uin_pos s + k) = Some c"
    "delivers (uin s) (Suc (uin_pos s + k)) (line @ [10])" by auto
  have i: "i < BUF_SIZE" "c \<noteq> 10" using Cons.prems(2,3) by auto
  define t where "t = s\<lparr>uin_pos := Suc (uin_pos s + k), shell_buf := (shell_buf s)[i := c]\<rparr>"
  have step: "kwhile (\<lambda>(brk, i, s). \<not> brk \<and> i < BUF_SIZE) shell_read_body (False, i, s) =
      kwhile (\<lambda>(brk, i, s). \<not> brk \<and> i < BUF_SIZE) shell_read_body (False, Suc i, t)"
    using read_idle[OF k(1) i(1)] k(2) i by (simp add: kwhile_step shell_read_body_def set_buf_def t_def)
  have "take (Suc i) (shell_buf t) = take i (shell_buf s) @ [c]" "drop (Suc i + length line + 1) (shell_buf t) = drop (i + length (c # line) + 1) (shell_buf s)"
    using i(1) Cons.prems(4) by (simp_all add: t_def take_Suc_conv_app_nth)
  moreover have "delivers (uin t) (uin_pos t) (line @ [10])" "Suc i + length line < BUF_SIZE" "length (shell_buf t) = BUF_SIZE"
    using k(3) Cons.prems(3,4) by (simp_all add: t_def)
  ultimately show ?case using Cons.IH[of t "Suc i"] Cons.prems(2) unfolding step by (simp add: t_def)
qed

section \<open>From the keyboard to the argument vector\<close>

text \<open>
  Parsing never leaves the bounds of its arrays, whatever
  the buffer holds, terminated or not, and yields at most ten arguments. When a line of at most 100
  characters is typed, however often \<open>usys_read\<close> returns with nothing in between, the line is read and,
  with fewer than ten words, the vector has exactly its words, terminated strings, and a null pointer
  behind the last.
\<close>

lemma shell_line_to_argv:
  assumes "shell_ok s"
  shows "(\<exists>n t. parse_buf s = Inr (n, t) \<and> n \<le> MAX_CMD_ARGS \<and> shell_ok t) \<and>
    (\<forall>line. delivers (uin s) (uin_pos s) (line @ [10]) \<and> line \<noteq> [] \<and> 0 \<notin> set line \<and> 10 \<notin> set line \<and> length line < BUF_SIZE \<and>
       length (line_words line []) < MAX_CMD_ARGS \<longrightarrow>
     (\<exists>s1 t. shell_read_line s = Inr s1 \<and> parse_buf s1 = Inr (length (line_words line []), t) \<and>
       (\<forall>i < length (line_words line []). cmd_argv t ! i = Some i \<and> row_string t i (line_words line [] ! i)) \<and>
       cmd_argv t ! length (line_words line []) = None))"
proof (intro conjI allI impI, goal_cases)
  case 1
  show ?case using assms by (rule parse_buf_safe)
next
  case (2 line)
  have len: "length (shell_buf s) = BUF_SIZE" using assms by (simp add: shell_ok_def)
  from read_loop[of s line 0] 2 len obtain p k where
    "kwhile (\<lambda>(brk, i, s). \<not> brk \<and> i < BUF_SIZE) shell_read_body (False, 0, s) =
      Inr (True, k, s\<lparr>uin_pos := p, shell_buf := line @ 0 # drop (length line + 1) (shell_buf s)\<rparr>)" by auto
  then have r: "shell_read_line s = Inr (s\<lparr>uin_pos := p, shell_buf := line @ 0 # drop (length line + 1) (shell_buf s)\<rparr>)"
    by (simp add: shell_read_line_def)
  have "shell_ok (s\<lparr>uin_pos := p, shell_buf := line @ 0 # drop (length line + 1) (shell_buf s)\<rparr>)"
    using assms 2 by (simp add: shell_ok_def)
  from parse_buf_words[OF this, of line "drop (length line + 1) (shell_buf s)"] 2 show ?case using r by auto
qed

end
