(* ===== verification/Shell_Main.thy ===== *)
theory Shell_Main
  imports Shell
begin

text \<open>
  The main loop of the shell, \<^verbatim>\<open>src/user/shell.c\<close>: prompt, read a line, split it, and run the command in a child process. The system
  calls are kept in the order they are made. What \<open>usys_fork\<close> returns and whether \<open>usys_exec\<close> replaces the program depend on the
  kernel and are parameters of the state; both sides of a fork are runs of the same code with different results of \<open>usys_fork\<close>.
\<close>

section \<open>State\<close>

datatype shell_call = Call_fork | Call_exec "u8 list" "u8 list list" | Call_sleep

record shell_sys = shell +
  fork_result :: "nat \<Rightarrow> u32"
  fork_pos :: nat
  exec_found :: "u8 list \<Rightarrow> bool"
  calls :: "shell_call list"

definition current_directory :: "u8 list" where
  "current_directory = [of_char (CHR ''/'')]"

definition prompt :: string where
  "prompt = ''risky321:%s>''"

section \<open>Operations\<close>

definition usys_fork :: "'a shell_sys_scheme \<Rightarrow> u32 \<times> 'a shell_sys_scheme" where
  "usys_fork s = (fork_result s (fork_pos s), s\<lparr>fork_pos := Suc (fork_pos s), calls := calls s @ [Call_fork]\<rparr>)"

text \<open>The string in row \<open>i\<close> of \<open>commands\<close>, and the vector that the kernel reads: the pointers before the null pointer.\<close>

definition row_text :: "'a shell_scheme \<Rightarrow> nat \<Rightarrow> u8 list" where
  "row_text s i = takeWhile (\<lambda>c. c \<noteq> 0) (cmd_commands s ! i)"

definition argv_texts :: "'a shell_scheme \<Rightarrow> u8 list list" where
  "argv_texts s = map (\<lambda>p. row_text s (the p)) (takeWhile (\<lambda>p. p \<noteq> None) (cmd_argv s))"

text \<open>\<open>usys_exec\<close> returns only when the kernel does not find the file; the flag says that the program is replaced.\<close>

definition usys_exec :: "nat option \<Rightarrow> 'a shell_sys_scheme \<Rightarrow> (bool \<times> 'a shell_sys_scheme) kres" where
  "usys_exec path s =
     (case path of None \<Rightarrow> Inl (Undefined ''null path'')
      | Some i \<Rightarrow> Inr (exec_found s (row_text s i), s\<lparr>calls := calls s @ [Call_exec (row_text s i) (argv_texts s)]\<rparr>))"

definition usys_sleep :: "'a shell_sys_scheme \<Rightarrow> 'a shell_sys_scheme" where
  "usys_sleep s = s\<lparr>calls := calls s @ [Call_sleep]\<rparr>"

text \<open>One round of the endless loop; the flag says that \<open>exec\<close> has replaced the program.\<close>

definition shell_round :: "'a shell_sys_scheme \<Rightarrow> (bool \<times> 'a shell_sys_scheme) kres" where
  "shell_round s =
     kbind (uprintf prompt [VStr current_directory] s) (\<lambda>(_, s).
     kbind (shell_read_line s) (\<lambda>s.
     kbind (parse_buf s) (\<lambda>(n, s).
       if n > 0 then
         (case usys_fork s of (pid, s) \<Rightarrow>
            if pid = 0 then usys_exec (cmd_argv s ! 0) s else Inr (False, usys_sleep s))
       else Inr (False, s))))"

definition shell_main :: "'a shell_sys_scheme \<Rightarrow> 'a shell_sys_scheme kres" where
  "shell_main s =
     kbind (set_buf (BUF_SIZE - 1) 0 s) (\<lambda>s.
     kbind (set_argv MAX_CMD_ARGS None s) (\<lambda>s.
      kbind (uprintf (''Hello from Risky Shell!'' @ [CHR 0x0A]) [] s) (\<lambda>(_, s).
      kbind (kwhile (\<lambda>(replaced, s). \<not> replaced) (\<lambda>(_, s). shell_round s) (False, s)) (\<lambda>(_, s). Inr s))))"

section \<open>Frames\<close>

lemma prompt_says: "uprintf prompt [VStr current_directory] s = Inr (0, says s (map of_char ''risky321:/>''))"
  unfolding prompt_def current_directory_def by (rule uprintf_says) simp

lemma read_body_frame:
  "shell_read_body (brk, i, s) = Inr (brk', i', t) \<Longrightarrow> shell.more t = shell.more s \<and> uout t = uout s \<and> shell_ok t = shell_ok s"
  by (auto simp: shell_read_body_def set_buf_def shell_ok_def Let_def kres_simps split: option.splits if_splits)

lemma read_line_stops: "shell_read_line s = Inl e \<Longrightarrow> e = Hang"
  unfolding shell_read_line_def kres_simps
  by (auto dest!: kwhile_stops[where P = "\<lambda>_. True"] simp: shell_read_body_def set_buf_def Let_def kres_simps split: option.splits if_splits)

lemma read_line_frame:
  assumes "shell_read_line s = Inr t"
  shows "shell.more t = shell.more s \<and> uout t = uout s \<and> shell_ok t = shell_ok s"
proof -
  let ?P = "\<lambda>(brk, i, t :: 'a shell_scheme). shell.more t = shell.more s \<and> uout t = uout s \<and> shell_ok t = shell_ok s"
  obtain r where r: "kwhile (\<lambda>(brk, i, s). \<not> brk \<and> i < BUF_SIZE) shell_read_body (False, 0, s) = Inr r" "t = snd (snd r)"
    using assms by (auto simp: shell_read_line_def kres_simps)
  have "?P r" by (rule kwhile_keeps[OF r(1)]) (auto dest!: read_body_frame)
  then show ?thesis using r(2) by auto
qed

lemma parse_loop_frame:
  "parse_loop is argc pos s = Inr (e, t) \<Longrightarrow> shell.more t = shell.more s \<and> (\<not> e \<longrightarrow> uout t = uout s)"
proof (induction "is" arbitrary: argc pos s)
  case (Cons i "is")
  have "\<exists>bs. uprintf (''Shell Command Parse Error: Too many arguments.'' @ [CHR 0x0A]) [] s = Inr (0, says s bs)"
    by (intro exI uprintf_says) simp
  then show ?case using Cons
    by (auto simp: get_buf_def set_command_def kres_simps simp del: uprintf.simps append.simps split: if_splits)
qed simp

lemma parse_buf_frame:
  assumes "parse_buf s = Inr (n, t)" "n > 0"
  shows "shell.more t = shell.more s" "uout t = uout s"
proof -
  have argv: "shell.more v = shell.more u \<and> uout v = uout u" if "kfold (\<lambda>i s. set_argv i (Some i) s) is u = Inr v" for "is" and u v :: "'a shell_scheme"
    using that by (rule kfold_preserves) (auto simp: set_argv_def split: if_splits)
  show "shell.more t = shell.more s" "uout t = uout s"
    using assms by (auto simp: parse_buf_def Let_def kres_simps set_argv_def dest!: parse_loop_frame argv split: if_splits)
qed


lemma says_frame:
  "shell_ok (says s bs) = shell_ok s" "shell.more (says s bs) = shell.more s" "uin (says s bs) = uin s" "uin_pos (says s bs) = uin_pos s"
  for s :: "'a shell_scheme"
  by (simp_all add: shell_ok_def)

section \<open>The loop\<close>

lemma parse_buf_first:
  assumes "parse_buf s = Inr (n, t)" "shell_ok s" "n > 0"
  shows "cmd_argv t ! 0 = Some 0"
proof -
  define s0 where "s0 = s\<lparr>cmd_argc := 0\<rparr>"
  have "shell_ok s0" "cmd_argc s0 = 0" "length (shell_buf s) \<le> MAX_CMD_LEN"
    using assms(2) by (simp_all add: s0_def shell_ok_def BUF_SIZE_def MAX_CMD_LEN_def)
  then obtain e u where u: "parse_chars (shell_buf s) 0 0 s0 = Inr (e, u)" "shell_ok u" "cmd_argc u \<le> MAX_CMD_ARGS"
    using parse_chars_safe[of s0 0 0 "shell_buf s"] by auto
  moreover have "shell_buf s ! 0 \<noteq> 0" using assms(1,3) parse_buf_empty[of s] by auto
  ultimately have "n = cmd_argc u" "cmd_argv t = (map Some [0..<n] @ drop n (cmd_argv u))[n := None]"
    using assms argv_fold[of "cmd_argc u" "cmd_argv u"] parse_buf_run[of s e u]
    by (auto simp: s0_def shell_ok_def split: if_splits)
  then show ?thesis using assms(3) u(2,3) by (simp add: shell_ok_def nth_append)
qed

lemma shell_round_safe:
  assumes "shell_ok s"
  shows "shell_round s = Inl e \<Longrightarrow> e = Hang" "shell_round s = Inr (b, t) \<Longrightarrow> shell_ok t"
proof -
  let ?s = "says s (map of_char ''risky321:/>'')"
  have "(shell_round s = Inl e \<longrightarrow> e = Hang) \<and> (shell_round s = Inr (b, t) \<longrightarrow> shell_ok t)"
  proof (cases "shell_read_line ?s")
    case (Inl x)
    then show ?thesis using read_line_stops[OF Inl] by (simp add: shell_round_def prompt_says)
  next
    case (Inr u)
    then have "shell_ok u" using read_line_frame[OF Inr] assms by (simp add: says_frame)
    from parse_buf_safe[OF this] obtain n v where v: "parse_buf u = Inr (n, v)" "shell_ok v" by blast
    have "n > 0 \<longrightarrow> cmd_argv v ! 0 = Some 0" using parse_buf_first[OF v(1) \<open>shell_ok u\<close>] by blast
    then show ?thesis using Inr v
      by (auto simp: shell_round_def prompt_says usys_fork_def usys_exec_def usys_sleep_def shell_ok_def)
  qed
  then show "shell_round s = Inl e \<Longrightarrow> e = Hang" "shell_round s = Inr (b, t) \<Longrightarrow> shell_ok t" by blast+
qed

lemma shell_main_safe:
  assumes "shell_ok s" "shell_main s = Inl e"
  shows "e = Hang"
proof -
  define s1 where "s1 = s\<lparr>shell_buf := (shell_buf s)[BUF_SIZE - 1 := 0], cmd_argv := (cmd_argv s)[MAX_CMD_ARGS := None]\<rparr>"
  have "\<exists>bs. uprintf (''Hello from Risky Shell!'' @ [CHR 0x0A]) [] s1 = Inr (0, says s1 bs)"
    by (intro exI uprintf_says) simp
  then obtain bs where hello: "uprintf (''Hello from Risky Shell!'' @ [CHR 0x0A]) [] s1 = Inr (0, says s1 bs)" ..
  have ok: "shell_ok (says s1 bs)" using assms(1) by (simp add: s1_def shell_ok_def)
  have "kwhile (\<lambda>(replaced, s). \<not> replaced) (\<lambda>(_, s). shell_round s) (False, says s1 bs) = Inl e"
    using assms(2) hello by (simp add: shell_main_def set_buf_def set_argv_def s1_def BUF_SIZE_def kres_simps del: uprintf.simps append.simps)
  from kwhile_stops[OF this, of "\<lambda>(b, t). shell_ok t"] ok show ?thesis
    by (auto dest: shell_round_safe)
qed

lemma row_text_string:
  assumes "row_string s i w" "0 \<notin> set w" "length (cmd_commands s ! i) = MAX_CMD_LEN"
  shows "row_text s i = w"
proof -
  have "cmd_commands s ! i = w @ 0 # drop (Suc (length w)) (cmd_commands s ! i)"
    using assms by (metis row_string_def id_take_nth_drop)
  moreover have "takeWhile (\<lambda>c. c \<noteq> 0) (w @ 0 # xs) = w" for xs using assms(2) by (subst takeWhile_append2) auto
  ultimately show ?thesis unfolding row_text_def by metis
qed

lemma line_words_nonzero: "0 \<notin> set line \<Longrightarrow> 0 \<notin> set w \<Longrightarrow> v \<in> set (line_words line w) \<Longrightarrow> 0 \<notin> set v"
  by (induction line w rule: line_words.induct) (auto split: if_splits)

lemma argv_texts_words:
  assumes "\<forall>i < length ws. cmd_argv t ! i = Some i \<and> row_text t i = ws ! i" "cmd_argv t ! length ws = None" "length ws < length (cmd_argv t)"
  shows "argv_texts t = ws"
proof -
  have "take (length ws) (cmd_argv t) = map Some [0..<length ws]"
    by (rule nth_equalityI) (use assms in auto)
  then have "cmd_argv t = map Some [0..<length ws] @ None # drop (Suc (length ws)) (cmd_argv t)"
    using id_take_nth_drop[OF assms(3)] assms(2) by simp
  moreover have "takeWhile (\<lambda>p. p \<noteq> None) (map Some [0..<length ws] @ None # xs) = map Some [0..<length ws]" for xs
    by (subst takeWhile_append2) auto
  ultimately have "takeWhile (\<lambda>p. p \<noteq> None) (cmd_argv t) = map Some [0..<length ws]" by metis
  then show ?thesis using assms(1) by (auto simp: argv_texts_def intro: nth_equalityI)
qed

lemma typed_line:
  assumes "shell_ok s" "delivers (uin s) (uin_pos s) (line @ [10])" "0 \<notin> set line" "10 \<notin> set line" "length line < BUF_SIZE"
    "length (line_words line []) < MAX_CMD_ARGS" "line_words line [] \<noteq> []"
  shows "\<exists>s1 t. shell_read_line s = Inr s1 \<and> parse_buf s1 = Inr (length (line_words line []), t) \<and>
    cmd_argv t ! 0 = Some 0 \<and> row_text t 0 = hd (line_words line []) \<and> argv_texts t = line_words line [] \<and>
    shell.more t = shell.more s \<and> uout t = uout s"
proof -
  let ?ws = "line_words line []"
  have ne: "line \<noteq> []" using assms(7) by auto
  obtain s1 t where st: "shell_read_line s = Inr s1" "parse_buf s1 = Inr (length ?ws, t)"
    "\<forall>i < length ?ws. cmd_argv t ! i = Some i \<and> row_string t i (?ws ! i)" "cmd_argv t ! length ?ws = None"
    using shell_line_to_argv[OF assms(1)] assms(2-6) ne by blast
  note f1 = read_line_frame[OF st(1)] and f2 = parse_buf_frame[OF st(2)]
  have ok: "shell_ok t" using parse_buf_safe[of s1] st(2) f1 assms(1) by auto
  have rt: "row_text t i = ?ws ! i" if "i < length ?ws" for i
    by (rule row_text_string) (use st(3) that ok assms(3,6) line_words_nonzero[of line "[]" "?ws ! i"] in \<open>auto simp: shell_ok_def\<close>)
  have "argv_texts t = ?ws" by (rule argv_texts_words) (use st(3,4) rt ok assms(6) in \<open>auto simp: shell_ok_def\<close>)
  then show ?thesis using st rt[of 0] f1 f2 assms(7) by (auto simp: hd_conv_nth)
qed

section \<open>Property\<close>

lemma shell_round_runs:
  assumes "shell_ok s" "delivers (uin s) (uin_pos s) (line @ [10])" "0 \<notin> set line" "10 \<notin> set line" "length line < BUF_SIZE"
    "length (line_words line []) < MAX_CMD_ARGS" "line_words line [] \<noteq> []"
  defines "child \<equiv> fork_result s (fork_pos s) = 0"
  shows "\<exists>t. shell_round s = Inr (child \<and> exec_found s (hd (line_words line [])), t) \<and>
    calls t = calls s @ Call_fork # (if child then [Call_exec (hd (line_words line [])) (line_words line [])] else [Call_sleep]) \<and>
    fork_pos t = Suc (fork_pos s) \<and> uout t = uout s @ map of_char ''risky321:/>''"
proof -
  let ?s = "says s (map of_char ''risky321:/>'')"
  have "shell_ok ?s" "delivers (uin ?s) (uin_pos ?s) (line @ [10])" using assms(1,2) by (simp_all add: says_frame)
  from typed_line[OF this assms(3-7)] obtain s1 t where
    st: "shell_read_line ?s = Inr s1" "parse_buf s1 = Inr (length (line_words line []), t)" "cmd_argv t ! 0 = Some 0"
      "row_text t 0 = hd (line_words line [])" "argv_texts t = line_words line []" "shell.more t = shell.more ?s" "uout t = uout ?s" by blast
  obtain f p x c where m: "f = fork_result s" "p = fork_pos s" "x = exec_found s" "c = calls s" by blast
  have fr: "fork_result t = f" "fork_pos t = p" "exec_found t = x" "calls t = c"
    using st(6) m by (cases t; cases s; simp)+
  have u: "row_text (t\<lparr>fork_pos := q, calls := d\<rparr>) = row_text t" "argv_texts (t\<lparr>fork_pos := q, calls := d\<rparr>) = argv_texts t" for q d
    by (simp_all add: row_text_def argv_texts_def fun_eq_iff)
  have "shell_round s = (if f p = 0 then usys_exec (Some 0) (t\<lparr>fork_pos := Suc p, calls := c @ [Call_fork]\<rparr>)
      else Inr (False, usys_sleep (t\<lparr>fork_pos := Suc p, calls := c @ [Call_fork]\<rparr>)))"
    using st(1-3) assms(7) fr by (simp add: shell_round_def prompt_says usys_fork_def)
  then show ?thesis using fr m st(4,5,7) by (auto simp: usys_exec_def usys_sleep_def child_def u)
qed

text \<open>
  C24: The shell runs the command that was typed. From arrays of the declared sizes \<open>main\<close> never leaves them and never
  passes a null path to \<open>exec\<close>, whatever is typed and whatever the system calls return: when it does not come to an
  \<open>exec\<close> that replaces it, it waits for input for ever. A round on a typed line of at most 100 characters and
  of one to nine words prints the prompt and forks; the child executes the first word with exactly the words of the
  line as its vector and the parent sleeps, and only a child whose file was found leaves the loop.
\<close>

theorem shell_runs_command:
  assumes "shell_ok s"
  shows "(\<forall>e. shell_main s = Inl e \<longrightarrow> e = Hang) \<and>
    (\<forall>line. delivers (uin s) (uin_pos s) (line @ [10]) \<and> 0 \<notin> set line \<and> 10 \<notin> set line \<and> length line < BUF_SIZE \<and>
       length (line_words line []) < MAX_CMD_ARGS \<and> line_words line [] \<noteq> [] \<longrightarrow>
     (let child = (fork_result s (fork_pos s) = 0); ws = line_words line [] in
      \<exists>t. shell_round s = Inr (child \<and> exec_found s (hd ws), t) \<and>
        calls t = calls s @ Call_fork # (if child then [Call_exec (hd ws) ws] else [Call_sleep]) \<and>
        fork_pos t = Suc (fork_pos s) \<and> uout t = uout s @ map of_char ''risky321:/>''))"
  unfolding Let_def using shell_main_safe[OF assms] shell_round_runs[OF assms] by blast

theorem shell_runs_command_witness:
  "\<exists>t. shell_round \<lparr>uout = [], uin = (\<lambda>n. if n = 0 then None else Some ([101, 32, 102, 10] ! (n - 1))), uin_pos = 0,
      shell_buf = replicate 101 0, cmd_argc = 0, cmd_argv = replicate 11 None, cmd_commands = replicate 10 (replicate 101 0),
      fork_result = (\<lambda>_. 0), fork_pos = 0, exec_found = (\<lambda>_. True), calls = []\<rparr> = Inr (True, t) \<and>
    calls t = [Call_fork, Call_exec [101] [[101], [102]]]"
proof -
  let ?s = "\<lparr>uout = [], uin = (\<lambda>n. if n = 0 then None else Some ([101, 32, 102, 10] ! (n - 1))), uin_pos = 0,
      shell_buf = replicate 101 0, cmd_argc = 0, cmd_argv = replicate 11 None, cmd_commands = replicate 10 (replicate 101 0),
      fork_result = (\<lambda>_. 0), fork_pos = 0, exec_found = (\<lambda>_. True), calls = []\<rparr>"
  have ok: "shell_ok ?s" by (simp add: shell_ok_def BUF_SIZE_def MAX_CMD_ARGS_def MAX_CMD_LEN_def)
  have d: "delivers (uin ?s) 0 ([101, 32, 102] @ [10])"
    by (simp, rule exI[of _ 1], simp, rule exI[of _ 0], simp, rule exI[of _ 0], simp, rule exI[of _ 0], simp)
  have w: "line_words [101, 32, 102] [] = [[101], [102]]" by simp
  have "\<exists>t. shell_round ?s = Inr (True, t) \<and> calls t = [Call_fork, Call_exec [101] [[101], [102]]]"
    using shell_runs_command[OF ok, THEN conjunct2, rule_format, of "[101, 32, 102]"] d w
    by (auto simp: BUF_SIZE_def MAX_CMD_ARGS_def)
  then show ?thesis .
qed

end
