(* ===== verification/Umalloc.thy ===== *)
theory Umalloc
  imports Uprintf
begin

text \<open>
  The user heap, \<^verbatim>\<open>src/user/umalloc.c\<close>: a list of chunks, each with a header in front of its data. The
  state has the headers by their address; data bytes belong to the program and are not modelled. What
  \<open>usys_sbrk\<close> returns is a parameter: the address of the \<open>n\<close>-th page it hands out.
\<close>

section \<open>Definitions\<close>

record malloc_header =
  mh_prev :: addr
  mh_next :: addr
  mh_size :: u32
  mh_free :: u32

record uheap = user_io +
  hdr :: "addr \<Rightarrow> malloc_header"
  head_next :: addr
  head_prev :: addr
  sbrk_page :: "nat \<Rightarrow> addr"
  sbrk_pos :: nat

definition HDR :: u32 where "HDR = 16"

definition upd_hdr :: "addr \<Rightarrow> (malloc_header \<Rightarrow> malloc_header) \<Rightarrow> 'a uheap_scheme \<Rightarrow> 'a uheap_scheme" where
  "upd_hdr p f s = s\<lparr>hdr := (hdr s)(p := f (hdr s p))\<rparr>"

definition usys_sbrk :: "'a uheap_scheme \<Rightarrow> addr \<times> 'a uheap_scheme" where
  "usys_sbrk s = (sbrk_page s (sbrk_pos s), s\<lparr>sbrk_pos := Suc (sbrk_pos s)\<rparr>)"

definition dump_malloc_list :: "'a uheap_scheme \<Rightarrow> 'a uheap_scheme kres" where
  "dump_malloc_list s =
     kbind (uprintf (''CURRENT MALLOC LIST:'' @ [CHR 0x0A]) [] s) (\<lambda>(_, s).
     kbind (kwhile (\<lambda>(curr_ptr, s). curr_ptr \<noteq> 0)
       (\<lambda>(curr_ptr, s). kbind (uprintf (''SIZE: %d, FREE=%d'' @ [CHR 0x0A])
            [VInt (mh_size (hdr s curr_ptr)), VInt (mh_free (hdr s curr_ptr))] s) (\<lambda>(_, s).
          Inr (mh_next (hdr s curr_ptr), s))) (head_next s, s)) (\<lambda>(_, s).
     kbind (uprintf (''CURRENT MALLOC LIST END.'' @ [CHR 0x0A]) [] s) (\<lambda>(_, s). Inr s)))"

text \<open>Marking a chunk free and merging it with a free neighbour behind it, then with one before it.\<close>

definition merge_next :: "addr \<Rightarrow> 'a uheap_scheme \<Rightarrow> 'a uheap_scheme" where
  "merge_next p s =
     (if mh_next (hdr s p) \<noteq> 0 \<and> mh_free (hdr s (mh_next (hdr s p))) \<noteq> 0 then
        (let s = upd_hdr p (\<lambda>h. h\<lparr>mh_size := mh_size h + (HDR + mh_size (hdr s (mh_next h)))\<rparr>) s;
             s = upd_hdr p (\<lambda>h. h\<lparr>mh_next := mh_next (hdr s (mh_next h))\<rparr>) s;
             s = (if mh_next (hdr s p) \<noteq> 0 then upd_hdr (mh_next (hdr s p)) (\<lambda>h. h\<lparr>mh_prev := p\<rparr>) s else s)
         in if mh_next (hdr s p) = 0 then s\<lparr>head_prev := p\<rparr> else s)
      else s)"

definition merge_prev :: "addr \<Rightarrow> 'a uheap_scheme \<Rightarrow> 'a uheap_scheme" where
  "merge_prev p s =
     (if mh_prev (hdr s p) \<noteq> 0 \<and> mh_free (hdr s (mh_prev (hdr s p))) \<noteq> 0 then
        (let q = mh_prev (hdr s p);
             s = upd_hdr q (\<lambda>h. h\<lparr>mh_size := mh_size h + (HDR + mh_size (hdr s p))\<rparr>) s;
             s = upd_hdr q (\<lambda>h. h\<lparr>mh_next := mh_next (hdr s p)\<rparr>) s;
             s = (if mh_next (hdr s p) \<noteq> 0 then upd_hdr (mh_next (hdr s p)) (\<lambda>h. h\<lparr>mh_prev := q\<rparr>) s else s)
         in if mh_next (hdr s q) = 0 then s\<lparr>head_prev := q\<rparr> else s)
      else s)"

definition ufree :: "addr \<Rightarrow> 'a uheap_scheme \<Rightarrow> 'a uheap_scheme kres" where
  "ufree chunk s =
     (let p = chunk - HDR in
      kbind (uprintf (''Freeing %p'' @ [CHR 0x0A]) [VInt p] s) (\<lambda>(_, s).
        dump_malloc_list (merge_prev p (merge_next p (upd_hdr p (\<lambda>h. h\<lparr>mh_free := 1\<rparr>) s)))))"

definition umorecore :: "'a uheap_scheme \<Rightarrow> (addr \<times> 'a uheap_scheme) kres" where
  "umorecore s =
     (case usys_sbrk s of (new_page, s) \<Rightarrow>
      let s = upd_hdr new_page (\<lambda>h. h\<lparr>mh_free := 1, mh_size := 4096 - HDR, mh_next := 0\<rparr>) s;
          s = (if head_next s \<noteq> 0 then
                 (let s = upd_hdr (head_prev s) (\<lambda>h. h\<lparr>mh_next := new_page\<rparr>) s;
                      s = upd_hdr new_page (\<lambda>h. h\<lparr>mh_prev := head_prev s\<rparr>) s
                  in s\<lparr>head_prev := new_page\<rparr>)
               else upd_hdr new_page (\<lambda>h. h\<lparr>mh_prev := 0\<rparr>) (s\<lparr>head_next := new_page, head_prev := new_page\<rparr>))
      in kbind (ufree (new_page + HDR) s) (\<lambda>s. Inr (new_page, s)))"

text \<open>One chunk of the search; \<open>Some\<close> is the block to return.\<close>

definition search_chunk ::
  "u32 \<Rightarrow> u32 \<Rightarrow> addr option \<times> addr \<times> 'a uheap_scheme \<Rightarrow> (addr option \<times> addr \<times> 'a uheap_scheme) kres" where
  "search_chunk aligned_bytes required_bytes = (\<lambda>(res, curr_ptr, s).
     if mh_free (hdr s curr_ptr) \<noteq> 0 \<and> mh_size (hdr s curr_ptr) = aligned_bytes then
       Inr (Some (curr_ptr + HDR), curr_ptr, upd_hdr curr_ptr (\<lambda>h. h\<lparr>mh_free := 0\<rparr>) s)
     else if mh_free (hdr s curr_ptr) \<noteq> 0 \<and> mh_size (hdr s curr_ptr) \<ge> required_bytes then
       (let s = upd_hdr curr_ptr (\<lambda>h. h\<lparr>mh_free := 0\<rparr>) s;
            new_hdr = curr_ptr + HDR + aligned_bytes;
            s = upd_hdr new_hdr (\<lambda>h. h\<lparr>mh_free := 1, mh_size := mh_size (hdr s curr_ptr) - aligned_bytes - HDR,
                  mh_prev := curr_ptr\<rparr>) s;
            s = upd_hdr new_hdr (\<lambda>h. h\<lparr>mh_next := mh_next (hdr s curr_ptr)\<rparr>) s;
            s = upd_hdr curr_ptr (\<lambda>h. h\<lparr>mh_size := aligned_bytes, mh_next := new_hdr\<rparr>) s
        in Inr (Some (curr_ptr + HDR), curr_ptr, s))
     else Inr (None, mh_next (hdr s curr_ptr), s))"

definition search_list :: "u32 \<Rightarrow> u32 \<Rightarrow> 'a uheap_scheme \<Rightarrow> (addr option \<times> 'a uheap_scheme) kres" where
  "search_list aligned_bytes required_bytes s =
     kbind (kwhile (\<lambda>(res, curr_ptr, s). res = None \<and> curr_ptr \<noteq> 0) (search_chunk aligned_bytes required_bytes)
       (None, head_next s, s)) (\<lambda>(res, _, s). Inr (res, s))"

definition umalloc_aligned :: "u32 \<Rightarrow> u32" where
  "umalloc_aligned bytes = ((bytes - 1) div 4 + 1) * 4"

definition umalloc :: "u32 \<Rightarrow> 'a uheap_scheme \<Rightarrow> (addr \<times> 'a uheap_scheme) kres" where
  "umalloc bytes s =
     (if bytes = 0 then Inr (0, s)
      else
        (let aligned_bytes = umalloc_aligned bytes;
             required_bytes = aligned_bytes + HDR + 4 in
         kbind (kwhile (\<lambda>(res, s). res = None)
           (\<lambda>(res, s).
              kbind (dump_malloc_list s) (\<lambda>s.
              kbind (search_list aligned_bytes required_bytes s) (\<lambda>(res, s).
                case res of
                  Some r \<Rightarrow> Inr (Some r, s)
                | None \<Rightarrow> kbind (umorecore s) (\<lambda>(new_chunk, s). Inr (if new_chunk = 0 then Some 0 else None, s)))))
           (None, s)) (\<lambda>(res, s). Inr (the res, s))))"

section \<open>The printed list\<close>

text \<open>The chunks that the list from \<open>p\<close> reaches.\<close>

primrec chunks :: "(addr \<Rightarrow> malloc_header) \<Rightarrow> addr \<Rightarrow> addr list \<Rightarrow> bool" where
  "chunks h p [] \<longleftrightarrow> p = 0"
| "chunks h p (q # qs) \<longleftrightarrow> p = q \<and> p \<noteq> 0 \<and> chunks h (mh_next (h p)) qs"

lemma dump_ok:
  assumes "chunks (hdr s) (head_next s) ps"
  shows "\<exists>out. dump_malloc_list s = Inr (s\<lparr>uout := out\<rparr>)"
proof -
  define b where "b = (\<lambda>(curr_ptr :: addr, s :: 'a uheap_scheme). curr_ptr \<noteq> 0)"
  define c where "c = (\<lambda>(curr_ptr, s :: 'a uheap_scheme). kbind (uprintf (''SIZE: %d, FREE=%d'' @ [CHR 0x0A])
            [VInt (mh_size (hdr s curr_ptr)), VInt (mh_free (hdr s curr_ptr))] s) (\<lambda>(_, s).
          Inr (mh_next (hdr s curr_ptr), s)))"
  have loop: "\<exists>out. kwhile b c (p, t) = Inr (0, t\<lparr>uout := out\<rparr>)" if "chunks (hdr t) p ps" for p ps and t :: "'a uheap_scheme"
    using that
  proof (induction ps arbitrary: p t)
    case Nil
    then show ?case by (intro exI[of _ "uout t"]) (simp add: b_def)
  next
    case (Cons q qs)
    obtain r out where "format_text (''SIZE: %d, FREE=%d'' @ [CHR 0x0A]) [VInt (mh_size (hdr t p)), VInt (mh_free (hdr t p))] = Some (r, out)"
      by simp
    then have "c (p, t) = Inr (mh_next (hdr t p), t\<lparr>uout := uout t @ out\<rparr>)" by (simp add: c_def uprintf_says del: uprintf.simps append.simps)
    moreover have "b (p, t)" using Cons.prems by (auto simp: b_def)
    moreover obtain o2 where "kwhile b c (mh_next (hdr t p), t\<lparr>uout := uout t @ out\<rparr>) = Inr (0, t\<lparr>uout := o2\<rparr>)"
      using Cons.IH[of "t\<lparr>uout := uout t @ out\<rparr>" "mh_next (hdr t p)"] Cons.prems by auto
    ultimately show ?case by (auto simp: kwhile_step)
  qed
  obtain o1 where o1: "uprintf (''CURRENT MALLOC LIST:'' @ [CHR 0x0A]) [] s = Inr (0, s\<lparr>uout := o1\<rparr>)"
    using uprintf_says[of "''CURRENT MALLOC LIST:'' @ [CHR 0x0A]" "[]" 0 _ s] by (auto simp del: uprintf.simps)
  obtain o2 where o2: "kwhile b c (head_next s, s\<lparr>uout := o1\<rparr>) = Inr (0, s\<lparr>uout := o2\<rparr>)"
    using loop[of "s\<lparr>uout := o1\<rparr>"] assms by auto
  obtain o3 where o3: "uprintf (''CURRENT MALLOC LIST END.'' @ [CHR 0x0A]) [] (s\<lparr>uout := o2\<rparr>) = Inr (0, s\<lparr>uout := o3\<rparr>)"
    using uprintf_says[of "''CURRENT MALLOC LIST END.'' @ [CHR 0x0A]" "[]" 0 _ "s\<lparr>uout := o2\<rparr>"] by (auto simp del: uprintf.simps)
  have "dump_malloc_list s = Inr (s\<lparr>uout := o3\<rparr>)"
    unfolding dump_malloc_list_def b_def[symmetric] c_def[symmetric] o1 using o2 o3 by (simp del: uprintf.simps append.simps)
  then show ?thesis by blast
qed

section \<open>Calls, up to what they print\<close>

lemma merge_uout [simp]:
  "merge_next p (s\<lparr>uout := out\<rparr>) = (merge_next p s)\<lparr>uout := out\<rparr>" "merge_prev p (s\<lparr>uout := out\<rparr>) = (merge_prev p s)\<lparr>uout := out\<rparr>"
  "upd_hdr p f (s\<lparr>uout := out\<rparr>) = (upd_hdr p f s)\<lparr>uout := out\<rparr>"
  by (simp_all add: merge_next_def merge_prev_def upd_hdr_def Let_def)

lemma ufree_ok:
  assumes "t = merge_prev p (merge_next p (upd_hdr p (\<lambda>h. h\<lparr>mh_free := 1\<rparr>) s))" "chunks (hdr t) (head_next t) ps"
  shows "\<exists>out. ufree (p + HDR) s = Inr (t\<lparr>uout := out\<rparr>)"
proof -
  obtain o1 where "uprintf (''Freeing %p'' @ [CHR 0x0A]) [VInt p] s = Inr (0, s\<lparr>uout := o1\<rparr>)"
    using uprintf_says[of "''Freeing %p'' @ [CHR 0x0A]" "[VInt p]" 0 _ s] by (auto simp del: uprintf.simps)
  then have "ufree (p + HDR) s = dump_malloc_list (t\<lparr>uout := o1\<rparr>)" by (simp add: ufree_def assms(1) del: uprintf.simps append.simps)
  then show ?thesis using dump_ok[of "t\<lparr>uout := o1\<rparr>"] assms(2) by auto
qed

lemma umalloc_hit:
  assumes "bytes \<noteq> 0" "chunks (hdr s) (head_next s) ps"
    "\<And>out. search_list (umalloc_aligned bytes) (umalloc_aligned bytes + HDR + 4) (s\<lparr>uout := out\<rparr>) = Inr (Some p, t\<lparr>uout := out\<rparr>)"
  shows "\<exists>out. umalloc bytes s = Inr (p, t\<lparr>uout := out\<rparr>)"
proof -
  obtain out where "dump_malloc_list s = Inr (s\<lparr>uout := out\<rparr>)" using dump_ok[OF assms(2)] by blast
  then show ?thesis using assms(1,3) by (auto simp: umalloc_def kwhile_step)
qed

lemma umalloc_miss:
  assumes "bytes \<noteq> 0" "chunks (hdr s) (head_next s) ps"
    "\<And>out. search_list (umalloc_aligned bytes) (umalloc_aligned bytes + HDR + 4) (s\<lparr>uout := out\<rparr>) = Inr (None, s\<lparr>uout := out\<rparr>)"
    "\<And>out. \<exists>out'. umorecore (s\<lparr>uout := out\<rparr>) = Inr (np, t\<lparr>uout := out'\<rparr>)" "np \<noteq> 0"
  shows "\<exists>out. umalloc bytes s = umalloc bytes (t\<lparr>uout := out\<rparr>)"
proof -
  obtain o1 where 1: "dump_malloc_list s = Inr (s\<lparr>uout := o1\<rparr>)" using dump_ok[OF assms(2)] by blast
  obtain o2 where 2: "umorecore (s\<lparr>uout := o1\<rparr>) = Inr (np, t\<lparr>uout := o2\<rparr>)" using assms(4) by blast
  have "umalloc bytes s = umalloc bytes (t\<lparr>uout := o2\<rparr>)"
    using assms(1,3,5) 1 2 unfolding umalloc_def by (simp add: Let_def kwhile_step[of _ "(None, s)"])
  then show ?thesis by blast
qed

section \<open>Property\<close>

definition mh :: "addr \<Rightarrow> addr \<Rightarrow> u32 \<Rightarrow> u32 \<Rightarrow> malloc_header" where
  "mh p n sz f = \<lparr>mh_prev = p, mh_next = n, mh_size = sz, mh_free = f\<rparr>"

text \<open>A program that has not allocated yet, and its heap pages.\<close>

definition fresh_heap :: uheap where
  "fresh_heap = \<lparr>uout = [], hdr = \<lambda>_. mh 0 0 0 0, head_next = 0, head_prev = 0,
     sbrk_page = \<lambda>n. 0xC0001000 + 4096 * of_nat n, sbrk_pos = 0\<rparr>"

abbreviation heap_of :: "(addr \<Rightarrow> malloc_header) \<Rightarrow> addr \<Rightarrow> nat \<Rightarrow> u8 list \<Rightarrow> uheap" where
  "heap_of h tail k out \<equiv> \<lparr>uout = out, hdr = h, head_next = 0xC0001000, head_prev = tail,
     sbrk_page = \<lambda>n. 0xC0001000 + 4096 * of_nat n, sbrk_pos = k\<rparr>"

lemmas heap_defs = search_list_def search_chunk_def upd_hdr_def Let_def HDR_def kwhile_step mh_def umalloc_aligned_def

lemma overlap_1: "\<exists>out. umalloc 100 fresh_heap = Inr (0xC0001010,
    heap_of ((\<lambda>_. mh 0 0 0 0)(0xC0001000 := mh 0 0xC0001074 100 0, 0xC0001074 := mh 0xC0001000 0 3964 1)) 0xC0001000 1 out)"
proof -
  let ?t = "heap_of ((\<lambda>_. mh 0 0 0 0)(0xC0001000 := mh 0 0 4080 1)) 0xC0001000 1"
  have "\<exists>o2. umorecore (fresh_heap\<lparr>uout := out\<rparr>) = Inr (0xC0001000, (?t [])\<lparr>uout := o2\<rparr>)" for out
    using ufree_ok[where p = "0xC0001000" and s = "?t out" and t = "?t out" and ps = "[0xC0001000]"]
    by (auto simp: umorecore_def usys_sbrk_def fresh_heap_def upd_hdr_def mh_def HDR_def merge_next_def merge_prev_def fun_upd_idem)
  from umalloc_miss[where bytes = 100 and ps = "[]", OF _ _ _ this] obtain o1 where 1: "umalloc 100 fresh_heap = umalloc 100 (?t o1)"
    by (auto simp: fresh_heap_def heap_defs)
  show ?thesis unfolding 1
    using umalloc_hit[where bytes = 100 and s = "?t o1" and ps = "[0xC0001000]" and p = "0xC0001010" and
        t = "heap_of ((\<lambda>_. mh 0 0 0 0)(0xC0001000 := mh 0 0xC0001074 100 0, 0xC0001074 := mh 0xC0001000 0 3964 1)) 0xC0001000 1 []"]
    by (auto simp: heap_defs fun_upd_twist)
qed

lemma overlap_2: "\<exists>out'. umalloc 3964
      (heap_of ((\<lambda>_. mh 0 0 0 0)(0xC0001000 := mh 0 0xC0001074 100 0, 0xC0001074 := mh 0xC0001000 0 3964 1)) 0xC0001000 1 out) = Inr (0xC0001084,
    heap_of ((\<lambda>_. mh 0 0 0 0)(0xC0001000 := mh 0 0xC0001074 100 0, 0xC0001074 := mh 0xC0001000 0 3964 0)) 0xC0001000 1 out')"
  using umalloc_hit[where bytes = 3964 and p = "0xC0001084" and ps = "[0xC0001000, 0xC0001074]" and
      s = "heap_of ((\<lambda>_. mh 0 0 0 0)(0xC0001000 := mh 0 0xC0001074 100 0, 0xC0001074 := mh 0xC0001000 0 3964 1)) 0xC0001000 1 out" and
      t = "heap_of ((\<lambda>_. mh 0 0 0 0)(0xC0001000 := mh 0 0xC0001074 100 0, 0xC0001074 := mh 0xC0001000 0 3964 0)) 0xC0001000 1 []"]
  by (auto simp: heap_defs)

lemma overlap_3: "\<exists>out'. ufree 0xC0001010
      (heap_of ((\<lambda>_. mh 0 0 0 0)(0xC0001000 := mh 0 0xC0001074 100 0, 0xC0001074 := mh 0xC0001000 0 3964 0)) 0xC0001000 1 out) = Inr (
    heap_of ((\<lambda>_. mh 0 0 0 0)(0xC0001000 := mh 0 0xC0001074 100 1, 0xC0001074 := mh 0xC0001000 0 3964 0)) 0xC0001000 1 out')"
  using ufree_ok[where p = "0xC0001000" and ps = "[0xC0001000, 0xC0001074]" and
      s = "heap_of ((\<lambda>_. mh 0 0 0 0)(0xC0001000 := mh 0 0xC0001074 100 0, 0xC0001074 := mh 0xC0001000 0 3964 0)) 0xC0001000 1 out" and
      t = "heap_of ((\<lambda>_. mh 0 0 0 0)(0xC0001000 := mh 0 0xC0001074 100 1, 0xC0001074 := mh 0xC0001000 0 3964 0)) 0xC0001000 1 out"]
  by (auto simp: upd_hdr_def mh_def HDR_def merge_next_def merge_prev_def fun_upd_twist)

lemma overlap_4: "\<exists>t. umalloc 200
      (heap_of ((\<lambda>_. mh 0 0 0 0)(0xC0001000 := mh 0 0xC0001074 100 1, 0xC0001074 := mh 0xC0001000 0 3964 0)) 0xC0001000 1 out) = Inr (0xC0001010, t)"
proof -
  let ?s = "heap_of ((\<lambda>_. mh 0 0 0 0)(0xC0001000 := mh 0 0xC0001074 100 1, 0xC0001074 := mh 0xC0001000 0 3964 0)) 0xC0001000 1 out"
  let ?h = "((\<lambda>_. mh 0 0 0 0)(0xC0001000 := mh 0 0xC0002000 100 1, 0xC0001074 := mh 0xC0001000 0 3964 0, 0xC0002000 := mh 0xC0001000 0 4080 1))"
  let ?t = "heap_of (?h(0xC0001000 := mh 0 0 4196 1)) 0xC0001000 2"
  have core: "umorecore (?s\<lparr>uout := o1\<rparr>) = kbind (ufree (0xC0002000 + HDR) (heap_of ?h 0xC0002000 2 o1)) (\<lambda>s. Inr (0xC0002000, s))" for o1
    by (simp add: umorecore_def usys_sbrk_def upd_hdr_def mh_def HDR_def Let_def numeral_2_eq_2[symmetric] fun_upd_twist)
  have merged: "?t o1 = merge_prev 0xC0002000 (merge_next 0xC0002000 (upd_hdr 0xC0002000 (\<lambda>h. h\<lparr>mh_free := 1\<rparr>) (heap_of ?h 0xC0002000 2 o1)))" for o1
    by (simp add: upd_hdr_def mh_def HDR_def merge_next_def merge_prev_def fun_upd_twist)
  have "\<exists>o2. umorecore (?s\<lparr>uout := o1\<rparr>) = Inr (0xC0002000, (?t [])\<lparr>uout := o2\<rparr>)" for o1
  proof -
    have "chunks (hdr (?t o1)) (head_next (?t o1)) [0xC0001000]" by (simp add: mh_def)
    from ufree_ok[OF merged this] obtain o2 where "ufree (0xC0002000 + HDR) (heap_of ?h 0xC0002000 2 o1) = Inr ((?t o1)\<lparr>uout := o2\<rparr>)" by blast
    then show ?thesis unfolding core by simp
  qed
  from umalloc_miss[where bytes = 200 and ps = "[0xC0001000, 0xC0001074]", OF _ _ _ this] obtain o1 where
    1: "umalloc 200 ?s = umalloc 200 (?t o1)" by (auto simp: heap_defs)
  show ?thesis unfolding 1
    using umalloc_hit[where bytes = 200 and s = "?t o1" and ps = "[0xC0001000]" and p = "0xC0001010" and
        t = "heap_of (?h(0xC0001000 := mh 0 0xC00010D8 200 0, 0xC00010D8 := mh 0xC0001000 0 3980 1)) 0xC0001000 2 []"]
    by (auto simp: heap_defs fun_upd_twist)
qed

text \<open>
  C37: The allocator hands out memory that is in use. From a fresh heap, with the pages of \<open>usys_sbrk\<close>
  next to each other: allocate 100 bytes, allocate 3964 bytes, free the first block, allocate 200
  bytes. The last block starts below the second one, which is still allocated, and reaches into it:
  splitting a chunk does not update the tail of the list, so the new page is linked behind the wrong
  chunk, and freeing merges chunks that are not neighbours.
\<close>

theorem umalloc_overlap:
  "\<exists>a b c s1 s2 s3 s4. umalloc 100 fresh_heap = Inr (a, s1) \<and> umalloc 3964 s1 = Inr (b, s2) \<and> ufree a s2 = Inr s3 \<and>
     umalloc 200 s3 = Inr (c, s4) \<and> c < b \<and> b < c + 200"
proof -
  obtain s1 o1 where 1: "umalloc 100 fresh_heap = Inr (0xC0001010, s1)" and
    s1: "s1 = heap_of ((\<lambda>_. mh 0 0 0 0)(0xC0001000 := mh 0 0xC0001074 100 0, 0xC0001074 := mh 0xC0001000 0 3964 1)) 0xC0001000 1 o1"
    using overlap_1 by blast
  obtain s2 o2 where 2: "umalloc 3964 s1 = Inr (0xC0001084, s2)" and
    s2: "s2 = heap_of ((\<lambda>_. mh 0 0 0 0)(0xC0001000 := mh 0 0xC0001074 100 0, 0xC0001074 := mh 0xC0001000 0 3964 0)) 0xC0001000 1 o2"
    unfolding s1 using overlap_2 by blast
  obtain s3 o3 where 3: "ufree 0xC0001010 s2 = Inr s3" and
    s3: "s3 = heap_of ((\<lambda>_. mh 0 0 0 0)(0xC0001000 := mh 0 0xC0001074 100 1, 0xC0001074 := mh 0xC0001000 0 3964 0)) 0xC0001000 1 o3"
    unfolding s2 using overlap_3 by blast
  obtain s4 where 4: "umalloc 200 s3 = Inr (0xC0001010, s4)" unfolding s3 using overlap_4 by blast
  have lt: "(0xC0001010 :: u32) < 0xC0001084" "(0xC0001084 :: u32) < 0xC0001010 + 200" by simp_all
  show ?thesis
    by (rule exI[of _ "0xC0001010"], rule exI[of _ "0xC0001084"], rule exI[of _ "0xC0001010"],
        rule exI[of _ s1], rule exI[of _ s2], rule exI[of _ s3], rule exI[of _ s4]) (intro conjI 1 2 3 4 lt)
qed

end
