(* ===== verification/Uprograms.thy ===== *)
theory Uprograms
  imports Uprintf
begin

text \<open>The programs \<^verbatim>\<open>src/user/echo.c\<close> and \<^verbatim>\<open>src/user/cat.c\<close>, given their argument vectors.\<close>

definition my_var :: u32 where "my_var = 0xCAFEBABE"

definition echo_main :: "u8 list list \<Rightarrow> 'a user_io_scheme \<Rightarrow> (int \<times> 'a user_io_scheme) kres" where
  "echo_main argv s =
     kbind (uprintf (''I'' @ [CHR 0x27] @ ''m an echo %x!'' @ [CHR 0x0A]) [VInt my_var] s) (\<lambda>(_, s).
     kbind (uprintf (''argc = %d'' @ [CHR 0x0A]) [VInt (of_nat (length argv))] s) (\<lambda>(_, s).
     kbind (kfold (\<lambda>arg s. kbind (uprintf ''%s '' [VStr arg] s) (\<lambda>(_, s). Inr s)) argv s) (\<lambda>s.
     kbind (uprintf [CHR 0x0A] [] s) (\<lambda>(_, s). Inr (0, s)))))"

definition cat_main :: "u8 list list \<Rightarrow> int" where
  "cat_main argv = (if length argv \<le> 1 then 0 else 0)"

text \<open>\<open>echo\<close> prints its arguments in order, each followed by a space.\<close>

lemma echo_words: "kfold (\<lambda>arg s. kbind (uprintf ''%s '' [VStr arg] s) (\<lambda>(_, s). Inr s)) argv s =
  Inr (says s (concat (map (\<lambda>a. a @ [32]) argv)))"
proof (induction argv arbitrary: s)
  case (Cons a argv)
  have "uprintf ''%s '' [VStr a] s = Inr (0, says s (a @ [32]))" by (rule uprintf_says) simp
  then show ?case using Cons by (simp del: uprintf.simps)
qed simp

lemma echo_main_says:
  assumes "length argv < 2 ^ 31"
  shows "echo_main argv s = Inr (0, says s (map of_char (''I'' @ [CHR 0x27] @ ''m an echo 0xCAFEBABE!'') @ [10] @
    map of_char ''argc = '' @ dec_text (length argv) @ [10] @ concat (map (\<lambda>a. a @ [32]) argv) @ [10]))"
proof -
  have "sint (of_nat (length argv) :: u32) = int (length argv)"
    using assms by (simp add: sint_uint unsigned_of_nat take_bit_nat_eq_self signed_take_bit_int_eq_self)
  then have sg: "signed_text (sint (of_nat (length argv) :: u32)) = dec_text (length argv)" by (simp add: signed_text_def)
  have 1: "uprintf (''I'' @ [CHR 0x27] @ ''m an echo %x!'' @ [CHR 0x0A]) [VInt my_var] s =
      Inr (0, says s (map of_char (''I'' @ [CHR 0x27] @ ''m an echo 0xCAFEBABE!'') @ [10]))" for s :: "'a user_io_scheme"
    by (rule uprintf_says) (simp add: int_text_def hex_text_def nibble_text_def my_var_def upt_rec)
  have 2: "uprintf (''argc = %d'' @ [CHR 0x0A]) [VInt (of_nat (length argv))] s =
      Inr (0, says s (map of_char ''argc = '' @ dec_text (length argv) @ [10]))" for s :: "'a user_io_scheme"
    by (rule uprintf_says) (simp add: int_text_def sg)
  have 3: "uprintf [CHR 0x0A] [] s = Inr (0, says s [10])" for s :: "'a user_io_scheme" by (rule uprintf_says) simp
  show ?thesis unfolding echo_main_def 1 kbind_Inr case_prod_conv 2 echo_words 3 by simp
qed

end
