(* ===== verification/Spec2Isabelle.thy ===== *)
theory Spec2Isabelle
  imports Boot_Run Kheap Kterminal Kspinlock Fd_Inv Ulibc Shell_Main Umalloc Uprograms
begin

text \<open>
  Verification of risky321, a small operating system for 32-bit RISC-V: the kernel under
  \<^verbatim>\<open>src/kernel\<close> and the user programs under \<^verbatim>\<open>src/user\<close>.

  \<^bold>\<open>The program.\<close> The boot hart leaves machine mode (\<^verbatim>\<open>start.c\<close>) and enters \<open>kernel_main\<close> (\<^verbatim>\<open>kernel.c\<close>),
  which brings up the console (\<^verbatim>\<open>uart.c\<close>), the page allocator (\<^verbatim>\<open>kmem.c\<close>), paging (\<^verbatim>\<open>kvmem.c\<close>), traps
  (\<^verbatim>\<open>ktrap.c\<close>), the interrupt controller (\<^verbatim>\<open>plic.c\<close>), the process table (\<^verbatim>\<open>kproc.c\<close>), the disk driver
  (\<^verbatim>\<open>virtio.c\<close>) and the files of the disk image (\<^verbatim>\<open>filesystem.c\<close>), starts the shell and schedules. User
  programs enter the kernel by system calls (\<^verbatim>\<open>uservec.S\<close>, \<^verbatim>\<open>ktrap.c\<close>, \<^verbatim>\<open>ksyscall.c\<close>); characters from the
  UART arrive through interrupts in the line buffer of \<^verbatim>\<open>tty.c\<close>.

  \<^bold>\<open>State.\<close> One record grows along the components: the UART with what it delivers and what was written
  to it (\<open>uart_dev\<close>), memory as bytes by address, control registers and linker symbols (\<open>machine\<close>), the
  terminal (\<open>tty\<close>), the free list (\<open>kmem\<close>), the kernel page table (\<open>kvmem\<close>), the process table (\<open>kproc\<close>),
  the file tables (\<open>filesystem\<close>), the interrupt controller (\<open>plic\<close>), the disk driver (\<open>virtio\<close>) and the boot
  buffer (\<open>fsboot\<close>). An operation is polymorphic in the components above its own, and its frame
  is part of what is proved. Free list, page tables, trap frames, program images and the virtqueue
  are bytes of memory at the offsets of the C structures. A user pointer is translated by the page
  table in \<open>satp\<close>. Machine integers are words of their width, and arithmetic wraps around.

  \<^bold>\<open>Failure.\<close> Operations that may stop yield \<open>kres\<close>: a panic, an access fault, undefined behaviour such as
  an index out of bounds, or \<open>Hang\<close> for a loop that does not end. A loop on a condition is \<open>kwhile\<close>, a partial
  function whose value is \<open>Hang\<close> exactly when it never ends, so no fuel is needed; a theorem that an operation
  returns says so (\<open>= Inr \<dots>\<close>). Polling of a device ends under the named hypothesis that the device answers
  in finite time (\<open>uart_live\<close>, \<open>disk_serves\<close>). The disk is a function of the driver's register accesses so far (\<open>vio_log\<close>): \<open>disk_serves\<close>
  lets it answer a request only after the notification of the queue whose address, length and page size the driver wrote to the registers, and change nothing otherwise.

  \<^bold>\<open>Theories\<close> (in the order of the imports)
  \<^item> \<^verbatim>\<open>Prelude\<close>: results, loops and their rules, words. \<^verbatim>\<open>Machine\<close>: \<^verbatim>\<open>types.h\<close>, \<^verbatim>\<open>csr.h\<close>, memory, address translation.
  \<^item> \<^verbatim>\<open>Klibc\<close>: \<^verbatim>\<open>klibc.c\<close>; the forward \<open>memmove\<close>, the backward one that never returns, \<open>memcmp\<close>, \<open>strcmp\<close>.
  \<^item> \<^verbatim>\<open>Uart\<close>, \<^verbatim>\<open>Kprintf\<close>: \<^verbatim>\<open>uart.c\<close>, \<^verbatim>\<open>kprintf.c\<close>, \<^verbatim>\<open>system.c\<close>; printed bytes are those of a reference formatter.
  \<^item> \<^verbatim>\<open>Tty\<close>: \<^verbatim>\<open>tty.c\<close>; the ring buffer refines a queue of lines, a typed line is read back, and a full buffer
    without a newline is stuck for ever.
  \<^item> \<^verbatim>\<open>Kmem\<close>: \<^verbatim>\<open>kmem.c\<close>; the free list as an allocator of distinct zeroed pages.
  \<^item> \<^verbatim>\<open>Kvmem\<close>, \<^verbatim>\<open>Kvmem_Fork\<close>: \<^verbatim>\<open>kvmem.c\<close>; a mapping is what the hardware then translates, the kernel's map is the
    identity, and copying a page table gives a child its own copy of every user page.
  \<^item> \<^verbatim>\<open>Kproc\<close>, \<^verbatim>\<open>Kproc_Fork\<close>, \<^verbatim>\<open>Kproc_Inv\<close>: \<^verbatim>\<open>kproc.c\<close> and \<open>struct trap_frame\<close>; round-robin scheduling, the scheduler's endless loop
    without starvation whatever happens between two switches, descriptors, \<open>fork\<close>, and the invariant of the process table under every sequence of operations.
  \<^item> \<^verbatim>\<open>Filesystem\<close>, \<^verbatim>\<open>Fs_Init\<close>: \<^verbatim>\<open>filesystem.c\<close>; open, read and close, and loading a tar archive from disk.
  \<^item> \<^verbatim>\<open>Kexec\<close>, \<^verbatim>\<open>Kexec_Load\<close>, \<^verbatim>\<open>Kexec_Args\<close>, \<^verbatim>\<open>Kexec_Image\<close>: \<^verbatim>\<open>elf.c\<close> and the program loading of \<^verbatim>\<open>kproc.c\<close>; segments in memory, the
    argument vector on the new stack, a missing file, and put together the address space, the trap frame and the control block that
    \<open>kproc_create\<close> and \<open>kproc_exec\<close> give a program. \<^verbatim>\<open>Kheap\<close>: \<open>sbrk\<close>, and the first \<open>sbrk\<close> of a new process, which takes a page of its program away.
  \<^item> \<^verbatim>\<open>Plic\<close>, \<^verbatim>\<open>Ksyscall\<close>, \<^verbatim>\<open>Ktrap\<close>: \<^verbatim>\<open>plic.c\<close>, \<^verbatim>\<open>ksyscall.c\<close>, \<^verbatim>\<open>ktrap.c\<close>, \<^verbatim>\<open>uservec.S\<close>; a system call from the \<open>ecall\<close>
    instruction back to user mode, and exceptions of user programs.
  \<^item> \<^verbatim>\<open>Riscv\<close>, \<^verbatim>\<open>Swtch\<close>, \<^verbatim>\<open>Vectors\<close>: the assembly, instruction by instruction over the registers and the memory: \<^verbatim>\<open>swtch.S\<close> and back, the
    word of the interrupted stack that \<^verbatim>\<open>kernelvec.S\<close> overwrites, the stack of \<^verbatim>\<open>entry.S\<close> in free memory, \<^verbatim>\<open>uservec.S\<close> as the trap frame that
    \<^verbatim>\<open>Ktrap\<close> relies on, and the stubs of \<^verbatim>\<open>usyscall.S\<close> called from user mode.
  \<^item> \<^verbatim>\<open>Fd_Inv\<close>: \<open>sys_step\<close>, the system as a step relation: traps of user programs, interrupts, scheduling. In every
    reachable state an open descriptor names an open file. The process table and the file tables are fields of the record and not bytes of memory, so a
    step is only one that leaves the bytes of the kernel's static data alone (\<open>spares_statics\<close>); a system call with a pointer into them is outside the relation.
  \<^item> \<^verbatim>\<open>Virtio\<close>: \<^verbatim>\<open>virtio.c\<close>; reading a sector through the virtqueue. \<^verbatim>\<open>Boot\<close>: \<^verbatim>\<open>start.c\<close>, \<^verbatim>\<open>kernel.c\<close>.
    \<^verbatim>\<open>Boot_Run\<close>: \<open>power_on\<close>, that is \<^verbatim>\<open>entry.S\<close>, \<open>start_setup\<close> and the whole of \<open>kernel_main\<close>, each stage giving the next what it relies on, up to the
    first process in user mode.
  \<^item> \<^verbatim>\<open>Kspinlock\<close>: \<^verbatim>\<open>kspinlock.c\<close>; mutual exclusion of interleaved harts, whose turns are those of the loop of
    \<open>kspinlock_acquire\<close>. \<^verbatim>\<open>Kterminal\<close>: \<^verbatim>\<open>kterminal.c\<close>.
  \<^item> \<^verbatim>\<open>Uprintf\<close>, \<^verbatim>\<open>Shell\<close>, \<^verbatim>\<open>Shell_Main\<close>, \<^verbatim>\<open>Ulibc\<close>, \<^verbatim>\<open>Umalloc\<close>, \<^verbatim>\<open>Uprograms\<close>: the user side; output equal to the kernel's, the shell
    from a typed line to \<open>exec\<close> with every access to its arrays checked, memory functions equal to the kernel's and the end of a program, the heap with a run
    that hands out memory in use, \<^verbatim>\<open>echo.c\<close> and \<^verbatim>\<open>cat.c\<close>.

  \<^bold>\<open>Interfaces.\<close> The contracts between components are locales, interpreted on the operations of the model: \<open>byte_sink\<close> (the
  UART and the user's \<open>usys_write\<close>) with \<open>formatted_sink\<close> on top of it (\<open>kprintf\<close> and \<open>uprintf\<close>), \<open>page_allocator\<close> (\<open>kmem\<close>), \<open>line_discipline\<close>
  (the terminal), \<open>fd_table\<close> (the descriptors of a process), and \<open>loader_property\<close> with its extensions \<open>proc_property\<close> and \<open>proc_property_fs\<close>, from
  which a property of the process table follows for loading a program (the heap of a new process) and for every operation on the table
  (the invariant of the table; the frame of the file tables).

  \<^bold>\<open>Not modelled.\<close> Instruction fetch and the user programs' own memory accesses: a user program is seen at its traps, and the
  user programs of the repository are modelled as C, apart from the stubs. Compiled code between the assembly files is a parameter
  that keeps what the calling convention says. The UART, the interrupt controller and the disk are parameters.
  The kernel's own C stack is not modelled: local variables are those of the definitions. Of the build only the symbols of
  \<^verbatim>\<open>kernel.ld\<close> are modelled. Memory barriers of the spin lock have no effect in the interleaving model.
\<close>

end
